(* ===== verification/Prelude.thy ===== *)
theory Prelude
  imports Complex_Main "HOL-Library.Word" "HOL-Library.Signed_Division"
begin

text \<open>
  Shared vocabulary of the development: the widths of Go's machine integers, the pieces of Go's
  semantics the components use (buffered channels with non-blocking sends, truncating division,
  slices with a capacity) and the generic lemmas about lists, words and powers of two the component
  proofs share. Nothing here models code of the repository.
\<close>

unbundle bit_operations_syntax

section \<open>Machine integers\<close>

type_synonym u8 = "8 word"
type_synonym u16 = "16 word"
type_synonym u32 = "32 word"
type_synonym u64 = "64 word"

text \<open>\<open>time.Duration\<close> and \<open>time.Time\<close> are nanosecond counts; the zero
  \<open>time.Time\<close> is a separate value, so an optional instant is an \<open>option\<close>.\<close>

type_synonym duration = int
type_synonym instant = int

abbreviation Second :: duration where "Second \<equiv> 1000000000"
abbreviation Millisecond :: duration where "Millisecond \<equiv> 1000000"
abbreviation Microsecond :: duration where "Microsecond \<equiv> 1000"

text \<open>Go's \<open>int\<close> is 64 bits wide on the supported platforms; arithmetic on it wraps.\<close>

definition wrap_int :: "int \<Rightarrow> int" where
  "wrap_int n = (n + 2 ^ 63) mod 2 ^ 64 - 2 ^ 63"

lemma wrap_int_id: "- (2 ^ 63) \<le> n \<Longrightarrow> n < 2 ^ 63 \<Longrightarrow> wrap_int n = n"
  by (simp add: wrap_int_def)

text \<open>Go's \<open>/\<close> truncates towards zero; on a non-negative dividend and a positive divisor it is \<open>div\<close>.\<close>

lemma sdiv_pos_eq: "0 \<le> (k :: int) \<Longrightarrow> 0 < l \<Longrightarrow> k sdiv l = k div l"
  by (cases "k = 0") (simp_all add: signed_divide_int_def)

section \<open>Decimal rendering\<close>

fun dec_of_nat :: "nat \<Rightarrow> string" where
  "dec_of_nat n = (if n < 10 then [char_of (48 + n)] else dec_of_nat (n div 10) @ [char_of (48 + n mod 10)])"

declare dec_of_nat.simps [simp del]

section \<open>Buffered channels\<close>

text \<open>
  A Go channel with capacity \<open>cap\<close> is the list of the values sent and not yet received.
  \<open>chan_offer\<close> is \<open>select { case ch <- x: default: }\<close>: it sends if there is room and
  otherwise does nothing, and reports which.
\<close>

definition chan_offer :: "nat \<Rightarrow> 'a \<Rightarrow> 'a list \<Rightarrow> 'a list \<times> bool" where
  "chan_offer cap x q = (if length q < cap then (q @ [x], True) else (q, False))"

lemma chan_offer_length: "length q \<le> cap \<Longrightarrow> length (fst (chan_offer cap x q)) \<le> cap"
  by (simp add: chan_offer_def)

lemma chan_offer_latch:
  "length q \<le> 1 \<Longrightarrow> fst (chan_offer 1 () q) = [()]"
  by (cases q) (auto simp: chan_offer_def)

section \<open>Byte slices\<close>

text \<open>A Go byte slice that starts at offset 0: its backing array and its length. \<open>make([]byte, 0, n)\<close>
  and \<open>b[:n]\<close> are \<open>make_buf\<close> and \<open>reslice\<close>.\<close>

record buf =
  buf_arr :: "u8 list"
  buf_len :: nat

definition buf_cap :: "buf \<Rightarrow> nat" where
  "buf_cap b = length (buf_arr b)"

definition buf_data :: "buf \<Rightarrow> u8 list" where
  "buf_data b = take (buf_len b) (buf_arr b)"

definition nil_buf :: buf where
  "nil_buf = \<lparr>buf_arr = [], buf_len = 0\<rparr>"

definition make_buf :: "nat \<Rightarrow> buf" where
  "make_buf n = \<lparr>buf_arr = replicate n 0, buf_len = 0\<rparr>"

definition reslice :: "buf \<Rightarrow> nat \<Rightarrow> buf" where
  "reslice b n = b\<lparr>buf_len := n\<rparr>"

lemma reslice_simps [simp]:
  "buf_arr (reslice b n) = buf_arr b" "buf_len (reslice b n) = n" "buf_cap (reslice b n) = buf_cap b"
  by (simp_all add: reslice_def buf_cap_def)

text \<open>\<open>make\<close> panics for a negative length and for more bytes than the address space has, \<open>2^48\<close> on the 64-bit
  platforms; whether the memory for less is there is not modelled.\<close>

definition maxAlloc :: int where
  "maxAlloc = 2 ^ 48"

definition make_panics :: "int \<Rightarrow> int \<Rightarrow> bool" where
  "make_panics elem n \<longleftrightarrow> n < 0 \<or> maxAlloc < n * elem"

lemma make_buf_simps [simp]: "buf_len (make_buf n) = 0" "buf_cap (make_buf n) = n"
  by (simp_all add: make_buf_def buf_cap_def)

section \<open>Powers of two\<close>

lemma pow2_and_pred: "(2 ^ k :: int) AND (2 ^ k - 1) = 0"
proof -
  have "(2 ^ k :: int) AND mask k = take_bit k (2 ^ k)"
    by (simp add: take_bit_eq_mask)
  then show ?thesis by (simp add: mask_eq_exp_minus_1)
qed

text \<open>The test \<open>n > 0 && n&(n-1) == 0\<close> recognises exactly the powers of two.\<close>

lemma and_pred_zero_iff_pow2:
  assumes "0 < (n :: int)"
  shows "n AND (n - 1) = 0 \<longleftrightarrow> (\<exists>k. n = 2 ^ k)"
proof
  assume "\<exists>k. n = 2 ^ k"
  then show "n AND (n - 1) = 0" by (auto simp: pow2_and_pred)
next
  assume a: "n AND (n - 1) = 0"
  from assms have "\<exists>m. n = int m \<and> 0 < m" by (metis pos_int_cases)
  then obtain m where m: "n = int m" "0 < m" by blast
  have "int m AND (int m - 1) = 0 \<Longrightarrow> 0 < m \<Longrightarrow> \<exists>k. int m = 2 ^ k" for m
  proof (induction m rule: less_induct)
    case (less m)
    show ?case
    proof (cases "even m")
      case False
      then obtain j where j: "m = 2 * j + 1" by (auto elim: oddE)
      have "(int m AND (int m - 1)) = 2 * int j"
        by (simp add: j and_int_rec [of "1 + int j * 2"] flip: mult.commute)
      with less.prems(1) have "j = 0" by simp
      with j have "int m = 2 ^ 0" by simp
      then show ?thesis by blast
    next
      case True
      then obtain j where j: "m = 2 * j" by (auto elim: evenE)
      have d: "(2 * int j - 1) div 2 = int j - 1" by presburger
      have e: "(int m AND (int m - 1)) = 2 * (int j AND (int j - 1))"
        by (subst and_int_rec) (simp add: j d)
      with less.prems(1) have "int j AND (int j - 1) = 0" by simp
      moreover have "0 < j" "j < m" using j less.prems(2) by auto
      ultimately obtain k where "int j = 2 ^ k" using less.IH by blast
      with j have "int m = 2 ^ Suc k" by simp
      then show ?thesis by blast
    qed
  qed
  with a m show "\<exists>k. n = 2 ^ k" by simp
qed

section \<open>Lists\<close>

lemma last_n_snoc:
  "drop (length (xs @ [x]) - n) (xs @ [x]) = (if n = 0 then [] else drop (length xs - (n - 1)) xs @ [x])"
  by (auto simp: Suc_diff_le)

lemma drop_length_diff_append:
  "n \<le> length ys \<Longrightarrow> drop (length (xs @ ys) - n) (xs @ ys) = drop (length ys - n) ys"
  by auto

end
