(* ===== verification/Bounded_Queue.thy ===== *)
theory Bounded_Queue
  imports Prelude
begin

text \<open>
  The contract of a bounded FIFO queue as its clients see it: what a push does with room, what a pop
  returns, and what happens on a push into a full queue under each of the two overflow policies. The
  buffer pool and the audio edges rely on these laws only; \<open>Ringbuf\<close> proves them for the ring.
  Operations return an \<open>option\<close> because a retry loop need not end; the laws say that it does.
\<close>

section \<open>Clients' loops\<close>

text \<open>Pop until the queue reports empty, counting; the body of \<open>edge.drain\<close>.\<close>

partial_function (option) drain_loop ::
  "('q \<Rightarrow> ('q \<times> 'a \<times> bool) option) \<Rightarrow> 'q \<Rightarrow> nat \<Rightarrow> ('q \<times> nat) option" where
  "drain_loop pop q n =
     Option.bind (pop q) (\<lambda>(q1, _, ok). if \<not> ok then Some (q1, n) else drain_loop pop q1 (n + 1))"

text \<open>A run of pushes, and the results they returned.\<close>

fun push_all :: "('q \<Rightarrow> 'a \<Rightarrow> ('q \<times> bool) option) \<Rightarrow> 'q \<Rightarrow> 'a list \<Rightarrow> ('q \<times> bool list) option" where
  "push_all push q [] = Some (q, [])"
| "push_all push q (x # xs) =
     Option.bind (push q x) (\<lambda>(q1, ok). map_option (apsnd ((#) ok)) (push_all push q1 xs))"

section \<open>The contract\<close>

locale bounded_queue =
  fixes invar :: "'q \<Rightarrow> bool"
    and capacity :: "'q \<Rightarrow> nat"
    and contents :: "'q \<Rightarrow> 'a list"
    and evicted :: "'q \<Rightarrow> u64"
    and push :: "'q \<Rightarrow> 'a \<Rightarrow> ('q \<times> bool) option"
    and pop :: "'q \<Rightarrow> ('q \<times> 'a \<times> bool) option"
  assumes bounded: "invar q \<Longrightarrow> length (contents q) \<le> capacity q"
    and capacity_pos: "invar q \<Longrightarrow> 0 < capacity q"
    and push_room: "invar q \<Longrightarrow> length (contents q) < capacity q \<Longrightarrow>
      \<exists>q'. push q x = Some (q', True) \<and> invar q' \<and> contents q' = contents q @ [x] \<and>
           capacity q' = capacity q \<and> evicted q' = evicted q"
    and pop_nil: "invar q \<Longrightarrow> contents q = [] \<Longrightarrow> \<exists>x. pop q = Some (q, x, False)"
    and pop_cons: "invar q \<Longrightarrow> contents q = x # xs \<Longrightarrow>
      \<exists>q'. pop q = Some (q', x, True) \<and> invar q' \<and> contents q' = xs \<and>
           capacity q' = capacity q \<and> evicted q' = evicted q"
begin

text \<open>Draining ends, empties the queue and reports how much it held.\<close>

lemma drain_loop_ends:
  "invar q \<Longrightarrow> \<exists>q'. drain_loop pop q n = Some (q', n + length (contents q)) \<and> invar q' \<and>
     contents q' = [] \<and> capacity q' = capacity q \<and> evicted q' = evicted q"
proof (induction "contents q" arbitrary: q n)
  case Nil
  then obtain x where "pop q = Some (q, x, False)" using pop_nil by metis
  with Nil show ?case by (subst drain_loop.simps) auto
next
  case (Cons x xs)
  then obtain q1 where q1: "pop q = Some (q1, x, True)" "invar q1" "contents q1 = xs"
    "capacity q1 = capacity q" "evicted q1 = evicted q" using pop_cons by metis
  from Cons.hyps(1) [of q1 "n + 1"] q1 obtain q' where
    "drain_loop pop q1 (n + 1) = Some (q', n + 1 + length xs)" "invar q'" "contents q' = []"
    "capacity q' = capacity q" "evicted q' = evicted q" by auto
  with q1(1) Cons.hyps(2) [symmetric] show ?case by (subst drain_loop.simps) auto
qed

lemma pop_total: "invar q \<Longrightarrow> \<exists>q' x ok. pop q = Some (q', x, ok) \<and> invar q' \<and> (ok \<longleftrightarrow> contents q \<noteq> [])"
proof (cases "contents q")
  case Nil
  assume "invar q"
  with Nil obtain x where "pop q = Some (q, x, False)" using pop_nil by blast
  with \<open>invar q\<close> Nil show ?thesis by auto
next
  case (Cons x xs)
  assume "invar q"
  with Cons obtain q' where "pop q = Some (q', x, True)" "invar q'" using pop_cons by blast
  with Cons show ?thesis by auto
qed

end

text \<open>A full queue that refuses: pushing a sequence keeps the longest prefix that fits.\<close>

locale reject_queue = bounded_queue +
  assumes push_full: "invar q \<Longrightarrow> length (contents q) = capacity q \<Longrightarrow> push q x = Some (q, False)"
begin

lemma push_all_prefix:
  "invar q \<Longrightarrow> \<exists>q' oks. push_all push q xs = Some (q', oks) \<and> invar q' \<and> capacity q' = capacity q \<and>
     evicted q' = evicted q \<and>
     contents q' = contents q @ take (capacity q - length (contents q)) xs \<and>
     length (filter id oks) = min (length xs) (capacity q - length (contents q))"
proof (induction xs arbitrary: q)
  case Nil
  then show ?case by auto
next
  case (Cons x xs)
  show ?case
  proof (cases "length (contents q) < capacity q")
    case True
    with Cons.prems obtain q1 where q1: "push q x = Some (q1, True)" "invar q1"
      "contents q1 = contents q @ [x]" "capacity q1 = capacity q" "evicted q1 = evicted q"
      using push_room by metis
    from Cons.IH [OF q1(2)] q1 True show ?thesis
      by (auto simp: Suc_diff_Suc [symmetric] min_def)
  next
    case False
    with Cons.prems bounded have full: "length (contents q) = capacity q" by force
    from Cons.IH [OF Cons.prems] push_full [OF Cons.prems full] full show ?thesis by auto
  qed
qed

end

text \<open>A full queue that evicts: pushing a sequence keeps the newest elements.\<close>

locale drop_oldest_queue = bounded_queue +
  assumes push_full: "invar q \<Longrightarrow> length (contents q) = capacity q \<Longrightarrow>
      \<exists>q'. push q x = Some (q', True) \<and> invar q' \<and> contents q' = tl (contents q) @ [x] \<and>
           capacity q' = capacity q \<and> evicted q' = evicted q + 1"
begin

lemma push_newest:
  assumes "invar q"
  shows "\<exists>q'. push q x = Some (q', True) \<and> invar q' \<and> capacity q' = capacity q \<and>
    contents q' = drop (Suc (length (contents q)) - capacity q) (contents q @ [x]) \<and>
    evicted q' = evicted q + (if length (contents q) = capacity q then 1 else 0)"
proof (cases "length (contents q) = capacity q")
  case True
  then show ?thesis
    using push_full [OF assms True, of x] capacity_pos [OF assms] by (auto simp: drop_Suc)
next
  case False
  with bounded [OF assms] have "length (contents q) < capacity q" by simp
  with push_room [OF assms this, of x] show ?thesis by auto
qed

lemma push_all_newest:
  "invar q \<Longrightarrow> \<exists>q' oks. push_all push q xs = Some (q', oks) \<and> invar q' \<and> capacity q' = capacity q \<and>
     contents q' = drop (length (contents q) + length xs - capacity q) (contents q @ xs) \<and>
     evicted q' = evicted q + word_of_nat (length (contents q) + length xs - capacity q) \<and>
     oks = replicate (length xs) True"
proof (induction xs arbitrary: q)
  case Nil
  then show ?case using bounded [OF Nil] by auto
next
  case (Cons x xs)
  let ?n = "length (contents q)" and ?c = "capacity q"
  obtain q1 where q1: "push q x = Some (q1, True)" "invar q1" "capacity q1 = ?c"
    "contents q1 = drop (Suc ?n - ?c) (contents q @ [x])"
    "evicted q1 = evicted q + (if ?n = ?c then 1 else 0)"
    using push_newest [OF Cons.prems] by metis
  from Cons.IH [OF q1(2)] obtain q2 where q2: "push_all push q1 xs = Some (q2, replicate (length xs) True)"
    "invar q2" "capacity q2 = ?c"
    "contents q2 = drop (length (contents q1) + length xs - ?c) (contents q1 @ xs)"
    "evicted q2 = evicted q1 + word_of_nat (length (contents q1) + length xs - ?c)"
    by (auto simp: q1(3))
  have le: "?n \<le> ?c" using bounded [OF Cons.prems] .
  have "contents q2 = drop (?n + length (x # xs) - ?c) (contents q @ x # xs)"
  proof (cases "?n = ?c")
    case True
    then obtain y ys where "contents q = y # ys"
      using capacity_pos [OF Cons.prems] by (cases "contents q") auto
    with True show ?thesis by (auto simp: q2(4) q1(4))
  qed (use le in \<open>auto simp: q2(4) q1(4)\<close>)
  moreover have "evicted q2 = evicted q + word_of_nat (?n + length (x # xs) - ?c)"
    using le capacity_pos [OF Cons.prems] by (cases "?n = ?c") (auto simp: q2(5) q1(4,5))
  ultimately show ?case using q1(1) q2(1-3) by auto
qed

end

end
