(* ===== verification/Ringbuf.thy ===== *)
theory Ringbuf
  imports Bounded_Queue
begin

text \<open>
  The ring buffer of \<open>internal/ringbuf/ring.go\<close>: the overflow policies, the slots with their
  sequence gates, and the operations of \<open>Ring\<close> as functions on its state, cursors and
  sequence numbers kept as 64-bit words that wrap. Every operation here runs without interference;
  the theory \<open>Ringconc\<close> takes the same operations apart into single memory accesses and
  interleaves a producer and a consumer.

  A retry loop that need not end is a \<open>partial_function\<close>: the value \<open>None\<close> means that the call
  does not return.
\<close>

section \<open>Policies\<close>

text \<open>\<open>Policy\<close> is a \<open>uint8\<close> with two named values; \<open>Policy_other\<close> stands for the rest.\<close>

datatype Policy = Reject | DropOldest | Policy_other u8

fun Policy_String :: "Policy \<Rightarrow> string" where
  "Policy_String Reject = ''reject''"
| "Policy_String DropOldest = ''drop_oldest''"
| "Policy_String (Policy_other p) = ''policy('' @ dec_of_nat (unat p) @ '')''"

text \<open>\<open>MakePanic\<close> is the run-time panic of \<open>make\<close>, the others are errors.\<close>

datatype ring_error = BadCapacity int | UnknownPolicy string | MakePanic

definition ParsePolicy :: "string \<Rightarrow> ring_error + Policy" where
  "ParsePolicy s =
     (if s = ''reject'' then Inr Reject
      else if s = ''drop_oldest'' then Inr DropOldest
      else Inl (UnknownPolicy s))"

section \<open>State\<close>

record 'a slot =
  slot_seq :: u64
  slot_val :: 'a

record 'a Ring =
  ring_mask :: u64
  ring_policy :: Policy
  ring_slots :: "'a slot list"
  ring_tail :: u64
  ring_head :: u64
  ring_dropped :: u64

text \<open>\<open>z\<close> is the zero value of the element type, which Go fills new and emptied slots with; \<open>sz\<close> is the size of a slot in
  bytes, that of the element and eight for its gate.\<close>

definition Ring_New :: "int \<Rightarrow> 'a \<Rightarrow> int \<Rightarrow> Policy \<Rightarrow> ring_error + 'a Ring" where
  "Ring_New sz z capacity policy =
     (if capacity \<le> 0 \<or> capacity AND (capacity - 1) \<noteq> 0 then Inl (BadCapacity capacity)
      else if make_panics sz capacity then Inl MakePanic
      else Inr \<lparr>ring_mask = word_of_int (capacity - 1), ring_policy = policy,
                ring_slots = map (\<lambda>i. \<lparr>slot_seq = word_of_nat i, slot_val = z\<rparr>) [0..<nat capacity],
                ring_tail = 0, ring_head = 0, ring_dropped = 0\<rparr>)"

definition Ring_Cap :: "'a Ring \<Rightarrow> nat" where
  "Ring_Cap r = length (ring_slots r)"

definition ring_idx :: "'a Ring \<Rightarrow> u64 \<Rightarrow> nat" where
  "ring_idx r c = unat (c AND ring_mask r)"

section \<open>Operations\<close>

definition Ring_tryPush :: "'a Ring \<Rightarrow> 'a \<Rightarrow> 'a Ring \<times> bool" where
  "Ring_tryPush r v =
     (let t = ring_tail r; i = ring_idx r t in
      if slot_seq (ring_slots r ! i) \<noteq> t then (r, False)
      else (r\<lparr>ring_slots := (ring_slots r)[i := \<lparr>slot_seq = t + 1, slot_val = v\<rparr>],
              ring_tail := t + 1\<rparr>, True))"

text \<open>\<open>CompareAndSwap\<close> on the read cursor; run alone it always succeeds.\<close>

definition ring_cas_head :: "'a Ring \<Rightarrow> u64 \<Rightarrow> u64 \<Rightarrow> 'a Ring \<times> bool" where
  "ring_cas_head r old new = (if ring_head r = old then (r\<lparr>ring_head := new\<rparr>, True) else (r, False))"

partial_function (option) Ring_pop :: "'a \<Rightarrow> 'a Ring \<Rightarrow> ('a Ring \<times> 'a \<times> bool) option" where
  "Ring_pop z r =
     (let h = ring_head r; i = ring_idx r h; s = ring_slots r ! i;
          diff = sint (slot_seq s - (h + 1)) in
      if diff < 0 then Some (r, z, False)
      else if diff > 0 then Ring_pop z r
      else case ring_cas_head r h (h + 1) of (r1, won) \<Rightarrow>
        if won then
          Some (r1\<lparr>ring_slots := (ring_slots r1)
                     [i := \<lparr>slot_seq = h + word_of_nat (length (ring_slots r1)), slot_val = z\<rparr>]\<rparr>,
                slot_val s, True)
        else Ring_pop z r1)"

definition Ring_Pop :: "'a \<Rightarrow> 'a Ring \<Rightarrow> ('a Ring \<times> 'a \<times> bool) option" where
  "Ring_Pop z r = Ring_pop z r"

text \<open>The eviction loop of \<open>Push\<close>: drop the oldest element, count it, try again.\<close>

partial_function (option) Ring_evict :: "'a \<Rightarrow> 'a Ring \<Rightarrow> 'a \<Rightarrow> ('a Ring \<times> bool) option" where
  "Ring_evict z r v =
     Option.bind (Ring_pop z r) (\<lambda>(r1, _, ok).
       let r2 = (if ok then r1\<lparr>ring_dropped := ring_dropped r1 + 1\<rparr> else r1) in
       case Ring_tryPush r2 v of (r3, pushed) \<Rightarrow>
         if pushed then Some (r3, True) else Ring_evict z r3 v)"

definition Ring_Push :: "'a \<Rightarrow> 'a Ring \<Rightarrow> 'a \<Rightarrow> ('a Ring \<times> bool) option" where
  "Ring_Push z r v =
     (case Ring_tryPush r v of (r1, pushed) \<Rightarrow>
        if pushed then Some (r1, True)
        else if ring_policy r1 = Reject then Some (r1, False)
        else Ring_evict z r1 v)"

text \<open>\<open>Len\<close> compares the cursors as unsigned numbers and converts the difference to \<open>int\<close>.\<close>

definition Ring_Len :: "'a Ring \<Rightarrow> int" where
  "Ring_Len r =
     (let t = ring_tail r; h = ring_head r in
      if t < h then 0
      else let n = sint (t - h) in
        if n \<le> int (length (ring_slots r)) then n else int (length (ring_slots r)))"

definition Ring_Dropped :: "'a Ring \<Rightarrow> u64" where
  "Ring_Dropped r = ring_dropped r"

section \<open>Well-formed rings and the queue they hold\<close>

text \<open>
  The invariant speaks of positions relative to the read cursor, so it is insensitive to the
  cursors wrapping around: the \<open>i\<close>-th slot from \<open>head\<close> on is published (its gate is its
  position plus one) for the first \<open>ring_count\<close> of them and free (its gate is its position)
  for the others. The capacity is a power of two and at least 2: \<open>ring_capacity_one\<close> below shows
  what happens with a single slot.
\<close>

definition ring_shape :: "'a Ring \<Rightarrow> bool" where
  "ring_shape r \<longleftrightarrow> (\<exists>k. 1 \<le> k \<and> k \<le> 62 \<and> length (ring_slots r) = 2 ^ k \<and>
                         ring_mask r = 2 ^ k - 1)"

definition ring_count :: "'a Ring \<Rightarrow> nat" where
  "ring_count r = unat (ring_tail r - ring_head r)"

definition ring_pos :: "'a Ring \<Rightarrow> nat \<Rightarrow> nat" where
  "ring_pos r i = ring_idx r (ring_head r + word_of_nat i)"

definition ring_inv :: "'a Ring \<Rightarrow> bool" where
  "ring_inv r \<longleftrightarrow> ring_shape r \<and> ring_count r \<le> Ring_Cap r \<and>
     (\<forall>i<Ring_Cap r. slot_seq (ring_slots r ! ring_pos r i) =
        ring_head r + word_of_nat i + (if i < ring_count r then 1 else 0))"

definition ring_list :: "'a Ring \<Rightarrow> 'a list" where
  "ring_list r = map (\<lambda>i. slot_val (ring_slots r ! ring_pos r i)) [0..<ring_count r]"

lemma length_ring_list [simp]: "length (ring_list r) = ring_count r"
  by (simp add: ring_list_def)

lemma unat_and_mask: "unat ((c :: u64) AND (2 ^ k - 1)) = unat c mod 2 ^ k"
proof -
  have "c AND (2 ^ k - 1) = take_bit k c"
    by (simp add: take_bit_eq_mask mask_eq_exp_minus_1)
  then show ?thesis by (simp only: unsigned_take_bit_eq) (simp add: take_bit_eq_mod)
qed

lemma ring_idx_eq: "ring_shape r \<Longrightarrow> ring_idx r c = unat c mod length (ring_slots r)"
  unfolding ring_shape_def ring_idx_def by (auto simp: unat_and_mask)

lemma unat_add_mod_pow2:
  assumes "k \<le> 62"
  shows "unat ((h :: u64) + word_of_nat i) mod 2 ^ k = (unat h + i) mod 2 ^ k"
proof -
  have "(2 :: nat) ^ k dvd 2 ^ 64" using assms by (intro le_imp_power_dvd) simp
  then show ?thesis
    by (simp only: unat_word_ariths unat_of_nat mod_mod_cancel mod_add_right_eq len_num1 len_num0 len_bit0 len_bit1)
      (simp add: mod_mod_cancel mod_add_right_eq)
qed

lemma unat_of_nat64: "unat (word_of_nat n :: u64) = n mod 2 ^ 64"
  by (simp add: unat_of_nat)

lemma ring_pos_eq: "ring_shape r \<Longrightarrow> ring_pos r i = (unat (ring_head r) + i) mod length (ring_slots r)"
  unfolding ring_pos_def by (auto simp: ring_idx_eq ring_shape_def unat_add_mod_pow2)

lemma ring_shape_cap: "ring_shape r \<Longrightarrow> 2 \<le> Ring_Cap r \<and> Ring_Cap r \<le> 2 ^ 62"
proof -
  assume "ring_shape r"
  then obtain k where k: "1 \<le> k" "k \<le> 62" "length (ring_slots r) = 2 ^ k"
    by (auto simp: ring_shape_def)
  have "(2 :: nat) ^ 1 \<le> 2 ^ k" "(2 :: nat) ^ k \<le> 2 ^ 62"
    by (rule power_increasing [OF k(1)], simp, rule power_increasing [OF k(2)], simp)
  then show ?thesis by (simp add: Ring_Cap_def k(3))
qed

lemma ring_pos_less: "ring_shape r \<Longrightarrow> ring_pos r i < Ring_Cap r"
  by (cases "ring_slots r = []") (use ring_shape_cap [of r] in \<open>auto simp: ring_pos_eq Ring_Cap_def\<close>)

lemma add_mod_inj: "i < N \<Longrightarrow> j < N \<Longrightarrow> (h + i) mod N = (h + j) mod N \<longleftrightarrow> i = (j :: nat)"
proof
  assume l: "i < N" "j < N" and e: "(h + i) mod N = (h + j) mod N"
  then have "(int h + int i) mod int N = (int h + int j) mod int N"
    by (metis of_nat_add of_nat_mod)
  then have "int i mod int N = int j mod int N"
    by (simp add: mod_eq_dvd_iff)
  with l show "i = j" by simp
qed simp

lemma ring_pos_inj:
  "ring_shape r \<Longrightarrow> i < Ring_Cap r \<Longrightarrow> j < Ring_Cap r \<Longrightarrow> ring_pos r i = ring_pos r j \<longleftrightarrow> i = j"
  by (simp add: ring_pos_eq Ring_Cap_def add_mod_inj)


section \<open>Each operation on a well-formed ring\<close>

lemma ring_invD:
  assumes "ring_inv r"
  shows "ring_shape r" "ring_count r \<le> Ring_Cap r"
    "\<And>i. i < Ring_Cap r \<Longrightarrow> slot_seq (ring_slots r ! ring_pos r i) =
       ring_head r + word_of_nat i + (if i < ring_count r then 1 else 0)"
  using assms by (auto simp: ring_inv_def)

lemma ring_tail_eq: "ring_tail r = ring_head r + word_of_nat (ring_count r)"
  by (simp add: ring_count_def)

text \<open>The gate of the slot at the write cursor tells a full ring from one with room.\<close>

lemma ring_tail_gate:
  assumes "ring_inv r"
  shows "slot_seq (ring_slots r ! ring_idx r (ring_tail r)) = ring_tail r \<longleftrightarrow> ring_count r < Ring_Cap r"
proof (cases "ring_count r < Ring_Cap r")
  case True
  then show ?thesis
    using ring_invD(3) [OF assms True] by (simp add: ring_tail_eq ring_pos_def)
next
  case False
  note cap = ring_shape_cap [OF ring_invD(1) [OF assms]]
  from False ring_invD(2) [OF assms] have n: "ring_count r = Ring_Cap r" by simp
  have "ring_pos r (Ring_Cap r) = ring_pos r 0"
    using ring_invD(1) [OF assms] by (simp add: ring_pos_eq Ring_Cap_def)
  then have "slot_seq (ring_slots r ! ring_idx r (ring_tail r)) = ring_head r + 1"
    using ring_invD(3) [OF assms, of 0] cap n by (simp add: ring_tail_eq ring_pos_def)
  moreover have "word_of_nat (Ring_Cap r) \<noteq> (1 :: u64)"
  proof
    assume "word_of_nat (Ring_Cap r) = (1 :: u64)"
    then have "unat (word_of_nat (Ring_Cap r) :: u64) = 1" by simp
    with cap show False by (simp add: unat_of_nat64)
  qed
  ultimately show ?thesis using n by (simp add: ring_tail_eq)
qed

lemma unat_word_succ: "unat (c :: u64) < 2 ^ 62 + n \<Longrightarrow> n \<le> 2 ^ 62 \<Longrightarrow> unat (c + 1) = unat c + 1"
  by (simp add: unat_word_ariths)

lemma ring_tryPush_full:
  "ring_inv r \<Longrightarrow> ring_count r = Ring_Cap r \<Longrightarrow> Ring_tryPush r v = (r, False)"
  using ring_tail_gate [of r] by (simp add: Ring_tryPush_def)

lemma ring_tryPush_room:
  assumes inv: "ring_inv r" and room: "ring_count r < Ring_Cap r" and r': "Ring_tryPush r v = (r', ok)"
  shows "ok" "ring_inv r'" "ring_list r' = ring_list r @ [v]" "ring_policy r' = ring_policy r"
    "Ring_Cap r' = Ring_Cap r" "ring_dropped r' = ring_dropped r"
proof -
  define n where "n = ring_count r"
  let ?i = "ring_idx r (ring_tail r)"
  note shape = ring_invD(1) [OF inv] and seqs = ring_invD(3) [OF inv] and cap = ring_shape_cap [OF ring_invD(1) [OF inv]]
  have gate: "slot_seq (ring_slots r ! ?i) = ring_tail r"
    using ring_tail_gate [OF inv] room by simp
  have r'_eq: "r' = r\<lparr>ring_slots := (ring_slots r)[?i := \<lparr>slot_seq = ring_tail r + 1, slot_val = v\<rparr>],
                     ring_tail := ring_tail r + 1\<rparr>" and ok: "ok"
    using r' gate by (auto simp: Ring_tryPush_def Let_def)
  show "ok" by (fact ok)
  show "ring_policy r' = ring_policy r" "Ring_Cap r' = Ring_Cap r" "ring_dropped r' = ring_dropped r"
    by (simp_all add: r'_eq Ring_Cap_def)
  have i: "?i = ring_pos r n" by (simp add: ring_pos_def n_def ring_tail_eq)
  have pos: "ring_pos r' j = ring_pos r j" for j
    by (simp add: r'_eq ring_pos_def ring_idx_def)
  have "ring_tail r' - ring_head r' = (ring_tail r - ring_head r) + 1" by (simp add: r'_eq)
  moreover have "unat (ring_tail r - ring_head r) < 2 ^ 62 + 0"
    using room cap by (simp add: ring_count_def)
  ultimately have count: "ring_count r' = Suc n"
    using unat_word_succ [of "ring_tail r - ring_head r" 0] by (simp add: ring_count_def n_def)
  have slot: "ring_slots r' ! ring_pos r j =
      (if j = n then \<lparr>slot_seq = ring_tail r + 1, slot_val = v\<rparr> else ring_slots r ! ring_pos r j)"
    if "j < Ring_Cap r" for j
    using ring_pos_less [OF shape, of n] ring_pos_inj [OF shape, of n j] that room
    by (simp add: r'_eq i Ring_Cap_def n_def nth_list_update)
  have shape': "ring_shape r'" using shape by (simp add: r'_eq ring_shape_def)
  show "ring_inv r'"
    unfolding ring_inv_def
  proof (intro conjI allI impI)
    show "ring_count r' \<le> Ring_Cap r'" using count room by (simp add: r'_eq Ring_Cap_def n_def)
    fix j assume "j < Ring_Cap r'"
    then have j: "j < Ring_Cap r" by (simp add: r'_eq Ring_Cap_def)
    have h: "ring_head r' = ring_head r" by (simp add: r'_eq)
    show "slot_seq (ring_slots r' ! ring_pos r' j) =
        ring_head r' + word_of_nat j + (if j < ring_count r' then 1 else 0)"
      unfolding pos slot [OF j] h count
      using seqs [OF j] by (auto simp: ring_tail_eq n_def less_Suc_eq)
  qed (fact shape')
  have "slot_val (ring_slots r' ! ring_pos r j) = (if j = n then v else slot_val (ring_slots r ! ring_pos r j))"
    if "j < Suc n" for j
    using slot [of j] that room by (simp add: n_def)
  then show "ring_list r' = ring_list r @ [v]"
    unfolding ring_list_def pos count by (simp add: n_def [symmetric])
qed

text \<open>\<open>pop\<close> on a well-formed ring returns in its first round: the gate at the read cursor
  is either its position (empty) or its position plus one (published).\<close>

lemma ring_pop_empty:
  assumes inv: "ring_inv r" and empty: "ring_count r = 0"
  shows "Ring_pop z r = Some (r, z, False)"
proof -
  have "slot_seq (ring_slots r ! ring_idx r (ring_head r)) = ring_head r"
    using ring_invD(3) [OF inv, of 0] ring_shape_cap [OF ring_invD(1) [OF inv]] empty
    by (simp add: ring_pos_def)
  then show ?thesis by (subst Ring_pop.simps) (simp add: Let_def)
qed

lemma ring_pop_some:
  assumes inv: "ring_inv r" and some: "0 < ring_count r"
  obtains r' where "Ring_pop z r = Some (r', hd (ring_list r), True)" "ring_inv r'"
    "ring_list r' = tl (ring_list r)" "ring_policy r' = ring_policy r"
    "Ring_Cap r' = Ring_Cap r" "ring_dropped r' = ring_dropped r"
proof -
  define n where "n = ring_count r"
  let ?h = "ring_head r" and ?i = "ring_idx r (ring_head r)"
  note shape = ring_invD(1) [OF inv] and seqs = ring_invD(3) [OF inv] and cap = ring_shape_cap [OF ring_invD(1) [OF inv]]
  have i: "?i = ring_pos r 0" by (simp add: ring_pos_def)
  have gate: "slot_seq (ring_slots r ! ?i) = ?h + 1"
    using seqs [of 0] cap some by (simp add: i)
  define r' where "r' = r\<lparr>ring_head := ?h + 1, ring_slots := (ring_slots r)
      [?i := \<lparr>slot_seq = ?h + word_of_nat (length (ring_slots r)), slot_val = z\<rparr>]\<rparr>"
  have pop: "Ring_pop z r = Some (r', slot_val (ring_slots r ! ?i), True)"
    by (subst Ring_pop.simps) (simp add: Let_def gate ring_cas_head_def r'_def)
  have hd: "slot_val (ring_slots r ! ?i) = hd (ring_list r)"
    using some by (simp add: ring_list_def i upt_conv_Cons)
  have shape': "ring_shape r'" using shape by (simp add: r'_def ring_shape_def)
  have cap': "Ring_Cap r' = Ring_Cap r" by (simp add: r'_def Ring_Cap_def)
  have pos: "ring_pos r' j = ring_pos r (Suc j)" for j
    by (simp add: r'_def ring_pos_def ring_idx_def ac_simps)
  have "ring_tail r - ?h \<noteq> 0" using some by (metis ring_count_def less_irrefl unat_0)
  then have "unat (ring_tail r - ?h - 1) = unat (ring_tail r - ?h) - 1"
    by (rule unat_minus_one)
  then have count: "ring_count r' = n - 1"
    by (simp add: ring_count_def n_def r'_def diff_diff_eq)
  have wrap: "ring_pos r (Ring_Cap r) = ring_pos r 0"
    using shape by (simp add: ring_pos_eq Ring_Cap_def)
  have ne: "ring_slots r \<noteq> []" using cap by (auto simp: Ring_Cap_def)
  have slot: "ring_slots r' ! ring_pos r (Suc j) =
      (if Suc j = Ring_Cap r then \<lparr>slot_seq = ?h + word_of_nat (Ring_Cap r), slot_val = z\<rparr>
       else ring_slots r ! ring_pos r (Suc j))" if "Suc j \<le> Ring_Cap r" for j
    using that ne ring_pos_less [OF shape, of 0] ring_pos_inj [OF shape, of 0 "Suc j"] wrap
    by (cases "Suc j = Ring_Cap r") (auto simp: r'_def i Ring_Cap_def nth_list_update)
  have "ring_inv r'"
    unfolding ring_inv_def
  proof (intro conjI allI impI)
    show "ring_count r' \<le> Ring_Cap r'" using count ring_invD(2) [OF inv] cap' by (simp add: n_def)
    fix j assume "j < Ring_Cap r'"
    then have j: "Suc j \<le> Ring_Cap r" by (simp add: cap')
    have h: "ring_head r' = ?h + 1" by (simp add: r'_def)
    show "slot_seq (ring_slots r' ! ring_pos r' j) =
        ring_head r' + word_of_nat j + (if j < ring_count r' then 1 else 0)"
      unfolding pos slot [OF j] h count
      using seqs [of "Suc j"] j ring_invD(2) [OF inv] some by (auto simp: n_def) (metis of_nat_Suc)
  qed (fact shape')
  moreover have "ring_list r' = tl (ring_list r)"
  proof -
    have "slot_val (ring_slots r' ! ring_pos r (Suc j)) = slot_val (ring_slots r ! ring_pos r (Suc j))"
      if "j < n - 1" for j
    proof -
      have "Suc j < Ring_Cap r" using that ring_invD(2) [OF inv] by (simp add: n_def)
      then show ?thesis using slot [of j] by simp
    qed
    moreover have "[0..<n] = 0 # map Suc [0..<n - 1]"
      using some by (simp add: n_def map_Suc_upt upt_conv_Cons)
    ultimately show ?thesis
      unfolding ring_list_def pos count by (simp add: n_def [symmetric])
  qed
  ultimately show thesis
    using that pop cap' by (simp add: hd) (simp add: r'_def)
qed

lemma ring_evict_full:
  assumes inv: "ring_inv r" and full: "ring_count r = Ring_Cap r"
  obtains r' where "Ring_evict z r v = Some (r', True)" "ring_inv r'"
    "ring_list r' = tl (ring_list r) @ [v]" "ring_policy r' = ring_policy r"
    "Ring_Cap r' = Ring_Cap r" "ring_dropped r' = ring_dropped r + 1"
proof -
  note cap = ring_shape_cap [OF ring_invD(1) [OF inv]]
  from full cap have "0 < ring_count r" by simp
  with inv obtain r1 where r1: "Ring_pop z r = Some (r1, hd (ring_list r), True)" "ring_inv r1"
    "ring_list r1 = tl (ring_list r)" "ring_policy r1 = ring_policy r"
    "Ring_Cap r1 = Ring_Cap r" "ring_dropped r1 = ring_dropped r"
    by (rule ring_pop_some)
  define r2 where "r2 = r1\<lparr>ring_dropped := ring_dropped r1 + 1\<rparr>"
  have same: "ring_shape r2 = ring_shape r1" "ring_count r2 = ring_count r1" "Ring_Cap r2 = Ring_Cap r1"
    "\<And>i. ring_pos r2 i = ring_pos r1 i" "ring_list r2 = ring_list r1"
    by (simp_all add: r2_def ring_shape_def ring_count_def Ring_Cap_def ring_pos_def ring_idx_def ring_list_def)
  then have inv2: "ring_inv r2" using r1(2) by (simp add: ring_inv_def r2_def)
  have "ring_count r1 = ring_count r - 1"
    using arg_cong [OF r1(3), of length] by simp
  then have "ring_count r2 < Ring_Cap r2" using full cap r1(5) by (simp add: same)
  moreover obtain r3 ok where push: "Ring_tryPush r2 v = (r3, ok)" by force
  ultimately have r3: "ok" "ring_inv r3" "ring_list r3 = ring_list r2 @ [v]" "ring_policy r3 = ring_policy r2"
    "Ring_Cap r3 = Ring_Cap r2" "ring_dropped r3 = ring_dropped r2"
    using ring_tryPush_room [OF inv2] by blast+
  have "Ring_evict z r v = Some (r3, True)"
    by (subst Ring_evict.simps) (simp add: r1(1) r2_def [symmetric] push r3(1))
  with r3 r1 show thesis
    by (intro that [of r3]) (simp_all add: same, simp_all add: r2_def)
qed

text \<open>\<open>New\<close> yields an empty well-formed ring for every power of two from 2 on.\<close>

lemma ring_new_ok:
  assumes "1 \<le> k" "k \<le> 62" "\<not> make_panics sz (2 ^ k)"
  obtains r where "Ring_New sz z (2 ^ k) pol = Inr r" "ring_inv r" "ring_list r = []"
    "Ring_Cap r = 2 ^ k" "ring_policy r = pol" "ring_dropped r = 0"
proof -
  define r where "r = \<lparr>ring_mask = 2 ^ k - 1, ring_policy = pol,
      ring_slots = map (\<lambda>i. \<lparr>slot_seq = word_of_nat i, slot_val = z\<rparr>) [0..<2 ^ k],
      ring_tail = 0, ring_head = 0, ring_dropped = 0\<rparr>"
  have shape: "ring_shape r" using assms by (auto simp: r_def ring_shape_def)
  have cnt: "ring_count r = 0" and cap: "Ring_Cap r = 2 ^ k" by (simp_all add: r_def ring_count_def Ring_Cap_def)
  have "Ring_New sz z (2 ^ k) pol = Inr r"
    using assms(3) by (simp add: Ring_New_def r_def pow2_and_pred nat_power_eq)
  moreover have "ring_inv r"
    unfolding ring_inv_def cnt cap
  proof (intro conjI allI impI)
    fix i :: nat assume i: "i < 2 ^ k"
    then have "ring_pos r i = i"
      using shape cap by (simp add: ring_pos_eq Ring_Cap_def) (simp add: r_def)
    with i show "slot_seq (ring_slots r ! ring_pos r i) = ring_head r + word_of_nat i + (if i < 0 then 1 else 0)"
      by (simp add: r_def)
  qed (use shape in simp_all)
  moreover have "ring_list r = []" by (simp add: ring_list_def cnt)
  ultimately show thesis using that cap by (simp add: r_def)
qed

lemma Ring_New_cases:
  assumes "Ring_New sz z n pol = Inr r" "n < 2 ^ 63"
  obtains k where "n = 2 ^ k" "k \<le> 62" "Ring_Cap r = nat n"
proof -
  from assms(1) have pos: "0 < n" and "n AND (n - 1) = 0" and cap: "Ring_Cap r = nat n"
    by (auto simp: Ring_New_def Ring_Cap_def split: if_splits)
  then obtain k where k: "n = 2 ^ k" using and_pred_zero_iff_pow2 by blast
  with assms(2) have "(2 :: int) ^ k < 2 ^ 63" by simp
  then have "k < 63" by (rule power_less_imp_less_exp [rotated]) simp
  with k cap show thesis by (intro that) auto
qed

lemma Ring_New_inv:
  assumes "Ring_New sz z n pol = Inr r" "2 \<le> n" "n < 2 ^ 63"
  shows "ring_inv r" "ring_list r = []" "Ring_Cap r = nat n" "ring_policy r = pol" "ring_dropped r = 0"
proof -
  obtain k where k: "n = 2 ^ k" "k \<le> 62" using Ring_New_cases [OF assms(1,3)] by blast
  with assms(2) have "1 \<le> k" by (cases k) auto
  moreover have "\<not> make_panics sz (2 ^ k)" using assms(1) k(1) by (auto simp: Ring_New_def split: if_splits)
  ultimately obtain r' where r': "Ring_New sz z (2 ^ k) pol = Inr r'" "ring_inv r'" "ring_list r' = []"
    "Ring_Cap r' = 2 ^ k" "ring_policy r' = pol" "ring_dropped r' = 0"
    using k(2) by (elim ring_new_ok)
  with assms(1) k(1) have "r' = r" by simp
  with r' k(1) show "ring_inv r" "ring_list r = []" "Ring_Cap r = nat n" "ring_policy r = pol" "ring_dropped r = 0"
    by (simp_all add: nat_power_eq)
qed

section \<open>The ring as a bounded queue\<close>

text \<open>
  A ring of either policy satisfies the queue contract; the policy decides which of the two
  overflow laws it satisfies. \<open>Policy_other\<close> behaves like \<open>DropOldest\<close>, because \<open>Push\<close> only
  compares with \<open>Reject\<close>.
\<close>

definition reject_ring :: "'a Ring \<Rightarrow> bool" where
  "reject_ring r \<longleftrightarrow> ring_inv r \<and> ring_policy r = Reject"

definition drop_ring :: "'a Ring \<Rightarrow> bool" where
  "drop_ring r \<longleftrightarrow> ring_inv r \<and> ring_policy r \<noteq> Reject"

lemma ring_push_room:
  assumes "ring_inv r" "length (ring_list r) < Ring_Cap r"
  shows "\<exists>r'. Ring_Push z r v = Some (r', True) \<and> ring_inv r' \<and> ring_list r' = ring_list r @ [v] \<and>
    ring_policy r' = ring_policy r \<and> Ring_Cap r' = Ring_Cap r \<and> ring_dropped r' = ring_dropped r"
proof -
  obtain r' ok where p: "Ring_tryPush r v = (r', ok)" by force
  from ring_tryPush_room [OF assms(1) _ p] assms(2) p show ?thesis by (simp add: Ring_Push_def)
qed

lemma ring_pop_nil: "ring_inv r \<Longrightarrow> ring_list r = [] \<Longrightarrow> Ring_Pop z r = Some (r, z, False)"
  using ring_pop_empty [of r z] by (metis Ring_Pop_def length_ring_list list.size(3))

lemma ring_pop_cons:
  assumes "ring_inv r" "ring_list r = x # xs"
  shows "\<exists>r'. Ring_Pop z r = Some (r', x, True) \<and> ring_inv r' \<and> ring_list r' = xs \<and>
    ring_policy r' = ring_policy r \<and> Ring_Cap r' = Ring_Cap r \<and> ring_dropped r' = ring_dropped r"
proof -
  have "0 < ring_count r" by (simp add: assms(2) flip: length_ring_list)
  then show ?thesis
    by (rule ring_pop_some [OF assms(1), of z]) (auto simp: Ring_Pop_def assms(2))
qed

lemma ring_push_full_reject:
  "ring_inv r \<Longrightarrow> ring_policy r = Reject \<Longrightarrow> length (ring_list r) = Ring_Cap r \<Longrightarrow>
     Ring_Push z r v = Some (r, False)"
  by (simp add: Ring_Push_def ring_tryPush_full)

lemma ring_push_full_drop:
  assumes "ring_inv r" "ring_policy r \<noteq> Reject" "length (ring_list r) = Ring_Cap r"
  shows "\<exists>r'. Ring_Push z r v = Some (r', True) \<and> ring_inv r' \<and> ring_list r' = tl (ring_list r) @ [v] \<and>
    ring_policy r' = ring_policy r \<and> Ring_Cap r' = Ring_Cap r \<and> ring_dropped r' = ring_dropped r + 1"
proof -
  have full: "ring_count r = Ring_Cap r" using assms(3) by simp
  show ?thesis
    by (rule ring_evict_full [OF assms(1) full, of z v])
      (auto simp: Ring_Push_def ring_tryPush_full [OF assms(1) full] assms(2))
qed

lemma ring_list_le_cap: "ring_inv r \<Longrightarrow> length (ring_list r) \<le> Ring_Cap r"
  by (simp add: ring_inv_def)

lemma ring_cap_pos: "ring_inv r \<Longrightarrow> 0 < Ring_Cap r"
  using ring_shape_cap [of r] by (simp add: ring_inv_def)

interpretation ring: bounded_queue ring_inv Ring_Cap ring_list ring_dropped "Ring_Push z" "Ring_Pop z"
  for z :: 'a
proof unfold_locales
  fix q :: "'a Ring" and x :: 'a and xs :: "'a list"
  assume inv: "ring_inv q"
  show "length (ring_list q) \<le> Ring_Cap q" "0 < Ring_Cap q"
    using inv by (rule ring_list_le_cap, rule ring_cap_pos)
  show "length (ring_list q) < Ring_Cap q \<Longrightarrow> \<exists>q'. Ring_Push z q x = Some (q', True) \<and> ring_inv q' \<and>
      ring_list q' = ring_list q @ [x] \<and> Ring_Cap q' = Ring_Cap q \<and> ring_dropped q' = ring_dropped q"
    using ring_push_room [OF inv] by blast
  show "ring_list q = [] \<Longrightarrow> \<exists>x. Ring_Pop z q = Some (q, x, False)"
    using ring_pop_nil [OF inv] by blast
  show "ring_list q = x # xs \<Longrightarrow> \<exists>q'. Ring_Pop z q = Some (q', x, True) \<and> ring_inv q' \<and>
      ring_list q' = xs \<and> Ring_Cap q' = Ring_Cap q \<and> ring_dropped q' = ring_dropped q"
    using ring_pop_cons [OF inv] by blast
qed

interpretation rring: reject_queue reject_ring Ring_Cap ring_list ring_dropped "Ring_Push z" "Ring_Pop z"
  for z :: 'a
proof unfold_locales
  fix q :: "'a Ring" and x :: 'a and xs :: "'a list"
  assume "reject_ring q"
  then have inv: "ring_inv q" and pol: "ring_policy q = Reject" by (simp_all add: reject_ring_def)
  show "length (ring_list q) \<le> Ring_Cap q" "0 < Ring_Cap q"
    using inv by (rule ring_list_le_cap, rule ring_cap_pos)
  show "length (ring_list q) < Ring_Cap q \<Longrightarrow> \<exists>q'. Ring_Push z q x = Some (q', True) \<and> reject_ring q' \<and>
      ring_list q' = ring_list q @ [x] \<and> Ring_Cap q' = Ring_Cap q \<and> ring_dropped q' = ring_dropped q"
    using ring_push_room [OF inv, of z x] pol by (auto simp: reject_ring_def)
  show "ring_list q = [] \<Longrightarrow> \<exists>x. Ring_Pop z q = Some (q, x, False)"
    using ring_pop_nil [OF inv] by blast
  show "ring_list q = x # xs \<Longrightarrow> \<exists>q'. Ring_Pop z q = Some (q', x, True) \<and> reject_ring q' \<and>
      ring_list q' = xs \<and> Ring_Cap q' = Ring_Cap q \<and> ring_dropped q' = ring_dropped q"
    using ring_pop_cons [OF inv, of x xs z] pol by (auto simp: reject_ring_def)
  show "length (ring_list q) = Ring_Cap q \<Longrightarrow> Ring_Push z q x = Some (q, False)"
    using inv pol by (rule ring_push_full_reject)
qed

interpretation dring: drop_oldest_queue drop_ring Ring_Cap ring_list ring_dropped "Ring_Push z" "Ring_Pop z"
  for z :: 'a
proof unfold_locales
  fix q :: "'a Ring" and x :: 'a and xs :: "'a list"
  assume "drop_ring q"
  then have inv: "ring_inv q" and pol: "ring_policy q \<noteq> Reject" by (simp_all add: drop_ring_def)
  show "length (ring_list q) \<le> Ring_Cap q" "0 < Ring_Cap q"
    using inv by (rule ring_list_le_cap, rule ring_cap_pos)
  show "length (ring_list q) < Ring_Cap q \<Longrightarrow> \<exists>q'. Ring_Push z q x = Some (q', True) \<and> drop_ring q' \<and>
      ring_list q' = ring_list q @ [x] \<and> Ring_Cap q' = Ring_Cap q \<and> ring_dropped q' = ring_dropped q"
    using ring_push_room [OF inv, of z x] pol by (auto simp: drop_ring_def)
  show "ring_list q = [] \<Longrightarrow> \<exists>x. Ring_Pop z q = Some (q, x, False)"
    using ring_pop_nil [OF inv] by blast
  show "ring_list q = x # xs \<Longrightarrow> \<exists>q'. Ring_Pop z q = Some (q', x, True) \<and> drop_ring q' \<and>
      ring_list q' = xs \<and> Ring_Cap q' = Ring_Cap q \<and> ring_dropped q' = ring_dropped q"
    using ring_pop_cons [OF inv, of x xs z] pol by (auto simp: drop_ring_def)
  show "length (ring_list q) = Ring_Cap q \<Longrightarrow> \<exists>q'. Ring_Push z q x = Some (q', True) \<and> drop_ring q' \<and>
      ring_list q' = tl (ring_list q) @ [x] \<and> Ring_Cap q' = Ring_Cap q \<and> ring_dropped q' = ring_dropped q + 1"
    using ring_push_full_drop [OF inv pol, of z x] pol by (auto simp: drop_ring_def)
qed

section \<open>Refinement of an abstract bounded queue\<close>

text \<open>
  What a run of calls promises, in terms of the list of buffered elements and the number of
  evictions alone.
\<close>

datatype 'a ring_op = OpPush 'a | OpPop

datatype 'a ring_out = OutPush bool | OutPop "'a option"

fun spec_op :: "Policy \<Rightarrow> nat \<Rightarrow> 'a list \<times> nat \<Rightarrow> 'a ring_op \<Rightarrow> ('a list \<times> nat) \<times> 'a ring_out" where
  "spec_op pol cap (xs, d) (OpPush v) =
     (if length xs < cap then ((xs @ [v], d), OutPush True)
      else if pol = Reject then ((xs, d), OutPush False)
      else ((tl xs @ [v], d + 1), OutPush True))"
| "spec_op pol cap ([], d) OpPop = (([], d), OutPop None)"
| "spec_op pol cap (x # xs, d) OpPop = ((xs, d), OutPop (Some x))"

fun ring_exec :: "'a \<Rightarrow> 'a Ring \<Rightarrow> 'a ring_op \<Rightarrow> ('a Ring \<times> 'a ring_out) option" where
  "ring_exec z r (OpPush v) = map_option (apsnd OutPush) (Ring_Push z r v)"
| "ring_exec z r OpPop =
     map_option (\<lambda>(r1, x, ok). (r1, OutPop (if ok then Some x else None))) (Ring_Pop z r)"

fun spec_run :: "Policy \<Rightarrow> nat \<Rightarrow> 'a list \<times> nat \<Rightarrow> 'a ring_op list \<Rightarrow> ('a list \<times> nat) \<times> 'a ring_out list" where
  "spec_run pol cap q [] = (q, [])"
| "spec_run pol cap q (a # as) =
     (case spec_op pol cap q a of (q1, out) \<Rightarrow> apsnd ((#) out) (spec_run pol cap q1 as))"

fun ring_run :: "'a \<Rightarrow> 'a Ring \<Rightarrow> 'a ring_op list \<Rightarrow> ('a Ring \<times> 'a ring_out list) option" where
  "ring_run z r [] = Some (r, [])"
| "ring_run z r (a # as) =
     Option.bind (ring_exec z r a) (\<lambda>(r1, out). map_option (apsnd ((#) out)) (ring_run z r1 as))"

lemma ring_exec_refines:
  assumes "ring_inv r" "spec_op (ring_policy r) (Ring_Cap r) (ring_list r, d) a = ((xs, d'), out)"
    "ring_dropped r = word_of_nat d"
  shows "\<exists>r'. ring_exec z r a = Some (r', out) \<and> ring_inv r' \<and> ring_list r' = xs \<and>
    ring_policy r' = ring_policy r \<and> Ring_Cap r' = Ring_Cap r \<and> ring_dropped r' = word_of_nat d'"
proof (cases a)
  case (OpPush v)
  consider "length (ring_list r) < Ring_Cap r"
    | "length (ring_list r) = Ring_Cap r" "ring_policy r = Reject"
    | "length (ring_list r) = Ring_Cap r" "ring_policy r \<noteq> Reject"
    using ring_list_le_cap [OF assms(1)] by linarith
  then show ?thesis
  proof cases
    case 1
    then show ?thesis using ring_push_room [OF assms(1) 1, of z v] assms(2,3) OpPush by auto
  next
    case 2
    then show ?thesis using ring_push_full_reject [OF assms(1) 2(2,1), of z v] assms OpPush by auto
  next
    case 3
    then show ?thesis using ring_push_full_drop [OF assms(1) 3(2,1), of z v] assms(2,3) OpPush by auto
  qed
next
  case OpPop
  show ?thesis
  proof (cases "ring_list r")
    case Nil
    then show ?thesis using ring_pop_nil [OF assms(1) Nil, of z] assms OpPop by auto
  next
    case (Cons y ys)
    then show ?thesis using ring_pop_cons [OF assms(1) Cons, of z] assms(2,3) OpPop by auto
  qed
qed

lemma ring_run_refines:
  "ring_inv r \<Longrightarrow> ring_dropped r = word_of_nat d \<Longrightarrow>
     spec_run (ring_policy r) (Ring_Cap r) (ring_list r, d) as = ((xs, d'), outs) \<Longrightarrow>
     \<exists>r'. ring_run z r as = Some (r', outs) \<and> ring_inv r' \<and> ring_list r' = xs \<and> ring_dropped r' = word_of_nat d'"
proof (induction as arbitrary: r d outs)
  case Nil
  then show ?case by auto
next
  case (Cons a as)
  obtain ys d1 out where op: "spec_op (ring_policy r) (Ring_Cap r) (ring_list r, d) a = ((ys, d1), out)"
    by (metis surj_pair)
  from Cons.prems(3) op obtain outs' where outs: "outs = out # outs'"
    and rest: "spec_run (ring_policy r) (Ring_Cap r) (ys, d1) as = ((xs, d'), outs')"
    by (auto simp: apsnd_def map_prod_def split: prod.splits)
  obtain r1 where r1: "ring_exec z r a = Some (r1, out)" "ring_inv r1" "ring_list r1 = ys"
    "ring_policy r1 = ring_policy r" "Ring_Cap r1 = Ring_Cap r" "ring_dropped r1 = word_of_nat d1"
    using ring_exec_refines [OF Cons.prems(1) op Cons.prems(2), of z] by blast
  from Cons.IH [OF r1(2,6), of outs'] rest r1(3-5) obtain r' where
    "ring_run z r1 as = Some (r', outs')" "ring_inv r'" "ring_list r' = xs" "ring_dropped r' = word_of_nat d'"
    by auto
  then show ?case by (auto simp: r1(1) outs)
qed

text \<open>
  C1: A ring made by \<open>New\<close> with any power of two from 2 on as its capacity behaves, over every
  sequence of \<open>Push\<close> and \<open>Pop\<close> calls and under either policy, exactly like a bounded list: every
  call returns (the retry loops end), the results are those of the list, and the counter holds the
  number of evictions modulo \<open>2^64\<close>, whether or not the cursors wrap around.
\<close>

theorem ring_refines_queue:
  assumes "Ring_New sz z n pol = Inr r" "2 \<le> n" "n < 2 ^ 63"
    and "spec_run pol (nat n) ([], 0) as = ((xs, d), outs)"
  shows "\<exists>r'. ring_run z r as = Some (r', outs) \<and> ring_list r' = xs \<and> Ring_Dropped r' = word_of_nat d"
  using ring_run_refines [OF Ring_New_inv(1) [OF assms(1-3)], of 0] Ring_New_inv(2-5) [OF assms(1-3)] assms(4)
  by (fastforce simp: Ring_Dropped_def)

lemma ring_new_2: "Ring_New 24 (0 :: int) 2 pol =
    Inr \<lparr>ring_mask = 1, ring_policy = pol,
         ring_slots = [\<lparr>slot_seq = 0, slot_val = 0\<rparr>, \<lparr>slot_seq = 1, slot_val = 0\<rparr>],
         ring_tail = 0, ring_head = 0, ring_dropped = 0\<rparr>"
  by (simp add: Ring_New_def make_panics_def maxAlloc_def upt_rec)

theorem ring_refines_queue_witness:
  "\<exists>r r'. Ring_New 24 (0 :: int) 2 DropOldest = Inr r \<and>
     ring_run 0 r [OpPush 1, OpPush 2, OpPush 3, OpPop] =
       Some (r', [OutPush True, OutPush True, OutPush True, OutPop (Some 2)]) \<and>
     ring_list r' = [3] \<and> Ring_Dropped r' = 1"
  using ring_refines_queue [OF ring_new_2 [of DropOldest], of "[OpPush 1, OpPush 2, OpPush 3, OpPop]" "[3]" 1]
  by (auto simp: ring_new_2)

text \<open>
  Filling: pushing any sequence into an empty drop-oldest ring returns, accepts every element,
  and leaves exactly the newest ones, as many as fit, in order; the others are counted as dropped.
\<close>

theorem ring_keeps_newest:
  assumes "Ring_New sz z n DropOldest = Inr r" "2 \<le> n" "n < 2 ^ 63"
  shows "\<exists>r'. push_all (Ring_Push z) r xs = Some (r', replicate (length xs) True) \<and>
    ring_list r' = drop (length xs - nat n) xs \<and> Ring_Dropped r' = word_of_nat (length xs - nat n)"
  using dring.push_all_newest [of r z xs] Ring_New_inv [OF assms] by (auto simp: drop_ring_def Ring_Dropped_def)

theorem ring_keeps_newest_witness:
  "\<exists>r r'. Ring_New 24 (0 :: int) 2 DropOldest = Inr r \<and>
     push_all (Ring_Push 0) r [1, 2, 3, 4, 5] = Some (r', [True, True, True, True, True]) \<and> ring_list r' = [4, 5]"
  using ring_keeps_newest [OF ring_new_2 [of DropOldest], of "[1, 2, 3, 4, 5]"] by (auto simp: ring_new_2)

text \<open>
  Refusing: pushing any sequence into an empty \<open>Reject\<close> ring keeps exactly the prefix that fits,
  accepts exactly that many calls, and never counts a drop.
\<close>

theorem ring_reject_keeps_prefix:
  assumes "Ring_New sz z n Reject = Inr r" "2 \<le> n" "n < 2 ^ 63"
  shows "\<exists>r' oks. push_all (Ring_Push z) r xs = Some (r', oks) \<and> ring_list r' = take (nat n) xs \<and>
    length (filter id oks) = min (length xs) (nat n) \<and> Ring_Dropped r' = 0"
  using rring.push_all_prefix [of r z xs] Ring_New_inv [OF assms] by (fastforce simp: reject_ring_def Ring_Dropped_def)

theorem ring_reject_keeps_prefix_witness:
  "\<exists>r r' oks. Ring_New 24 (0 :: int) 2 Reject = Inr r \<and>
     push_all (Ring_Push 0) r [7, 8, 9] = Some (r', oks) \<and> ring_list r' = [7, 8] \<and> Ring_Dropped r' = 0"
  using ring_reject_keeps_prefix [OF ring_new_2 [of Reject], of "[7, 8, 9]"] by (auto simp: ring_new_2)

text \<open>\<open>Len\<close> agrees with the contents as long as the write cursor has not wrapped past the read one.\<close>

lemma ring_len_exact:
  assumes "ring_inv r" "ring_head r \<le> ring_tail r"
  shows "Ring_Len r = int (length (ring_list r))"
proof -
  have "ring_count r \<le> 2 ^ 62" using ring_list_le_cap [OF assms(1)] ring_shape_cap [of r] assms(1)
    by (simp add: ring_inv_def)
  then have "unat (ring_tail r - ring_head r) < 2 ^ 63" by (simp add: ring_count_def)
  then have "int (unat (ring_tail r - ring_head r)) < int (2 ^ 63)" by (simp only: of_nat_less_iff)
  then have "uint (ring_tail r - ring_head r) < 2 ^ 63"
    by (simp only: uint_nat of_nat_power of_nat_numeral)
  then have "sint (ring_tail r - ring_head r) = int (ring_count r)"
    using uint_ge_0 [of "ring_tail r - ring_head r"]
    by (simp add: ring_count_def sint_uint signed_take_bit_int_eq_self order_trans [of _ 0] flip: uint_nat)
  with assms show ?thesis
    by (auto simp: Ring_Len_def Let_def ring_inv_def Ring_Cap_def)
qed

section \<open>A ring with a single slot\<close>

text \<open>
  \<open>New\<close> also accepts the capacity 1. There the gate value "published at position \<open>t\<close>", \<open>t + 1\<close>,
  is the gate value "free for position \<open>t + 1\<close>", and the scheme breaks down: a second push
  overwrites the first element although the ring is full, whatever the policy, and from then on
  \<open>pop\<close> finds a gate ahead of its cursor and reloads for ever.
\<close>

definition stuck_ring :: "'a Ring \<Rightarrow> bool" where
  "stuck_ring r \<longleftrightarrow> sint (slot_seq (ring_slots r ! ring_idx r (ring_head r)) - (ring_head r + 1)) > 0"

lemma Ring_pop_stuck: "stuck_ring r \<Longrightarrow> Ring_pop z r = None"
proof -
  have "Ring_pop z r = Some y \<Longrightarrow> \<not> stuck_ring r" for y
    by (rule Ring_pop.raw_induct [where P = "\<lambda>z r y. \<not> stuck_ring r"])
      (auto simp: stuck_ring_def Let_def split: if_splits)
  then show "stuck_ring r \<Longrightarrow> Ring_pop z r = None" by (cases "Ring_pop z r") auto
qed

text \<open>
  With capacity 1, which \<open>New\<close> accepts as a power of two, two pushes both succeed under every
  policy, without a drop being counted, and the next \<open>Pop\<close> never returns.
\<close>

theorem ring_capacity_one:
  assumes "0 \<le> sz" "sz \<le> maxAlloc"
  shows "\<exists>r r1 r2. Ring_New sz z 1 pol = Inr r \<and> Ring_Push z r a = Some (r1, True) \<and>
     Ring_Push z r1 b = Some (r2, True) \<and> Ring_Dropped r2 = 0 \<and> Ring_Pop z r2 = None"
proof -
  have "Ring_New sz z 1 pol = Inr \<lparr>ring_mask = 0, ring_policy = pol, ring_slots = [\<lparr>slot_seq = 0, slot_val = z\<rparr>],
      ring_tail = 0, ring_head = 0, ring_dropped = 0\<rparr>"
    using assms by (simp add: Ring_New_def make_panics_def)
  moreover have "Ring_pop z \<lparr>ring_mask = 0, ring_policy = pol, ring_slots = [\<lparr>slot_seq = 2, slot_val = b\<rparr>],
      ring_tail = 2, ring_head = 0, ring_dropped = 0\<rparr> = None"
    by (rule Ring_pop_stuck) (simp add: stuck_ring_def ring_idx_def)
  ultimately show ?thesis
    by (auto simp: Ring_Push_def Ring_tryPush_def ring_idx_def Ring_Pop_def Ring_Dropped_def)
qed

theorem ring_capacity_one_witness:
  "\<exists>r r1 r2. Ring_New 16 (0 :: int) 1 DropOldest = Inr r \<and> Ring_Push 0 r 5 = Some (r1, True) \<and>
     Ring_Push 0 r1 6 = Some (r2, True) \<and> Ring_Dropped r2 = 0 \<and> Ring_Pop 0 r2 = None"
  by (rule ring_capacity_one) (simp_all add: maxAlloc_def)

end
