(* ===== verification/Ringconc.thy ===== *)
theory Ringconc
  imports Ringbuf
begin

text \<open>
  The ring of \<open>internal/ringbuf/ring.go\<close> under concurrency: one producer goroutine that calls
  \<open>Push\<close> (and so may evict) and one consumer goroutine that calls \<open>Pop\<close>, interleaved at the
  granularity of single accesses to the shared memory. The atomics of Go's \<open>sync/atomic\<close> are
  sequentially consistent; the accesses to \<open>val\<close> are plain, and \<open>ring_race_free\<close> shows that two
  of them never meet. Cursors and gates are natural numbers here: a run in which a 64-bit cursor
  wraps takes more than \<open>2^64\<close> pushes, and \<open>gate_compare_word\<close> shows that until \<open>2^62\<close> the code's signed
  64-bit comparison is the comparison made here.

  Beside the memory and the two program counters the state keeps three histories that the code does
  not have and no step reads: the elements published so far, and the positions and values the
  consumer has taken and the producer has evicted.
\<close>

section \<open>Shared memory and program counters\<close>

record 'a mem =
  gate :: "nat \<Rightarrow> nat"
  cell :: "nat \<Rightarrow> 'a"
  tail_c :: nat
  head_c :: nat
  drops :: nat

text \<open>The six accesses of \<open>pop\<close>: which one comes next, with the locals that are still needed.\<close>

datatype 'a pop_pc = LoadHead | LoadGate nat | CasHead nat | ReadVal nat | ZeroVal nat 'a | Release nat 'a

datatype 'a pop_res = Go "'a pop_pc" | Ret "'a option"

fun pop_access :: "nat \<Rightarrow> 'a \<Rightarrow> 'a mem \<Rightarrow> 'a pop_pc \<Rightarrow> 'a mem \<times> 'a pop_res" where
  "pop_access N z m LoadHead = (m, Go (LoadGate (head_c m)))"
| "pop_access N z m (LoadGate h) =
     (let diff = int (gate m (h mod N)) - int (h + 1) in
      if diff < 0 then (m, Ret None) else if diff > 0 then (m, Go LoadHead) else (m, Go (CasHead h)))"
| "pop_access N z m (CasHead h) =
     (if head_c m = h then (m\<lparr>head_c := h + 1\<rparr>, Go (ReadVal h)) else (m, Go LoadHead))"
| "pop_access N z m (ReadVal h) = (m, Go (ZeroVal h (cell m (h mod N))))"
| "pop_access N z m (ZeroVal h v) = (m\<lparr>cell := (cell m)(h mod N := z)\<rparr>, Go (Release h v))"
| "pop_access N z m (Release h v) = (m\<lparr>gate := (gate m)(h mod N := h + N)\<rparr>, Ret (Some v))"

text \<open>
  The producer: idle, in \<open>tryPush\<close> (the flag tells the first attempt from a retry in the
  eviction loop), in the \<open>pop\<close> of the loop, or about to count the element it evicted.
\<close>

datatype 'a prod_pc =
    PIdle
  | TLoadTail 'a bool
  | TLoadGate 'a bool nat
  | TWrite 'a bool nat
  | TPublish 'a bool nat
  | TAdvance 'a bool nat
  | Evict 'a "'a pop_pc"
  | CountDrop 'a

datatype 'a cons_pc = CIdle | CPop "'a pop_pc"

record 'a sys =
  shm :: "'a mem"
  ppc :: "'a prod_pc"
  cpc :: "'a cons_pc"
  published :: "'a list"
  taken :: "(nat \<times> 'a) list"
  lost :: "(nat \<times> 'a) list"

fun log_release :: "'a pop_pc \<Rightarrow> (nat \<times> 'a) list \<Rightarrow> (nat \<times> 'a) list" where
  "log_release (Release h v) l = l @ [(h, v)]"
| "log_release _ l = l"

text \<open>One access of the producer; \<open>None\<close> when it is idle and only a new call moves it.\<close>

fun prod_access :: "nat \<Rightarrow> 'a \<Rightarrow> Policy \<Rightarrow> 'a sys \<Rightarrow> 'a prod_pc \<Rightarrow> 'a sys option" where
  "prod_access N z pol s PIdle = None"
| "prod_access N z pol s (TLoadTail v b) = Some (s\<lparr>ppc := TLoadGate v b (tail_c (shm s))\<rparr>)"
| "prod_access N z pol s (TLoadGate v b t) = Some
     (if gate (shm s) (t mod N) \<noteq> t
      then (if b \<and> pol = Reject then s\<lparr>ppc := PIdle\<rparr> else s\<lparr>ppc := Evict v LoadHead\<rparr>)
      else s\<lparr>ppc := TWrite v b t\<rparr>)"
| "prod_access N z pol s (TWrite v b t) = Some
     (s\<lparr>shm := (shm s)\<lparr>cell := (cell (shm s))(t mod N := v)\<rparr>, ppc := TPublish v b t\<rparr>)"
| "prod_access N z pol s (TPublish v b t) = Some
     (s\<lparr>shm := (shm s)\<lparr>gate := (gate (shm s))(t mod N := t + 1)\<rparr>, ppc := TAdvance v b t,
        published := published s @ [v]\<rparr>)"
| "prod_access N z pol s (TAdvance v b t) = Some
     (s\<lparr>shm := (shm s)\<lparr>tail_c := t + 1\<rparr>, ppc := PIdle\<rparr>)"
| "prod_access N z pol s (Evict v pc) = Some
     (case pop_access N z (shm s) pc of
        (m, Go pc') \<Rightarrow> s\<lparr>shm := m, ppc := Evict v pc'\<rparr>
      | (m, Ret None) \<Rightarrow> s\<lparr>shm := m, ppc := TLoadTail v False\<rparr>
      | (m, Ret (Some _)) \<Rightarrow> s\<lparr>shm := m, ppc := CountDrop v, lost := log_release pc (lost s)\<rparr>)"
| "prod_access N z pol s (CountDrop v) = Some
     (s\<lparr>shm := (shm s)\<lparr>drops := drops (shm s) + 1\<rparr>, ppc := TLoadTail v False\<rparr>)"

fun cons_access :: "nat \<Rightarrow> 'a \<Rightarrow> 'a sys \<Rightarrow> 'a cons_pc \<Rightarrow> 'a sys option" where
  "cons_access N z s CIdle = None"
| "cons_access N z s (CPop pc) = Some
     (case pop_access N z (shm s) pc of
        (m, Go pc') \<Rightarrow> s\<lparr>shm := m, cpc := CPop pc'\<rparr>
      | (m, Ret _) \<Rightarrow> s\<lparr>shm := m, cpc := CIdle, taken := log_release pc (taken s)\<rparr>)"

text \<open>Any interleaving: either goroutine makes its next access or starts a new call.\<close>

inductive ring_step :: "nat \<Rightarrow> 'a \<Rightarrow> Policy \<Rightarrow> 'a sys \<Rightarrow> 'a sys \<Rightarrow> bool"
  for N :: nat and z :: 'a and pol :: Policy where
  call_push: "ppc s = PIdle \<Longrightarrow> ring_step N z pol s (s\<lparr>ppc := TLoadTail v True\<rparr>)"
| call_pop: "cpc s = CIdle \<Longrightarrow> ring_step N z pol s (s\<lparr>cpc := CPop LoadHead\<rparr>)"
| prod_moves: "prod_access N z pol s (ppc s) = Some s' \<Longrightarrow> ring_step N z pol s s'"
| cons_moves: "cons_access N z s (cpc s) = Some s' \<Longrightarrow> ring_step N z pol s s'"

definition ring_start :: "'a \<Rightarrow> 'a sys" where
  "ring_start z = \<lparr>shm = \<lparr>gate = (\<lambda>i. i), cell = (\<lambda>_. z), tail_c = 0, head_c = 0, drops = 0\<rparr>,
     ppc = PIdle, cpc = CIdle, published = [], taken = [], lost = []\<rparr>"

inductive ring_reach :: "nat \<Rightarrow> 'a \<Rightarrow> Policy \<Rightarrow> 'a sys \<Rightarrow> bool"
  for N :: nat and z :: 'a and pol :: Policy where
  start: "ring_reach N z pol (ring_start z)"
| step: "ring_reach N z pol s \<Longrightarrow> ring_step N z pol s s' \<Longrightarrow> ring_reach N z pol s'"

section \<open>The code's comparison of gates\<close>

lemma gate_compare_word:
  assumes "s < 2 ^ 62" "h < 2 ^ 62"
  shows "sint (word_of_nat s - (word_of_nat h + 1) :: u64) = int s - int (h + 1)"
proof -
  have eq: "(word_of_nat s - (word_of_nat h + 1) :: u64) = word_of_int (int s - int (h + 1))" by simp
  have "- (2 ^ 63) \<le> int s - int (h + 1)" "int s - int (h + 1) < 2 ^ 63"
    using assms by auto
  then have "signed_take_bit 63 (int s - int (h + 1)) = int s - int (h + 1)"
    by (rule signed_take_bit_int_eq_self)
  then show ?thesis unfolding eq by (simp only: sint_sbintrunc') simp
qed

section \<open>The invariant of the shared memory\<close>

text \<open>
  \<open>F\<close> is the set of positions claimed (their CAS won) and not yet released, \<open>pub\<close> the published
  elements, so \<open>length pub\<close> is the next position to publish. Each slot belongs to exactly one
  position \<open>p\<close> of the window from \<open>head\<close> on: its gate is \<open>p + 1\<close> once \<open>p\<close> is published,
  \<open>p + 1 - N\<close> while the position one lap before is still being taken, and \<open>p\<close> when it is free.
\<close>

definition core :: "nat \<Rightarrow> 'a mem \<Rightarrow> 'a list \<Rightarrow> nat set \<Rightarrow> bool" where
  "core N m pub F \<longleftrightarrow>
     head_c m \<le> length pub \<and> length pub \<le> head_c m + N \<and>
     (\<forall>f\<in>F. f < head_c m \<and> length pub \<le> f + N) \<and>
     (\<forall>p. head_c m \<le> p \<longrightarrow> p < head_c m + N \<longrightarrow>
        gate m (p mod N) = (if p < length pub then p + 1 else if N \<le> p \<and> p - N \<in> F then p + 1 - N else p)) \<and>
     (\<forall>p. head_c m \<le> p \<longrightarrow> p < length pub \<longrightarrow> cell m (p mod N) = pub ! p)"

fun infl :: "'a pop_pc \<Rightarrow> nat set" where
  "infl (ReadVal h) = {h}"
| "infl (ZeroVal h v) = {h}"
| "infl (Release h v) = {h}"
| "infl _ = {}"

fun infl_res :: "'a pop_res \<Rightarrow> nat set" where
  "infl_res (Go pc) = infl pc"
| "infl_res (Ret _) = {}"

fun pop_ok :: "nat \<Rightarrow> 'a mem \<Rightarrow> 'a list \<Rightarrow> 'a pop_pc \<Rightarrow> bool" where
  "pop_ok N m pub LoadHead \<longleftrightarrow> True"
| "pop_ok N m pub (LoadGate h) \<longleftrightarrow> h \<le> head_c m"
| "pop_ok N m pub (CasHead h) \<longleftrightarrow> h \<le> head_c m \<and> (h = head_c m \<longrightarrow> h < length pub)"
| "pop_ok N m pub (ReadVal h) \<longleftrightarrow> cell m (h mod N) = pub ! h"
| "pop_ok N m pub (ZeroVal h v) \<longleftrightarrow> v = pub ! h"
| "pop_ok N m pub (Release h v) \<longleftrightarrow> v = pub ! h"

lemma mod_window: "p mod N = q mod N \<Longrightarrow> p \<le> q \<Longrightarrow> q < p + N \<Longrightarrow> p = (q :: nat)"
proof -
  assume a: "p mod N = q mod N" "p \<le> q" "q < p + N"
  then have "q - p < N" "0 < N" by linarith+
  with a show "p = q" using add_mod_inj [of 0 N "q - p" p] by auto
qed

lemma window_position:
  assumes "0 < (N :: nat)"
  obtains p where "a \<le> p" "p < a + N" "p mod N = h mod N"
proof
  let ?p = "a + (h + (N - 1) * a) mod N"
  show "a \<le> ?p" "?p < a + N" using assms by simp_all
  have "?p mod N = (a + (h + (N - 1) * a)) mod N" by (rule mod_add_right_eq)
  also have "a + (h + (N - 1) * a) = h + N * a" using assms by (cases N) simp_all
  finally show "?p mod N = h mod N" by simp
qed

lemma coreD:
  assumes "core N m pub F"
  shows "head_c m \<le> length pub" "length pub \<le> head_c m + N"
    "\<And>f. f \<in> F \<Longrightarrow> f < head_c m" "\<And>f. f \<in> F \<Longrightarrow> length pub \<le> f + N"
    "\<And>p. head_c m \<le> p \<Longrightarrow> p < head_c m + N \<Longrightarrow>
       gate m (p mod N) = (if p < length pub then p + 1 else if N \<le> p \<and> p - N \<in> F then p + 1 - N else p)"
    "\<And>p. head_c m \<le> p \<Longrightarrow> p < length pub \<Longrightarrow> cell m (p mod N) = pub ! p"
  using assms unfolding core_def by blast+

text \<open>The slot of a position in flight still shows that position as published.\<close>

lemma core_gate_inflight:
  assumes "core N m pub F" "f \<in> F"
  shows "gate m (f mod N) = f + 1"
  using coreD(5) [OF assms(1), of "f + N"] coreD(1,3,4) [OF assms(1)] assms(2) by fastforce

text \<open>Two positions in flight, and a position in flight and one still to be taken, never share a slot.\<close>

lemma core_slots_differ:
  assumes "core N m pub F" "f \<in> F" "g \<in> F" "f \<noteq> g"
  shows "f mod N \<noteq> g mod N"
proof -
  have "f < g + N" "g < f + N" using coreD(1,3,4) [OF assms(1)] assms(2,3) by fastforce+
  then show ?thesis using mod_window [of f N g] mod_window [of g N f] assms(4) by (metis nat_le_linear)
qed

lemma core_slots_differ_pending:
  assumes "core N m pub F" "f \<in> F" "head_c m \<le> p" "p < length pub"
  shows "f mod N \<noteq> p mod N"
proof -
  have "f < p" "p < f + N" using coreD(3,4) [OF assms(1,2)] assms(3,4) by auto
  then show ?thesis using mod_window [of f N p] by auto
qed

text \<open>A gate equal to the next position says that the slot is free.\<close>

lemma core_free:
  assumes c: "core N m pub F" and N: "2 \<le> N" and g: "gate m (length pub mod N) = length pub"
  shows "length pub < head_c m + N" "\<And>f. f \<in> F \<Longrightarrow> length pub < f + N"
proof -
  show "length pub < head_c m + N"
  proof (rule ccontr)
    assume "\<not> length pub < head_c m + N"
    with coreD(2) [OF c] have e: "length pub = head_c m + N" by simp
    then have "gate m (head_c m mod N) = head_c m + 1" using coreD(5) [OF c, of "head_c m"] N by auto
    with e g N show False by simp
  qed
  fix f assume f: "f \<in> F"
  show "length pub < f + N"
  proof (rule ccontr)
    assume "\<not> length pub < f + N"
    with coreD(4) [OF c f] have e: "length pub = f + N" by simp
    with core_gate_inflight [OF c f] g N show False by simp
  qed
qed

section \<open>Each access preserves it\<close>

text \<open>What the gate tells a \<open>pop\<close> that loaded \<open>h\<close> as the read cursor some time ago.\<close>

lemma core_gate_read:
  assumes c: "core N m pub F" and N: "2 \<le> N" and h: "h \<le> head_c m"
  shows "h < head_c m \<Longrightarrow> h + 1 \<le> gate m (h mod N)"
    "h = head_c m \<Longrightarrow> h < length pub \<Longrightarrow> gate m (h mod N) = h + 1"
    "h = head_c m \<Longrightarrow> h = length pub \<Longrightarrow> gate m (h mod N) < h + 1"
proof -
  show "h = head_c m \<Longrightarrow> h < length pub \<Longrightarrow> gate m (h mod N) = h + 1"
    using coreD(5) [OF c, of h] N by simp
  show "h = head_c m \<Longrightarrow> h = length pub \<Longrightarrow> gate m (h mod N) < h + 1"
    using coreD(5) [OF c, of h] N by auto
  assume lt: "h < head_c m"
  obtain p where p: "head_c m \<le> p" "p < head_c m + N" "p mod N = h mod N"
    using window_position [of N "head_c m" h] N by auto
  have "h + N \<le> p" using mod_window [of h N p] p lt by force
  moreover have "p + 1 - N \<le> p" using N by simp
  then have "p + 1 - N \<le> gate m (p mod N)"
    unfolding coreD(5) [OF c p(1,2)] by (simp only: split: if_split) simp
  ultimately show "h + 1 \<le> gate m (h mod N)" using p(3) by simp
qed

lemma core_cas:
  assumes c: "core N m pub F" and N: "2 \<le> N" and h: "head_c m = h" "h < length pub"
  shows "core N (m\<lparr>head_c := h + 1\<rparr>) pub (insert h F)"
proof -
  have g: "gate m (p mod N) = (if p < length pub then p + 1
      else if N \<le> p \<and> p - N \<in> insert h F then p + 1 - N else p)"
    if "h + 1 \<le> p" "p < h + 1 + N" for p
  proof (cases "p = h + N")
    case True
    have "gate m (h mod N) = h + 1" using core_gate_read(2) [OF c N] h by simp
    with True coreD(2) [OF c] h N show ?thesis by simp
  next
    case False
    with that have "p < h + N" by simp
    with coreD(5) [OF c, of p] that h False show ?thesis by auto
  qed
  show ?thesis
    unfolding core_def using coreD [OF c] h g by (auto intro: less_SucI)
qed

lemma core_zero:
  assumes c: "core N m pub F" and f: "f \<in> F"
  shows "core N (m\<lparr>cell := (cell m)(f mod N := z)\<rparr>) pub F"
  using c core_slots_differ_pending [OF c f, THEN not_sym] unfolding core_def by auto

lemma core_release:
  assumes c: "core N m pub F" and N: "2 \<le> N" and f: "f \<in> F"
  shows "core N (m\<lparr>gate := (gate m)(f mod N := f + N)\<rparr>) pub (F - {f})"
proof -
  have g: "((gate m)(f mod N := f + N)) (p mod N) = (if p < length pub then p + 1
      else if N \<le> p \<and> p - N \<in> F - {f} then p + 1 - N else p)"
    if p: "head_c m \<le> p" "p < head_c m + N" for p
  proof (cases "p = f + N")
    case True
    with coreD(4) [OF c f] show ?thesis by simp
  next
    case False
    have "f < p" using coreD(3) [OF c f] p(1) by simp
    have "p mod N \<noteq> f mod N"
    proof
      assume e: "p mod N = f mod N"
      then have e': "p mod N = (f + N) mod N" by simp
      have fw: "head_c m \<le> f + N" "f + N < head_c m + N"
        using coreD(1,3,4) [OF c] f by fastforce+
      show False
        using mod_window [OF e'] mod_window [OF e' [symmetric]] fw p False by linarith
    qed
    with coreD(5) [OF c p] False show ?thesis by auto
  qed
  show ?thesis
    unfolding core_def using coreD [OF c] g by auto
qed

text \<open>The producer's two writes, for the position \<open>t\<close> at its write cursor with a free gate.\<close>

lemma core_write:
  assumes c: "core N m pub F" and N: "2 \<le> N" and g: "gate m (length pub mod N) = length pub"
  shows "core N (m\<lparr>cell := (cell m)(length pub mod N := v)\<rparr>) pub F"
proof -
  have "p mod N \<noteq> length pub mod N" if "head_c m \<le> p" "p < length pub" for p
    using mod_window [of p N "length pub"] core_free(1) [OF c N g] that by auto
  with c show ?thesis unfolding core_def by auto
qed

lemma core_publish:
  assumes c: "core N m pub F" and N: "2 \<le> N" and g: "gate m (length pub mod N) = length pub"
    and v: "cell m (length pub mod N) = v"
  shows "core N (m\<lparr>gate := (gate m)(length pub mod N := length pub + 1)\<rparr>) (pub @ [v]) F"
proof -
  let ?t = "length pub"
  note fr = core_free [OF c N g]
  have g': "((gate m)(?t mod N := ?t + 1)) (p mod N) = (if p < ?t + 1 then p + 1
      else if N \<le> p \<and> p - N \<in> F then p + 1 - N else p)"
    if p: "head_c m \<le> p" "p < head_c m + N" for p
  proof (cases "p = ?t")
    case False
    have "p mod N \<noteq> ?t mod N"
      using mod_window [of p N ?t] mod_window [of ?t N p] False p fr(1) coreD(1) [OF c] by force
    with coreD(5) [OF c p] False show ?thesis by auto
  qed simp
  show ?thesis
    unfolding core_def using coreD [OF c] fr g' v by (auto simp: nth_append less_Suc_eq Suc_le_eq)
qed

section \<open>A \<open>pop\<close> beside another goroutine\<close>

text \<open>
  \<open>G\<close> stands for what the other goroutine has in flight. An access keeps the memory invariant and
  the popping goroutine's own assertion, and disturbs neither the assertion of the other one nor a
  free slot the producer has found.
\<close>

lemma pop_access_ok:
  assumes N: "2 \<le> N" and c: "core N m pub (infl pc \<union> G)" and d: "infl pc \<inter> G = {}"
    and ok: "pop_ok N m pub pc" and acc: "pop_access N z m pc = (m', r)"
  shows "core N m' pub (infl_res r \<union> G) \<and> infl_res r \<inter> G = {} \<and>
    (\<forall>pc'. r = Go pc' \<longrightarrow> pop_ok N m' pub pc') \<and>
    tail_c m' = tail_c m \<and> drops m' = drops m \<and> head_c m \<le> head_c m'"
proof (cases pc)
  case LoadHead
  with assms show ?thesis by auto
next
  case (LoadGate h)
  have "h = head_c m \<longrightarrow> gate m (h mod N) = h + 1 \<longrightarrow> h < length pub"
    using core_gate_read(3) [OF c N, of h] coreD(1) [OF c] by fastforce
  with LoadGate assms show ?thesis
    by (auto simp: Let_def split: if_splits)
next
  case (CasHead h)
  show ?thesis
  proof (cases "head_c m = h")
    case True
    with CasHead ok have h: "h < length pub" by simp
    have "h \<notin> G" using coreD(3) [OF c, of h] CasHead True by auto
    moreover have "cell m (h mod N) = pub ! h" using coreD(6) [OF c, of h] True h by simp
    ultimately show ?thesis using core_cas [OF c N True h] CasHead acc True by auto
  qed (use CasHead assms in auto)
next
  case (ReadVal h)
  with assms show ?thesis by auto
next
  case (ZeroVal h v)
  with core_zero [OF c, of h z] assms show ?thesis by auto
next
  case (Release h v)
  with d have "infl pc \<union> G - {h} = G" by auto
  with core_release [OF c N, of h] Release assms show ?thesis by auto
qed

lemma pop_access_other:
  assumes N: "2 \<le> N" and c: "core N m pub (infl pc \<union> G)" and d: "infl pc \<inter> G = {}"
    and acc: "pop_access N z m pc = (m', r)" and o: "pop_ok N m pub pc2" "infl pc2 \<subseteq> G"
  shows "pop_ok N m' pub pc2"
proof (cases pc)
  case (ZeroVal h v)
  have "cell m' (f mod N) = cell m (f mod N)" if "f \<in> G" for f
  proof -
    have "f \<noteq> h" using that d ZeroVal by auto
    then show ?thesis using core_slots_differ [OF c, of f h] that ZeroVal acc by auto
  qed
  with ZeroVal acc o show ?thesis by (cases pc2) auto
next
  case (CasHead h)
  with acc o show ?thesis by (cases pc2) (auto split: if_splits)
qed (use acc o in \<open>(cases pc2; auto simp: Let_def split: if_splits)+\<close>)

lemma pop_access_free_slot:
  assumes N: "2 \<le> N" and c: "core N m pub (infl pc \<union> G)" and acc: "pop_access N z m pc = (m', r)"
    and g: "gate m (length pub mod N) = length pub"
  shows "gate m' (length pub mod N) = length pub" "cell m' (length pub mod N) = cell m (length pub mod N)"
proof -
  have ne: "length pub mod N \<noteq> f mod N" if "f \<in> infl pc \<union> G" for f
    using core_free(2) [OF c N g that] coreD(3) [OF c that] coreD(1) [OF c]
      mod_window [of f N "length pub"] by fastforce
  have "gate m' (length pub mod N) = length pub \<and> cell m' (length pub mod N) = cell m (length pub mod N)"
    using acc ne g by (cases pc) (auto simp: Let_def split: if_splits)
  then show "gate m' (length pub mod N) = length pub" "cell m' (length pub mod N) = cell m (length pub mod N)"
    by auto
qed

section \<open>The histories\<close>

text \<open>
  \<open>ps\<close> and \<open>qs\<close> are the positions two goroutines have finished taking, \<open>A\<close> and \<open>B\<close> those they
  have in flight. Together they are exactly the positions before the read cursor, each once, and
  each goroutine takes them in increasing order.
\<close>

definition places_ok :: "nat \<Rightarrow> nat set \<Rightarrow> nat set \<Rightarrow> nat list \<Rightarrow> nat list \<Rightarrow> bool" where
  "places_ok hp A B ps qs \<longleftrightarrow>
     sorted_wrt (<) ps \<and> sorted_wrt (<) qs \<and> (\<forall>p \<in> set ps. \<forall>h \<in> A. p < h) \<and> (\<forall>p \<in> set qs. \<forall>h \<in> B. p < h) \<and>
     set ps \<union> set qs \<union> A \<union> B = {..<hp} \<and> set ps \<inter> set qs = {} \<and> (set ps \<union> set qs) \<inter> (A \<union> B) = {}"

definition values_ok :: "'a list \<Rightarrow> nat \<Rightarrow> (nat \<times> 'a) list \<Rightarrow> bool" where
  "values_ok pub hp l \<longleftrightarrow> (\<forall>(p, v) \<in> set l. p < hp \<and> v = pub ! p)"

lemma places_ok_sym: "places_ok hp A B ps qs \<longleftrightarrow> places_ok hp B A qs ps"
  unfolding places_ok_def by (simp add: Un_commute Un_left_commute Int_commute conj_ac)

lemma places_claim:
  assumes "places_ok hp {} B ps qs"
  shows "places_ok (hp + 1) {hp} B ps qs"
proof -
  have "set ps \<subseteq> {..<hp}" "set qs \<subseteq> {..<hp}" "B \<subseteq> {..<hp}"
    using assms unfolding places_ok_def by auto
  then have "hp \<notin> set ps" "hp \<notin> set qs" "hp \<notin> B" "\<forall>p \<in> set ps. p < hp" by auto
  with assms show ?thesis unfolding places_ok_def by (simp add: lessThan_Suc insert_commute)
qed

lemma places_release:
  assumes "places_ok hp {h} B ps qs" "h \<notin> B"
  shows "places_ok hp {} B (ps @ [h]) qs"
  using assms unfolding places_ok_def by (simp add: sorted_wrt_append insert_commute)

lemma values_publish: "values_ok pub hp l \<Longrightarrow> hp \<le> length pub \<Longrightarrow> values_ok (pub @ [v]) hp l"
  unfolding values_ok_def by (auto simp: nth_append split: prod.splits)

lemma values_mono: "values_ok pub hp l \<Longrightarrow> hp \<le> hp' \<Longrightarrow> values_ok pub hp' l"
  unfolding values_ok_def by fastforce

lemma pop_access_logs:
  assumes c: "core N m pub (infl pc \<union> G)" and d: "infl pc \<inter> G = {}"
    and ok: "pop_ok N m pub pc" and acc: "pop_access N z m pc = (m', r)"
    and l: "places_ok (head_c m) (infl pc) G (map fst la) qs" "values_ok pub (head_c m) la"
    and la': "la' = (case r of Go _ \<Rightarrow> la | Ret _ \<Rightarrow> log_release pc la)"
  shows "places_ok (head_c m') (infl_res r) G (map fst la') qs \<and> values_ok pub (head_c m') la'"
proof (cases pc)
  case (CasHead h)
  with acc l la' places_claim [of "head_c m" G "map fst la" qs] values_mono [OF l(2), of "head_c m + 1"]
  show ?thesis by (auto split: if_splits)
next
  case (Release h v)
  with acc l la' d ok coreD(3) [OF c, of h] places_release [of "head_c m" h G "map fst la" qs]
  show ?thesis by (auto simp: values_ok_def)
qed (use acc l la' in \<open>auto simp: Let_def split: if_splits\<close>)

section \<open>The invariant of the whole system\<close>

fun prod_infl :: "'a prod_pc \<Rightarrow> nat set" where
  "prod_infl (Evict v pc) = infl pc"
| "prod_infl _ = {}"

fun cons_infl :: "'a cons_pc \<Rightarrow> nat set" where
  "cons_infl (CPop pc) = infl pc"
| "cons_infl CIdle = {}"

fun prod_ok :: "nat \<Rightarrow> 'a mem \<Rightarrow> 'a list \<Rightarrow> 'a prod_pc \<Rightarrow> bool" where
  "prod_ok N m pub (TLoadGate v b t) \<longleftrightarrow> t = length pub \<and> tail_c m = t"
| "prod_ok N m pub (TWrite v b t) \<longleftrightarrow> t = length pub \<and> tail_c m = t \<and> gate m (t mod N) = t"
| "prod_ok N m pub (TPublish v b t) \<longleftrightarrow>
     t = length pub \<and> tail_c m = t \<and> gate m (t mod N) = t \<and> cell m (t mod N) = v"
| "prod_ok N m pub (TAdvance v b t) \<longleftrightarrow> length pub = t + 1 \<and> tail_c m = t"
| "prod_ok N m pub (Evict v pc) \<longleftrightarrow> tail_c m = length pub \<and> pop_ok N m pub pc"
| "prod_ok N m pub _ \<longleftrightarrow> tail_c m = length pub"

fun cons_ok :: "nat \<Rightarrow> 'a mem \<Rightarrow> 'a list \<Rightarrow> 'a cons_pc \<Rightarrow> bool" where
  "cons_ok N m pub (CPop pc) = pop_ok N m pub pc"
| "cons_ok N m pub CIdle = True"

fun counting :: "'a prod_pc \<Rightarrow> nat" where
  "counting (CountDrop v) = 1"
| "counting _ = 0"

text \<open>The write cursor and the drop counter are not read by these assertions.\<close>

lemma frame_cursor [simp]:
  "core N (m\<lparr>tail_c := t\<rparr>) pub F = core N m pub F" "core N (m\<lparr>drops := d\<rparr>) pub F = core N m pub F"
  by (simp_all add: core_def)

lemma frame_pop [simp]:
  "pop_ok N (m\<lparr>tail_c := t\<rparr>) pub pc = pop_ok N m pub pc" "pop_ok N (m\<lparr>drops := d\<rparr>) pub pc = pop_ok N m pub pc"
  by (cases pc; simp)+

lemma frame_cons [simp]:
  "cons_ok N (m\<lparr>tail_c := t\<rparr>) pub c = cons_ok N m pub c" "cons_ok N (m\<lparr>drops := d\<rparr>) pub c = cons_ok N m pub c"
  by (cases c; simp)+

definition sys_inv :: "nat \<Rightarrow> 'a sys \<Rightarrow> bool" where
  "sys_inv N s \<longleftrightarrow>
     core N (shm s) (published s) (cons_infl (cpc s) \<union> prod_infl (ppc s)) \<and>
     cons_infl (cpc s) \<inter> prod_infl (ppc s) = {} \<and>
     prod_ok N (shm s) (published s) (ppc s) \<and> cons_ok N (shm s) (published s) (cpc s) \<and>
     places_ok (head_c (shm s)) (cons_infl (cpc s)) (prod_infl (ppc s)) (map fst (taken s)) (map fst (lost s)) \<and>
     values_ok (published s) (head_c (shm s)) (taken s) \<and> values_ok (published s) (head_c (shm s)) (lost s) \<and>
     drops (shm s) + counting (ppc s) = length (lost s)"

lemma sys_inv_start: "2 \<le> N \<Longrightarrow> sys_inv N (ring_start z)"
  by (simp add: sys_inv_def ring_start_def core_def places_ok_def values_ok_def)

lemma cons_access_inv:
  assumes N: "2 \<le> N" and inv: "sys_inv N s" and acc: "cons_access N z s (cpc s) = Some s'"
  shows "sys_inv N s'"
proof (cases "cpc s")
  case CIdle
  with acc show ?thesis by simp
next
  case (CPop pc)
  let ?G = "prod_infl (ppc s)"
  obtain m r where a: "pop_access N z (shm s) pc = (m, r)" by force
  have c: "core N (shm s) (published s) (infl pc \<union> ?G)" and d: "infl pc \<inter> ?G = {}"
    and ok: "pop_ok N (shm s) (published s) pc" and pr: "prod_ok N (shm s) (published s) (ppc s)"
    using inv CPop by (auto simp: sys_inv_def)
  define la where "la = (case r of Go _ \<Rightarrow> taken s | Ret _ \<Rightarrow> log_release pc (taken s))"
  note pa = pop_access_ok [OF N c d ok a]
  have lg: "places_ok (head_c m) (infl_res r) ?G (map fst la) (map fst (lost s)) \<and> values_ok (published s) (head_c m) la"
    using pop_access_logs [OF c d ok a _ _ la_def, of "map fst (lost s)"] inv CPop by (auto simp: sys_inv_def)
  have "prod_ok N m (published s) (ppc s)"
  proof (cases "ppc s")
    case (TWrite v b t)
    then show ?thesis using pr pa pop_access_free_slot [OF N c a] by auto
  next
    case (TPublish v b t)
    then show ?thesis using pr pa pop_access_free_slot [OF N c a] by auto
  next
    case (Evict v pc2)
    then show ?thesis using pr pa pop_access_other [OF N c d a, of pc2] by auto
  qed (use pr pa in auto)
  moreover have "values_ok (published s) (head_c m) (lost s)"
    using inv pa values_mono by (auto simp: sys_inv_def)
  moreover have "s' = s\<lparr>shm := m, cpc := (case r of Go pc' \<Rightarrow> CPop pc' | Ret _ \<Rightarrow> CIdle), taken := la\<rparr>"
    using acc a CPop by (auto simp: la_def split: pop_res.splits)
  ultimately show ?thesis
    using pa lg inv by (cases r) (auto simp: sys_inv_def)
qed

lemma prod_evict_inv:
  assumes N: "2 \<le> N" and inv: "sys_inv N s" and pc: "ppc s = Evict v pc"
    and acc: "prod_access N z pol s (ppc s) = Some s'"
  shows "sys_inv N s'"
proof -
  let ?G = "cons_infl (cpc s)"
  obtain m r where a: "pop_access N z (shm s) pc = (m, r)" by force
  have c: "core N (shm s) (published s) (infl pc \<union> ?G)" and d: "infl pc \<inter> ?G = {}"
    and ok: "pop_ok N (shm s) (published s) pc" and co: "cons_ok N (shm s) (published s) (cpc s)"
    and pr: "tail_c (shm s) = length (published s)"
    using inv pc by (auto simp: sys_inv_def Un_commute)
  define lb where "lb = (case r of Go _ \<Rightarrow> lost s | Ret _ \<Rightarrow> log_release pc (lost s))"
  note pa = pop_access_ok [OF N c d ok a]
  have lg: "places_ok (head_c m) (infl_res r) ?G (map fst lb) (map fst (taken s)) \<and> values_ok (published s) (head_c m) lb"
    using pop_access_logs [OF c d ok a _ _ lb_def, of "map fst (taken s)"] inv pc
    by (auto simp: sys_inv_def places_ok_sym)
  have "cons_ok N m (published s) (cpc s)"
    using co pop_access_other [OF N c d a] by (cases "cpc s") auto
  moreover have "values_ok (published s) (head_c m) (taken s)"
    using inv pa values_mono by (auto simp: sys_inv_def)
  moreover have "s' = s\<lparr>shm := m, ppc := (case r of Go pc' \<Rightarrow> Evict v pc' | Ret None \<Rightarrow> TLoadTail v False
      | Ret (Some _) \<Rightarrow> CountDrop v), lost := lb\<rparr>"
    using acc a pc by (cases pc) (auto simp: lb_def Let_def split: pop_res.splits option.splits if_splits)
  moreover have "length lb = length (lost s) + (case r of Ret (Some _) \<Rightarrow> 1 | _ \<Rightarrow> 0)"
    using a by (cases pc) (auto simp: lb_def Let_def split: if_splits)
  ultimately show ?thesis
    using pa lg inv pc pr
    by (auto simp: sys_inv_def places_ok_sym Un_commute Int_commute split: pop_res.splits option.splits)
qed

lemma prod_access_inv:
  assumes N: "2 \<le> N" and inv: "sys_inv N s" and acc: "prod_access N z pol s (ppc s) = Some s'"
  shows "sys_inv N s'"
proof (cases "ppc s")
  case (TWrite v b t)
  let ?F = "cons_infl (cpc s)"
  have c: "core N (shm s) (published s) ?F" and g: "gate (shm s) (length (published s) mod N) = length (published s)"
    and co: "cons_ok N (shm s) (published s) (cpc s)"
    using inv TWrite by (auto simp: sys_inv_def)
  have ne: "f mod N \<noteq> length (published s) mod N" if "f \<in> ?F" for f
    using core_free(2) [OF c N g that] coreD(3) [OF c that] coreD(1) [OF c]
      mod_window [of f N "length (published s)"] by fastforce
  have "cons_ok N ((shm s)\<lparr>cell := (cell (shm s))(length (published s) mod N := v)\<rparr>) (published s) (cpc s)"
  proof (cases "cpc s")
    case (CPop pc)
    with co ne show ?thesis by (cases pc) auto
  qed simp
  then show ?thesis using TWrite acc inv core_write [OF c N g, of v] by (auto simp: sys_inv_def)
next
  case (TPublish v b t)
  let ?F = "cons_infl (cpc s)" and ?pub = "published s"
  have c: "core N (shm s) ?pub ?F" and g: "gate (shm s) (length ?pub mod N) = length ?pub"
    and v: "cell (shm s) (length ?pub mod N) = v" and co: "cons_ok N (shm s) ?pub (cpc s)"
    using inv TPublish by (auto simp: sys_inv_def)
  have hp: "head_c (shm s) \<le> length ?pub" using coreD(1) [OF c] .
  have "cons_ok N ((shm s)\<lparr>gate := (gate (shm s))(length ?pub mod N := length ?pub + 1)\<rparr>) (?pub @ [v]) (cpc s)"
  proof (cases "cpc s")
    case (CPop pc)
    with co coreD(3) [OF c] hp show ?thesis by (cases pc) (fastforce simp: nth_append)+
  qed simp
  then show ?thesis
    using TPublish acc inv core_publish [OF c N g v] values_publish [OF _ hp]
    by (auto simp: sys_inv_def)
next
  case (Evict v pc)
  show ?thesis by (rule prod_evict_inv [OF N inv Evict acc])
next
  case PIdle
  with acc show ?thesis by simp
next
  case (TLoadTail v b)
  with acc have "s' = s\<lparr>ppc := TLoadGate v b (tail_c (shm s))\<rparr>" by simp
  then show ?thesis using inv TLoadTail by (simp add: sys_inv_def)
next
  case (TLoadGate v b t)
  with acc consider "s' = s\<lparr>ppc := PIdle\<rparr>" | "s' = s\<lparr>ppc := Evict v LoadHead\<rparr>"
    | "s' = s\<lparr>ppc := TWrite v b t\<rparr>" "gate (shm s) (t mod N) = t"
    by (auto split: if_splits)
  then show ?thesis by cases (use inv TLoadGate in \<open>simp_all add: sys_inv_def\<close>)
next
  case (TAdvance v b t)
  with acc have "s' = s\<lparr>shm := (shm s)\<lparr>tail_c := t + 1\<rparr>, ppc := PIdle\<rparr>" by simp
  then show ?thesis using inv TAdvance by (simp add: sys_inv_def)
next
  case (CountDrop v)
  with acc have "s' = s\<lparr>shm := (shm s)\<lparr>drops := drops (shm s) + 1\<rparr>, ppc := TLoadTail v False\<rparr>" by simp
  then show ?thesis using inv CountDrop by (simp add: sys_inv_def)
qed

lemma ring_step_inv: "ring_step N z pol s s' \<Longrightarrow> 2 \<le> N \<Longrightarrow> sys_inv N s \<Longrightarrow> sys_inv N s'"
proof (induction rule: ring_step.induct)
  case (call_push s v)
  then show ?case by (simp add: sys_inv_def)
next
  case (call_pop s)
  then show ?case by (simp add: sys_inv_def)
next
  case (prod_moves s s')
  show ?case by (rule prod_access_inv [OF prod_moves(2,3,1)])
next
  case (cons_moves s s')
  show ?case by (rule cons_access_inv [OF cons_moves(2,3,1)])
qed

lemma ring_reach_inv: "ring_reach N z pol s \<Longrightarrow> 2 \<le> N \<Longrightarrow> sys_inv N s"
  by (induction rule: ring_reach.induct) (auto intro: sys_inv_start ring_step_inv)

section \<open>What every interleaving guarantees\<close>

text \<open>An executable scheduler, for concrete runs: which goroutine moves next.\<close>

datatype 'a choice = DoPush 'a | DoPop | Prod | Cons

fun sched_step :: "nat \<Rightarrow> 'a \<Rightarrow> Policy \<Rightarrow> 'a sys \<Rightarrow> 'a choice \<Rightarrow> 'a sys option" where
  "sched_step N z pol s (DoPush v) =
     (case ppc s of PIdle \<Rightarrow> Some (s\<lparr>ppc := TLoadTail v True\<rparr>) | _ \<Rightarrow> None)"
| "sched_step N z pol s DoPop = (case cpc s of CIdle \<Rightarrow> Some (s\<lparr>cpc := CPop LoadHead\<rparr>) | _ \<Rightarrow> None)"
| "sched_step N z pol s Prod = prod_access N z pol s (ppc s)"
| "sched_step N z pol s Cons = cons_access N z s (cpc s)"

fun sched_run :: "nat \<Rightarrow> 'a \<Rightarrow> Policy \<Rightarrow> 'a sys \<Rightarrow> 'a choice list \<Rightarrow> 'a sys option" where
  "sched_run N z pol s [] = Some s"
| "sched_run N z pol s (c # cs) = Option.bind (sched_step N z pol s c) (\<lambda>s'. sched_run N z pol s' cs)"

lemma sched_step_sound: "sched_step N z pol s c = Some s' \<Longrightarrow> ring_step N z pol s s'"
  by (cases c) (auto intro: ring_step.intros split: prod_pc.splits cons_pc.splits)

lemma sched_run_sound: "sched_run N z pol s cs = Some s' \<Longrightarrow> ring_reach N z pol s \<Longrightarrow> ring_reach N z pol s'"
proof (induction cs arbitrary: s)
  case (Cons c cs)
  then obtain s1 where "sched_step N z pol s c = Some s1" "sched_run N z pol s1 cs = Some s'"
    by (auto split: Option.bind_splits)
  with Cons show ?case using ring_reach.step sched_step_sound by metis
qed simp

lemma sched_reach: "sched_run N z pol (ring_start z) cs = Some s \<Longrightarrow> ring_reach N z pol s"
  using sched_run_sound ring_reach.start by metis

text \<open>
  C3: Every element the consumer takes is the one published at its position, elements are taken in
  the order they were pushed, none twice and none that was evicted; the positions taken, evicted and
  in flight are exactly those before the read cursor, and the drop counter counts the evictions.
\<close>

theorem ring_conc_fifo:
  assumes "ring_reach N z pol s" "2 \<le> N"
  shows "(\<forall>(p, v) \<in> set (taken s) \<union> set (lost s). p < length (published s) \<and> v = published s ! p) \<and>
    sorted_wrt (<) (map fst (taken s)) \<and> sorted_wrt (<) (map fst (lost s)) \<and>
    fst ` set (taken s) \<inter> fst ` set (lost s) = {} \<and>
    fst ` set (taken s) \<union> fst ` set (lost s) \<union> cons_infl (cpc s) \<union> prod_infl (ppc s) = {..<head_c (shm s)} \<and>
    drops (shm s) + counting (ppc s) = length (lost s)"
proof -
  have i: "sys_inv N s" using assms by (rule ring_reach_inv)
  then have "head_c (shm s) \<le> length (published s)" by (auto simp: sys_inv_def core_def)
  with i have "\<forall>(p, v) \<in> set (taken s) \<union> set (lost s). p < length (published s) \<and> v = published s ! p"
    by (fastforce simp: sys_inv_def values_ok_def)
  with i show ?thesis by (simp add: sys_inv_def places_ok_def Un_assoc)
qed

text \<open>Three pushes into a ring of two, the third one evicting, while the consumer is taking.\<close>

definition demo_run :: "int choice list" where
  "demo_run = [DoPush 10, Prod, Prod, Prod, Prod, Prod, DoPush 11, Prod, Prod, Prod, Prod, Prod,
     DoPush 12, Prod, Prod, DoPop, Cons, Cons, Prod, Prod, Prod, Cons, Cons, Cons, Cons, Cons,
     Prod, Prod, Prod, Prod, Prod, Prod, Cons, Prod, Prod, Prod, Cons]"

definition demo_state :: "int sys" where
  "demo_state = the (sched_run 2 0 DropOldest (ring_start 0) demo_run)"

lemma demo_state_reach: "ring_reach 2 0 DropOldest demo_state"
  by (rule sched_reach [of _ _ _ demo_run]) (simp add: demo_state_def demo_run_def ring_start_def Let_def)

lemma demo_state_eq: "published demo_state = [10, 11, 12] \<and> taken demo_state = [(1, 11)] \<and>
    lost demo_state = [(0, 10)] \<and> head_c (shm demo_state) = 2 \<and> drops (shm demo_state) = 1 \<and> ppc demo_state = PIdle"
  by (simp add: demo_state_def demo_run_def ring_start_def Let_def)

theorem ring_conc_fifo_witness:
  "taken demo_state = [(1, 11)] \<and> lost demo_state = [(0, 10)] \<and> published demo_state = [10, 11, 12] \<and>
   drops (shm demo_state) + counting (ppc demo_state) = length (lost demo_state)"
  using ring_conc_fifo [OF demo_state_reach] demo_state_eq by simp

text \<open>The slot whose \<open>val\<close> a goroutine accesses next, if it does.\<close>

fun pop_val_slot :: "nat \<Rightarrow> 'a pop_pc \<Rightarrow> nat option" where
  "pop_val_slot N (ReadVal h) = Some (h mod N)"
| "pop_val_slot N (ZeroVal h v) = Some (h mod N)"
| "pop_val_slot N _ = None"

fun prod_val_slot :: "nat \<Rightarrow> 'a prod_pc \<Rightarrow> nat option" where
  "prod_val_slot N (TWrite v b t) = Some (t mod N)"
| "prod_val_slot N (Evict v pc) = pop_val_slot N pc"
| "prod_val_slot N _ = None"

fun cons_val_slot :: "nat \<Rightarrow> 'a cons_pc \<Rightarrow> nat option" where
  "cons_val_slot N (CPop pc) = pop_val_slot N pc"
| "cons_val_slot N CIdle = None"

lemma pop_val_slot_infl: "pop_val_slot N pc = Some i \<Longrightarrow> \<exists>h \<in> infl pc. i = h mod N"
  by (cases pc) auto

text \<open>
  C4: No data race: whenever both goroutines are about to access the plain field \<open>val\<close> of a slot,
  it is not the same slot, in every reachable state and whether or not the producer is evicting.
\<close>

theorem ring_race_free:
  assumes "ring_reach N z pol s" "2 \<le> N" "prod_val_slot N (ppc s) = Some i"
  shows "cons_val_slot N (cpc s) \<noteq> Some i"
proof
  assume "cons_val_slot N (cpc s) = Some i"
  then obtain h where h: "h \<in> cons_infl (cpc s)" "i = h mod N"
    by (cases "cpc s") (auto dest: pop_val_slot_infl)
  have inv: "sys_inv N s" using assms(1,2) by (rule ring_reach_inv)
  then have c: "core N (shm s) (published s) (cons_infl (cpc s) \<union> prod_infl (ppc s))"
    and d: "cons_infl (cpc s) \<inter> prod_infl (ppc s) = {}"
    and p: "prod_ok N (shm s) (published s) (ppc s)" by (simp_all add: sys_inv_def)
  consider v b t where "ppc s = TWrite v b t" | v pc where "ppc s = Evict v pc"
    using assms(3) by (cases "ppc s") auto
  then show False
  proof cases
    case 1
    with p have t: "t = length (published s)" and g: "gate (shm s) (length (published s) mod N) = length (published s)"
      by auto
    have "length (published s) < h + N" "h < length (published s)"
      using core_free(2) [OF c assms(2) g] coreD(1,3) [OF c] h(1) by (auto intro: less_le_trans)
    with mod_window [of h N t] assms(3) h(2) 1 t show False by auto
  next
    case 2
    with assms(3) obtain g where "g \<in> prod_infl (ppc s)" "i = g mod N" by (auto dest: pop_val_slot_infl)
    with core_slots_differ [OF c, of h g] d h show False by auto
  qed
qed

text \<open>The producer about to read the slot it evicts while the consumer reads the next one.\<close>

definition race_state :: "int sys" where
  "race_state = the (sched_run 2 0 DropOldest (ring_start 0) (take 26 demo_run))"

theorem ring_race_free_witness:
  "prod_val_slot 2 (ppc race_state) = Some 0 \<and> cons_val_slot 2 (cpc race_state) = Some 1 \<and>
   cons_val_slot 2 (cpc race_state) \<noteq> Some 0"
proof -
  have r: "ring_reach 2 0 DropOldest race_state"
    by (rule sched_reach [of _ _ _ "take 26 demo_run"]) (simp add: race_state_def demo_run_def ring_start_def Let_def)
  have p: "prod_val_slot 2 (ppc race_state) = Some 0" and c: "cons_val_slot 2 (cpc race_state) = Some 1"
    by (simp_all add: race_state_def demo_run_def ring_start_def Let_def)
  from ring_race_free [OF r _ p] p c show ?thesis by simp
qed

text \<open>
  The buffered elements never exceed the capacity, and \<open>Pop\<close> reports empty only at an instant at
  which every published element has been claimed.
\<close>

theorem ring_empty_is_empty:
  assumes "ring_reach N z pol s" "2 \<le> N"
    and "cpc s = CPop (LoadGate h)" "cons_access N z s (cpc s) = Some s'" "cpc s' = CIdle"
  shows "head_c (shm s) = length (published s) \<and> taken s' = taken s"
proof -
  have i: "sys_inv N s" using assms(1,2) by (rule ring_reach_inv)
  then have c: "core N (shm s) (published s) (cons_infl (cpc s) \<union> prod_infl (ppc s))"
    and h: "h \<le> head_c (shm s)" using assms(3) by (auto simp: sys_inv_def)
  have "gate (shm s) (h mod N) < h + 1 \<and> taken s' = taken s"
    using assms(3-5) by (auto simp: Let_def split: if_splits)
  with core_gate_read [OF c assms(2) h] coreD(1) [OF c] h show ?thesis by linarith
qed

theorem ring_empty_is_empty_witness:
  "\<exists>s s'. ring_reach 2 (0 :: int) DropOldest s \<and> cons_access 2 0 s (cpc s) = Some s' \<and> cpc s' = CIdle \<and>
     head_c (shm s) = length (published s) \<and> taken s' = taken s"
proof -
  let ?s = "(ring_start (0 :: int))\<lparr>cpc := CPop (LoadGate 0)\<rparr>"
  have r: "ring_reach 2 0 DropOldest ?s"
    by (rule sched_reach [of _ _ _ "[DoPop, Cons]"]) (simp add: ring_start_def)
  have c: "cpc ?s = CPop (LoadGate 0)" by simp
  have a: "cons_access 2 0 ?s (cpc ?s) = Some (?s\<lparr>cpc := CIdle\<rparr>)" by (simp add: ring_start_def)
  from ring_empty_is_empty [OF r _ c a] r a show ?thesis by (intro exI [of _ ?s] exI [of _ "?s\<lparr>cpc := CIdle\<rparr>"]) simp
qed

section \<open>Progress\<close>

lemma pop_alone_fresh:
  assumes "2 \<le> N" "core N (shm s) (published s) F" "cpc s = CPop LoadHead"
  shows "\<exists>k \<le> 6. \<exists>s'. sched_run N z pol s (replicate k Cons) = Some s' \<and> cpc s' = CIdle"
proof -
  let ?h = "head_c (shm s)"
  consider "gate (shm s) (?h mod N) < ?h + 1" | "gate (shm s) (?h mod N) = ?h + 1"
    using core_gate_read [OF assms(2,1) order_refl] coreD(1) [OF assms(2)] by (metis le_neq_implies_less)
  then show ?thesis
  proof cases
    case 1
    with assms(3) have "\<exists>s'. sched_run N z pol s (replicate 2 Cons) = Some s' \<and> cpc s' = CIdle"
      by (simp add: numeral_eq_Suc)
    then show ?thesis by (intro exI [of _ 2]) simp
  next
    case 2
    with assms(3) have "\<exists>s'. sched_run N z pol s (replicate 6 Cons) = Some s' \<and> cpc s' = CIdle"
      by (simp add: numeral_eq_Suc)
    then show ?thesis by (intro exI [of _ 6]) simp
  qed
qed

lemma pop_alone_reload:
  assumes N: "2 \<le> N" and c: "core N (shm s) (published s) F"
    and run: "sched_run N z pol s (replicate a Cons) = Some (s\<lparr>cpc := CPop LoadHead\<rparr>)" and a: "a + 6 \<le> n"
  shows "\<exists>k \<le> n. \<exists>s'. sched_run N z pol s (replicate k Cons) = Some s' \<and> cpc s' = CIdle"
proof -
  have app: "sched_run N z pol s (xs @ ys) = Option.bind (sched_run N z pol s xs) (\<lambda>s'. sched_run N z pol s' ys)"
    for s xs ys by (induction xs arbitrary: s) (auto split: Option.bind_splits)
  obtain k s' where "k \<le> 6" "sched_run N z pol (s\<lparr>cpc := CPop LoadHead\<rparr>) (replicate k Cons) = Some s'" "cpc s' = CIdle"
    using pop_alone_fresh [OF N, of "s\<lparr>cpc := CPop LoadHead\<rparr>" F z pol] c by auto
  with run a show ?thesis by (intro exI [of _ "a + k"]) (simp add: replicate_add app)
qed

lemma pop_alone_now:
  "sched_run N z pol s (replicate k Cons) = Some s' \<Longrightarrow> cpc s' = CIdle \<Longrightarrow> k \<le> n \<Longrightarrow>
   \<exists>k \<le> n. \<exists>s'. sched_run N z pol s (replicate k Cons) = Some s' \<and> cpc s' = CIdle"
  by blast

text \<open>
  C13: A \<open>Pop\<close> left to run alone returns, from whatever point any interleaving has brought it to,
  within eight further accesses: at most one reload is ever needed.
\<close>

theorem ring_pop_terminates_alone:
  assumes "ring_reach N z pol s" "2 \<le> N"
  shows "\<exists>k \<le> 8. \<exists>s'. sched_run N z pol s (replicate k Cons) = Some s' \<and> cpc s' = CIdle"
proof (cases "cpc s")
  case CIdle
  then show ?thesis by (intro pop_alone_now [of _ _ _ _ 0]) auto
next
  case (CPop pc)
  have "sys_inv N s" using assms by (rule ring_reach_inv)
  then have c: "core N (shm s) (published s) (cons_infl (cpc s) \<union> prod_infl (ppc s))"
    by (simp add: sys_inv_def)
  note fresh = pop_alone_fresh [OF assms(2) c] and reload = pop_alone_reload [OF assms(2) c]
  show ?thesis
  proof (cases pc)
    case LoadHead
    then obtain k s' where "k \<le> 6" "sched_run N z pol s (replicate k Cons) = Some s'" "cpc s' = CIdle"
      using fresh [of z pol] CPop by auto
    then show ?thesis by (intro pop_alone_now [of _ _ _ _ k]) auto
  next
    case (LoadGate h)
    consider "gate (shm s) (h mod N) < h + 1" | "gate (shm s) (h mod N) > h + 1"
      | "gate (shm s) (h mod N) = h + 1" "head_c (shm s) = h"
      | "gate (shm s) (h mod N) = h + 1" "head_c (shm s) \<noteq> h" by linarith
    then show ?thesis
    proof cases
      case 1
      with CPop LoadGate show ?thesis by (intro pop_alone_now [of _ _ _ _ 1]) auto
    next
      case 2
      with CPop LoadGate show ?thesis by (intro reload [of _ _ 1]) auto
    next
      case 3
      with CPop LoadGate show ?thesis
        by (intro pop_alone_now [of _ _ _ _ 5]) (auto simp: numeral_eq_Suc)
    next
      case 4
      with CPop LoadGate show ?thesis by (intro reload [of _ _ 2]) (auto simp: numeral_eq_Suc)
    qed
  next
    case (CasHead h)
    show ?thesis
    proof (cases "head_c (shm s) = h")
      case True
      with CPop CasHead show ?thesis
        by (intro pop_alone_now [of _ _ _ _ 4]) (auto simp: numeral_eq_Suc)
    next
      case False
      with CPop CasHead show ?thesis by (intro reload [of _ _ 1]) auto
    qed
  next
    case (ReadVal h)
    with CPop show ?thesis by (intro pop_alone_now [of _ _ _ _ 3]) (auto simp: numeral_eq_Suc)
  next
    case (ZeroVal h v)
    with CPop show ?thesis by (intro pop_alone_now [of _ _ _ _ 2]) (auto simp: numeral_eq_Suc)
  next
    case (Release h v)
    with CPop show ?thesis by (intro pop_alone_now [of _ _ _ _ 1]) auto
  qed
qed

theorem ring_pop_terminates_alone_witness:
  "cpc race_state = CPop (ZeroVal 1 11) \<and>
   (\<exists>k \<le> 8. \<exists>s'. sched_run 2 0 DropOldest race_state (replicate k Cons) = Some s' \<and> cpc s' = CIdle)"
proof -
  have "ring_reach 2 0 DropOldest race_state"
    by (rule sched_reach [of _ _ _ "take 26 demo_run"]) (simp add: race_state_def demo_run_def ring_start_def Let_def)
  then show ?thesis using ring_pop_terminates_alone [of 2 0 DropOldest race_state]
    by (simp add: race_state_def demo_run_def ring_start_def Let_def)
qed

text \<open>
  The counterpart for \<open>Push\<close> fails: while a \<open>Pop\<close> is stopped between winning its CAS and releasing
  the slot that is next to be written, no number of the producer's own steps completes the push.
\<close>

definition push_blocked :: "nat \<Rightarrow> 'a sys \<Rightarrow> bool" where
  "push_blocked N s \<longleftrightarrow> (case ppc s of TLoadTail v b \<Rightarrow> \<not> b | TLoadGate v b t \<Rightarrow> \<not> b | Evict v pc \<Rightarrow> True
      | CountDrop v \<Rightarrow> True | _ \<Rightarrow> False) \<and>
     (\<exists>f \<in> cons_infl (cpc s). length (published s) = f + N)"

lemma push_blocked_step:
  assumes N: "2 \<le> N" and inv: "sys_inv N s" and b: "push_blocked N s"
    and step: "prod_access N z pol s (ppc s) = Some s'"
  shows "push_blocked N s'"
proof -
  obtain f where f: "f \<in> cons_infl (cpc s)" "length (published s) = f + N"
    using b by (auto simp: push_blocked_def)
  have c: "core N (shm s) (published s) (cons_infl (cpc s) \<union> prod_infl (ppc s))"
    using inv by (simp add: sys_inv_def)
  have g: "gate (shm s) (length (published s) mod N) \<noteq> length (published s)"
    using core_gate_inflight [OF c, of f] f N by simp
  have p: "prod_ok N (shm s) (published s) (ppc s)" using inv by (simp add: sys_inv_def)
  show ?thesis
    using b step g p f by (cases "ppc s") (auto simp: push_blocked_def split: prod.splits pop_res.splits option.splits)
qed

text \<open>
  C30: A stalled consumer blocks the producer: when a \<open>Push\<close> is in its eviction loop and the consumer
  has claimed, but not released, the slot the push needs, then after any number of accesses of the
  producer alone it is still in the loop. So \<open>Push\<close> is not lock-free.
\<close>

theorem ring_push_blocks_on_stalled_pop:
  assumes "ring_reach N z pol s" "2 \<le> N" "push_blocked N s"
  shows "\<exists>s'. sched_run N z pol s (replicate k Prod) = Some s' \<and> push_blocked N s' \<and> ppc s' \<noteq> PIdle"
  using assms(1,3)
proof (induction k arbitrary: s)
  case 0
  then show ?case by (auto simp: push_blocked_def)
next
  case (Suc k)
  have "ppc s \<noteq> PIdle" using Suc.prems(2) by (auto simp: push_blocked_def)
  then obtain s1 where s1: "prod_access N z pol s (ppc s) = Some s1" by (cases "ppc s") auto
  have "push_blocked N s1"
    using push_blocked_step [OF assms(2) ring_reach_inv [OF Suc.prems(1) assms(2)] Suc.prems(2) s1] .
  moreover have "ring_reach N z pol s1" using Suc.prems(1) ring_step.prod_moves [OF s1] by (rule ring_reach.step)
  ultimately show ?case using Suc.IH s1 by simp
qed

theorem ring_push_blocks_on_stalled_pop_witness:
  "\<exists>s. ring_reach 2 (0 :: int) DropOldest s \<and> push_blocked 2 s \<and>
     (\<exists>s'. sched_run 2 0 DropOldest s (replicate 1000 Prod) = Some s' \<and> push_blocked 2 s' \<and> ppc s' \<noteq> PIdle)"
proof -
  let ?cs = "[DoPush 10, Prod, Prod, Prod, Prod, Prod, DoPush 11, Prod, Prod, Prod, Prod, Prod,
     DoPop, Cons, Cons, Cons, DoPush 12, Prod, Prod] :: int choice list"
  let ?s = "the (sched_run 2 0 DropOldest (ring_start 0) ?cs)"
  have r: "ring_reach 2 0 DropOldest ?s"
    by (rule sched_reach [of _ _ _ ?cs]) (simp add: ring_start_def Let_def)
  moreover have "push_blocked 2 ?s" by (simp add: ring_start_def Let_def push_blocked_def)
  ultimately show ?thesis using ring_push_blocks_on_stalled_pop [OF r, of 1000] by auto
qed

end
