(* ===== verification/Frame.thy ===== *)
theory Frame
  imports Prelude
begin

text \<open>
  The wire format of \<open>internal/transport/frame.go\<close> and the two ways \<open>internal/transport/wsconn.go\<close>
  reads it: a frame decoded from a whole message, and a frame read header first into a buffer the
  caller supplies. Integers of the header are words of their width, big-endian on the wire;
  \<open>int64\<close> and \<open>int32\<close> values are the words of their bits.
\<close>

declare One_nat_def [simp del]

section \<open>Big-endian integers\<close>

text \<open>\<open>binary.BigEndian.PutUint\<close> and \<open>Uint\<close>, over the number of bytes.\<close>

fun put_be :: "nat \<Rightarrow> 'w::len word \<Rightarrow> u8 list" where
  "put_be 0 w = []"
| "put_be (Suc n) w = put_be n (drop_bit 8 w) @ [ucast w]"

definition get_be :: "u8 list \<Rightarrow> 'w::len word" where
  "get_be bs = foldl (\<lambda>a b. push_bit 8 a OR ucast b) 0 bs"

lemma length_put_be [simp]: "length (put_be n w) = n"
  by (induction n arbitrary: w) auto

lemma get_be_snoc [simp]: "get_be (bs @ [b]) = push_bit 8 (get_be bs) OR ucast b"
  by (simp add: get_be_def)

lemma get_be_Nil [simp]: "get_be [] = 0"
  by (simp add: get_be_def)

lemma bit_u8_less: "bit (b :: u8) n \<Longrightarrow> n < 8"
  using bit_imp_le_length [of b n] by simp

lemma get_be_put_be: "get_be (put_be n w) = take_bit (8 * n) w"
proof (induction n arbitrary: w)
  case (Suc n)
  show ?case by (simp add: Suc) (auto simp: bit_eq_iff bit_simps)
qed simp

lemma get_be_bound:
  "get_be bs = (take_bit (8 * length bs) (get_be bs) :: 'w::len word)"
proof (induction bs rule: rev_induct)
  case (snoc b bs)
  show ?case
  proof (rule bit_word_eqI)
    fix n assume n: "n < LENGTH('w)"
    have "bit (get_be bs :: 'w word) (n - 8) \<Longrightarrow> n - 8 < 8 * length bs"
      by (subst (asm) snoc) (simp add: bit_simps)
    then show "bit (get_be (bs @ [b]) :: 'w word) n =
        bit (take_bit (8 * length (bs @ [b])) (get_be (bs @ [b]) :: 'w word)) n"
      using n by (auto simp: bit_simps dest: bit_u8_less)
  qed
qed simp

lemma put_be_get_be:
  "8 * length bs \<le> LENGTH('w::len) \<Longrightarrow> put_be (length bs) (get_be bs :: 'w word) = bs"
proof (induction bs rule: rev_induct)
  case (snoc b bs)
  let ?g = "get_be bs :: 'w word"
  have b: "bit ?g n \<Longrightarrow> n < 8 * length bs" for n
    by (subst (asm) get_be_bound) (simp add: bit_simps)
  have "drop_bit 8 (push_bit 8 ?g OR ucast b) = ?g"
    by (rule bit_word_eqI) (use b snoc.prems in \<open>fastforce simp: bit_simps dest: bit_u8_less\<close>)
  moreover have "(ucast (push_bit 8 ?g OR ucast b) :: u8) = b"
    by (rule bit_word_eqI) (use snoc.prems in \<open>auto simp: bit_simps\<close>)
  ultimately show ?case using snoc by simp
qed simp

section \<open>Frames\<close>

definition Magic0 :: u8 where "Magic0 = 0x56"
definition Magic1 :: u8 where "Magic1 = 0x53"
definition Version :: u8 where "Version = 1"
definition HeaderSize :: nat where "HeaderSize = 24"
definition MaxPayload :: nat where "MaxPayload = 64 * 1024"

datatype io_error = EOF | UnexpectedEOF | IoError nat

datatype frame_error =
    ErrShortHeader
  | ErrBadMagic
  | ErrVersion u8
  | ErrPayloadTooLarge nat
  | ErrFrameLength nat nat
  | ErrTrailing
  | ErrNotBinary
  | ErrRead io_error

record Frame =
  frame_type :: u32
  frame_seq :: u64
  frame_ts :: u64
  frame_payload :: "u8 list"

definition Frame_EncodedLen :: "Frame \<Rightarrow> nat" where
  "Frame_EncodedLen f = HeaderSize + length (frame_payload f)"

definition encodeHeader :: "Frame \<Rightarrow> u8 list" where
  "encodeHeader f = [Magic0, Magic1, Version, ucast (frame_type f)] @ put_be 8 (frame_seq f) @
     put_be 8 (frame_ts f) @ put_be 4 (word_of_nat (length (frame_payload f)) :: u32)"

definition AppendBinary :: "Frame \<Rightarrow> u8 list \<Rightarrow> frame_error + u8 list" where
  "AppendBinary f bs =
     (if length (frame_payload f) > MaxPayload then Inl (ErrPayloadTooLarge (length (frame_payload f)))
      else Inr ((bs @ encodeHeader f) @ frame_payload f))"

definition MarshalBinary :: "Frame \<Rightarrow> frame_error + u8 list" where
  "MarshalBinary f = AppendBinary f []"

definition subslice :: "'a list \<Rightarrow> nat \<Rightarrow> nat \<Rightarrow> 'a list" where
  "subslice bs a b = take (b - a) (drop a bs)"

definition decodeHeader :: "u8 list \<Rightarrow> frame_error + Frame \<times> nat" where
  "decodeHeader hdr =
     (if length hdr < HeaderSize then Inl ErrShortHeader
      else if hdr ! 0 \<noteq> Magic0 \<or> hdr ! 1 \<noteq> Magic1 then Inl ErrBadMagic
      else if hdr ! 2 \<noteq> Version then Inl (ErrVersion (hdr ! 2))
      else let n = unat (get_be (subslice hdr 20 24) :: u32) in
        if n > MaxPayload then Inl (ErrPayloadTooLarge n)
        else Inr (\<lparr>frame_type = ucast (hdr ! 3), frame_seq = get_be (subslice hdr 4 12),
                    frame_ts = get_be (subslice hdr 12 20), frame_payload = []\<rparr>, n))"

definition Decode :: "u8 list \<Rightarrow> frame_error + Frame" where
  "Decode bs =
     (case decodeHeader bs of
        Inl e \<Rightarrow> Inl e
      | Inr (f, n) \<Rightarrow>
          if length bs \<noteq> HeaderSize + n then Inl (ErrFrameLength n (length bs - HeaderSize))
          else Inr (f\<lparr>frame_payload := subslice bs HeaderSize (HeaderSize + n)\<rparr>))"

lemmas frame_consts = Magic0_def Magic1_def Version_def HeaderSize_def MaxPayload_def

lemma length_encodeHeader [simp]: "length (encodeHeader f) = HeaderSize"
  by (simp add: encodeHeader_def HeaderSize_def)

lemma subslice_append_right: "length xs = a \<Longrightarrow> subslice (xs @ ys) a b = take (b - a) ys"
  by (simp add: subslice_def)

lemma header_fields:
  fixes f :: Frame
  shows "subslice (encodeHeader f @ p) 4 12 = put_be 8 (frame_seq f)"
    and "subslice (encodeHeader f @ p) 12 20 = put_be 8 (frame_ts f)"
    and "subslice (encodeHeader f @ p) 20 24 = put_be 4 (word_of_nat (length (frame_payload f)) :: u32)"
    and "(encodeHeader f @ p) ! 0 = Magic0" "(encodeHeader f @ p) ! 1 = Magic1"
    and "(encodeHeader f @ p) ! 2 = Version" "(encodeHeader f @ p) ! 3 = ucast (frame_type f)"
  by (simp_all add: encodeHeader_def subslice_def del: put_be.simps)

lemma decodeHeader_encode:
  assumes "length (frame_payload f) \<le> MaxPayload"
  shows "decodeHeader (encodeHeader f @ p) =
    Inr (f\<lparr>frame_type := ucast (ucast (frame_type f) :: u8), frame_payload := []\<rparr>, length (frame_payload f))"
proof -
  have "unat (word_of_nat (length (frame_payload f)) :: u32) = length (frame_payload f)"
    using assms by (simp add: unat_of_nat MaxPayload_def)
  moreover have "get_be (put_be 4 w) = w" for w :: u32
    by (rule bit_word_eqI) (simp add: get_be_put_be bit_simps)
  moreover have "get_be (put_be 8 w) = w" for w :: u64
    by (rule bit_word_eqI) (simp add: get_be_put_be bit_simps)
  ultimately show ?thesis
    using assms by (simp add: decodeHeader_def header_fields Let_def del: put_be.simps)
qed

lemma frame_decodes:
  assumes "length (frame_payload f) \<le> MaxPayload" "unat (frame_type f) < 256"
  shows "\<exists>bs. MarshalBinary f = Inr bs \<and> length bs = Frame_EncodedLen f \<and> Decode bs = Inr f"
proof -
  have "(ucast (ucast (frame_type f) :: u8) :: u32) = take_bit 8 (frame_type f)"
    by (rule bit_word_eqI) (auto simp: bit_simps)
  also have "\<dots> = frame_type f"
    by (rule word_unat_eq_iff [THEN iffD2])
      (use assms(2) in \<open>simp only: unsigned_take_bit_eq\<close>, simp add: take_bit_eq_mod)
  finally show ?thesis
    using assms(1)
    by (simp add: MarshalBinary_def AppendBinary_def Decode_def decodeHeader_encode Frame_EncodedLen_def
        subslice_append_right)
qed

text \<open>
  C18: Encoding and decoding are inverse: a frame whose payload fits and whose type fits the header's
  byte is decoded from its encoding as it was, whatever its sequence number and timestamp.
\<close>

theorem frame_roundtrip:
  assumes "length (frame_payload f) \<le> MaxPayload" "unat (frame_type f) < 256"
  shows "\<exists>bs. MarshalBinary f = Inr bs \<and> length bs = Frame_EncodedLen f \<and> Decode bs = Inr f"
  using assms by (rule frame_decodes)

theorem frame_roundtrip_witness:
  "\<exists>bs. MarshalBinary \<lparr>frame_type = 1, frame_seq = 258, frame_ts = - 1, frame_payload = [7, 8]\<rparr> = Inr bs \<and>
     length bs = 26 \<and> Decode bs = Inr \<lparr>frame_type = 1, frame_seq = 258, frame_ts = - 1, frame_payload = [7, 8]\<rparr>"
  using frame_roundtrip [of "\<lparr>frame_type = 1, frame_seq = 258, frame_ts = - 1, frame_payload = [7, 8]\<rparr>"]
  by (simp add: frame_consts Frame_EncodedLen_def)

section \<open>The encoding is canonical\<close>

lemma decodeHeader_inv:
  assumes "decodeHeader bs = Inr (f, n)"
  shows "24 \<le> length bs" "n \<le> MaxPayload"
    "take 24 bs = [Magic0, Magic1, Version, ucast (frame_type f)] @ put_be 8 (frame_seq f) @
       put_be 8 (frame_ts f) @ put_be 4 (word_of_nat n :: u32)"
proof -
  have h: "24 \<le> length bs" "bs ! 0 = Magic0" "bs ! 1 = Magic1" "bs ! 2 = Version"
    "n = unat (get_be (subslice bs 20 24) :: u32)" "n \<le> MaxPayload"
    "f = \<lparr>frame_type = ucast (bs ! 3), frame_seq = get_be (subslice bs 4 12),
          frame_ts = get_be (subslice bs 12 20), frame_payload = []\<rparr>"
    using assms by (auto simp: decodeHeader_def HeaderSize_def Let_def split: if_splits)
  show "24 \<le> length bs" "n \<le> MaxPayload" by (fact h)+
  have "put_be 8 (get_be (subslice bs a (a + 8)) :: u64) = subslice bs a (a + 8)" if "a + 8 \<le> 24" for a
    using put_be_get_be [of "subslice bs a (a + 8)", where 'w = 64] that h(1)
    by (simp add: subslice_def del: put_be.simps)
  from this [of 4] this [of 12] have b8: "put_be 8 (frame_seq f) = subslice bs 4 12" "put_be 8 (frame_ts f) = subslice bs 12 20"
    by (simp_all add: h(7) del: put_be.simps)
  have b4: "put_be 4 (word_of_nat n :: u32) = subslice bs 20 24"
    using put_be_get_be [of "subslice bs 20 24", where 'w = 32] h(1) by (simp add: h(5) subslice_def del: put_be.simps)
  have b1: "ucast (frame_type f) = bs ! 3"
    by (rule bit_word_eqI) (auto simp: h(7) bit_simps)
  have "take 24 bs = take 4 bs @ subslice bs 4 12 @ subslice bs 12 20 @ subslice bs 20 24"
    using h(1) by (intro nth_equalityI) (auto simp: subslice_def nth_append)
  moreover have "take 4 bs = map ((!) bs) [0..<4]"
    using h(1) by (intro nth_equalityI) auto
  then have "take 4 bs = [bs ! 0, bs ! 1, bs ! 2, bs ! 3]"
    by (simp add: upt_rec numeral_eq_Suc One_nat_def)
  ultimately show "take 24 bs = [Magic0, Magic1, Version, ucast (frame_type f)] @ put_be 8 (frame_seq f) @
       put_be 8 (frame_ts f) @ put_be 4 (word_of_nat n :: u32)"
    by (simp add: b8 b4 b1 h(2-4) del: put_be.simps)
qed

text \<open>
  \<open>Decode\<close> accepts only the encodings \<open>MarshalBinary\<close> produces: from every message it accepts,
  encoding the frame gives back the same bytes, so no two messages decode to the same frame.
\<close>

theorem frame_decode_canonical:
  assumes "Decode bs = Inr f"
  shows "MarshalBinary f = Inr bs"
proof -
  from assms obtain f0 n where h: "decodeHeader bs = Inr (f0, n)" "length bs = HeaderSize + n"
    "f = f0\<lparr>frame_payload := subslice bs HeaderSize (HeaderSize + n)\<rparr>"
    by (auto simp: Decode_def split: sum.splits prod.splits if_splits)
  note inv = decodeHeader_inv [OF h(1)]
  have p: "frame_payload f = drop 24 bs" "length (frame_payload f) = n"
    using h(2,3) by (simp_all add: subslice_def HeaderSize_def)
  have "encodeHeader f = take 24 bs"
    unfolding inv(3) encodeHeader_def p(2) by (simp add: h(3) del: put_be.simps)
  with p inv(2) show ?thesis by (simp add: MarshalBinary_def AppendBinary_def)
qed

theorem frame_decode_canonical_witness:
  "MarshalBinary \<lparr>frame_type = 2, frame_seq = 1, frame_ts = 0, frame_payload = []\<rparr> =
     Inr [0x56, 0x53, 1, 2, 0, 0, 0, 0, 0, 0, 0, 1, 0, 0, 0, 0, 0, 0, 0, 0, 0, 0, 0, 0]"
proof (rule frame_decode_canonical)
  show "Decode [0x56, 0x53, 1, 2, 0, 0, 0, 0, 0, 0, 0, 1, 0, 0, 0, 0, 0, 0, 0, 0, 0, 0, 0, 0] =
      Inr \<lparr>frame_type = 2, frame_seq = 1, frame_ts = 0, frame_payload = []\<rparr>"
    by (simp add: Decode_def decodeHeader_def frame_consts subslice_def get_be_def)
qed

section \<open>Reading frames from a connection\<close>

text \<open>
  A WebSocket message as \<open>Conn.Reader\<close> hands it out: whether it is binary, the bytes that arrive, and
  the error the reader reports after them (\<open>EOF\<close> for a message received whole). How the library
  delivers the bytes in pieces is invisible to \<open>io.ReadFull\<close>.
\<close>

record message =
  msg_binary :: bool
  msg_bytes :: "u8 list"
  msg_end :: io_error

definition ReadFull :: "nat \<Rightarrow> message \<Rightarrow> io_error + u8 list \<times> message" where
  "ReadFull n m =
     (if n \<le> length (msg_bytes m) then Inr (take n (msg_bytes m), m\<lparr>msg_bytes := drop n (msg_bytes m)\<rparr>)
      else if msg_bytes m \<noteq> [] \<and> msg_end m = EOF then Inl UnexpectedEOF
      else Inl (msg_end m))"

text \<open>\<open>Conn.Read\<close> reads the whole message before it returns.\<close>

definition wsConn_ReadFrame :: "io_error + message \<Rightarrow> frame_error + Frame" where
  "wsConn_ReadFrame r =
     (case r of
        Inl e \<Rightarrow> Inl (ErrRead e)
      | Inr m \<Rightarrow>
          if msg_end m \<noteq> EOF then Inl (ErrRead (msg_end m))
          else if \<not> msg_binary m then Inl ErrNotBinary
          else Decode (msg_bytes m))"

text \<open>A destination of \<open>n\<close> bytes: the caller's buffer if its capacity allows, else a fresh one.\<close>

definition dst_for :: "buf \<Rightarrow> nat \<Rightarrow> buf" where
  "dst_for dst n = (if buf_cap dst < n then reslice (make_buf n) n else reslice dst n)"

lemma dst_for_simps [simp]: "buf_len (dst_for dst n) = n" "buf_cap (dst_for dst n) = max (buf_cap dst) n"
  by (simp_all add: dst_for_def)

text \<open>\<open>io.ReadFull(r, dst)\<close> overwrites \<open>dst\<close> from its start with what arrives, even when it fails.\<close>

definition read_into :: "buf \<Rightarrow> u8 list \<Rightarrow> buf" where
  "read_into dst bs = dst\<lparr>buf_arr := take (buf_len dst) bs @ drop (min (buf_len dst) (length bs)) (buf_arr dst)\<rparr>"

definition wsConn_ReadFrameInto :: "io_error + message \<Rightarrow> buf \<Rightarrow> (frame_error + Frame) \<times> buf" where
  "wsConn_ReadFrameInto r dst =
     (case r of
        Inl e \<Rightarrow> (Inl (ErrRead e), dst)
      | Inr m \<Rightarrow>
          if \<not> msg_binary m then (Inl ErrNotBinary, dst)
          else case ReadFull HeaderSize m of
            Inl e \<Rightarrow> (Inl (ErrRead e), dst)
          | Inr (hdr, m1) \<Rightarrow>
              (case decodeHeader hdr of
                 Inl e \<Rightarrow> (Inl e, dst)
               | Inr (f, n) \<Rightarrow>
                   let dst2 = read_into (dst_for dst n) (msg_bytes m1) in
                   case ReadFull n m1 of
                     Inl e \<Rightarrow> (Inl (ErrRead e), dst2)
                   | Inr (_, m2) \<Rightarrow>
                       (case ReadFull 1 m2 of
                          Inr _ \<Rightarrow> (Inl ErrTrailing, dst2)
                        | Inl e \<Rightarrow>
                            if e \<noteq> EOF then (Inl (ErrRead e), dst2)
                            else (Inr (f\<lparr>frame_payload := buf_data dst2\<rparr>), dst2))))"

lemma read_into_simps [simp]:
  "buf_len (read_into b bs) = buf_len b"
  "buf_len b \<le> buf_cap b \<Longrightarrow> buf_cap (read_into b bs) = buf_cap b"
  "buf_len b \<le> length bs \<Longrightarrow> buf_data (read_into b bs) = take (buf_len b) bs"
  by (auto simp: read_into_def buf_cap_def buf_data_def)

lemma decodeHeader_take: "24 \<le> length bs \<Longrightarrow> decodeHeader (take 24 bs) = decodeHeader bs"
  by (simp add: decodeHeader_def HeaderSize_def subslice_def drop_take Let_def)

text \<open>What a successful pooled read says of the message.\<close>

lemma ReadFrameInto_success:
  assumes "wsConn_ReadFrameInto (Inr m) dst = (Inr f, dst')" "buf_len dst \<le> buf_cap dst"
  shows "msg_binary m" "msg_end m = EOF" "Decode (msg_bytes m) = Inr f" "buf_data dst' = frame_payload f"
    "buf_cap dst' = max (buf_cap dst) (length (frame_payload f))"
proof -
  let ?bs = "msg_bytes m"
  have bin: "msg_binary m" using assms(1) by (simp add: wsConn_ReadFrameInto_def split: if_splits)
  have len: "24 \<le> length ?bs"
    using assms(1) bin by (auto simp: wsConn_ReadFrameInto_def ReadFull_def HeaderSize_def split: if_splits)
  obtain f0 n where h: "decodeHeader ?bs = Inr (f0, n)"
    using assms(1) bin len
    by (auto simp: wsConn_ReadFrameInto_def ReadFull_def HeaderSize_def decodeHeader_take split: sum.splits)
  let ?d2 = "read_into (dst_for dst n) (drop 24 ?bs)"
  have rest: "n \<le> length (drop 24 ?bs)" "drop n (drop 24 ?bs) = []" "msg_end m = EOF"
    "f = f0\<lparr>frame_payload := buf_data ?d2\<rparr>" "dst' = ?d2"
    using assms(1) bin len h
    by (auto simp: wsConn_ReadFrameInto_def ReadFull_def HeaderSize_def decodeHeader_take Let_def split: if_splits)
  have n: "length ?bs = 24 + n" using rest(1,2) len by simp
  have data: "buf_data ?d2 = drop 24 ?bs"
    using rest(1,2) n by simp
  have "subslice ?bs 24 (24 + n) = drop 24 ?bs" using n by (simp add: subslice_def)
  with h n data rest(4) show "Decode ?bs = Inr f" by (simp add: Decode_def HeaderSize_def)
  show "msg_binary m" "msg_end m = EOF" by (fact bin, fact rest(3))
  show "buf_data dst' = frame_payload f" by (simp add: rest(4,5))
  show "buf_cap dst' = max (buf_cap dst) (length (frame_payload f))"
    unfolding rest(5) using n by (simp add: rest(4) data)
qed

lemma ReadFrameInto_complete:
  assumes "msg_binary m" "msg_end m = EOF" "Decode (msg_bytes m) = Inr f"
  shows "\<exists>dst'. wsConn_ReadFrameInto (Inr m) dst = (Inr f, dst')"
proof -
  let ?bs = "msg_bytes m"
  from assms(3) obtain f0 n where h: "decodeHeader ?bs = Inr (f0, n)" "length ?bs = HeaderSize + n"
    "f = f0\<lparr>frame_payload := subslice ?bs HeaderSize (HeaderSize + n)\<rparr>"
    by (auto simp: Decode_def split: sum.splits prod.splits if_splits)
  have len: "24 \<le> length ?bs" "length ?bs - 24 = n" using h(2) by (simp_all add: HeaderSize_def)
  have "buf_data (read_into (dst_for dst n) (drop 24 ?bs)) = drop 24 ?bs"
    using len by simp
  moreover have "subslice ?bs 24 (24 + n) = drop 24 ?bs" using len by (simp add: subslice_def)
  ultimately show ?thesis
    using assms(1,2) h(1,3) len
    by (auto simp: wsConn_ReadFrameInto_def ReadFull_def HeaderSize_def decodeHeader_take Let_def)
qed

text \<open>
  C25: The pooled read and the plain read agree: on every outcome of the connection and every buffer,
  \<open>ReadFrameInto\<close> returns a frame exactly when \<open>ReadFrame\<close> does, and then the same one; its payload
  is the returned buffer, which is the caller's unless it was too small.
\<close>

theorem frame_pooled_read_agrees:
  assumes "buf_len dst \<le> buf_cap dst"
  shows "(\<exists>dst'. wsConn_ReadFrameInto r dst = (Inr f, dst') \<and> buf_data dst' = frame_payload f \<and>
           buf_cap dst' = max (buf_cap dst) (length (frame_payload f)))
    \<longleftrightarrow> wsConn_ReadFrame r = Inr f"
proof (cases r)
  case (Inl e)
  then show ?thesis by (simp add: wsConn_ReadFrameInto_def wsConn_ReadFrame_def)
next
  case (Inr m)
  show ?thesis
  proof
    assume "\<exists>dst'. wsConn_ReadFrameInto r dst = (Inr f, dst') \<and> buf_data dst' = frame_payload f \<and>
        buf_cap dst' = max (buf_cap dst) (length (frame_payload f))"
    then obtain dst' where "wsConn_ReadFrameInto (Inr m) dst = (Inr f, dst')" using Inr by blast
    from ReadFrameInto_success [OF this assms] Inr show "wsConn_ReadFrame r = Inr f"
      by (simp add: wsConn_ReadFrame_def)
  next
    assume "wsConn_ReadFrame r = Inr f"
    with Inr have m: "msg_binary m" "msg_end m = EOF" "Decode (msg_bytes m) = Inr f"
      by (auto simp: wsConn_ReadFrame_def split: if_splits)
    from ReadFrameInto_complete [OF m, of dst] obtain dst' where
      "wsConn_ReadFrameInto (Inr m) dst = (Inr f, dst')" by blast
    with ReadFrameInto_success [OF this assms] Inr
    show "\<exists>dst'. wsConn_ReadFrameInto r dst = (Inr f, dst') \<and> buf_data dst' = frame_payload f \<and>
        buf_cap dst' = max (buf_cap dst) (length (frame_payload f))" by blast
  qed
qed

theorem frame_pooled_read_agrees_witness:
  "\<exists>dst'. wsConn_ReadFrameInto (Inr \<lparr>msg_binary = True, msg_bytes = [0x56, 0x53, 1, 2, 0, 0, 0, 0, 0, 0, 0, 0, 0, 0, 0, 0, 0, 0, 0, 0, 0, 0, 0, 1, 9],
       msg_end = EOF\<rparr>) (make_buf 4) =
     (Inr \<lparr>frame_type = 2, frame_seq = 0, frame_ts = 0, frame_payload = [9]\<rparr>, dst') \<and>
     buf_data dst' = [9] \<and> buf_cap dst' = 4"
proof -
  let ?r = "Inr \<lparr>msg_binary = True, msg_bytes = [0x56, 0x53, 1, 2, 0, 0, 0, 0, 0, 0, 0, 0, 0, 0, 0, 0, 0, 0, 0, 0, 0, 0, 0, 1, 9], msg_end = EOF\<rparr>
    :: io_error + message"
  have "wsConn_ReadFrame ?r = Inr \<lparr>frame_type = 2, frame_seq = 0, frame_ts = 0, frame_payload = [9]\<rparr>"
    by (simp add: wsConn_ReadFrame_def Decode_def decodeHeader_def frame_consts subslice_def get_be_def)
  from frame_pooled_read_agrees [THEN iffD2, OF _ this, of "make_buf 4"] show ?thesis by simp
qed

text \<open>\<open>WriteFrame\<close> encodes into the connection's scratch buffer and keeps what it has grown to.\<close>

record wsConn =
  ws_scratch :: "u8 list"

definition wsConn_WriteFrame :: "wsConn \<Rightarrow> Frame \<Rightarrow> frame_error + wsConn \<times> u8 list" where
  "wsConn_WriteFrame w f =
     (case AppendBinary f (take 0 (ws_scratch w)) of
        Inl e \<Rightarrow> Inl e
      | Inr bs \<Rightarrow> Inr (w\<lparr>ws_scratch := bs\<rparr>, bs))"

lemma wsConn_WriteFrame_marshal:
  "wsConn_WriteFrame w f = (case MarshalBinary f of Inl e \<Rightarrow> Inl e | Inr bs \<Rightarrow> Inr (w\<lparr>ws_scratch := bs\<rparr>, bs))"
  by (simp add: wsConn_WriteFrame_def MarshalBinary_def)

declare One_nat_def [simp]

end
