(* ===== verification/Config.thy ===== *)
theory Config
  imports Ringbuf
begin

text \<open>
  The configuration of \<open>internal/config\<close>: the records of \<open>config.go\<close>, the defaults, the overrides
  from the environment, \<open>Validate\<close>, and the \<open>.env\<close> reader of \<open>dotenv.go\<close>. A Go string is the list of
  its bytes, \<open>float64\<close> is \<open>real\<close> (no rounding, no NaN), a duration counts nanoseconds. The YAML
  decoder and the text of the default system prompt are parameters.
\<close>

section \<open>Data\<close>

record ServerConfig =
  sc_Addr :: string
  sc_HeartbeatPeriod :: duration
  sc_StaticDir :: string

record AudioConfig =
  au_SampleRate :: int
  au_FrameDuration :: duration
  au_Channels :: int
  au_BitsPerSample :: int

record RingBufConfig =
  rb_IngressCapacity :: int
  rb_EgressCapacity :: int
  rb_IngressPolicy :: string
  rb_EgressPolicy :: string

record PipelineConfig =
  pc_TokenChanCap :: int
  pc_TranscriptChanCap :: int
  pc_AudioChanCap :: int

record VADConfig =
  vc_EnergyThreshold :: real
  vc_ExitThreshold :: real
  vc_MinSpeech :: duration
  vc_Hangover :: duration

record SessionConfig =
  se_IdleTimeout :: duration

record MockAdaptersConfig =
  mk_ASRFinalDelay :: duration
  mk_LLMTokenDelay :: duration
  mk_LLMTokenJitter :: duration
  mk_TTSFrameDelay :: duration

record CloudLLMConfig =
  cl_BaseURL :: string
  cl_Model :: string
  cl_APIKeyEnv :: string
  cl_SystemPrompt :: string

record SherpaConfig =
  sh_ASRURL :: string
  sh_TTSURL :: string
  sh_TTSSpeakerID :: int
  sh_TTSSpeed :: real
  sh_ASRSilenceTailMs :: int
  sh_ASRFinalWaitMs :: int

record OpenAITTSConfig =
  ot_BaseURL :: string
  ot_Model :: string
  ot_Voice :: string
  ot_Format :: string
  ot_Speed :: real
  ot_SampleRate :: int
  ot_APIKeyEnv :: string

record AdaptersConfig =
  ad_ASR :: string
  ad_LLM :: string
  ad_TTS :: string
  ad_CloudLLM :: CloudLLMConfig
  ad_Sherpa :: SherpaConfig
  ad_OpenAITTS :: OpenAITTSConfig
  ad_Mock :: MockAdaptersConfig

record PeripheralsConfig =
  pe_RedisEnabled :: bool
  pe_RedisAddr :: string
  pe_KafkaEnabled :: bool
  pe_KafkaBrokers :: string

record Config =
  cf_Server :: ServerConfig
  cf_Audio :: AudioConfig
  cf_RingBuf :: RingBufConfig
  cf_Pipeline :: PipelineConfig
  cf_VAD :: VADConfig
  cf_Session :: SessionConfig
  cf_Adapters :: AdaptersConfig
  cf_Peripherals :: PeripheralsConfig

section \<open>Defaults\<close>

definition Default :: "string \<Rightarrow> Config" where
  "Default defaultSystemPrompt =
     \<lparr>cf_Server = \<lparr>sc_Addr = '':8080'', sc_HeartbeatPeriod = 10 * Second, sc_StaticDir = ''web''\<rparr>,
      cf_Audio = \<lparr>au_SampleRate = 16000, au_FrameDuration = 20 * Millisecond, au_Channels = 1,
                  au_BitsPerSample = 16\<rparr>,
      cf_RingBuf = \<lparr>rb_IngressCapacity = 64, rb_EgressCapacity = 64,
                    rb_IngressPolicy = ''drop_oldest'', rb_EgressPolicy = ''drop_oldest''\<rparr>,
      cf_Pipeline = \<lparr>pc_TokenChanCap = 32, pc_TranscriptChanCap = 2, pc_AudioChanCap = 8\<rparr>,
      cf_VAD = \<lparr>vc_EnergyThreshold = 1 / 100, vc_ExitThreshold = 5 / 1000,
                vc_MinSpeech = 100 * Millisecond, vc_Hangover = 300 * Millisecond\<rparr>,
      cf_Session = \<lparr>se_IdleTimeout = 60 * Second\<rparr>,
      cf_Adapters = \<lparr>ad_ASR = ''mock'', ad_LLM = ''mock'', ad_TTS = ''mock'',
        ad_CloudLLM = \<lparr>cl_BaseURL = ''https://api.deepseek.com/v1'', cl_Model = ''deepseek-chat'',
                       cl_APIKeyEnv = ''VOICESTREAM_LLM_API_KEY'', cl_SystemPrompt = defaultSystemPrompt\<rparr>,
        ad_Sherpa = \<lparr>sh_ASRURL = ''ws://127.0.0.1:8000/asr'', sh_TTSURL = ''ws://127.0.0.1:8000/tts'',
                     sh_TTSSpeakerID = 0, sh_TTSSpeed = 1, sh_ASRSilenceTailMs = 1500,
                     sh_ASRFinalWaitMs = 4000\<rparr>,
        ad_OpenAITTS = \<lparr>ot_BaseURL = '''', ot_Model = '''', ot_Voice = ''alloy'', ot_Format = ''pcm'',
                        ot_Speed = 1, ot_SampleRate = 0, ot_APIKeyEnv = ''VOICESTREAM_TTS_API_KEY''\<rparr>,
        ad_Mock = \<lparr>mk_ASRFinalDelay = 0, mk_LLMTokenDelay = 0, mk_LLMTokenJitter = 0,
                   mk_TTSFrameDelay = 0\<rparr>\<rparr>,
      cf_Peripherals = \<lparr>pe_RedisEnabled = False, pe_RedisAddr = '''', pe_KafkaEnabled = False,
                        pe_KafkaBrokers = ''''\<rparr>\<rparr>"

section \<open>Validation\<close>

datatype config_error =
    AddrEmpty
  | SampleRateNotPositive int
  | ChannelsNotPositive int
  | IngressCapacityNotPow2 int
  | EgressCapacityNotPow2 int
  | IngressPolicyBad ring_error
  | ChanCapsNotPositive PipelineConfig
  | EgressPolicyBad ring_error
  | HangoverTooShort duration duration
  | ExitThresholdBad real real
  | IdleTimeoutNotPositive duration
  | MockDelaysNegative MockAdaptersConfig
  | ReadConfig string
  | ParseConfig string

definition isPowerOfTwo :: "int \<Rightarrow> bool" where
  "isPowerOfTwo n \<longleftrightarrow> n > 0 \<and> n AND (n - 1) = 0"

definition parse_policy_error :: "string \<Rightarrow> ring_error option" where
  "parse_policy_error s = (case ParsePolicy s of Inl e \<Rightarrow> Some e | Inr _ \<Rightarrow> None)"

text \<open>\<open>None\<close> is a nil error.\<close>

definition Validate :: "Config \<Rightarrow> config_error option" where
  "Validate c =
     (if sc_Addr (cf_Server c) = '''' then Some AddrEmpty
      else if au_SampleRate (cf_Audio c) \<le> 0 then Some (SampleRateNotPositive (au_SampleRate (cf_Audio c)))
      else if au_Channels (cf_Audio c) \<le> 0 then Some (ChannelsNotPositive (au_Channels (cf_Audio c)))
      else if \<not> isPowerOfTwo (rb_IngressCapacity (cf_RingBuf c)) then
        Some (IngressCapacityNotPow2 (rb_IngressCapacity (cf_RingBuf c)))
      else if \<not> isPowerOfTwo (rb_EgressCapacity (cf_RingBuf c)) then
        Some (EgressCapacityNotPow2 (rb_EgressCapacity (cf_RingBuf c)))
      else case parse_policy_error (rb_IngressPolicy (cf_RingBuf c)) of
        Some e \<Rightarrow> Some (IngressPolicyBad e)
      | None \<Rightarrow>
      if pc_TokenChanCap (cf_Pipeline c) \<le> 0 \<or> pc_TranscriptChanCap (cf_Pipeline c) \<le> 0 \<or>
          pc_AudioChanCap (cf_Pipeline c) \<le> 0 then Some (ChanCapsNotPositive (cf_Pipeline c))
      else case parse_policy_error (rb_EgressPolicy (cf_RingBuf c)) of
        Some e \<Rightarrow> Some (EgressPolicyBad e)
      | None \<Rightarrow>
      if vc_Hangover (cf_VAD c) < vc_MinSpeech (cf_VAD c) then
        Some (HangoverTooShort (vc_Hangover (cf_VAD c)) (vc_MinSpeech (cf_VAD c)))
      else if vc_ExitThreshold (cf_VAD c) \<le> 0 \<or> vc_ExitThreshold (cf_VAD c) > vc_EnergyThreshold (cf_VAD c) then
        Some (ExitThresholdBad (vc_ExitThreshold (cf_VAD c)) (vc_EnergyThreshold (cf_VAD c)))
      else if se_IdleTimeout (cf_Session c) \<le> 0 then
        Some (IdleTimeoutNotPositive (se_IdleTimeout (cf_Session c)))
      else let m = ad_Mock (cf_Adapters c) in
        if mk_ASRFinalDelay m < 0 \<or> mk_LLMTokenDelay m < 0 \<or> mk_LLMTokenJitter m < 0 \<or> mk_TTSFrameDelay m < 0
        then Some (MockDelaysNegative m)
        else None)"

section \<open>Environment overrides and loading\<close>

type_synonym env = "string \<Rightarrow> string option"

text \<open>\<open>os.Getenv\<close>: the empty string for an unset variable.\<close>

definition Getenv :: "env \<Rightarrow> string \<Rightarrow> string" where
  "Getenv e k = (case e k of None \<Rightarrow> '''' | Some v \<Rightarrow> v)"

definition is_digit :: "char \<Rightarrow> bool" where
  "is_digit c \<longleftrightarrow> 48 \<le> (of_char c :: nat) \<and> (of_char c :: nat) \<le> 57"

text \<open>\<open>strconv.Atoi\<close>: an optional sign and decimal digits, in the range of \<open>int\<close>.\<close>

definition digits_value :: "string \<Rightarrow> int option" where
  "digits_value s = (if s = '''' \<or> \<not> list_all is_digit s then None
     else Some (foldl (\<lambda>a c. 10 * a + int (of_char c - 48)) 0 s))"

definition in_int_range :: "int \<Rightarrow> int option" where
  "in_int_range n = (if - (2 ^ 63) \<le> n \<and> n < 2 ^ 63 then Some n else None)"

definition Atoi :: "string \<Rightarrow> int option" where
  "Atoi s = Option.bind
     (case s of [] \<Rightarrow> None
      | c # cs \<Rightarrow> if c = CHR ''-'' then map_option uminus (digits_value cs)
                  else if c = CHR ''+'' then digits_value cs else digits_value s) in_int_range"

definition applyEnvOverrides :: "env \<Rightarrow> Config \<Rightarrow> Config" where
  "applyEnvOverrides e c =
     (let v = Getenv e ''VOICESTREAM_ADDR'';
          c1 = (if v \<noteq> '''' then c\<lparr>cf_Server := (cf_Server c)\<lparr>sc_Addr := v\<rparr>\<rparr> else c);
          w = Getenv e ''VOICESTREAM_REDIS_ADDR'';
          c2 = (if w \<noteq> '''' then
                  c1\<lparr>cf_Peripherals := (cf_Peripherals c1)\<lparr>pe_RedisEnabled := True, pe_RedisAddr := w\<rparr>\<rparr> else c1);
          r = Getenv e ''VOICESTREAM_SAMPLE_RATE'' in
      if r \<noteq> '''' then
        (case Atoi r of None \<Rightarrow> c2
         | Some n \<Rightarrow> c2\<lparr>cf_Audio := (cf_Audio c2)\<lparr>au_SampleRate := n\<rparr>\<rparr>)
      else c2)"

text \<open>\<open>yaml\<close> decodes a document over a configuration; \<open>file\<close> is what reading the file gave.\<close>

definition Load :: "string \<Rightarrow> (string \<Rightarrow> Config \<Rightarrow> string + Config) \<Rightarrow> env \<Rightarrow> string + string \<Rightarrow> config_error + Config" where
  "Load prompt yaml e file =
     (case file of
        Inl err \<Rightarrow> Inl (ReadConfig err)
      | Inr data \<Rightarrow>
         (case yaml data (Default prompt) of
            Inl err \<Rightarrow> Inl (ParseConfig err)
          | Inr cfg \<Rightarrow>
             let c = applyEnvOverrides e cfg in
             case Validate c of Some err \<Rightarrow> Inl err | None \<Rightarrow> Inr c))"

section \<open>What a valid configuration guarantees\<close>

lemma isPowerOfTwo_iff: "isPowerOfTwo n \<longleftrightarrow> (\<exists>k. n = 2 ^ k)"
  by (cases "0 < n") (auto simp: isPowerOfTwo_def and_pred_zero_iff_pow2)

lemma Validate_D:
  assumes "Validate c = None"
  shows "isPowerOfTwo (rb_IngressCapacity (cf_RingBuf c))" "isPowerOfTwo (rb_EgressCapacity (cf_RingBuf c))"
    "\<exists>p. ParsePolicy (rb_IngressPolicy (cf_RingBuf c)) = Inr p"
    "\<exists>p. ParsePolicy (rb_EgressPolicy (cf_RingBuf c)) = Inr p"
    "0 < pc_TokenChanCap (cf_Pipeline c)" "0 < pc_TranscriptChanCap (cf_Pipeline c)"
    "0 < pc_AudioChanCap (cf_Pipeline c)" "vc_MinSpeech (cf_VAD c) \<le> vc_Hangover (cf_VAD c)"
    "0 < vc_ExitThreshold (cf_VAD c)" "vc_ExitThreshold (cf_VAD c) \<le> vc_EnergyThreshold (cf_VAD c)"
    "0 < se_IdleTimeout (cf_Session c)" "0 < au_SampleRate (cf_Audio c)"
  using assms
  by (auto simp: Validate_def parse_policy_error_def Let_def not_le split: if_splits option.splits sum.splits)

text \<open>\<open>ringbuf.New\<close> accepts exactly the capacities \<open>Validate\<close> lets through, as far as \<open>make\<close> has room for them.\<close>

lemma Ring_New_isPowerOfTwo: "(\<exists>r. Ring_New sz z n pol = Inr r) \<longleftrightarrow> isPowerOfTwo n \<and> \<not> make_panics sz n"
  by (auto simp: Ring_New_def isPowerOfTwo_def)

lemma Validate_Default: "Validate (Default prompt) = None"
  by (simp add: Validate_def Default_def isPowerOfTwo_def parse_policy_error_def ParsePolicy_def)

text \<open>
  Whatever the file, the YAML decoder and the environment hold, a configuration that \<open>Load\<close> returns
  passes \<open>Validate\<close>, overrides included: the environment cannot smuggle in a value that the file could
  not have. In particular a sample rate from the environment is either ignored or positive.
\<close>

theorem config_load_valid:
  assumes "Load prompt yaml e file = Inr c"
  shows "Validate c = None \<and> 0 < au_SampleRate (cf_Audio c) \<and>
    (\<forall>n. Atoi (Getenv e ''VOICESTREAM_SAMPLE_RATE'') = Some n \<longrightarrow> au_SampleRate (cf_Audio c) = n) \<and>
    (Getenv e ''VOICESTREAM_ADDR'' \<noteq> '''' \<longrightarrow> sc_Addr (cf_Server c) = Getenv e ''VOICESTREAM_ADDR'')"
proof -
  obtain c0 where v: "Validate c = None" and c: "c = applyEnvOverrides e c0"
    using assms by (auto simp: Load_def Let_def split: sum.splits option.splits)
  have "Atoi '''' = None" by (simp add: Atoi_def)
  then show ?thesis
    using v Validate_D(12) [OF v] by (auto simp: c applyEnvOverrides_def Let_def split: option.splits)
qed

theorem config_load_valid_witness:
  "\<exists>c. Load [] (\<lambda>_ c. Inr c) [''VOICESTREAM_SAMPLE_RATE'' \<mapsto> ''8000''] (Inr []) = Inr c \<and>
     Validate c = None \<and> au_SampleRate (cf_Audio c) = 8000"
proof -
  let ?e = "[''VOICESTREAM_SAMPLE_RATE'' \<mapsto> ''8000''] :: env"
  obtain c where c: "Load [] (\<lambda>_ c. Inr c) ?e (Inr []) = Inr c"
    by (simp add: Load_def applyEnvOverrides_def Getenv_def Atoi_def digits_value_def is_digit_def
        in_int_range_def Default_def Validate_def isPowerOfTwo_def parse_policy_error_def ParsePolicy_def)
  have "Atoi (Getenv ?e ''VOICESTREAM_SAMPLE_RATE'') = Some 8000"
    by (simp add: Getenv_def Atoi_def digits_value_def is_digit_def in_int_range_def)
  with config_load_valid [OF c] c show ?thesis by blast
qed

end
