(* ===== verification/Dotenv.thy ===== *)
theory Dotenv
  imports Config "HOL-Library.Sublist"
begin

text \<open>
  The \<open>.env\<close> reader of \<open>internal/config/dotenv.go\<close>. The process environment is a map; the file is
  the list of lines \<open>bufio.Scanner\<close> yields and the error it stopped with. \<open>strings.TrimSpace\<close> is
  modelled on ASCII white space.
\<close>

section \<open>Parsing a line\<close>

definition is_space :: "char \<Rightarrow> bool" where
  "is_space c \<longleftrightarrow> (let n = (of_char c :: nat) in (9 \<le> n \<and> n \<le> 13) \<or> n = 32)"

definition TrimSpace :: "string \<Rightarrow> string" where
  "TrimSpace s = rev (dropWhile is_space (rev (dropWhile is_space s)))"

definition TrimPrefix :: "string \<Rightarrow> string \<Rightarrow> string" where
  "TrimPrefix s p = (if prefix p s then drop (length p) s else s)"

text \<open>\<open>strings.Cut\<close> at a single character.\<close>

definition Cut :: "string \<Rightarrow> char \<Rightarrow> string \<times> string \<times> bool" where
  "Cut s c = (if c \<in> set s then (takeWhile (\<lambda>x. x \<noteq> c) s, tl (dropWhile (\<lambda>x. x \<noteq> c) s), True)
              else (s, '''', False))"

definition unquote :: "string \<Rightarrow> string" where
  "unquote s =
     (if 2 \<le> length s \<and> (hd s = CHR 0x22 \<or> hd s = CHR 0x27) \<and> last s = hd s
      then butlast (tl s) else s)"

text \<open>What one line contributes: a key and a value, or nothing.\<close>

definition dotenv_line :: "string \<Rightarrow> (string \<times> string) option" where
  "dotenv_line raw =
     (let line = TrimSpace raw in
      if line = '''' \<or> prefix ''#'' line then None
      else case Cut (TrimPrefix line ''export '') CHR ''='' of (key, val, ok) \<Rightarrow>
        if \<not> ok then None
        else let k = TrimSpace key in
          if k = '''' then None else Some (k, unquote (TrimSpace val)))"

section \<open>Loading\<close>

datatype dotenv_error = OpenFailed | ScanFailed | SetenvFailed string

text \<open>\<open>os.Setenv\<close> refuses an empty key, \<open>=\<close> or NUL in the key, and NUL in the value.\<close>

definition Setenv :: "env \<Rightarrow> string \<Rightarrow> string \<Rightarrow> env option" where
  "Setenv e k v =
     (if k = '''' \<or> CHR ''='' \<in> set k \<or> CHR 0x00 \<in> set k \<or> CHR 0x00 \<in> set v then None else Some (e(k \<mapsto> v)))"

fun dotenv_lines :: "env \<Rightarrow> string list \<Rightarrow> bool \<Rightarrow> env \<times> dotenv_error option" where
  "dotenv_lines e [] scan_err = (e, if scan_err then Some ScanFailed else None)"
| "dotenv_lines e (l # ls) scan_err =
     (case dotenv_line l of
        None \<Rightarrow> dotenv_lines e ls scan_err
      | Some (k, v) \<Rightarrow>
          if e k \<noteq> None then dotenv_lines e ls scan_err
          else case Setenv e k v of
            None \<Rightarrow> (e, Some (SetenvFailed k))
          | Some e1 \<Rightarrow> dotenv_lines e1 ls scan_err)"

datatype open_result = NotExist | OpenError | Opened "string list" bool

fun LoadDotEnv :: "env \<Rightarrow> open_result \<Rightarrow> env \<times> dotenv_error option" where
  "LoadDotEnv e NotExist = (e, None)"
| "LoadDotEnv e OpenError = (e, Some OpenFailed)"
| "LoadDotEnv e (Opened ls scan_err) = dotenv_lines e ls scan_err"

section \<open>Properties\<close>

lemma Setenv_cases: "Setenv e k v = Some e1 \<Longrightarrow> e1 = e(k \<mapsto> v)"
  by (simp add: Setenv_def split: if_splits)

lemma dotenv_lines_first:
  "dotenv_lines e ls False = (e', None) \<Longrightarrow>
     e' = map_of (List.map_filter dotenv_line ls) ++ e"
proof (induction ls arbitrary: e)
  case Nil
  then show ?case by (simp add: map_filter_simps)
next
  case (Cons l ls)
  show ?case
  proof (cases "dotenv_line l")
    case None
    with Cons show ?thesis by (simp add: map_filter_simps)
  next
    case (Some kv)
    obtain k v where kv: "kv = (k, v)" by force
    show ?thesis
    proof (cases "e k")
      case None
      then obtain e1 where e1: "Setenv e k v = Some e1" "dotenv_lines e1 ls False = (e', None)"
        using Cons.prems Some kv by (auto split: option.splits)
      have "e' = map_of (List.map_filter dotenv_line ls) ++ e(k \<mapsto> v)"
        using Cons.IH [OF e1(2)] by (simp only: Setenv_cases [OF e1(1)])
      then have "e' = map_of ((k, v) # List.map_filter dotenv_line ls) ++ e"
        by (intro ext) (simp add: None map_add_def split: option.split)
      moreover have "List.map_filter dotenv_line (l # ls) = (k, v) # List.map_filter dotenv_line ls"
        using Some kv by (simp add: map_filter_simps)
      ultimately show ?thesis by (simp only:)
    next
      case (Some w)
      with Cons.prems \<open>dotenv_line l = Some kv\<close> kv have "dotenv_lines e ls False = (e', None)" by simp
      from Cons.IH [OF this] Some \<open>dotenv_line l = Some kv\<close> kv show ?thesis
        by (auto simp: map_filter_simps fun_eq_iff map_add_def split: option.splits)
    qed
  qed
qed

text \<open>
  When \<open>LoadDotEnv\<close> returns no error, the environment is exactly the old one extended by the first
  definition of each variable in the file: a variable that was already set keeps its value, and of
  several lines for a new variable the first one counts.
\<close>

theorem dotenv_real_env_wins:
  assumes "LoadDotEnv e (Opened ls False) = (e', None)"
  shows "e' = (\<lambda>k. case e k of Some v \<Rightarrow> Some v | None \<Rightarrow> map_of (List.map_filter dotenv_line ls) k)"
  using dotenv_lines_first [of e ls e'] assms by (auto simp: fun_eq_iff map_add_def split: option.splits)

theorem dotenv_real_env_wins_witness:
  "fst (LoadDotEnv [''A'' \<mapsto> ''1''] (Opened [''A=2'', ''export B = x'', ''#C=1'', ''B=y''] False)) =
     [''A'' \<mapsto> ''1'', ''B'' \<mapsto> ''x'']"
proof -
  note ev = dotenv_line_def TrimSpace_def is_space_def TrimPrefix_def Cut_def unquote_def Setenv_def
  obtain e' where e': "LoadDotEnv [''A'' \<mapsto> ''1''] (Opened [''A=2'', ''export B = x'', ''#C=1'', ''B=y''] False) = (e', None)"
    by (simp add: ev)
  from dotenv_real_env_wins [OF this] have "e' = [''A'' \<mapsto> ''1'', ''B'' \<mapsto> ''x'']"
    by (auto simp: ev map_filter_simps fun_eq_iff split: option.splits)
  with e' show ?thesis by simp
qed

text \<open>Quotes are removed only in pairs, and only one pair.\<close>

lemma unquote_pair: "q = CHR 0x22 \<or> q = CHR 0x27 \<Longrightarrow> unquote (q # s @ [q]) = s"
  by (auto simp: unquote_def)

lemma unquote_unpaired: "s \<noteq> [] \<Longrightarrow> last s \<noteq> hd s \<Longrightarrow> unquote s = s"
  by (auto simp: unquote_def)

end
