(* ===== verification/Adapter.thy ===== *)
theory Adapter
  imports Config "HOL-Library.List_Lexorder" "HOL-Library.Char_ord"
begin

text \<open>
  The adapter boundary of \<open>internal/adapter\<close>: the values that cross it (\<open>adapter.go\<close>), the registry
  that assembles a set by name (\<open>registry.go\<close>) and the built-in mocks (\<open>mock.go\<close>). Text is the list
  of its code points, as for every string that is valid UTF-8.

  A stage runs until its input channel is closed or its context is cancelled. Its model takes the
  values it receives as a list, returns the values it sends as a list, and takes a budget: the number
  of blocking operations (a wait or a send) that succeed before the context is cancelled; \<open>None\<close>
  for a context that never is.
\<close>

section \<open>Values\<close>

type_synonym runes = "nat list"

definition runes_of :: "string \<Rightarrow> runes" where
  "runes_of s = map of_char s"

record AudioFrame =
  af_PCM :: buf
  af_TsUs :: int

record Transcript =
  tr_Text :: runes
  tr_Final :: bool
  tr_TsUs :: int

record Token =
  tok_Text :: runes

datatype Role = System | User | Assistant

record Message =
  ms_Role :: Role
  ms_Text :: runes

record Turn =
  tn_Prompt :: runes
  tn_History :: "Message list"

section \<open>Registry\<close>

datatype adapter_error = UnknownAdapter string string "string list" | FactoryFailed string

type_synonym 't factory = "Config \<Rightarrow> adapter_error + 't"

text \<open>A Go map of factories, as the association list of its registrations; \<open>None\<close> is the panic.\<close>

definition adapter_register :: "(string \<times> 't factory) list \<Rightarrow> string \<Rightarrow> 't factory \<Rightarrow> (string \<times> 't factory) list option" where
  "adapter_register reg name f = (if map_of reg name \<noteq> None then None else Some ((name, f) # reg))"

definition adapter_names :: "(string \<times> 't factory) list \<Rightarrow> string list" where
  "adapter_names reg = sort (map fst reg)"

definition adapter_build :: "(string \<times> 't factory) list \<Rightarrow> string \<Rightarrow> string \<Rightarrow> Config \<Rightarrow> adapter_error + 't" where
  "adapter_build reg kind name cfg =
     (case map_of reg name of
        None \<Rightarrow> Inl (UnknownAdapter kind name (adapter_names reg))
      | Some f \<Rightarrow> f cfg)"

record ('a, 'l, 't) adapter_set =
  set_ASR :: 'a
  set_LLM :: 'l
  set_TTS :: 't

definition Build :: "(string \<times> 'a factory) list \<Rightarrow> (string \<times> 'l factory) list \<Rightarrow> (string \<times> 't factory) list \<Rightarrow>
    Config \<Rightarrow> adapter_error + ('a, 'l, 't) adapter_set" where
  "Build asrs llms ttss cfg =
     (case adapter_build asrs ''ASR'' (ad_ASR (cf_Adapters cfg)) cfg of Inl e \<Rightarrow> Inl e | Inr a \<Rightarrow>
      case adapter_build llms ''LLM'' (ad_LLM (cf_Adapters cfg)) cfg of Inl e \<Rightarrow> Inl e | Inr l \<Rightarrow>
      case adapter_build ttss ''TTS'' (ad_TTS (cf_Adapters cfg)) cfg of Inl e \<Rightarrow> Inl e | Inr t \<Rightarrow>
      Inr \<lparr>set_ASR = a, set_LLM = l, set_TTS = t\<rparr>)"

text \<open>A set is assembled exactly when all three names are registered and their factories succeed,
  and then from the adapters the configuration names.\<close>

lemma Build_iff:
  "Build asrs llms ttss cfg = Inr \<lparr>set_ASR = a, set_LLM = l, set_TTS = t\<rparr> \<longleftrightarrow>
   (\<exists>f g h. map_of asrs (ad_ASR (cf_Adapters cfg)) = Some f \<and> f cfg = Inr a \<and>
            map_of llms (ad_LLM (cf_Adapters cfg)) = Some g \<and> g cfg = Inr l \<and>
            map_of ttss (ad_TTS (cf_Adapters cfg)) = Some h \<and> h cfg = Inr t)"
  by (auto simp: Build_def adapter_build_def split: option.splits sum.splits)

lemma adapter_register_distinct:
  "distinct (map fst reg) \<Longrightarrow> adapter_register reg n f = Some reg' \<Longrightarrow> distinct (map fst reg')"
  by (auto simp: adapter_register_def map_of_eq_None_iff split: if_splits)

section \<open>Cancellation\<close>

type_synonym budget = "nat option"

fun spend :: "budget \<Rightarrow> budget option" where
  "spend None = Some None"
| "spend (Some 0) = None"
| "spend (Some (Suc n)) = Some (Some n)"

text \<open>\<open>Latency.wait\<close> followed by \<open>send\<close>: the value goes out if both complete.\<close>

definition wait_send :: "budget \<Rightarrow> budget option" where
  "wait_send b = Option.bind (spend b) spend"

lemma wait_send_None [simp]: "wait_send None = Some None"
  by (simp add: wait_send_def)

section \<open>Mock recogniser\<close>

definition IsSpace :: "nat \<Rightarrow> bool" where
  "IsSpace r \<longleftrightarrow> (9 \<le> r \<and> r \<le> 13) \<or> r = 32 \<or> r = 0x85 \<or> r = 0xA0 \<or> r = 0x1680 \<or>
     (0x2000 \<le> r \<and> r \<le> 0x200a) \<or> r = 0x2028 \<or> r = 0x2029 \<or> r = 0x202f \<or> r = 0x205f \<or> r = 0x3000"

function Fields :: "runes \<Rightarrow> runes list" where
  "Fields s = (let t = dropWhile IsSpace s in
     if t = [] then [] else takeWhile (\<lambda>r. \<not> IsSpace r) t # Fields (dropWhile (\<lambda>r. \<not> IsSpace r) t))"
  by auto

termination
proof (relation "measure length", simp)
  fix s t :: runes
  assume t: "t = dropWhile IsSpace s" "t \<noteq> []"
  then have "\<not> IsSpace (hd t)" using hd_dropWhile [of IsSpace s] by auto
  with t(2) have "length (dropWhile (\<lambda>r. \<not> IsSpace r) t) < length t"
    by (cases t) (auto simp: le_imp_less_Suc length_dropWhile_le)
  moreover have "length t \<le> length s" by (simp add: t length_dropWhile_le)
  ultimately show "(dropWhile (\<lambda>r. \<not> IsSpace r) t, s) \<in> measure length" by simp
qed

declare Fields.simps [simp del]

fun Join :: "runes list \<Rightarrow> runes \<Rightarrow> runes" where
  "Join [] sep = []"
| "Join [w] sep = w"
| "Join (w # ws) sep = w @ sep @ Join ws sep"

record MockASR =
  masr_Script :: runes
  masr_PartialEvery :: nat

fun mock_asr_loop :: "MockASR \<Rightarrow> runes list \<Rightarrow> budget \<Rightarrow> nat \<Rightarrow> nat \<Rightarrow> int \<Rightarrow> AudioFrame list \<Rightarrow>
    Transcript list \<times> bool" where
  "mock_asr_loop m words b frames emitted lastTs [] =
     (case wait_send b of
        None \<Rightarrow> ([], False)
      | Some _ \<Rightarrow> ([\<lparr>tr_Text = masr_Script m, tr_Final = True, tr_TsUs = lastTs\<rparr>], True))"
| "mock_asr_loop m words b frames emitted lastTs (f # fs) =
     (let lastTs = af_TsUs f; frames = frames + 1 in
      if masr_PartialEvery m > 0 \<and> frames mod masr_PartialEvery m = 0 \<and> emitted < length words then
        (case wait_send b of
           None \<Rightarrow> ([], False)
         | Some b1 \<Rightarrow>
             apfst ((#) \<lparr>tr_Text = Join (take (emitted + 1) words) [32], tr_Final = False, tr_TsUs = lastTs\<rparr>)
               (mock_asr_loop m words b1 frames (emitted + 1) lastTs fs))
      else mock_asr_loop m words b frames emitted lastTs fs)"

text \<open>The frames received until the channel is closed; what is sent, and whether it ended without error.\<close>

definition MockASR_Stream :: "MockASR \<Rightarrow> budget \<Rightarrow> AudioFrame list \<Rightarrow> Transcript list \<times> bool" where
  "MockASR_Stream m b fs = mock_asr_loop m (Fields (masr_Script m)) b 0 0 0 fs"

lemma mock_asr_cancel_prefix:
  "\<exists>rest. fst (mock_asr_loop m ws None n e ts fs) = fst (mock_asr_loop m ws b n e ts fs) @ rest"
proof (induction fs arbitrary: b n e ts)
  case Nil
  then show ?case by (auto split: option.split)
next
  case (Cons f fs)
  then show ?case by (auto simp: Let_def split: option.split)
qed

lemma mock_asr_loop_finals:
  "snd (mock_asr_loop m ws b n e ts fs) \<longleftrightarrow>
     (\<exists>ps t. fst (mock_asr_loop m ws b n e ts fs) = ps @ [t] \<and> tr_Final t)"
  "snd (mock_asr_loop m ws b n e ts fs) \<Longrightarrow>
     tr_Text (last (fst (mock_asr_loop m ws b n e ts fs))) = masr_Script m"
  "\<forall>t \<in> set (butlast (fst (mock_asr_loop m ws b n e ts fs))). \<not> tr_Final t"
proof (induction fs arbitrary: b n e ts)
  case Nil
  { case 1 show ?case by (auto split: option.split) }
  { case 2 then show ?case by (auto split: option.split) }
  { case 3 show ?case by (auto split: option.split) }
next
  case (Cons f fs)
  { case 1 show ?case using Cons.IH(1)
      by (auto simp: Let_def Cons_eq_append_conv split: option.split) }
  { case 2
    have "snd (mock_asr_loop m ws b n e ts fs) \<Longrightarrow> fst (mock_asr_loop m ws b n e ts fs) \<noteq> []" for b n e ts
      using Cons.IH(1) by fastforce
    with 2 show ?case using Cons.IH(2)
      by (auto simp: Let_def split: option.splits if_splits) }
  { case 3 show ?case using Cons.IH(3) by (auto simp: Let_def split: option.split) }
qed

text \<open>
  The recogniser's contract: whenever the context is cancelled, what it has sent is an initial part
  of what it sends uncancelled; it sends at most one final, as its last transcript and with the whole
  script as its text, and it sends one exactly when it returns without error.
\<close>

theorem mock_asr_contract:
  "\<exists>outs ok. MockASR_Stream m b fs = (outs, ok) \<and>
     take (length outs) (fst (MockASR_Stream m None fs)) = outs \<and>
     (if ok then length (filter tr_Final outs) = 1 \<and> tr_Final (last outs) \<and> tr_Text (last outs) = masr_Script m
      else filter tr_Final outs = [])"
proof -
  let ?ws = "Fields (masr_Script m)"
  obtain outs ok where o: "MockASR_Stream m b fs = (outs, ok)" by force
  then have eq: "mock_asr_loop m ?ws b 0 0 0 fs = (outs, ok)" by (simp add: MockASR_Stream_def)
  note fin = mock_asr_loop_finals [of m ?ws b 0 0 0 fs, unfolded eq fst_conv snd_conv]
  have pre: "take (length outs) (fst (MockASR_Stream m None fs)) = outs"
    using mock_asr_cancel_prefix [of m ?ws 0 0 0 fs b] eq by (auto simp: MockASR_Stream_def)
  have noF: "\<not> ok \<Longrightarrow> \<not> tr_Final t" if "t \<in> set outs" for t
    using fin(1,3) that by (cases outs rule: rev_cases) auto
  show ?thesis
  proof (cases ok)
    case True
    then obtain ps t where "outs = ps @ [t]" "tr_Final t" using fin(1) by auto
    with True o pre fin(2,3) show ?thesis by (auto simp: filter_empty_conv)
  next
    case False
    with o pre noF show ?thesis by (auto simp: filter_empty_conv)
  qed
qed

end
