(* ===== verification/Edge.thy ===== *)
theory Edge
  imports Adapter
begin

text \<open>
  The audio edges of \<open>internal/pipeline/edge.go\<close>: a ring and a doorbell of capacity one. The calls are
  functions on the edge; \<open>await\<close>, which parks between its attempts, is a step relation with the
  producer and the drain, each call of the ring being atomic (the theory \<open>Ringconc\<close> justifies that).
\<close>

section \<open>State and operations\<close>

definition zero_frame :: AudioFrame where
  "zero_frame = \<lparr>af_PCM = nil_buf, af_TsUs = 0\<rparr>"

record edge =
  eg_ring :: "AudioFrame Ring"
  eg_bell :: "unit list"

text \<open>A frame is a slice and a time stamp, its slot 40 bytes.\<close>

definition newEdge :: "int \<Rightarrow> Policy \<Rightarrow> ring_error + edge" where
  "newEdge capacity policy =
     (case Ring_New 40 zero_frame capacity policy of
        Inl e \<Rightarrow> Inl e
      | Inr r \<Rightarrow> Inr \<lparr>eg_ring = r, eg_bell = []\<rparr>)"

definition edge_push :: "edge \<Rightarrow> AudioFrame \<Rightarrow> (edge \<times> bool) option" where
  "edge_push e f =
     map_option (\<lambda>(r, ok).
         if \<not> ok then (e\<lparr>eg_ring := r\<rparr>, False)
         else (e\<lparr>eg_ring := r, eg_bell := fst (chan_offer 1 () (eg_bell e))\<rparr>, True))
       (Ring_Push zero_frame (eg_ring e) f)"

definition edge_pop :: "edge \<Rightarrow> (edge \<times> AudioFrame \<times> bool) option" where
  "edge_pop e = map_option (\<lambda>(r, f, ok). (e\<lparr>eg_ring := r\<rparr>, f, ok)) (Ring_Pop zero_frame (eg_ring e))"

definition edge_drain :: "edge \<Rightarrow> (edge \<times> nat) option" where
  "edge_drain e = map_option (\<lambda>(r, n). (e\<lparr>eg_ring := r\<rparr>, n)) (drain_loop (Ring_Pop zero_frame) (eg_ring e) 0)"

definition edge_dropped :: "edge \<Rightarrow> u64" where
  "edge_dropped e = Ring_Dropped (eg_ring e)"

abbreviation edge_frames :: "edge \<Rightarrow> AudioFrame list" where
  "edge_frames e \<equiv> ring_list (eg_ring e)"

definition edge_inv :: "edge \<Rightarrow> bool" where
  "edge_inv e \<longleftrightarrow> ring_inv (eg_ring e) \<and> length (eg_bell e) \<le> 1"

section \<open>Each operation\<close>

lemma edge_new_ok:
  assumes "newEdge n pol = Inr e" "2 \<le> n" "n < 2 ^ 63"
  shows "edge_inv e" "edge_frames e = []" "Ring_Cap (eg_ring e) = nat n" "ring_policy (eg_ring e) = pol"
    "edge_dropped e = 0"
proof -
  obtain r where r: "Ring_New 40 zero_frame n pol = Inr r" "e = \<lparr>eg_ring = r, eg_bell = []\<rparr>"
    using assms(1) by (auto simp: newEdge_def split: sum.splits)
  note Ring_New_inv [OF r(1) assms(2,3)]
  with r(2) show "edge_inv e" "edge_frames e = []" "Ring_Cap (eg_ring e) = nat n" "ring_policy (eg_ring e) = pol"
    "edge_dropped e = 0" by (simp_all add: edge_inv_def edge_dropped_def Ring_Dropped_def)
qed

text \<open>What a push leaves in the ring, by its policy.\<close>

definition pushed_frames :: "Policy \<Rightarrow> nat \<Rightarrow> 'a list \<Rightarrow> 'a \<Rightarrow> 'a list" where
  "pushed_frames pol n xs f = (if length xs < n then xs @ [f] else if pol = Reject then xs else tl xs @ [f])"

lemma edge_push_ok:
  assumes "edge_inv e"
  shows "\<exists>e' ok. edge_push e f = Some (e', ok) \<and> edge_inv e' \<and>
    edge_frames e' = pushed_frames (ring_policy (eg_ring e)) (Ring_Cap (eg_ring e)) (edge_frames e) f \<and>
    ring_policy (eg_ring e') = ring_policy (eg_ring e) \<and> Ring_Cap (eg_ring e') = Ring_Cap (eg_ring e) \<and>
    (ok \<longleftrightarrow> ring_policy (eg_ring e) \<noteq> Reject \<or> length (edge_frames e) < Ring_Cap (eg_ring e)) \<and>
    eg_bell e' = (if ok then [()] else eg_bell e) \<and>
    edge_dropped e' = edge_dropped e +
      (if ring_policy (eg_ring e) \<noteq> Reject \<and> length (edge_frames e) = Ring_Cap (eg_ring e) then 1 else 0)"
proof -
  have inv: "ring_inv (eg_ring e)" "length (eg_bell e) \<le> 1" using assms by (simp_all add: edge_inv_def)
  note bell = chan_offer_latch [OF inv(2)]
  consider "length (edge_frames e) < Ring_Cap (eg_ring e)"
    | "length (edge_frames e) = Ring_Cap (eg_ring e)" "ring_policy (eg_ring e) = Reject"
    | "length (edge_frames e) = Ring_Cap (eg_ring e)" "ring_policy (eg_ring e) \<noteq> Reject"
    using ring_list_le_cap [OF inv(1)] by linarith
  then show ?thesis
  proof cases
    case 1
    from ring_push_room [OF inv(1) 1, of zero_frame f] obtain r where
      "Ring_Push zero_frame (eg_ring e) f = Some (r, True)" "ring_inv r" "ring_list r = edge_frames e @ [f]"
      "ring_policy r = ring_policy (eg_ring e)" "Ring_Cap r = Ring_Cap (eg_ring e)"
      "ring_dropped r = ring_dropped (eg_ring e)" by blast
    with 1 bell show ?thesis
      by (intro exI [of _ "e\<lparr>eg_ring := r, eg_bell := [()]\<rparr>"] exI [of _ True])
        (simp add: edge_push_def edge_inv_def pushed_frames_def edge_dropped_def Ring_Dropped_def)
  next
    case 2
    from ring_push_full_reject [OF inv(1) 2(2,1), of zero_frame f] 2 inv show ?thesis
      by (intro exI [of _ e] exI [of _ False]) (simp add: edge_push_def edge_inv_def pushed_frames_def edge_dropped_def)
  next
    case 3
    from ring_push_full_drop [OF inv(1) 3(2,1), of zero_frame f] obtain r where
      "Ring_Push zero_frame (eg_ring e) f = Some (r, True)" "ring_inv r" "ring_list r = tl (edge_frames e) @ [f]"
      "ring_policy r = ring_policy (eg_ring e)" "Ring_Cap r = Ring_Cap (eg_ring e)"
      "ring_dropped r = ring_dropped (eg_ring e) + 1" by blast
    with 3 bell show ?thesis
      by (intro exI [of _ "e\<lparr>eg_ring := r, eg_bell := [()]\<rparr>"] exI [of _ True])
        (simp add: edge_push_def edge_inv_def pushed_frames_def edge_dropped_def Ring_Dropped_def)
  qed
qed

lemma edge_pop_nil: "edge_inv e \<Longrightarrow> edge_frames e = [] \<Longrightarrow> edge_pop e = Some (e, zero_frame, False)"
  using ring_pop_nil [of "eg_ring e" zero_frame] by (simp add: edge_pop_def edge_inv_def)

lemma edge_pop_cons:
  assumes "edge_inv e" "edge_frames e = f # fs"
  shows "\<exists>e'. edge_pop e = Some (e', f, True) \<and> edge_inv e' \<and> edge_frames e' = fs \<and> eg_bell e' = eg_bell e \<and>
    ring_policy (eg_ring e') = ring_policy (eg_ring e) \<and> Ring_Cap (eg_ring e') = Ring_Cap (eg_ring e) \<and>
    edge_dropped e' = edge_dropped e"
proof -
  have "ring_inv (eg_ring e)" using assms(1) by (simp add: edge_inv_def)
  from ring_pop_cons [OF this assms(2), of zero_frame] obtain r where
    "Ring_Pop zero_frame (eg_ring e) = Some (r, f, True)" "ring_inv r" "ring_list r = fs"
    "ring_policy r = ring_policy (eg_ring e)" "Ring_Cap r = Ring_Cap (eg_ring e)"
    "ring_dropped r = ring_dropped (eg_ring e)" by blast
  then show ?thesis
    using assms(1)
    by (intro exI [of _ "e\<lparr>eg_ring := r\<rparr>"]) (simp add: edge_pop_def edge_inv_def edge_dropped_def Ring_Dropped_def)
qed

lemma edge_drain_ok:
  assumes "edge_inv e"
  shows "\<exists>e'. edge_drain e = Some (e', length (edge_frames e)) \<and> edge_inv e' \<and> edge_frames e' = [] \<and>
    eg_bell e' = eg_bell e \<and> Ring_Cap (eg_ring e') = Ring_Cap (eg_ring e) \<and> edge_dropped e' = edge_dropped e"
  using ring.drain_loop_ends [of "eg_ring e" zero_frame 0] assms
  by (auto simp: edge_drain_def edge_inv_def edge_dropped_def Ring_Dropped_def)

section \<open>Parking and waking\<close>

text \<open>
  The consumer in \<open>await\<close> (and in the pump of \<open>runASRLoop\<close>, which waits the same way): about to pop, or
  parked on the doorbell after an unsuccessful pop. The producer's push is two steps, the ring first
  and then the bell.
\<close>

datatype await_pc = AwIdle | AwCheck | AwParked

record wake =
  wk_edge :: edge
  wk_ringing :: bool
  wk_pc :: await_pc
  wk_got :: "AudioFrame list"

inductive wake_step :: "wake \<Rightarrow> wake \<Rightarrow> bool" where
  push_ring: "\<not> wk_ringing s \<Longrightarrow> Ring_Push zero_frame (eg_ring (wk_edge s)) f = Some (r, ok) \<Longrightarrow>
    wake_step s (s\<lparr>wk_edge := (wk_edge s)\<lparr>eg_ring := r\<rparr>, wk_ringing := ok\<rparr>)"
| push_bell: "wk_ringing s \<Longrightarrow>
    wake_step s (s\<lparr>wk_edge := (wk_edge s)\<lparr>eg_bell := fst (chan_offer 1 () (eg_bell (wk_edge s)))\<rparr>, wk_ringing := False\<rparr>)"
| await_call: "wk_pc s = AwIdle \<Longrightarrow> wake_step s (s\<lparr>wk_pc := AwCheck\<rparr>)"
| await_pop: "wk_pc s = AwCheck \<Longrightarrow> edge_pop (wk_edge s) = Some (e, f, True) \<Longrightarrow>
    wake_step s (s\<lparr>wk_edge := e, wk_pc := AwIdle, wk_got := wk_got s @ [f]\<rparr>)"
| await_park: "wk_pc s = AwCheck \<Longrightarrow> edge_pop (wk_edge s) = Some (e, f, False) \<Longrightarrow>
    wake_step s (s\<lparr>wk_edge := e, wk_pc := AwParked\<rparr>)"
| await_bell: "wk_pc s = AwParked \<Longrightarrow> eg_bell (wk_edge s) = b # bs \<Longrightarrow>
    wake_step s (s\<lparr>wk_edge := (wk_edge s)\<lparr>eg_bell := bs\<rparr>, wk_pc := AwCheck\<rparr>)"
| await_cancel: "wk_pc s = AwParked \<Longrightarrow> wake_step s (s\<lparr>wk_pc := AwIdle\<rparr>)"
| drain: "edge_drain (wk_edge s) = Some (e, n) \<Longrightarrow> wake_step s (s\<lparr>wk_edge := e\<rparr>)"

inductive wake_reach :: "edge \<Rightarrow> wake \<Rightarrow> bool" for e0 :: edge where
  start: "wake_reach e0 \<lparr>wk_edge = e0, wk_ringing = False, wk_pc = AwIdle, wk_got = []\<rparr>"
| step: "wake_reach e0 s \<Longrightarrow> wake_step s s' \<Longrightarrow> wake_reach e0 s'"

definition wake_inv :: "wake \<Rightarrow> bool" where
  "wake_inv s \<longleftrightarrow> edge_inv (wk_edge s) \<and>
     (wk_pc s = AwParked \<longrightarrow> edge_frames (wk_edge s) = [] \<or> eg_bell (wk_edge s) \<noteq> [] \<or> wk_ringing s)"

lemma ring_push_inv:
  assumes "ring_inv r" "Ring_Push z r f = Some (r', ok)"
  shows "ring_inv r'" "\<not> ok \<Longrightarrow> ring_list r' = ring_list r"
proof -
  consider "length (ring_list r) < Ring_Cap r" | "length (ring_list r) = Ring_Cap r" "ring_policy r = Reject"
    | "length (ring_list r) = Ring_Cap r" "ring_policy r \<noteq> Reject"
    using ring_list_le_cap [OF assms(1)] by linarith
  then have "ring_inv r' \<and> (\<not> ok \<longrightarrow> ring_list r' = ring_list r)"
  proof cases
    case 1
    then show ?thesis using ring_push_room [OF assms(1) 1, of z f] assms(2) by auto
  next
    case 2
    then show ?thesis using ring_push_full_reject [OF assms(1) 2(2,1), of z f] assms by auto
  next
    case 3
    then show ?thesis using ring_push_full_drop [OF assms(1) 3(2,1), of z f] assms(2) by auto
  qed
  then show "ring_inv r'" "\<not> ok \<Longrightarrow> ring_list r' = ring_list r" by auto
qed

lemma edge_pop_inv:
  assumes "edge_inv e" "edge_pop e = Some (e', f, ok)"
  shows "edge_inv e'" "eg_bell e' = eg_bell e" "\<not> ok \<Longrightarrow> edge_frames e' = []"
proof -
  have "edge_inv e' \<and> eg_bell e' = eg_bell e \<and> (\<not> ok \<longrightarrow> edge_frames e' = [])"
  proof (cases "edge_frames e")
    case Nil
    then show ?thesis using edge_pop_nil [OF assms(1) Nil] assms by auto
  next
    case (Cons x xs)
    then show ?thesis using edge_pop_cons [OF assms(1) Cons] assms(2) by auto
  qed
  then show "edge_inv e'" "eg_bell e' = eg_bell e" "\<not> ok \<Longrightarrow> edge_frames e' = []" by auto
qed

lemma wake_step_inv: "wake_step s s' \<Longrightarrow> wake_inv s \<Longrightarrow> wake_inv s'"
proof (induction rule: wake_step.induct)
  case (push_ring s f r ok)
  have "ring_inv (eg_ring (wk_edge s))" using push_ring.prems by (simp add: wake_inv_def edge_inv_def)
  from ring_push_inv [OF this push_ring.hyps(2)] push_ring show ?case
    by (auto simp: wake_inv_def edge_inv_def)
next
  case (push_bell s)
  then show ?case using chan_offer_latch [of "eg_bell (wk_edge s)"] by (auto simp: wake_inv_def edge_inv_def)
next
  case (await_pop s e f)
  then show ?case using edge_pop_inv(1) [of "wk_edge s" e f True] by (auto simp: wake_inv_def)
next
  case (await_park s e f)
  then show ?case using edge_pop_inv [of "wk_edge s" e f False] by (auto simp: wake_inv_def)
next
  case (drain s e n)
  then show ?case using edge_drain_ok [of "wk_edge s"] by (auto simp: wake_inv_def)
qed (auto simp: wake_inv_def edge_inv_def)

text \<open>
  C23: No wake-up is lost: in every state any interleaving of pushes, awaits and drains can reach, a
  consumer parked while frames are buffered has a token waiting in the doorbell, or the producer is
  between putting a frame in the ring and ringing.
\<close>

theorem edge_no_lost_wakeup:
  assumes "newEdge n pol = Inr e0" "2 \<le> n" "n < 2 ^ 63" "wake_reach e0 s" "wk_pc s = AwParked"
    and "edge_frames (wk_edge s) \<noteq> []"
  shows "eg_bell (wk_edge s) \<noteq> [] \<or> wk_ringing s"
proof -
  from assms(4) have "wake_inv s"
  proof (induction rule: wake_reach.induct)
    case start
    then show ?case using edge_new_ok(1) [OF assms(1-3)] by (simp add: wake_inv_def)
  next
    case (step s s')
    then show ?case using wake_step_inv by blast
  qed
  with assms(5,6) show ?thesis by (auto simp: wake_inv_def)
qed

lemma new_edge_2: "\<exists>e. newEdge 2 pol = Inr e"
  by (simp add: newEdge_def Ring_New_def make_panics_def maxAlloc_def)

theorem edge_no_lost_wakeup_witness:
  "\<exists>e0 s. newEdge 2 DropOldest = Inr e0 \<and> wake_reach e0 s \<and> wk_pc s = AwParked \<and>
     edge_frames (wk_edge s) = [zero_frame] \<and> (eg_bell (wk_edge s) \<noteq> [] \<or> wk_ringing s)"
proof -
  obtain e0 where e0: "newEdge 2 DropOldest = Inr e0" using new_edge_2 by blast
  then have n: "edge_inv e0" "edge_frames e0 = []" "Ring_Cap (eg_ring e0) = 2"
    using edge_new_ok [OF e0] by auto
  let ?base = "\<lparr>wk_edge = e0, wk_ringing = False, wk_pc = AwIdle, wk_got = []\<rparr>"
  have "edge_pop e0 = Some (e0, zero_frame, False)" using edge_pop_nil n by blast
  moreover have "wake_reach e0 ?base" by (rule wake_reach.start)
  ultimately have p: "wake_reach e0 (?base\<lparr>wk_pc := AwParked\<rparr>)"
    using wake_reach.step [OF wake_reach.step [OF _ wake_step.await_call [of ?base]] wake_step.await_park [of "?base\<lparr>wk_pc := AwCheck\<rparr>" e0 zero_frame]]
    by simp
  have "length (edge_frames e0) < Ring_Cap (eg_ring e0)" using n by simp
  from ring_push_room [OF _ this, of zero_frame zero_frame] n(1) obtain r where
    r: "Ring_Push zero_frame (eg_ring e0) zero_frame = Some (r, True)" "ring_list r = [zero_frame]"
    using n(2) by (auto simp: edge_inv_def)
  let ?s = "?base\<lparr>wk_edge := e0\<lparr>eg_ring := r\<rparr>, wk_ringing := True, wk_pc := AwParked\<rparr>"
  have s: "wake_reach e0 ?s"
    using wake_reach.step [OF p wake_step.push_ring [of "?base\<lparr>wk_pc := AwParked\<rparr>" zero_frame r True]] r by simp
  from edge_no_lost_wakeup [OF e0 _ _ s] r(2) have "eg_bell (wk_edge ?s) \<noteq> [] \<or> wk_ringing ?s" by simp
  with e0 s r(2) show ?thesis by (intro exI [of _ e0] exI [of _ ?s]) simp
qed

end
