(* ===== verification/Synth.thy ===== *)
theory Synth
  imports Adapter "HOL-Library.Sublist"
begin

text \<open>
  The producing half of \<open>internal/adapter\<close>: the mock language model and its tokenizer, the mock
  synthesiser (\<open>mock.go\<close>), and the PCM framer the real synthesisers share (\<open>ttsframe.go\<close>). Sample
  positions and durations are unbounded integers with Go's truncating division; they stay far below
  \<open>2^63\<close> within one stream.
\<close>

section \<open>Tokenizer\<close>

text \<open>\<open>strings.SplitAfter\<close> at a single character.\<close>

fun SplitAfter :: "nat \<Rightarrow> runes \<Rightarrow> runes list" where
  "SplitAfter c [] = [[]]"
| "SplitAfter c (x # xs) =
     (if x = c then [x] # SplitAfter c xs
      else case SplitAfter c xs of [] \<Rightarrow> [[x]] | w # ws \<Rightarrow> (x # w) # ws)"

function chunks_of_3 :: "runes \<Rightarrow> runes list" where
  "chunks_of_3 s = (if s = [] then [] else take 3 s # chunks_of_3 (drop 3 s))"
  by auto
termination by (relation "measure length") auto

declare chunks_of_3.simps [simp del]

definition tokenize :: "runes \<Rightarrow> runes list" where
  "tokenize t = (if 32 \<in> set t then filter (\<lambda>f. f \<noteq> []) (SplitAfter 32 t) else chunks_of_3 t)"

lemma concat_filter_nonempty: "concat (filter (\<lambda>f. f \<noteq> []) xs) = concat xs"
  by (induction xs) auto

lemma concat_SplitAfter: "concat (SplitAfter c s) = s"
proof (induction s)
  case (Cons x xs)
  then show ?case by (cases "SplitAfter c xs") auto
qed simp

lemma concat_chunks_of_3: "concat (chunks_of_3 s) = s"
  by (induction s rule: chunks_of_3.induct) (subst chunks_of_3.simps, auto)

lemma chunks_of_3_nonempty: "w \<in> set (chunks_of_3 s) \<Longrightarrow> w \<noteq> [] \<and> length w \<le> 3"
  by (induction s rule: chunks_of_3.induct) (subst (asm) (2) chunks_of_3.simps, auto split: if_splits)

lemma tokenize_concat: "concat (tokenize t) = t"
  by (simp add: tokenize_def concat_filter_nonempty concat_SplitAfter concat_chunks_of_3)

lemma tokenize_nonempty: "w \<in> set (tokenize t) \<Longrightarrow> w \<noteq> []"
  by (auto simp: tokenize_def dest: chunks_of_3_nonempty split: if_splits)

section \<open>Mock language model\<close>

record MockLLM =
  mllm_Reply :: runes

fun llm_send :: "budget \<Rightarrow> runes list \<Rightarrow> Token list \<times> bool" where
  "llm_send b [] = ([], True)"
| "llm_send b (w # ws) =
     (case wait_send b of
        None \<Rightarrow> ([], False)
      | Some b1 \<Rightarrow> apfst ((#) \<lparr>tok_Text = w\<rparr>) (llm_send b1 ws))"

definition mock_reply :: "MockLLM \<Rightarrow> Turn \<Rightarrow> runes" where
  "mock_reply m t = (if mllm_Reply m = [] then runes_of ''echo: '' @ tn_Prompt t else mllm_Reply m)"

definition MockLLM_Stream :: "MockLLM \<Rightarrow> budget \<Rightarrow> Turn \<Rightarrow> Token list \<times> bool" where
  "MockLLM_Stream m b t = llm_send b (tokenize (mock_reply m t))"

lemma llm_send_prefix:
  "\<exists>n \<le> length ws. fst (llm_send b ws) = map (\<lambda>w. \<lparr>tok_Text = w\<rparr>) (take n ws) \<and>
     (snd (llm_send b ws) \<longleftrightarrow> n = length ws)"
proof (induction ws arbitrary: b)
  case (Cons w ws)
  show ?case
  proof (cases "wait_send b")
    case None
    then show ?thesis by (intro exI [of _ 0]) simp
  next
    case (Some b1)
    from Cons.IH [of b1] obtain n where "n \<le> length ws"
      "fst (llm_send b1 ws) = map (\<lambda>w. \<lparr>tok_Text = w\<rparr>) (take n ws)" "snd (llm_send b1 ws) \<longleftrightarrow> n = length ws" by blast
    with Some show ?thesis by (intro exI [of _ "Suc n"]) simp
  qed
qed simp

text \<open>
  The mock model's tokens, joined, are the reply whenever the stream ends without error, and an
  initial part of the reply when it is cancelled; no token is empty. So what the pipeline keeps as the
  spoken reply of a cancelled turn is a part of the reply, never anything else.
\<close>

theorem mock_llm_reply:
  "\<exists>outs ok. MockLLM_Stream m b t = (outs, ok) \<and> list_all (\<lambda>k. tok_Text k \<noteq> []) outs \<and>
     (if ok then concat (map tok_Text outs) = mock_reply m t
      else prefix (concat (map tok_Text outs)) (mock_reply m t))"
proof -
  let ?ws = "tokenize (mock_reply m t)"
  obtain outs ok where o: "llm_send b ?ws = (outs, ok)" by force
  then obtain n where n: "outs = map (\<lambda>w. \<lparr>tok_Text = w\<rparr>) (take n ?ws)" "ok \<longleftrightarrow> n = length ?ws"
    using llm_send_prefix [of ?ws b] by auto
  have "concat (take n ?ws) @ concat (drop n ?ws) = mock_reply m t"
    by (simp add: tokenize_concat flip: concat_append)
  then have "prefix (concat (take n ?ws)) (mock_reply m t)" by (metis prefixI)
  moreover have "w \<noteq> []" if "w \<in> set (take n ?ws)" for w
    using that by (meson in_set_takeD tokenize_nonempty)
  moreover have "ok \<Longrightarrow> concat (take n ?ws) = mock_reply m t"
    using n(2) by (simp add: tokenize_concat)
  ultimately show ?thesis
    using o by (auto simp: MockLLM_Stream_def n(1) comp_def list_all_iff)
qed

section \<open>Mock synthesiser\<close>

record MockTTS =
  mtts_SampleRate :: int
  mtts_FrameDuration :: duration
  mtts_MsPerRune :: int

definition samplesPerFrame :: "int \<Rightarrow> duration \<Rightarrow> int" where
  "samplesPerFrame rate frameDur = (rate * frameDur) sdiv Second"

definition silence :: "int \<Rightarrow> buf" where
  "silence n = reslice (make_buf (nat n)) (nat n)"

definition ptsUs :: "int \<Rightarrow> int \<Rightarrow> int" where
  "ptsUs tot rate = (tot * 1000000) sdiv rate"

fun tts_frames :: "MockTTS \<Rightarrow> budget \<Rightarrow> int \<Rightarrow> nat \<Rightarrow> AudioFrame list \<times> (budget \<times> int) option" where
  "tts_frames m b tot 0 = ([], Some (b, tot))"
| "tts_frames m b tot (Suc n) =
     (case wait_send b of
        None \<Rightarrow> ([], None)
      | Some b1 \<Rightarrow>
          let spf = samplesPerFrame (mtts_SampleRate m) (mtts_FrameDuration m) in
          apfst ((#) \<lparr>af_PCM = silence (spf * 2), af_TsUs = ptsUs tot (mtts_SampleRate m)\<rparr>)
            (tts_frames m b1 (tot + spf) n))"

definition tts_frame_count :: "MockTTS \<Rightarrow> Token \<Rightarrow> nat" where
  "tts_frame_count m tok =
     (let ms = (if mtts_MsPerRune m \<le> 0 then 60 else mtts_MsPerRune m);
          dur = int (length (tok_Text tok)) * ms * Millisecond in
      nat ((dur + mtts_FrameDuration m - 1) sdiv mtts_FrameDuration m))"

fun tts_loop :: "MockTTS \<Rightarrow> budget \<Rightarrow> int \<Rightarrow> Token list \<Rightarrow> AudioFrame list \<times> bool" where
  "tts_loop m b tot [] = ([], True)"
| "tts_loop m b tot (tok # toks) =
     (case tts_frames m b tot (tts_frame_count m tok) of
        (outs, None) \<Rightarrow> (outs, False)
      | (outs, Some (b1, total1)) \<Rightarrow> apfst ((@) outs) (tts_loop m b1 total1 toks))"

definition MockTTS_Stream :: "MockTTS \<Rightarrow> budget \<Rightarrow> Token list \<Rightarrow> AudioFrame list \<times> bool" where
  "MockTTS_Stream m b toks =
     (if mtts_SampleRate m \<le> 0 \<or> mtts_FrameDuration m \<le> 0 then ([], False) else tts_loop m b 0 toks)"

text \<open>The frame at position \<open>k\<close> of a synthesis stream, in closed form.\<close>

definition tts_frame_at :: "MockTTS \<Rightarrow> nat \<Rightarrow> AudioFrame" where
  "tts_frame_at m k =
     (let spf = samplesPerFrame (mtts_SampleRate m) (mtts_FrameDuration m) in
      \<lparr>af_PCM = silence (spf * 2), af_TsUs = ptsUs (int k * spf) (mtts_SampleRate m)\<rparr>)"

lemma tts_frames_at:
  assumes "tot = int k * samplesPerFrame (mtts_SampleRate m) (mtts_FrameDuration m)"
  shows "\<exists>j \<le> n. fst (tts_frames m b tot n) = map (tts_frame_at m) [k..<k + j] \<and>
    (\<forall>b1 t1. snd (tts_frames m b tot n) = Some (b1, t1) \<longrightarrow>
       j = n \<and> t1 = int (k + n) * samplesPerFrame (mtts_SampleRate m) (mtts_FrameDuration m)) \<and>
    (b = None \<longrightarrow> snd (tts_frames m b tot n) = Some (None, int (k + n) * samplesPerFrame (mtts_SampleRate m) (mtts_FrameDuration m)))"
  using assms
proof (induction n arbitrary: b tot k)
  case 0
  then show ?case by auto
next
  case (Suc n)
  let ?spf = "samplesPerFrame (mtts_SampleRate m) (mtts_FrameDuration m)"
  show ?case
  proof (cases "wait_send b")
    case None
    then show ?thesis by (intro exI [of _ 0]) auto
  next
    case (Some b1)
    have "tot + ?spf = int (Suc k) * ?spf" by (simp add: Suc.prems algebra_simps)
    from Suc.IH [OF this, of b1] obtain j where j: "j \<le> n"
      "fst (tts_frames m b1 (tot + ?spf) n) = map (tts_frame_at m) [Suc k..<Suc k + j]"
      "\<forall>b2 t1. snd (tts_frames m b1 (tot + ?spf) n) = Some (b2, t1) \<longrightarrow> j = n \<and> t1 = int (Suc k + n) * ?spf"
      "b1 = None \<longrightarrow> snd (tts_frames m b1 (tot + ?spf) n) = Some (None, int (Suc k + n) * ?spf)" by blast
    have "[k..<k + Suc j] = k # [Suc k..<Suc k + j]" by (simp add: upt_conv_Cons)
    with Some j Suc.prems show ?thesis
      by (intro exI [of _ "Suc j"]) (auto simp: Let_def tts_frame_at_def)
  qed
qed

lemma tts_loop_at:
  assumes "tot = int k * samplesPerFrame (mtts_SampleRate m) (mtts_FrameDuration m)"
  shows "\<exists>j \<le> sum_list (map (tts_frame_count m) toks). fst (tts_loop m b tot toks) = map (tts_frame_at m) [k..<k + j] \<and>
    (snd (tts_loop m b tot toks) \<longrightarrow> j = sum_list (map (tts_frame_count m) toks)) \<and>
    (b = None \<longrightarrow> snd (tts_loop m b tot toks))"
  using assms
proof (induction toks arbitrary: b tot k)
  case Nil
  then show ?case by auto
next
  case (Cons tok toks)
  let ?n = "tts_frame_count m tok" and ?spf = "samplesPerFrame (mtts_SampleRate m) (mtts_FrameDuration m)"
  from tts_frames_at [OF Cons.prems, of ?n b] obtain j where j0: "j \<le> ?n"
    "fst (tts_frames m b tot ?n) = map (tts_frame_at m) [k..<k + j]"
    "\<forall>b1 t1. snd (tts_frames m b tot ?n) = Some (b1, t1) \<longrightarrow> j = ?n \<and> t1 = int (k + ?n) * ?spf"
    "b = None \<longrightarrow> snd (tts_frames m b tot ?n) = Some (None, int (k + ?n) * ?spf)"
    by (elim exE conjE) (rule that, assumption+)
  note j = j0(1,2) j0(3,4) [rule_format]
  obtain outs r where fr: "tts_frames m b tot ?n = (outs, r)" by force
  show ?case
  proof (cases r)
    case None
    have run: "tts_loop m b tot (tok # toks) = (outs, False)" by (simp add: fr None)
    have "b \<noteq> None"
    proof
      assume "b = None"
      with j(4) fr None show False by simp
    qed
    moreover have "fst (outs, False) = map (tts_frame_at m) [k..<k + j]" using j(2) fr by simp
    moreover have "j \<le> sum_list (map (tts_frame_count m) (tok # toks))" using j(1) by simp
    ultimately show ?thesis unfolding run snd_conv by (intro exI [of _ j] conjI) (simp_all only: simp_thms)
  next
    case (Some bt)
    obtain b1 t1 where bt: "bt = (b1, t1)" by force
    with j(3) [of b1 t1] fr Some have jn: "j = ?n" "t1 = int (k + ?n) * ?spf" by auto
    from Cons.IH [OF jn(2), of b1] obtain i where i: "i \<le> sum_list (map (tts_frame_count m) toks)"
      "fst (tts_loop m b1 t1 toks) = map (tts_frame_at m) [k + ?n..<k + ?n + i]"
      "snd (tts_loop m b1 t1 toks) \<longrightarrow> i = sum_list (map (tts_frame_count m) toks)"
      "b1 = None \<longrightarrow> snd (tts_loop m b1 t1 toks)" by blast
    have up: "[k..<k + (?n + i)] = [k..<k + ?n] @ [k + ?n..<k + ?n + i]"
      using upt_add_eq_append [of k "k + ?n" i] by (simp add: add.assoc)
    have run: "tts_loop m b tot (tok # toks) = apfst ((@) outs) (tts_loop m b1 t1 toks)"
      by (simp add: fr Some bt)
    have outs: "outs = map (tts_frame_at m) [k..<k + ?n]" using j(2) fr jn(1) by simp
    have "b = None \<Longrightarrow> b1 = None" using j(4) fr Some bt by simp
    moreover have "fst (tts_loop m b tot (tok # toks)) = map (tts_frame_at m) [k..<k + (?n + i)]"
      unfolding run fst_apfst outs up map_append i(2) by (rule refl)
    moreover have "snd (tts_loop m b tot (tok # toks)) = snd (tts_loop m b1 t1 toks)"
      unfolding run by (rule snd_apfst)
    moreover have "?n + i \<le> sum_list (map (tts_frame_count m) (tok # toks))" using i(1) by simp
    moreover have "snd (tts_loop m b1 t1 toks) \<Longrightarrow> ?n + i = sum_list (map (tts_frame_count m) (tok # toks))"
      using i(3) by simp
    ultimately show ?thesis using i(4) by (intro exI [of _ "?n + i"] conjI impI) (simp_all del: tts_loop.simps)
  qed
qed

text \<open>
  The synthesiser's clock does not drift: whatever the tokens and whenever it is cancelled, the
  frames it has sent are the first ones of the ideal sequence, each a whole frame of samples stamped
  with its exact position on the sample clock, without gap or repetition across token boundaries; left
  to run it sends exactly the frames the tokens' durations, rounded up to frames, add up to.
\<close>

theorem mock_tts_no_drift:
  assumes "0 < mtts_SampleRate m" "0 < mtts_FrameDuration m"
  shows "\<exists>j. j \<le> sum_list (map (tts_frame_count m) toks) \<and>
    fst (MockTTS_Stream m b toks) = map (tts_frame_at m) [0..<j] \<and>
    (b = None \<longrightarrow> snd (MockTTS_Stream m b toks)) \<and>
    (snd (MockTTS_Stream m b toks) \<longrightarrow> j = sum_list (map (tts_frame_count m) toks))"
  using tts_loop_at [of 0 0 m toks b] assms by (auto simp: MockTTS_Stream_def not_le)

theorem mock_tts_no_drift_witness:
  "map af_TsUs (fst (MockTTS_Stream \<lparr>mtts_SampleRate = 16000, mtts_FrameDuration = 20 * Millisecond, mtts_MsPerRune = 0\<rparr>
      None [\<lparr>tok_Text = [104]\<rparr>, \<lparr>tok_Text = []\<rparr>, \<lparr>tok_Text = [105]\<rparr>])) = [0, 20000, 40000, 60000, 80000, 100000]"
proof -
  let ?m = "\<lparr>mtts_SampleRate = 16000, mtts_FrameDuration = 20 * Millisecond, mtts_MsPerRune = 0\<rparr>"
  let ?ts = "[\<lparr>tok_Text = [104]\<rparr>, \<lparr>tok_Text = []\<rparr>, \<lparr>tok_Text = [105]\<rparr>] :: Token list"
  obtain j where j: "fst (MockTTS_Stream ?m None ?ts) = map (tts_frame_at ?m) [0..<j]"
    "j = sum_list (map (tts_frame_count ?m) ?ts)"
    using mock_tts_no_drift [of ?m ?ts None] by auto
  then have "j = 6" by (simp add: tts_frame_count_def signed_divide_int_def)
  with j(1) show ?thesis
    by (simp add: upt_rec tts_frame_at_def samplesPerFrame_def ptsUs_def signed_divide_int_def Let_def)
qed

section \<open>PCM framer\<close>

text \<open>
  \<open>clock i\<close> is the \<open>i\<close>-th reading of \<open>time.Now\<close>. \<open>make\<close> with a negative length panics, which is the
  status \<open>Panicked\<close>. The loop is a \<open>partial_function\<close>: \<open>None\<close> means that it does not return.
\<close>

record PCMFramer =
  fr_SampleRate :: int
  fr_FrameDuration :: duration
  fr_Lead :: duration
  fr_carry :: "u8 list"
  fr_total :: int
  fr_start :: "instant option"

datatype emit_status = Emitted | Cancelled | Panicked

definition bytes_buf :: "u8 list \<Rightarrow> buf" where
  "bytes_buf bs = \<lparr>buf_arr = bs, buf_len = length bs\<rparr>"

lemma buf_data_bytes_buf [simp]: "buf_data (bytes_buf bs) = bs"
  by (simp add: bytes_buf_def buf_data_def)

definition framer_spf :: "PCMFramer \<Rightarrow> int" where
  "framer_spf f = samplesPerFrame (fr_SampleRate f) (fr_FrameDuration f)"

definition bytesPerFrame :: "PCMFramer \<Rightarrow> int" where
  "bytesPerFrame f = framer_spf f * 2"

text \<open>Pacing: the anchor after this frame, the delay before it is sent, and the readings used.\<close>

definition framer_pace :: "(nat \<Rightarrow> instant) \<Rightarrow> duration \<Rightarrow> PCMFramer \<Rightarrow> nat \<Rightarrow> instant \<times> duration \<times> nat" where
  "framer_pace clock lead f i =
     (case (case fr_start f of None \<Rightarrow> (clock i, i + 1) | Some s \<Rightarrow> (s, i)) of (start, j) \<Rightarrow>
        let playPos = (fr_total f * Second) sdiv fr_SampleRate f;
            target = start + playPos;
            now = clock j in
        if now > target then (now - playPos, now - clock (j + 1) - lead, j + 2)
        else (start, target - clock (j + 1) - lead, j + 2))"

partial_function (option) framer_loop ::
  "(nat \<Rightarrow> instant) \<Rightarrow> duration \<Rightarrow> PCMFramer \<Rightarrow> nat \<Rightarrow> budget \<Rightarrow>
     (PCMFramer \<times> nat \<times> budget \<times> AudioFrame list \<times> emit_status) option" where
  "framer_loop clock lead f i b =
     (let bpf = bytesPerFrame f in
      if int (length (fr_carry f)) < bpf then Some (f, i, b, [], Emitted)
      else if bpf < 0 then Some (f, i, b, [], Panicked)
      else let frame = take (nat bpf) (fr_carry f) in
        case framer_pace clock lead f i of (start, d, j) \<Rightarrow>
          let f1 = f\<lparr>fr_carry := drop (nat bpf) (fr_carry f), fr_start := Some start\<rparr>;
              out = \<lparr>af_PCM = bytes_buf frame, af_TsUs = ptsUs (fr_total f) (fr_SampleRate f)\<rparr> in
          case (if d > 0 then spend b else Some b) of
            None \<Rightarrow> Some (f1, j, b, [], Cancelled)
          | Some b1 \<Rightarrow>
              (case spend b1 of
                 None \<Rightarrow> Some (f1, j, b1, [], Cancelled)
               | Some b2 \<Rightarrow>
                   Option.bind (framer_loop clock lead (f1\<lparr>fr_total := fr_total f + framer_spf f\<rparr>) j b2)
                     (\<lambda>(f2, k, b3, outs, st). Some (f2, k, b3, out # outs, st))))"

definition PCMFramer_Emit ::
  "(nat \<Rightarrow> instant) \<Rightarrow> PCMFramer \<Rightarrow> nat \<Rightarrow> budget \<Rightarrow> u8 list \<Rightarrow>
     (PCMFramer \<times> nat \<times> budget \<times> AudioFrame list \<times> emit_status) option" where
  "PCMFramer_Emit clock f i b pcm =
     (let lead = (if fr_Lead f \<le> 0 then 200 * Millisecond else fr_Lead f) in
      framer_loop clock lead (f\<lparr>fr_carry := fr_carry f @ pcm\<rparr>) i b)"

definition PCMFramer_Flush :: "PCMFramer \<Rightarrow> budget \<Rightarrow> PCMFramer \<times> AudioFrame list \<times> emit_status" where
  "PCMFramer_Flush f b =
     (if fr_carry f = [] then (f, [], Emitted)
      else if bytesPerFrame f < 0 then (f, [], Panicked)
      else let n = nat (bytesPerFrame f);
               frame = take n (fr_carry f @ replicate (n - length (fr_carry f)) 0);
               f1 = f\<lparr>fr_carry := []\<rparr> in
        case spend b of
          None \<Rightarrow> (f1, [], Cancelled)
        | Some _ \<Rightarrow> (f1, [\<lparr>af_PCM = bytes_buf frame, af_TsUs = ptsUs (fr_total f) (fr_SampleRate f)\<rparr>], Emitted))"

abbreviation frame_bytes :: "AudioFrame \<Rightarrow> u8 list" where
  "frame_bytes x \<equiv> buf_data (af_PCM x)"

text \<open>What a run of the loop leaves behind, in terms of the frames it sent.\<close>

definition framer_step_ok :: "nat \<Rightarrow> PCMFramer \<Rightarrow> PCMFramer \<Rightarrow> AudioFrame list \<Rightarrow> bool" where
  "framer_step_ok n f f' outs \<longleftrightarrow>
     concat (map frame_bytes outs) @ fr_carry f' = fr_carry f \<and>
     list_all (\<lambda>x. length (frame_bytes x) = n) outs \<and>
     fr_total f' = fr_total f + int (length outs) * framer_spf f \<and>
     map af_TsUs outs = map (\<lambda>k. ptsUs (fr_total f + int k * framer_spf f) (fr_SampleRate f)) [0..<length outs] \<and>
     fr_SampleRate f' = fr_SampleRate f \<and> fr_FrameDuration f' = fr_FrameDuration f \<and> fr_Lead f' = fr_Lead f"

lemma framer_loop_ok:
  assumes "bytesPerFrame f = int n" "0 < n"
  shows "\<exists>f' j outs. framer_loop clock lead f i None = Some (f', j, None, outs, Emitted) \<and>
    framer_step_ok n f f' outs \<and> length (fr_carry f') < n"
  using assms(1)
proof (induction "length (fr_carry f)" arbitrary: f i rule: less_induct)
  case less
  show ?case
  proof (cases "length (fr_carry f) < n")
    case True
    then show ?thesis
      using less.prems by (subst framer_loop.simps) (simp add: framer_step_ok_def)
  next
    case False
    obtain start d j where pace: "framer_pace clock lead f i = (start, d, j)" by (metis prod_cases3)
    let ?f1 = "f\<lparr>fr_carry := drop n (fr_carry f), fr_start := Some start, fr_total := fr_total f + framer_spf f\<rparr>"
    let ?out = "\<lparr>af_PCM = bytes_buf (take n (fr_carry f)), af_TsUs = ptsUs (fr_total f) (fr_SampleRate f)\<rparr>"
    have spf: "framer_spf ?f1 = framer_spf f" by (simp add: framer_spf_def)
    then have "bytesPerFrame ?f1 = int n" using less.prems by (simp add: bytesPerFrame_def)
    moreover have "length (fr_carry ?f1) < length (fr_carry f)" using False assms(2) by simp
    ultimately obtain f' k outs where IH: "framer_loop clock lead ?f1 j None = Some (f', k, None, outs, Emitted)"
      "framer_step_ok n ?f1 f' outs" "length (fr_carry f') < n"
      using less.hyps [of ?f1 j] by blast
    have "framer_loop clock lead f i None = Some (f', k, None, ?out # outs, Emitted)"
      using False less.prems IH(1) pace by (subst framer_loop.simps) (simp add: Let_def)
    moreover have "framer_step_ok n f f' (?out # outs)"
    proof -
      have "map af_TsUs (?out # outs) =
          map (\<lambda>k. ptsUs (fr_total f + int k * framer_spf f) (fr_SampleRate f)) (0 # map Suc [0..<length outs])"
        using IH(2) by (simp add: framer_step_ok_def spf algebra_simps comp_def)
      also have "0 # map Suc [0..<length outs] = [0..<length (?out # outs)]"
        by (simp add: map_Suc_upt upt_conv_Cons del: upt_Suc)
      finally have ts: "map af_TsUs (?out # outs) =
          map (\<lambda>k. ptsUs (fr_total f + int k * framer_spf f) (fr_SampleRate f)) [0..<length (?out # outs)]" .
      have c: "concat (map frame_bytes outs) @ fr_carry f' = drop n (fr_carry f)"
        using IH(2) by (simp add: framer_step_ok_def)
      show ?thesis
        unfolding framer_step_ok_def ts
        using IH(2) c False by (simp add: framer_step_ok_def spf algebra_simps)
    qed
    ultimately show ?thesis using IH(3) by blast
  qed
qed

text \<open>A whole stream: every chunk emitted in turn, then the rest flushed.\<close>

fun framer_run :: "(nat \<Rightarrow> instant) \<Rightarrow> PCMFramer \<Rightarrow> nat \<Rightarrow> u8 list list \<Rightarrow> (PCMFramer \<times> AudioFrame list) option" where
  "framer_run clock f i [] = (case PCMFramer_Flush f None of (f1, outs, st) \<Rightarrow> if st = Emitted then Some (f1, outs) else None)"
| "framer_run clock f i (pcm # pcms) =
     (case PCMFramer_Emit clock f i None pcm of
        None \<Rightarrow> None
      | Some (f1, j, _, outs, st) \<Rightarrow>
          if st = Emitted then map_option (apsnd ((@) outs)) (framer_run clock f1 j pcms) else None)"

lemma framer_run_ok:
  assumes "bytesPerFrame f = int n" "0 < n" "length (fr_carry f) < n"
  shows "\<exists>f' outs pad. framer_run clock f i pcms = Some (f', outs) \<and>
    concat (map frame_bytes outs) = fr_carry f @ concat pcms @ replicate pad 0 \<and> pad < n \<and>
    list_all (\<lambda>x. length (frame_bytes x) = n) outs \<and>
    map af_TsUs outs = map (\<lambda>k. ptsUs (fr_total f + int k * framer_spf f) (fr_SampleRate f)) [0..<length outs]"
  using assms(1,3)
proof (induction pcms arbitrary: f i)
  case Nil
  then show ?case
    using assms(2)
    by (cases "fr_carry f = []") (auto simp: PCMFramer_Flush_def Let_def bytes_buf_def buf_data_def)
next
  case (Cons pcm pcms)
  let ?lead = "if fr_Lead f \<le> 0 then 200 * Millisecond else fr_Lead f"
  let ?f0 = "f\<lparr>fr_carry := fr_carry f @ pcm\<rparr>"
  have spf0: "framer_spf ?f0 = framer_spf f" by (simp add: framer_spf_def)
  then have "bytesPerFrame ?f0 = int n" using Cons.prems by (simp add: bytesPerFrame_def)
  from framer_loop_ok [OF this assms(2), of clock ?lead i] obtain f1 j outs1 where
    e: "PCMFramer_Emit clock f i None pcm = Some (f1, j, None, outs1, Emitted)"
    and ok: "framer_step_ok n ?f0 f1 outs1" and l: "length (fr_carry f1) < n"
    by (auto simp: PCMFramer_Emit_def Let_def)
  have same: "framer_spf f1 = framer_spf f" "fr_SampleRate f1 = fr_SampleRate f"
    using ok by (simp_all add: framer_step_ok_def framer_spf_def)
  then have "bytesPerFrame f1 = int n" using Cons.prems by (simp add: bytesPerFrame_def)
  from Cons.IH [OF this l, of j] obtain f' outs pad where IH: "framer_run clock f1 j pcms = Some (f', outs)"
    "concat (map frame_bytes outs) = fr_carry f1 @ concat pcms @ replicate pad 0" "pad < n"
    "list_all (\<lambda>x. length (frame_bytes x) = n) outs"
    "map af_TsUs outs = map (\<lambda>k. ptsUs (fr_total f1 + int k * framer_spf f1) (fr_SampleRate f1)) [0..<length outs]"
    by blast
  let ?g = "\<lambda>k. ptsUs (fr_total f + int k * framer_spf f) (fr_SampleRate f)"
  have "map af_TsUs outs = map ?g (map (\<lambda>k. k + length outs1) [0..<length outs])"
    using IH(5) ok by (simp add: framer_step_ok_def same spf0 algebra_simps comp_def)
  also have "map (\<lambda>k. k + length outs1) [0..<length outs] = [length outs1..<length outs1 + length outs]"
    by (simp add: map_add_upt add.commute)
  finally have "map af_TsUs (outs1 @ outs) = map ?g ([0..<length outs1] @ [length outs1..<length outs1 + length outs])"
    using ok by (simp add: framer_step_ok_def spf0)
  then have ts: "map af_TsUs (outs1 @ outs) = map ?g [0..<length (outs1 @ outs)]"
    using upt_add_eq_append [of 0 "length outs1" "length outs"] by simp
  have "concat (map frame_bytes outs1) @ fr_carry f1 = fr_carry f @ pcm"
    using ok by (simp add: framer_step_ok_def)
  then have "concat (map frame_bytes (outs1 @ outs)) = fr_carry f @ concat (pcm # pcms) @ replicate pad 0"
    by (simp add: IH(2))
  with e IH(1,3,4) ts ok show ?case by (auto simp: framer_step_ok_def)
qed

text \<open>
  The framer loses and invents no sample: however a synthesised stream is cut into chunks and
  whatever the clock shows, every \<open>Emit\<close> returns, the frames are all exactly one frame long, their
  bytes joined are the bytes of the stream padded with less than a frame of zeros, and the \<open>k\<close>-th
  frame is stamped with its position on the sample clock.
\<close>

theorem framer_conserves:
  assumes "bytesPerFrame f = int n" "0 < n" "fr_carry f = []" "fr_total f = 0"
  shows "\<exists>f' outs pad. framer_run clock f i pcms = Some (f', outs) \<and>
    concat (map frame_bytes outs) = concat pcms @ replicate pad 0 \<and> pad < n \<and>
    list_all (\<lambda>x. length (frame_bytes x) = n) outs \<and>
    map af_TsUs outs = map (\<lambda>k. ptsUs (int k * framer_spf f) (fr_SampleRate f)) [0..<length outs]"
  using framer_run_ok [OF assms(1,2), of clock i pcms] assms by simp

theorem framer_conserves_witness:
  "\<exists>f' outs pad. framer_run (\<lambda>_. 0)
      \<lparr>fr_SampleRate = 1000, fr_FrameDuration = 2 * Millisecond, fr_Lead = 0, fr_carry = [], fr_total = 0, fr_start = None\<rparr>
      0 [[1, 2, 3], [4, 5], [6]] = Some (f', outs) \<and>
     concat (map frame_bytes outs) = [1, 2, 3, 4, 5, 6] @ replicate pad 0 \<and> pad < 4"
  using framer_conserves [of
      "\<lparr>fr_SampleRate = 1000, fr_FrameDuration = 2 * Millisecond, fr_Lead = 0, fr_carry = [], fr_total = 0, fr_start = None\<rparr>"
      4 "\<lambda>_. 0" 0 "[[1, 2, 3], [4, 5], [6]]"]
  by (auto simp: bytesPerFrame_def framer_spf_def samplesPerFrame_def signed_divide_int_def)

text \<open>
  A frame duration too short for one sample, zero included, which \<open>Config.Validate\<close> accepts, makes
  \<open>Emit\<close> send empty frames for ever: with a context that is never cancelled it does not return,
  whatever the input.
\<close>

theorem framer_zero_frame_diverges:
  assumes "bytesPerFrame f = 0"
  shows "PCMFramer_Emit clock f i None pcm = None"
proof -
  have "framer_loop clock lead f i b = Some y \<Longrightarrow> \<not> (bytesPerFrame f = 0 \<and> b = None)" for lead f i b y
  proof (rule framer_loop.raw_induct [where P = "\<lambda>clock lead f i b y. \<not> (bytesPerFrame f = 0 \<and> b = None)"])
    fix rec :: "(nat \<Rightarrow> instant) \<Rightarrow> duration \<Rightarrow> PCMFramer \<Rightarrow> nat \<Rightarrow> budget \<Rightarrow>
      (PCMFramer \<times> nat \<times> budget \<times> AudioFrame list \<times> emit_status) option"
    fix clock lead f i b y
    assume IH: "\<And>clock lead f i b y. rec clock lead f i b = Some y \<Longrightarrow> \<not> (bytesPerFrame f = 0 \<and> b = None)"
      and eq: "(let bpf = bytesPerFrame f in
      if int (length (fr_carry f)) < bpf then Some (f, i, b, [], Emitted)
      else if bpf < 0 then Some (f, i, b, [], Panicked)
      else let frame = take (nat bpf) (fr_carry f) in
        case framer_pace clock lead f i of (start, d, j) \<Rightarrow>
          let f1 = f\<lparr>fr_carry := drop (nat bpf) (fr_carry f), fr_start := Some start\<rparr>;
              out = \<lparr>af_PCM = bytes_buf frame, af_TsUs = ptsUs (fr_total f) (fr_SampleRate f)\<rparr> in
          case (if d > 0 then spend b else Some b) of
            None \<Rightarrow> Some (f1, j, b, [], Cancelled)
          | Some b1 \<Rightarrow>
              (case spend b1 of
                 None \<Rightarrow> Some (f1, j, b1, [], Cancelled)
               | Some b2 \<Rightarrow>
                   Option.bind (rec clock lead (f1\<lparr>fr_total := fr_total f + framer_spf f\<rparr>) j b2)
                     (\<lambda>(f2, k, b3, outs, st). Some (f2, k, b3, out # outs, st)))) = Some y"
    show "\<not> (bytesPerFrame f = 0 \<and> b = None)"
    proof
      assume z: "bytesPerFrame f = 0 \<and> b = None"
      obtain start d j where pace: "framer_pace clock lead f i = (start, d, j)" by (metis prod_cases3)
      from eq z pace obtain y' where
        "rec clock lead (f\<lparr>fr_start := Some start, fr_total := fr_total f + framer_spf f\<rparr>) j None = Some y'"
        by (auto simp: Let_def bind_eq_Some_conv if_distrib [of "\<lambda>x. case_option _ _ x"] cong: if_cong)
      from IH [OF this] z show False by (simp add: bytesPerFrame_def framer_spf_def)
    qed
  qed
  then have "framer_loop clock lead f i None = None" if "bytesPerFrame f = 0" for lead f
    using that by (metis not_None_eq)
  with assms show ?thesis
    by (simp add: PCMFramer_Emit_def bytesPerFrame_def framer_spf_def)
qed

theorem framer_zero_frame_diverges_witness:
  "PCMFramer_Emit (\<lambda>_. 0) \<lparr>fr_SampleRate = 16000, fr_FrameDuration = 0, fr_Lead = 0, fr_carry = [],
     fr_total = 0, fr_start = None\<rparr> 0 None [1, 2] = None"
  by (rule framer_zero_frame_diverges) (simp add: bytesPerFrame_def framer_spf_def samplesPerFrame_def)

section \<open>Sentence ends\<close>

definition TrimRightBlank :: "runes \<Rightarrow> runes" where
  "TrimRightBlank s = rev (dropWhile (\<lambda>r. r = 32 \<or> r = 9) (rev s))"

definition EndsSentence :: "runes \<Rightarrow> bool" where
  "EndsSentence s =
     (let r = TrimRightBlank s in
      if r = [] then False
      else last r \<in> {46, 33, 63, 59, 10, 0x3002, 0xFF01, 0xFF1F, 0xFF1B})"

lemma EndsSentence_blank: "b = 32 \<or> b = 9 \<Longrightarrow> EndsSentence (s @ [b]) = EndsSentence s"
  by (auto simp: EndsSentence_def TrimRightBlank_def)

end
