(* ===== verification/Turn.thy ===== *)
theory Turn
  imports Edge Synth
begin

text \<open>
  One response turn, \<open>internal/pipeline/turn.go\<close>: the measurements, the forwarder between the language
  model and the synthesiser, the egress pump, and the conversation memory. The stages are functions of
  what they receive and of a budget (theory \<open>Adapter\<close>); clocks are functions from the number of the
  reading to the instant read.
\<close>

declare length_ring_list [simp del]

section \<open>Instants\<close>

text \<open>The zero \<open>time.Time\<close> is the year 1; \<open>Sub\<close> saturates at the range of a duration.\<close>

definition zero_time :: instant where
  "zero_time = - 62135596800 * Second"

definition time_sub :: "instant \<Rightarrow> instant \<Rightarrow> duration" where
  "time_sub a b = max (- (2 ^ 63)) (min (2 ^ 63 - 1) (a - b))"

lemma time_sub_exact: "\<bar>a - b\<bar> < 2 ^ 63 \<Longrightarrow> time_sub a b = a - b"
  by (auto simp: time_sub_def)

section \<open>Measurements\<close>

record TurnStats =
  ts_Prompt :: runes
  ts_Reply :: runes
  ts_UtteranceEndAt :: instant
  ts_ASRFinalAt :: instant
  ts_LLMStartAt :: instant
  ts_LLMFirstTokenAt :: instant
  ts_LLMLastTokenAt :: instant
  ts_TTSStartAt :: instant
  ts_TTSFirstFrameAt :: instant
  ts_TTSLastFrameAt :: instant
  ts_EndedAt :: instant
  ts_Cancelled :: bool
  ts_FlushedFrames :: nat
  ts_BargeInLatency :: duration

definition FirstResponse :: "TurnStats \<Rightarrow> duration" where
  "FirstResponse s =
     (if ts_TTSFirstFrameAt s = zero_time then 0 else time_sub (ts_TTSFirstFrameAt s) (ts_UtteranceEndAt s))"

definition ModelLatency :: "TurnStats \<Rightarrow> duration" where
  "ModelLatency s =
     (if ts_TTSFirstFrameAt s = zero_time then 0
      else time_sub (ts_ASRFinalAt s) (ts_UtteranceEndAt s) + time_sub (ts_LLMFirstTokenAt s) (ts_LLMStartAt s) +
           time_sub (ts_TTSFirstFrameAt s) (ts_TTSStartAt s))"

definition KernelOverhead :: "TurnStats \<Rightarrow> duration" where
  "KernelOverhead s = (if ts_TTSFirstFrameAt s = zero_time then 0 else FirstResponse s - ModelLatency s)"

text \<open>The instants of a measurement that are used by the three latencies lie within a century.\<close>

definition near_instants :: "TurnStats \<Rightarrow> bool" where
  "near_instants s \<longleftrightarrow> list_all (\<lambda>t. 0 \<le> t \<and> t < 2 ^ 62) [ts_UtteranceEndAt s, ts_ASRFinalAt s,
     ts_LLMStartAt s, ts_LLMFirstTokenAt s, ts_TTSStartAt s, ts_TTSFirstFrameAt s]"

text \<open>
  The two accounts of the first-response latency add up: what is not the model's is exactly the
  wait of the final transcript for the orchestrator plus the hand-over of the first token to the
  synthesiser, so the kernel overhead is never negative when these instants are in order.
\<close>

theorem kernel_overhead_is_handover:
  assumes "near_instants s"
  shows "FirstResponse s = ModelLatency s + KernelOverhead s \<and>
    KernelOverhead s = (ts_LLMStartAt s - ts_ASRFinalAt s) + (ts_TTSStartAt s - ts_LLMFirstTokenAt s)"
proof -
  have near: "time_sub a b = a - b" if "0 \<le> a" "a < 2 ^ 62" "0 \<le> b" "b < 2 ^ 62" for a b
    using that by (intro time_sub_exact) auto
  have "ts_TTSFirstFrameAt s \<noteq> zero_time" using assms by (simp add: near_instants_def zero_time_def)
  then show ?thesis
    using assms by (simp add: near_instants_def FirstResponse_def ModelLatency_def KernelOverhead_def near)
qed

section \<open>Forwarder\<close>

record utterance =
  ut_text :: runes
  ut_endAt :: instant
  ut_finalAt :: instant

text \<open>The loop over the tokens: it stamps, accumulates, shows each token to the observer and hands it
  on. The result has the tokens observed, the tokens handed on and the readings used.\<close>

fun forward :: "(nat \<Rightarrow> instant) \<Rightarrow> nat \<Rightarrow> budget \<Rightarrow> TurnStats \<Rightarrow> Token list \<Rightarrow> TurnStats \<times> Token list \<times> Token list" where
  "forward clock i b s [] = (s, [], [])"
| "forward clock i b s (tok # toks) =
     (let now = clock i;
          s1 = (if ts_LLMFirstTokenAt s = zero_time then s\<lparr>ts_LLMFirstTokenAt := now\<rparr> else s);
          s2 = s1\<lparr>ts_LLMLastTokenAt := now\<rparr> in
      case spend b of
        None \<Rightarrow> (s2, [tok], [])
      | Some b1 \<Rightarrow>
          (case (if ts_TTSStartAt s2 = zero_time then (s2\<lparr>ts_TTSStartAt := clock (i + 1)\<rparr>, i + 2) else (s2, i + 1)) of
             (s3, j) \<Rightarrow>
               (case forward clock j b1 s3 toks of
                  (s4, seen, sent) \<Rightarrow> (s4, tok # seen, tok # sent))))"

lemma forward_tokens:
  "\<exists>n m. forward clock i b s toks = (s', seen, sent) \<longrightarrow>
     seen = take n toks \<and> sent = take m toks \<and> m \<le> n \<and> n \<le> m + 1 \<and> n \<le> length toks \<and>
     (b = None \<longrightarrow> m = length toks)"
proof (induction toks arbitrary: i b s seen sent)
  case Nil
  then show ?case by (intro exI [of _ 0]) auto
next
  case (Cons tok toks)
  show ?case
  proof (cases "spend b")
    case None
    then have "b \<noteq> None" by (cases b) auto
    with None show ?thesis by (intro exI [of _ 1] exI [of _ 0]) (auto simp: Let_def)
  next
    case (Some b1)
    define s2 where "s2 = (if ts_LLMFirstTokenAt s = zero_time then s\<lparr>ts_LLMFirstTokenAt := clock i\<rparr> else s)
      \<lparr>ts_LLMLastTokenAt := clock i\<rparr>"
    obtain s3 j where s3: "(if ts_TTSStartAt s2 = zero_time then (s2\<lparr>ts_TTSStartAt := clock (i + 1)\<rparr>, i + 2)
      else (s2, i + 1)) = (s3, j)" by force
    obtain s4 seen' sent' where f: "forward clock j b1 s3 toks = (s4, seen', sent')" by (metis prod_cases3)
    have run: "forward clock i b s (tok # toks) = (s4, tok # seen', tok # sent')"
      by (simp only: forward.simps Let_def s2_def [symmetric] Some option.case s3 prod.case f)
    show ?thesis
    proof (cases "s4 = s'")
      case True
      from Cons.IH [of j b1 s3 seen' sent'] f True obtain n m where
        nm: "seen' = take n toks" "sent' = take m toks" "m \<le> n" "n \<le> m + 1" "n \<le> length toks"
        "b1 = None \<longrightarrow> m = length toks" by auto
      have "b = None \<Longrightarrow> b1 = None" using Some by simp
      with nm run show ?thesis by (intro exI [of _ "Suc n"] exI [of _ "Suc m"]) auto
    next
      case False
      with run show ?thesis by simp
    qed
  qed
qed

section \<open>Egress pump\<close>

text \<open>The connection's writer takes frames while the pump puts them in: \<open>takes k\<close> is how many it takes
  before the \<open>k\<close>-th push. The result has the frames taken.\<close>

fun take_frames :: "nat \<Rightarrow> edge \<Rightarrow> (edge \<times> AudioFrame list) option" where
  "take_frames 0 e = Some (e, [])"
| "take_frames (Suc n) e =
     Option.bind (edge_pop e) (\<lambda>(e1, f, ok).
       if ok then map_option (apsnd ((#) f)) (take_frames n e1) else Some (e1, []))"

fun egress_pump :: "(nat \<Rightarrow> instant) \<Rightarrow> (nat \<Rightarrow> nat) \<Rightarrow> nat \<Rightarrow> TurnStats \<Rightarrow> edge \<Rightarrow> AudioFrame list \<Rightarrow>
    (TurnStats \<times> edge \<times> AudioFrame list) option" where
  "egress_pump clock takes i s e [] = Some (s, e, [])"
| "egress_pump clock takes i s e (f # fs) =
     Option.bind (take_frames (takes i) e) (\<lambda>(e1, got).
     Option.bind (edge_push e1 f) (\<lambda>(e2, _).
       let now = clock i;
           s1 = (if ts_TTSFirstFrameAt s = zero_time then s\<lparr>ts_TTSFirstFrameAt := now\<rparr> else s);
           s2 = s1\<lparr>ts_TTSLastFrameAt := now\<rparr> in
       map_option (\<lambda>(s3, e3, rest). (s3, e3, got @ rest)) (egress_pump clock takes (i + 1) s2 e2 fs)))"

definition same_edge :: "edge \<Rightarrow> edge \<Rightarrow> bool" where
  "same_edge e e' \<longleftrightarrow> Ring_Cap (eg_ring e') = Ring_Cap (eg_ring e) \<and> ring_policy (eg_ring e') = ring_policy (eg_ring e)"

lemma take_frames_ok:
  "edge_inv e \<Longrightarrow> \<exists>e' got. take_frames n e = Some (e', got) \<and> edge_inv e' \<and> same_edge e e' \<and>
     edge_frames e = got @ edge_frames e' \<and> edge_dropped e' = edge_dropped e"
proof (induction n arbitrary: e)
  case 0
  then show ?case by (simp add: same_edge_def)
next
  case (Suc n)
  show ?case
  proof (cases "edge_frames e")
    case Nil
    with Suc.prems edge_pop_nil [of e] show ?thesis by (simp add: same_edge_def)
  next
    case (Cons f fs)
    from edge_pop_cons [OF Suc.prems Cons] obtain e1 where "edge_pop e = Some (e1, f, True)" "edge_inv e1"
      "edge_frames e1 = fs" "ring_policy (eg_ring e1) = ring_policy (eg_ring e)"
      "Ring_Cap (eg_ring e1) = Ring_Cap (eg_ring e)" "edge_dropped e1 = edge_dropped e" by blast
    with Suc.IH [of e1] Cons show ?thesis by (auto simp: same_edge_def)
  qed
qed

lemma edge_push_subseq:
  assumes "edge_inv e" "edge_push e f = Some (e', ok)" "ring_policy (eg_ring e) \<noteq> Reject"
  shows "edge_inv e'" "same_edge e e'" "\<exists>d. edge_dropped e' = edge_dropped e + word_of_nat d \<and>
    edge_frames e' = drop d (edge_frames e @ [f]) \<and> d \<le> length (edge_frames e @ [f])"
proof -
  let ?n = "length (edge_frames e)" and ?c = "Ring_Cap (eg_ring e)"
  have cap: "?n \<le> ?c" "0 < ?c"
    using assms(1) ring_list_le_cap [of "eg_ring e"] ring_cap_pos [of "eg_ring e"] by (simp_all add: edge_inv_def)
  from edge_push_ok [OF assms(1), of f] assms(2) have p: "edge_inv e'"
    "edge_frames e' = pushed_frames (ring_policy (eg_ring e)) ?c (edge_frames e) f"
    "ring_policy (eg_ring e') = ring_policy (eg_ring e)" "Ring_Cap (eg_ring e') = ?c"
    "edge_dropped e' = edge_dropped e + (if ring_policy (eg_ring e) \<noteq> Reject \<and> ?n = ?c then 1 else 0)"
    by auto
  show "edge_inv e'" "same_edge e e'" using p by (simp_all add: same_edge_def)
  show "\<exists>d. edge_dropped e' = edge_dropped e + word_of_nat d \<and>
      edge_frames e' = drop d (edge_frames e @ [f]) \<and> d \<le> length (edge_frames e @ [f])"
  proof (cases "?n < ?c")
    case True
    with p assms(3) show ?thesis by (intro exI [of _ 0]) (simp add: pushed_frames_def)
  next
    case False
    with cap have "edge_frames e \<noteq> []" "?n = ?c" by auto
    with p assms(3) show ?thesis
      by (intro exI [of _ 1]) (cases "edge_frames e"; simp add: pushed_frames_def)
  qed
qed

text \<open>Everything synthesised is taken by the writer, still buffered, or counted as dropped, in order.\<close>

lemma egress_pump_ok:
  "edge_inv e \<Longrightarrow> ring_policy (eg_ring e) \<noteq> Reject \<Longrightarrow>
     \<exists>s' e' got d. egress_pump clock takes i s e fs = Some (s', e', got) \<and> edge_inv e' \<and> same_edge e e' \<and>
       subseq (got @ edge_frames e') (edge_frames e @ fs) \<and>
       length got + length (edge_frames e') + d = length (edge_frames e) + length fs \<and>
       edge_dropped e' = edge_dropped e + word_of_nat d"
proof (induction fs arbitrary: i s e)
  case Nil
  then show ?case by (auto simp: same_edge_def intro: exI [of _ "0 :: nat"])
next
  case (Cons f fs)
  obtain e1 got1 where e1: "take_frames (takes i) e = Some (e1, got1)" "edge_inv e1" "same_edge e e1"
    "edge_frames e = got1 @ edge_frames e1" "edge_dropped e1 = edge_dropped e"
    using take_frames_ok [OF Cons.prems(1)] by blast
  then have pol: "ring_policy (eg_ring e1) \<noteq> Reject" using Cons.prems(2) by (simp add: same_edge_def)
  obtain e2 ok where push: "edge_push e1 f = Some (e2, ok)" using edge_push_ok [OF e1(2)] by blast
  note e2 = edge_push_subseq [OF e1(2) push pol]
  then obtain d1 where d1: "edge_dropped e2 = edge_dropped e1 + word_of_nat d1"
    "edge_frames e2 = drop d1 (edge_frames e1 @ [f])" "d1 \<le> length (edge_frames e1 @ [f])" by blast
  have pol2: "ring_policy (eg_ring e2) \<noteq> Reject" using e2(2) pol by (simp add: same_edge_def)
  let ?s2 = "(if ts_TTSFirstFrameAt s = zero_time then s\<lparr>ts_TTSFirstFrameAt := clock i\<rparr> else s)
    \<lparr>ts_TTSLastFrameAt := clock i\<rparr>"
  from Cons.IH [OF e2(1) pol2, of "i + 1" ?s2] obtain s' e' got d where
    IH: "egress_pump clock takes (i + 1) ?s2 e2 fs = Some (s', e', got)" "edge_inv e'" "same_edge e2 e'"
    "subseq (got @ edge_frames e') (edge_frames e2 @ fs)"
    "length got + length (edge_frames e') + d = length (edge_frames e2) + length fs"
    "edge_dropped e' = edge_dropped e2 + word_of_nat d" by blast
  have "egress_pump clock takes i s e (f # fs) = Some (s', e', got1 @ got)"
    using IH(1) by (simp add: e1(1) push Let_def)
  moreover have "subseq (got1 @ (got @ edge_frames e')) (got1 @ (edge_frames e1 @ f # fs))"
  proof (rule list_emb_append_mono)
    have "subseq (drop d1 (edge_frames e1 @ [f])) (edge_frames e1 @ [f])"
      by (rule suffix_imp_subseq) (rule suffix_drop)
    from list_emb_append_mono [OF this subseq_order.refl]
    have "subseq (drop d1 (edge_frames e1 @ [f]) @ fs) ((edge_frames e1 @ [f]) @ fs)" .
    with IH(4) show "subseq (got @ edge_frames e') (edge_frames e1 @ f # fs)"
      by (simp add: d1(2))
  qed simp
  moreover have "length (got1 @ got) + length (edge_frames e') + (d1 + d) = length (edge_frames e) + length (f # fs)"
    using IH(5) d1(3) by (simp add: d1(2) e1(4))
  moreover have "edge_dropped e' = edge_dropped e + word_of_nat (d1 + d)"
    by (simp add: IH(6) d1(1) e1(5))
  moreover have "same_edge e e'" using e1(3) e2(2) IH(3) by (simp add: same_edge_def)
  ultimately show ?case using IH(2) by (intro exI [of _ s'] exI [of _ e'] exI [of _ "got1 @ got"] exI [of _ "d1 + d"])
      (simp add: e1(4))
qed

section \<open>The response chain\<close>

datatype stage_end = StageOk | StageCanceled | StageFailed string

type_synonym llm_stage = "budget \<Rightarrow> Turn \<Rightarrow> Token list \<times> stage_end"
type_synonym tts_stage = "budget \<Rightarrow> Token list \<Rightarrow> AudioFrame list \<times> stage_end"

text \<open>What the environment decides about a turn: when each stage is cancelled, what the clocks show,
  when the writer takes frames, and which of two failing stages reports first.\<close>

record turn_env =
  te_llm :: budget
  te_fwd :: budget
  te_tts :: budget
  te_start :: instant
  te_fwd_clock :: "nat \<Rightarrow> instant"
  te_pump_clock :: "nat \<Rightarrow> instant"
  te_takes :: "nat \<Rightarrow> nat"
  te_end :: instant
  te_llm_first :: bool

record turnHandle =
  th_stats :: TurnStats
  th_err :: "string option"

definition stage_err :: "stage_end \<Rightarrow> string option" where
  "stage_err r = (case r of StageFailed e \<Rightarrow> Some e | _ \<Rightarrow> None)"

definition first_err :: "bool \<Rightarrow> stage_end \<Rightarrow> stage_end \<Rightarrow> string option" where
  "first_err a_first a b =
     (case (if a_first then (stage_err a, stage_err b) else (stage_err b, stage_err a)) of
        (Some e, _) \<Rightarrow> Some e | (None, r) \<Rightarrow> r)"

definition init_stats :: "utterance \<Rightarrow> instant \<Rightarrow> TurnStats" where
  "init_stats u t =
     \<lparr>ts_Prompt = ut_text u, ts_Reply = [], ts_UtteranceEndAt = ut_endAt u, ts_ASRFinalAt = ut_finalAt u,
      ts_LLMStartAt = t, ts_LLMFirstTokenAt = zero_time, ts_LLMLastTokenAt = zero_time,
      ts_TTSStartAt = zero_time, ts_TTSFirstFrameAt = zero_time, ts_TTSLastFrameAt = zero_time,
      ts_EndedAt = zero_time, ts_Cancelled = False, ts_FlushedFrames = 0, ts_BargeInLatency = 0\<rparr>"

text \<open>The chain from its start until all four goroutines have returned: the handle, the egress edge,
  the tokens shown to the observer and the frames the writer has taken meanwhile.\<close>

definition turn_chain :: "llm_stage \<Rightarrow> tts_stage \<Rightarrow> turn_env \<Rightarrow> Message list \<Rightarrow> utterance \<Rightarrow> edge \<Rightarrow>
    (turnHandle \<times> edge \<times> Token list \<times> AudioFrame list) option" where
  "turn_chain llm tts te history u egress =
     (let turn = \<lparr>tn_Prompt = ut_text u, tn_History = history\<rparr>;
          s0 = init_stats u (te_start te) in
      case llm (te_llm te) turn of (toks, llm_end) \<Rightarrow>
      case forward (te_fwd_clock te) 0 (te_fwd te) s0 toks of (s1, seen, sent) \<Rightarrow>
      case tts (te_tts te) sent of (frames, tts_end) \<Rightarrow>
        map_option (\<lambda>(s2, e2, got).
            (\<lparr>th_stats = s2\<lparr>ts_Reply := concat (map tok_Text seen), ts_EndedAt := te_end te\<rparr>,
              th_err = first_err (te_llm_first te) llm_end tts_end\<rparr>, e2, seen, got))
          (egress_pump (te_pump_clock te) (te_takes te) 0 s1 egress frames))"

lemma forward_keeps:
  "forward clock i b s toks = (s', seen, sent) \<Longrightarrow>
     ts_Prompt s' = ts_Prompt s \<and> ts_UtteranceEndAt s' = ts_UtteranceEndAt s \<and> ts_Cancelled s' = ts_Cancelled s"
proof (induction toks arbitrary: i b s seen sent)
  case (Cons tok toks)
  then show ?case
    by (auto simp: Let_def split: option.splits if_splits prod.splits)
qed simp

lemma egress_pump_keeps:
  "egress_pump clock takes i s e fs = Some (s', e', got) \<Longrightarrow>
     ts_Prompt s' = ts_Prompt s \<and> ts_UtteranceEndAt s' = ts_UtteranceEndAt s \<and> ts_Cancelled s' = ts_Cancelled s"
proof (induction fs arbitrary: i s e got)
  case (Cons f fs)
  then obtain e1 got1 e2 ok rest where r: "take_frames (takes i) e = Some (e1, got1)" "edge_push e1 f = Some (e2, ok)"
    "egress_pump clock takes (i + 1) ((if ts_TTSFirstFrameAt s = zero_time then s\<lparr>ts_TTSFirstFrameAt := clock i\<rparr> else s)
       \<lparr>ts_TTSLastFrameAt := clock i\<rparr>) e2 fs = Some (s', e', rest)"
    by (auto simp: bind_eq_Some_conv Let_def)
  from Cons.IH [OF r(3)] show ?case by (auto split: if_splits)
qed simp

text \<open>The contract of a language model: its tokens are an initial part of a reply, all of it when it
  returns without error, which it does unless it is cancelled.\<close>

locale reply_model =
  fixes llm :: llm_stage and reply :: "Turn \<Rightarrow> runes"
  assumes tokens_prefix: "llm b t = (toks, r) \<Longrightarrow> prefix (concat (map tok_Text toks)) (reply t)"
    and tokens_all: "llm b t = (toks, StageOk) \<Longrightarrow> concat (map tok_Text toks) = reply t"
    and uncancelled: "llm None t = (toks, r) \<Longrightarrow> r = StageOk"
begin

lemma forward_reply:
  assumes "llm b t = (toks, r)" "forward clock i fb s toks = (s', seen, sent)"
  shows "prefix (concat (map tok_Text seen)) (reply t)"
    "b = None \<Longrightarrow> fb = None \<Longrightarrow> concat (map tok_Text seen) = reply t \<and> sent = seen"
proof -
  obtain n m where nm: "seen = take n toks" "sent = take m toks" "m \<le> n" "n \<le> length toks"
    "fb = None \<longrightarrow> m = length toks"
    using forward_tokens [of clock i fb s toks s' seen sent] assms(2) by blast
  have "concat (map tok_Text toks) = concat (map tok_Text seen) @ concat (map tok_Text (drop n toks))"
    by (simp add: nm(1) flip: concat_append map_append)
  then show "prefix (concat (map tok_Text seen)) (reply t)"
    using tokens_prefix [OF assms(1)] by (metis prefixI prefix_order.trans)
  assume "b = None" "fb = None"
  with nm have e: "seen = toks" "sent = toks" by auto
  from \<open>b = None\<close> assms(1) have "r = StageOk" using uncancelled by blast
  with e assms(1) show "concat (map tok_Text seen) = reply t \<and> sent = seen" using tokens_all by auto
qed

end

definition mock_llm_stage :: "MockLLM \<Rightarrow> llm_stage" where
  "mock_llm_stage m b t = (case MockLLM_Stream m b t of (toks, ok) \<Rightarrow> (toks, if ok then StageOk else StageCanceled))"

lemma llm_send_None: "snd (llm_send None ws)"
  by (induction ws) auto

lemma mock_llm_tokens:
  "MockLLM_Stream m b t = (toks, ok) \<Longrightarrow> prefix (concat (map tok_Text toks)) (mock_reply m t)"
  "MockLLM_Stream m b t = (toks, True) \<Longrightarrow> concat (map tok_Text toks) = mock_reply m t"
proof -
  let ?ws = "tokenize (mock_reply m t)"
  obtain n where n: "n \<le> length ?ws" "fst (llm_send b ?ws) = map (\<lambda>w. \<lparr>tok_Text = w\<rparr>) (take n ?ws)"
    "snd (llm_send b ?ws) \<longleftrightarrow> n = length ?ws" using llm_send_prefix by blast
  have "concat (take n ?ws) @ concat (drop n ?ws) = mock_reply m t"
    by (simp add: tokenize_concat flip: concat_append)
  then have pre: "prefix (concat (take n ?ws)) (mock_reply m t)" by (metis prefixI)
  { assume "MockLLM_Stream m b t = (toks, ok)"
    with n(2) have "toks = map (\<lambda>w. \<lparr>tok_Text = w\<rparr>) (take n ?ws)" by (simp add: MockLLM_Stream_def)
    with pre show "prefix (concat (map tok_Text toks)) (mock_reply m t)" by (simp add: comp_def) }
  { assume "MockLLM_Stream m b t = (toks, True)"
    with n(2,3) have "toks = map (\<lambda>w. \<lparr>tok_Text = w\<rparr>) ?ws" by (simp add: MockLLM_Stream_def)
    then show "concat (map tok_Text toks) = mock_reply m t" by (simp add: comp_def tokenize_concat) }
qed

interpretation mock_llm: reply_model "mock_llm_stage m" "mock_reply m" for m
proof unfold_locales
  fix b t toks r
  assume s: "mock_llm_stage m b t = (toks, r)"
  then obtain ok where o: "MockLLM_Stream m b t = (toks, ok)"
    by (auto simp: mock_llm_stage_def split: prod.splits)
  show "prefix (concat (map tok_Text toks)) (mock_reply m t)" by (rule mock_llm_tokens(1) [OF o])
next
  fix b t toks
  assume "mock_llm_stage m b t = (toks, StageOk)"
  then have "MockLLM_Stream m b t = (toks, True)"
    by (auto simp: mock_llm_stage_def split: prod.splits if_splits)
  then show "concat (map tok_Text toks) = mock_reply m t" by (rule mock_llm_tokens(2))
next
  fix t toks r
  assume "mock_llm_stage m None t = (toks, r)"
  with llm_send_None [of "tokenize (mock_reply m t)"] show "r = StageOk"
    by (auto simp: mock_llm_stage_def MockLLM_Stream_def split: prod.splits if_splits)
qed

text \<open>
  A turn tells the truth about itself: with the mock model, whatever is cancelled and when, the
  recorded reply is the text of the tokens the observer saw, an initial part of the model's reply, and
  all of it when nothing was cancelled; the frames the writer has taken and those left in the egress
  ring are, in order, among the frames already buffered and those synthesised, and the rest is counted.
\<close>

theorem turn_accounts:
  assumes "edge_inv egress" "ring_policy (eg_ring egress) \<noteq> Reject"
  shows "\<exists>h e' seen got frames d. turn_chain (mock_llm_stage m) tts te history u egress = Some (h, e', seen, got) \<and>
    ts_Prompt (th_stats h) = ut_text u \<and> ts_Reply (th_stats h) = concat (map tok_Text seen) \<and>
    (let reply = mock_reply m \<lparr>tn_Prompt = ut_text u, tn_History = history\<rparr> in
       if te_llm te = None \<and> te_fwd te = None then ts_Reply (th_stats h) = reply
       else prefix (ts_Reply (th_stats h)) reply) \<and>
    subseq (got @ edge_frames e') (edge_frames egress @ frames) \<and>
    length got + length (edge_frames e') + d = length (edge_frames egress) + length frames \<and>
    edge_dropped e' = edge_dropped egress + word_of_nat d"
proof -
  let ?turn = "\<lparr>tn_Prompt = ut_text u, tn_History = history\<rparr>"
  obtain toks r where llm: "mock_llm_stage m (te_llm te) ?turn = (toks, r)" by force
  obtain s1 seen sent where fwd: "forward (te_fwd_clock te) 0 (te_fwd te) (init_stats u (te_start te)) toks = (s1, seen, sent)"
    by (metis prod_cases3)
  obtain frames r' where tts: "tts (te_tts te) sent = (frames, r')" by force
  obtain s2 e' got d where pump:
    "egress_pump (te_pump_clock te) (te_takes te) 0 s1 egress frames = Some (s2, e', got)"
    "subseq (got @ edge_frames e') (edge_frames egress @ frames)"
    "length got + length (edge_frames e') + d = length (edge_frames egress) + length frames"
    "edge_dropped e' = edge_dropped egress + word_of_nat d"
    using egress_pump_ok [OF assms, of "te_pump_clock te" "te_takes te" 0 s1 frames] by blast
  have prompt: "ts_Prompt s2 = ut_text u"
    using egress_pump_keeps [OF pump(1)] forward_keeps [OF fwd] by (simp add: init_stats_def)
  note reply = mock_llm.forward_reply [OF llm fwd]
  show ?thesis
    using pump prompt reply by (auto simp: turn_chain_def Let_def llm fwd tts)
qed

theorem turn_accounts_witness:
  "\<exists>egress h e' seen got. newEdge 2 DropOldest = Inr egress \<and>
     turn_chain (mock_llm_stage \<lparr>mllm_Reply = [104, 105]\<rparr>) (\<lambda>_ _. ([zero_frame], StageOk))
       \<lparr>te_llm = None, te_fwd = None, te_tts = None, te_start = 1, te_fwd_clock = int, te_pump_clock = int,
        te_takes = (\<lambda>_. 0), te_end = 9, te_llm_first = True\<rparr> []
       \<lparr>ut_text = [63], ut_endAt = 0, ut_finalAt = 1\<rparr> egress = Some (h, e', seen, got) \<and>
     ts_Reply (th_stats h) = [104, 105]"
proof -
  obtain egress where e: "newEdge 2 DropOldest = Inr egress" using new_edge_2 by blast
  then have "edge_inv egress" "ring_policy (eg_ring egress) \<noteq> Reject" using edge_new_ok [OF e] by auto
  from turn_accounts [OF this, of "\<lparr>mllm_Reply = [104, 105]\<rparr>" "\<lambda>_ _. ([zero_frame], StageOk)"
      "\<lparr>te_llm = None, te_fwd = None, te_tts = None, te_start = 1, te_fwd_clock = int, te_pump_clock = int,
        te_takes = (\<lambda>_. 0), te_end = 9, te_llm_first = True\<rparr>" "[]" "\<lparr>ut_text = [63], ut_endAt = 0, ut_finalAt = 1\<rparr>"] e
  show ?thesis by (auto simp: mock_reply_def)
qed

theorem kernel_overhead_is_handover_witness:
  "KernelOverhead ((init_stats \<lparr>ut_text = [], ut_endAt = 0, ut_finalAt = 5\<rparr> 7)
     \<lparr>ts_LLMFirstTokenAt := 20, ts_TTSStartAt := 21, ts_TTSFirstFrameAt := 30\<rparr>) = 3"
proof -
  let ?s = "(init_stats \<lparr>ut_text = [], ut_endAt = 0, ut_finalAt = 5\<rparr> 7)
     \<lparr>ts_LLMFirstTokenAt := 20, ts_TTSStartAt := 21, ts_TTSFirstFrameAt := 30\<rparr>"
  have "near_instants ?s" by (simp add: near_instants_def init_stats_def)
  from kernel_overhead_is_handover [OF this] show ?thesis by (simp add: init_stats_def)
qed

section \<open>Conversation memory\<close>

definition maxHistory :: nat where
  "maxHistory = 16"

definition appendHistory :: "Message list \<Rightarrow> runes \<Rightarrow> runes \<Rightarrow> Message list" where
  "appendHistory history prompt reply =
     (let h = history @ [\<lparr>ms_Role = User, ms_Text = prompt\<rparr>, \<lparr>ms_Role = Assistant, ms_Text = reply\<rparr>] in
      if length h > maxHistory then drop (length h - maxHistory) h else h)"

definition exchange :: "runes \<times> runes \<Rightarrow> Message list" where
  "exchange pr = [\<lparr>ms_Role = User, ms_Text = fst pr\<rparr>, \<lparr>ms_Role = Assistant, ms_Text = snd pr\<rparr>]"

text \<open>The memory after any turns: the last eight exchanges, whole and in order.\<close>

definition remembered :: "(runes \<times> runes) list \<Rightarrow> Message list" where
  "remembered prs = concat (map exchange (drop (length prs - maxHistory div 2) prs))"

lemma length_concat_exchange [simp]: "length (concat (map exchange prs)) = 2 * length prs"
  by (induction prs) (auto simp: exchange_def)

lemma drop_concat_exchange: "drop (2 * n) (concat (map exchange prs)) = concat (map exchange (drop n prs))"
proof (induction n arbitrary: prs)
  case (Suc n)
  then show ?case by (cases prs) (auto simp: exchange_def)
qed simp

lemma appendHistory_remembered:
  "appendHistory (remembered prs) p r = remembered (prs @ [(p, r)])"
proof -
  let ?k = "drop (length prs - 8) prs"
  have app: "remembered prs @ exchange (p, r) = concat (map exchange (?k @ [(p, r)]))"
    by (simp add: remembered_def maxHistory_def)
  have len: "length (?k @ [(p, r)]) = min 9 (length prs + 1)" by simp
  show ?thesis
  proof (cases "length prs < 8")
    case True
    then show ?thesis
      using app len by (simp add: appendHistory_def Let_def exchange_def remembered_def maxHistory_def)
  next
    case False
    have d: "drop 2 (concat (map exchange xs)) = concat (map exchange (drop 1 xs))" for xs
      using drop_concat_exchange [of 1 xs] by simp
    have "length (concat (map exchange (?k @ [(p, r)]))) = 18" using len False by (simp add: exchange_def)
    then have "appendHistory (remembered prs) p r = drop 2 (concat (map exchange (?k @ [(p, r)])))"
      using app by (simp add: appendHistory_def Let_def exchange_def maxHistory_def)
    also have "\<dots> = remembered (prs @ [(p, r)])"
    proof -
      have "Suc (length prs - 8) = length prs - 7" using False by arith
      then show ?thesis unfolding d using False by (simp add: remembered_def maxHistory_def)
    qed
    finally show ?thesis .
  qed
qed

lemma remembered_Nil: "remembered [] = []"
  by (simp add: remembered_def)

end
