(* ===== verification/Vad.thy ===== *)
theory Vad
  imports Adapter
begin

text \<open>
  Voice activity and the dialogue state machine of \<open>internal/vad\<close>: the energy detector (\<open>vad.go\<close>), the
  transition table (\<open>machine.go\<close>) and the controller that runs the detector on every uplink frame and
  drives the pipeline through a sink (\<open>controller.go\<close>). Energies are reals; sample words are read as
  signed 16-bit numbers.
\<close>

section \<open>Events and states\<close>

text \<open>The \<open>uint8\<close> enumerations; \<open>Event_other\<close> stands for values a foreign detector might return.
  The event that means "nothing" is \<open>EvNone\<close>.\<close>

datatype Event = EvNone | SpeechStart | SpeechEnd | ResponseStarted | ResponseDone | Event_other u8

fun Event_String :: "Event \<Rightarrow> string" where
  "Event_String EvNone = ''none''"
| "Event_String SpeechStart = ''speech_start''"
| "Event_String SpeechEnd = ''speech_end''"
| "Event_String ResponseStarted = ''response_started''"
| "Event_String ResponseDone = ''response_done''"
| "Event_String (Event_other _) = ''event(?)''"

datatype State = Listening | SpeakingUser | Thinking | RespondingAgent

fun State_String :: "State \<Rightarrow> string" where
  "State_String Listening = ''LISTENING''"
| "State_String SpeakingUser = ''SPEAKING_USER''"
| "State_String Thinking = ''THINKING''"
| "State_String RespondingAgent = ''RESPONDING_AGENT''"

datatype Action = ActNone | ActEndUtterance | ActCancelTurn

section \<open>Energy detector\<close>

record Energy =
  en_Enter :: real
  en_Exit :: real
  en_MinSpeechFrames :: int
  en_HangoverFrames :: int
  en_inSpeech :: bool
  en_run :: int

text \<open>\<open>int16(binary.LittleEndian.Uint16(pcm[2*i:]))\<close>.\<close>

definition sample_at :: "u8 list \<Rightarrow> nat \<Rightarrow> int" where
  "sample_at pcm i = sint (ucast (pcm ! (2 * i)) OR push_bit 8 (ucast (pcm ! (2 * i + 1))) :: u16)"

definition rms :: "u8 list \<Rightarrow> real" where
  "rms pcm =
     (let n = length pcm div 2 in
      if n = 0 then 0
      else sqrt (sum_list (map (\<lambda>i. let v = real_of_int (sample_at pcm i) / 32768 in v * v) [0..<n]) / real n))"

text \<open>The classification of a frame of a given level, \<open>Process\<close> without its first line.\<close>

definition Energy_level :: "Energy \<Rightarrow> real \<Rightarrow> Energy \<times> Event" where
  "Energy_level e level =
     (if \<not> en_inSpeech e then
        if level \<ge> en_Enter e then
          let r = en_run e + 1 in
          if r \<ge> en_MinSpeechFrames e then (e\<lparr>en_inSpeech := True, en_run := 0\<rparr>, SpeechStart)
          else (e\<lparr>en_run := r\<rparr>, EvNone)
        else (e\<lparr>en_run := 0\<rparr>, EvNone)
      else
        if level < en_Exit e then
          let r = en_run e + 1 in
          if r \<ge> en_HangoverFrames e then (e\<lparr>en_inSpeech := False, en_run := 0\<rparr>, SpeechEnd)
          else (e\<lparr>en_run := r\<rparr>, EvNone)
        else (e\<lparr>en_run := 0\<rparr>, EvNone))"

definition Energy_Process :: "Energy \<Rightarrow> u8 list \<Rightarrow> Energy \<times> Event" where
  "Energy_Process e pcm = Energy_level e (rms pcm)"

text \<open>The level of a frame is between 0 and 1: full scale is \<open>-32768\<close>.\<close>

lemma sample_at_bounds: "- 32768 \<le> sample_at pcm i" "sample_at pcm i \<le> 32767"
  unfolding sample_at_def
  using sint_ge [of "ucast (pcm ! (2 * i)) OR push_bit 8 (ucast (pcm ! (2 * i + 1))) :: u16"]
    sint_lt [of "ucast (pcm ! (2 * i)) OR push_bit 8 (ucast (pcm ! (2 * i + 1))) :: u16"]
  by simp_all

lemma rms_bounds: "0 \<le> rms pcm" "rms pcm \<le> 1"
proof -
  let ?n = "length pcm div 2"
  let ?sq = "\<lambda>i. let v = real_of_int (sample_at pcm i) / 32768 in v * v"
  have sq: "0 \<le> ?sq i" "?sq i \<le> 1" for i
  proof -
    have "\<bar>real_of_int (sample_at pcm i) / 32768\<bar> \<le> 1"
      using sample_at_bounds [of pcm i] by (simp add: abs_le_iff)
    then have "(real_of_int (sample_at pcm i) / 32768) ^ 2 \<le> 1" by (rule abs_square_le_1 [THEN iffD2])
    then show "?sq i \<le> 1" by (simp add: Let_def power2_eq_square)
    show "0 \<le> ?sq i" by (simp add: Let_def)
  qed
  have "sum_list (map ?sq xs) \<le> real (length xs)" for xs
  proof (induction xs)
    case (Cons x xs)
    then show ?case using sq(2) [of x] by simp
  qed simp
  from this [of "[0..<?n]"] have le: "sum_list (map ?sq [0..<?n]) \<le> real ?n" by simp
  have ge: "0 \<le> sum_list (map ?sq [0..<?n])" by (rule sum_list_nonneg) (use sq(1) in auto)
  show "0 \<le> rms pcm" using ge by (simp add: rms_def Let_def)
  have "?n \<noteq> 0 \<Longrightarrow> sum_list (map ?sq [0..<?n]) / real ?n \<le> 1" using le by (simp add: divide_le_eq_1)
  then show "rms pcm \<le> 1" by (auto simp: rms_def Let_def)
qed

section \<open>What the detector promises\<close>

fun energy_run :: "Energy \<Rightarrow> real list \<Rightarrow> Energy \<times> Event list" where
  "energy_run e [] = (e, [])"
| "energy_run e (l # ls) = (case Energy_level e l of (e1, ev) \<Rightarrow> apsnd ((#) ev) (energy_run e1 ls))"

lemma energy_run_snoc:
  "energy_run e (ls @ [l]) = (case energy_run e ls of (e1, evs) \<Rightarrow>
     case Energy_level e1 l of (e2, ev) \<Rightarrow> (e2, evs @ [ev]))"
  by (induction ls arbitrary: e) (auto split: prod.splits simp: apsnd_def map_prod_def)

lemma Energy_level_config [simp]:
  "en_Enter (fst (Energy_level e l)) = en_Enter e" "en_Exit (fst (Energy_level e l)) = en_Exit e"
  "en_MinSpeechFrames (fst (Energy_level e l)) = en_MinSpeechFrames e"
  "en_HangoverFrames (fst (Energy_level e l)) = en_HangoverFrames e"
  by (auto simp: Energy_level_def Let_def)

text \<open>
  The reference: speech is on after a history of levels. It is told from the history alone: it turns
  on when the last \<open>m\<close> levels are all loud, off when the last \<open>h\<close> are all quiet, and the count starts
  anew at each change. \<open>quiet_since\<close> and \<open>loud_since\<close> are the lengths of the current streaks.
\<close>

fun streak :: "(real \<Rightarrow> bool) \<Rightarrow> real list \<Rightarrow> nat" where
  "streak P ls = length (takeWhile P (rev ls))"

text \<open>Levels heard since the last boundary event, newest last; and whether speech is on.\<close>

fun speech_ref :: "real \<Rightarrow> real \<Rightarrow> int \<Rightarrow> int \<Rightarrow> bool \<times> real list \<Rightarrow> real \<Rightarrow> (bool \<times> real list) \<times> Event" where
  "speech_ref enter exit m h (on, seg) l =
     (let seg' = seg @ [l] in
      if on then
        if l < exit \<and> int (streak (\<lambda>x. x < exit) seg') \<ge> h then ((False, []), SpeechEnd)
        else ((True, seg'), EvNone)
      else
        if l \<ge> enter \<and> int (streak (\<lambda>x. x \<ge> enter) seg') \<ge> m then ((True, []), SpeechStart)
        else ((False, seg'), EvNone))"

fun speech_ref_run :: "real \<Rightarrow> real \<Rightarrow> int \<Rightarrow> int \<Rightarrow> bool \<times> real list \<Rightarrow> real list \<Rightarrow> Event list" where
  "speech_ref_run enter exit m h s [] = []"
| "speech_ref_run enter exit m h s (l # ls) =
     (case speech_ref enter exit m h s l of (s1, ev) \<Rightarrow> ev # speech_ref_run enter exit m h s1 ls)"

definition energy_abs :: "Energy \<Rightarrow> real list \<Rightarrow> bool" where
  "energy_abs e seg \<longleftrightarrow>
     en_run e = int (streak (if en_inSpeech e then (\<lambda>x. x < en_Exit e) else (\<lambda>x. x \<ge> en_Enter e)) seg)"

lemma streak_snoc: "streak P (ls @ [l]) = (if P l then Suc (streak P ls) else 0)"
  by simp

declare streak.simps [simp del]

lemma streak_Nil [simp]: "streak P [] = 0"
  by (simp add: streak.simps)

lemma energy_step_refines:
  assumes "energy_abs e seg" "Energy_level e l = (e', ev)"
    "speech_ref (en_Enter e) (en_Exit e) (en_MinSpeechFrames e) (en_HangoverFrames e) (en_inSpeech e, seg) l = ((on, seg'), ev')"
  shows "ev' = ev" "on = en_inSpeech e'" "energy_abs e' seg'"
  using assms
  by (auto simp: energy_abs_def Energy_level_def Let_def streak_snoc split: if_splits)

lemma energy_run_refines:
  "energy_abs e seg \<Longrightarrow> snd (energy_run e ls) =
     speech_ref_run (en_Enter e) (en_Exit e) (en_MinSpeechFrames e) (en_HangoverFrames e) (en_inSpeech e, seg) ls"
proof (induction ls arbitrary: e seg)
  case (Cons l ls)
  obtain e1 ev where e1: "Energy_level e l = (e1, ev)" by force
  obtain on seg1 ev1 where r: "speech_ref (en_Enter e) (en_Exit e) (en_MinSpeechFrames e) (en_HangoverFrames e)
      (en_inSpeech e, seg) l = ((on, seg1), ev1)" by (metis prod.collapse)
  note step = energy_step_refines [OF Cons.prems e1 r]
  have cfg: "en_Enter e1 = en_Enter e" "en_Exit e1 = en_Exit e" "en_MinSpeechFrames e1 = en_MinSpeechFrames e"
    "en_HangoverFrames e1 = en_HangoverFrames e"
    using Energy_level_config [of e l] by (simp_all add: e1)
  from Cons.IH [OF step(3)] e1 r step(1,2) show ?case by (simp add: cfg del: speech_ref.simps)
qed simp

text \<open>
  C33: The detector's events are those told from the history of levels alone: a start fires exactly when,
  since the last boundary, the last \<open>MinSpeechFrames\<close> frames were all at or above the enter threshold;
  an end exactly when the last \<open>HangoverFrames\<close> frames were all below the exit threshold. One quiet
  frame restarts the first count, one loud frame the second, so no shorter burst or pause ever counts.
\<close>

theorem energy_detects_streaks:
  assumes "\<not> en_inSpeech e" "en_run e = 0"
  shows "snd (energy_run e (map rms frames)) =
    speech_ref_run (en_Enter e) (en_Exit e) (en_MinSpeechFrames e) (en_HangoverFrames e) (False, []) (map rms frames)"
  using energy_run_refines [of e "[]" "map rms frames"] assms by (simp add: energy_abs_def)

theorem energy_detects_streaks_witness:
  "snd (energy_run \<lparr>en_Enter = 1 / 2, en_Exit = 1 / 4, en_MinSpeechFrames = 2, en_HangoverFrames = 1,
       en_inSpeech = False, en_run = 0\<rparr> (map rms [[0, 0x80], [], [0, 0x80], [0, 0x80], []])) =
     [EvNone, EvNone, EvNone, SpeechStart, SpeechEnd]"
proof -
  let ?e = "\<lparr>en_Enter = 1 / 2, en_Exit = 1 / 4, en_MinSpeechFrames = 2, en_HangoverFrames = 1,
       en_inSpeech = False, en_run = 0\<rparr>"
  have r: "rms [0, 0x80] = 1" "rms [] = 0" by (simp_all add: rms_def sample_at_def)
  have "snd (energy_run ?e (map rms [[0, 0x80], [], [0, 0x80], [0, 0x80], []])) =
      speech_ref_run (1 / 2) (1 / 4) 2 1 (False, []) (map rms [[0, 0x80], [], [0, 0x80], [0, 0x80], []])"
    using energy_detects_streaks [of ?e "[[0, 0x80], [], [0, 0x80], [0, 0x80], []]"] by simp
  also have "\<dots> = [EvNone, EvNone, EvNone, SpeechStart, SpeechEnd]"
    by (simp add: r streak.simps)
  finally show ?thesis .
qed

section \<open>State machine\<close>

record Machine =
  mc_state :: State
  mc_illegal :: u64

definition NewMachine :: Machine where
  "NewMachine = \<lparr>mc_state = Listening, mc_illegal = 0\<rparr>"

text \<open>The nested switch of \<open>Apply\<close>; \<open>None\<close> is an undefined transition.\<close>

fun machine_cell :: "State \<Rightarrow> Event \<Rightarrow> (State \<times> Action) option" where
  "machine_cell Listening ev =
     (case ev of SpeechStart \<Rightarrow> Some (SpeakingUser, ActNone)
      | ResponseStarted \<Rightarrow> Some (RespondingAgent, ActNone)
      | ResponseDone \<Rightarrow> Some (Listening, ActNone)
      | _ \<Rightarrow> None)"
| "machine_cell SpeakingUser ev =
     (case ev of SpeechEnd \<Rightarrow> Some (Thinking, ActEndUtterance)
      | ResponseStarted \<Rightarrow> Some (SpeakingUser, ActCancelTurn)
      | ResponseDone \<Rightarrow> Some (SpeakingUser, ActNone)
      | _ \<Rightarrow> None)"
| "machine_cell Thinking ev =
     (case ev of SpeechStart \<Rightarrow> Some (SpeakingUser, ActCancelTurn)
      | ResponseStarted \<Rightarrow> Some (RespondingAgent, ActNone)
      | ResponseDone \<Rightarrow> Some (Listening, ActNone)
      | _ \<Rightarrow> None)"
| "machine_cell RespondingAgent ev =
     (case ev of SpeechStart \<Rightarrow> Some (SpeakingUser, ActCancelTurn)
      | ResponseDone \<Rightarrow> Some (Listening, ActNone)
      | _ \<Rightarrow> None)"

datatype machine_error = IllegalEvent Event State

definition Machine_Apply :: "Machine \<Rightarrow> Event \<Rightarrow> Machine \<times> (machine_error + Action)" where
  "Machine_Apply m ev =
     (case machine_cell (mc_state m) ev of
        None \<Rightarrow> (m\<lparr>mc_illegal := mc_illegal m + 1\<rparr>, Inl (IllegalEvent ev (mc_state m)))
      | Some (next, act) \<Rightarrow> (m\<lparr>mc_state := next\<rparr>, Inr act))"

definition Machine_State :: "Machine \<Rightarrow> State" where
  "Machine_State m = mc_state m"

definition Machine_Illegal :: "Machine \<Rightarrow> u64" where
  "Machine_Illegal m = mc_illegal m"

inductive machine_step :: "State \<Rightarrow> Event \<Rightarrow> Action \<Rightarrow> State \<Rightarrow> bool" where
  "machine_cell s ev = Some (s', act) \<Longrightarrow> machine_step s ev act s'"

inductive_simps machine_step_simps: "machine_step s ev act s'"

lemma Machine_Apply_step:
  "snd (Machine_Apply m ev) = Inr act \<Longrightarrow>
     machine_step (mc_state m) ev act (mc_state (fst (Machine_Apply m ev))) \<and>
     mc_illegal (fst (Machine_Apply m ev)) = mc_illegal m"
  by (auto simp: Machine_Apply_def machine_step_simps split: option.splits)

lemma Machine_Apply_error:
  "snd (Machine_Apply m ev) = Inl e \<Longrightarrow>
     mc_state (fst (Machine_Apply m ev)) = mc_state m \<and> mc_illegal (fst (Machine_Apply m ev)) = mc_illegal m + 1"
  by (auto simp: Machine_Apply_def split: option.splits)

text \<open>A cancellation is asked for exactly when the user starts speaking over a pending or running
  response, or a response starts while the user speaks; an utterance ends exactly on the speech end.\<close>

lemma machine_step_cancel:
  "machine_step s ev ActCancelTurn s' \<longleftrightarrow> s' = SpeakingUser \<and>
     (ev = SpeechStart \<and> (s = Thinking \<or> s = RespondingAgent) \<or> ev = ResponseStarted \<and> s = SpeakingUser)"
  by (cases s; cases ev) (auto simp: machine_step_simps)

lemma machine_step_end:
  "machine_step s ev ActEndUtterance s' \<longleftrightarrow> s = SpeakingUser \<and> ev = SpeechEnd \<and> s' = Thinking"
  by (cases s; cases ev) (auto simp: machine_step_simps)

section \<open>Controller\<close>

text \<open>The pipeline as the controller sees it. \<open>None\<close> is a push that does not return.\<close>

record 's sink =
  sk_PushAudio :: "AudioFrame \<Rightarrow> 's \<Rightarrow> ('s \<times> bool) option"
  sk_EndUtterance :: "'s \<Rightarrow> 's"
  sk_BargeIn :: "'s \<Rightarrow> 's"

text \<open>\<open>'d\<close> is the detector, of which only \<open>Process\<close> is used; \<open>'s\<close> the state behind the sink.\<close>

record ('d, 's) Controller =
  ct_det :: 'd
  ct_machine :: Machine
  ct_sink :: 's

definition durationFrames :: "duration \<Rightarrow> duration \<Rightarrow> int" where
  "durationFrames d frame =
     (if frame \<le> 0 then 1
      else let n = (d + frame - 1) sdiv frame in if n < 1 then 1 else n)"

definition NewController :: "Config \<Rightarrow> 's \<Rightarrow> (Energy, 's) Controller" where
  "NewController cfg s =
     \<lparr>ct_det = \<lparr>en_Enter = vc_EnergyThreshold (cf_VAD cfg), en_Exit = vc_ExitThreshold (cf_VAD cfg),
        en_MinSpeechFrames = durationFrames (vc_MinSpeech (cf_VAD cfg)) (au_FrameDuration (cf_Audio cfg)),
        en_HangoverFrames = durationFrames (vc_Hangover (cf_VAD cfg)) (au_FrameDuration (cf_Audio cfg)),
        en_inSpeech = False, en_run = 0\<rparr>,
      ct_machine = NewMachine, ct_sink = s\<rparr>"

definition Controller_apply :: "'s sink \<Rightarrow> ('d, 's) Controller \<Rightarrow> Event \<Rightarrow> ('d, 's) Controller" where
  "Controller_apply sk c ev =
     (case Machine_Apply (ct_machine c) ev of
        (m, Inl _) \<Rightarrow> c\<lparr>ct_machine := m\<rparr>
      | (m, Inr act) \<Rightarrow>
          c\<lparr>ct_machine := m,
            ct_sink := (case act of ActEndUtterance \<Rightarrow> sk_EndUtterance sk (ct_sink c)
                        | ActCancelTurn \<Rightarrow> sk_BargeIn sk (ct_sink c)
                        | ActNone \<Rightarrow> ct_sink c)\<rparr>)"

definition Controller_Ingest ::
  "('d \<Rightarrow> u8 list \<Rightarrow> 'd \<times> Event) \<Rightarrow> 's sink \<Rightarrow> ('d, 's) Controller \<Rightarrow> AudioFrame \<Rightarrow> ('d, 's) Controller option" where
  "Controller_Ingest proc sk c f =
     (case proc (ct_det c) (buf_data (af_PCM f)) of (d, ev) \<Rightarrow>
        let c1 = c\<lparr>ct_det := d\<rparr>;
            c2 = (if ev \<noteq> EvNone then Controller_apply sk c1 ev else c1) in
        map_option (\<lambda>(s, _). c2\<lparr>ct_sink := s\<rparr>) (sk_PushAudio sk f (ct_sink c2)))"

definition Controller_ResponseStarted :: "'s sink \<Rightarrow> ('d, 's) Controller \<Rightarrow> ('d, 's) Controller" where
  "Controller_ResponseStarted sk c = Controller_apply sk c ResponseStarted"

definition Controller_ResponseDone :: "'s sink \<Rightarrow> ('d, 's) Controller \<Rightarrow> ('d, 's) Controller" where
  "Controller_ResponseDone sk c = Controller_apply sk c ResponseDone"

definition Controller_State :: "('d, 's) Controller \<Rightarrow> State" where
  "Controller_State c = Machine_State (ct_machine c)"

definition Controller_IllegalEvents :: "('d, 's) Controller \<Rightarrow> u64" where
  "Controller_IllegalEvents c = Machine_Illegal (ct_machine c)"

text \<open>A valid configuration gives a detector whose counts are positive and whose hangover is at
  least as long as its onset.\<close>

lemma durationFrames_pos: "1 \<le> durationFrames d frame"
  by (simp add: durationFrames_def Let_def)

lemma durationFrames_mono: "0 \<le> d \<Longrightarrow> d \<le> d' \<Longrightarrow> durationFrames d frame \<le> durationFrames d' frame"
  using zdiv_mono1 [of "d + frame - 1" "d' + frame - 1" frame]
  by (auto simp: durationFrames_def Let_def sdiv_pos_eq not_le)

lemma durationFrames_covers:
  assumes "0 < frame" "0 < d"
  shows "d \<le> durationFrames d frame * frame" "(durationFrames d frame - 1) * frame < d"
proof -
  have n: "1 \<le> (d + frame - 1) div frame" using assms by (simp add: pos_imp_zdiv_pos_iff int_one_le_iff_zero_less)
  then have e: "durationFrames d frame = (d + frame - 1) div frame"
    using assms by (simp add: durationFrames_def Let_def sdiv_pos_eq)
  have "(d + frame - 1) mod frame = (d + frame - 1) - (d + frame - 1) div frame * frame"
    by (simp add: minus_div_mult_eq_mod)
  with pos_mod_bound [OF assms(1), of "d + frame - 1"] pos_mod_sign [OF assms(1), of "d + frame - 1"]
  show "d \<le> durationFrames d frame * frame" "(durationFrames d frame - 1) * frame < d"
    unfolding e by (simp_all add: algebra_simps)
qed

section \<open>Dialogues\<close>

text \<open>What the reader goroutine and the orchestrator call, in the order of the machine's lock.\<close>

datatype dialogue_op = Uplink AudioFrame | TurnStart | TurnEnd

fun dialogue_run :: "'s sink \<Rightarrow> (Energy, 's) Controller \<Rightarrow> dialogue_op list \<Rightarrow> (Energy, 's) Controller option" where
  "dialogue_run sk c [] = Some c"
| "dialogue_run sk c (Uplink f # ops) =
     Option.bind (Controller_Ingest Energy_Process sk c f) (\<lambda>c1. dialogue_run sk c1 ops)"
| "dialogue_run sk c (TurnStart # ops) = dialogue_run sk (Controller_ResponseStarted sk c) ops"
| "dialogue_run sk c (TurnEnd # ops) = dialogue_run sk (Controller_ResponseDone sk c) ops"

text \<open>The orchestrator runs at most one turn: starts and ends alternate.\<close>

fun turns_alternate :: "bool \<Rightarrow> dialogue_op list \<Rightarrow> bool" where
  "turns_alternate active [] = True"
| "turns_alternate active (Uplink f # ops) = turns_alternate active ops"
| "turns_alternate active (TurnStart # ops) = (\<not> active \<and> turns_alternate True ops)"
| "turns_alternate active (TurnEnd # ops) = (active \<and> turns_alternate False ops)"

text \<open>Detector and machine agree on whether the user speaks, and a response needs an active turn.\<close>

definition dialogue_inv :: "bool \<Rightarrow> (Energy, 's) Controller \<Rightarrow> bool" where
  "dialogue_inv active c \<longleftrightarrow>
     (mc_state (ct_machine c) = SpeakingUser \<longleftrightarrow> en_inSpeech (ct_det c)) \<and>
     (mc_state (ct_machine c) = RespondingAgent \<longrightarrow> active) \<and> mc_illegal (ct_machine c) = 0"

lemma Energy_level_events:
  "Energy_level e l = (e', ev) \<Longrightarrow>
     (ev = EvNone \<and> en_inSpeech e' = en_inSpeech e) \<or>
     (ev = SpeechStart \<and> \<not> en_inSpeech e \<and> en_inSpeech e') \<or>
     (ev = SpeechEnd \<and> en_inSpeech e \<and> \<not> en_inSpeech e')"
  by (auto simp: Energy_level_def Let_def split: if_splits)

lemma dialogue_inv_uplink:
  assumes "dialogue_inv active c" "Controller_Ingest Energy_Process sk c f = Some c'"
  shows "dialogue_inv active c'"
proof -
  obtain d ev where d: "Energy_Process (ct_det c) (buf_data (af_PCM f)) = (d, ev)" by force
  from Energy_level_events [OF d [unfolded Energy_Process_def]]
  consider "ev = EvNone" "en_inSpeech d = en_inSpeech (ct_det c)"
    | "ev = SpeechStart" "\<not> en_inSpeech (ct_det c)" "en_inSpeech d"
    | "ev = SpeechEnd" "en_inSpeech (ct_det c)" "\<not> en_inSpeech d" by blast
  then show ?thesis
  proof cases
    case 1
    with assms d show ?thesis by (auto simp: Controller_Ingest_def dialogue_inv_def)
  next
    case 2
    with assms d show ?thesis
      by (cases "mc_state (ct_machine c)")
        (auto simp: Controller_Ingest_def dialogue_inv_def Controller_apply_def Machine_Apply_def)
  next
    case 3
    with assms d show ?thesis
      by (cases "mc_state (ct_machine c)")
        (auto simp: Controller_Ingest_def dialogue_inv_def Controller_apply_def Machine_Apply_def)
  qed
qed

lemma dialogue_inv_turn:
  "dialogue_inv False c \<Longrightarrow> dialogue_inv True (Controller_ResponseStarted sk c)"
  "dialogue_inv True c \<Longrightarrow> dialogue_inv False (Controller_ResponseDone sk c)"
  by (cases "mc_state (ct_machine c)";
      auto simp: dialogue_inv_def Controller_ResponseStarted_def Controller_ResponseDone_def
        Controller_apply_def Machine_Apply_def)+

lemma dialogue_run_inv:
  "dialogue_inv active c \<Longrightarrow> turns_alternate active ops \<Longrightarrow> dialogue_run sk c ops = Some c' \<Longrightarrow>
     \<exists>b. dialogue_inv b c'"
proof (induction ops arbitrary: active c)
  case Nil
  then show ?case by auto
next
  case (Cons op ops)
  show ?case
  proof (cases op)
    case (Uplink f)
    with Cons.prems obtain c1 where "Controller_Ingest Energy_Process sk c f = Some c1"
      "dialogue_run sk c1 ops = Some c'" by (auto simp: bind_eq_Some_conv)
    with Cons Uplink dialogue_inv_uplink show ?thesis by fastforce
  next
    case TurnStart
    with Cons.prems have "dialogue_inv False c" "turns_alternate True ops" by auto
    with Cons.IH [of True "Controller_ResponseStarted sk c"] Cons.prems(3) TurnStart dialogue_inv_turn(1)
    show ?thesis by auto
  next
    case TurnEnd
    with Cons.prems have "dialogue_inv True c" "turns_alternate False ops" by auto
    with Cons.IH [of False "Controller_ResponseDone sk c"] Cons.prems(3) TurnEnd dialogue_inv_turn(2)
    show ?thesis by auto
  qed
qed

text \<open>
  C22: No event is ever illegal: for every configuration, every sequence of uplink frames and every
  interleaving with turns that start and end alternately, the transition table has an entry for every
  event that occurs, and the dialogue state is \<open>SpeakingUser\<close> exactly while the detector hears speech.
\<close>

theorem controller_never_illegal:
  assumes "turns_alternate False ops" "dialogue_run sk (NewController cfg s) ops = Some c"
  shows "Controller_IllegalEvents c = 0 \<and> (Controller_State c = SpeakingUser \<longleftrightarrow> en_inSpeech (ct_det c))"
proof -
  have "dialogue_inv False (NewController cfg s)" by (simp add: dialogue_inv_def NewController_def NewMachine_def)
  from dialogue_run_inv [OF this assms] show ?thesis
    by (auto simp: dialogue_inv_def Controller_IllegalEvents_def Machine_Illegal_def Controller_State_def Machine_State_def)
qed

text \<open>A sink that records the calls, for evaluation on concrete dialogues.\<close>

datatype sink_call = CallPush AudioFrame | CallEnd | CallBargeIn

definition log_sink :: "sink_call list sink" where
  "log_sink = \<lparr>sk_PushAudio = (\<lambda>f s. Some (s @ [CallPush f], True)), sk_EndUtterance = (\<lambda>s. s @ [CallEnd]),
     sk_BargeIn = (\<lambda>s. s @ [CallBargeIn])\<rparr>"

definition loud_frame :: AudioFrame where
  "loud_frame = \<lparr>af_PCM = \<lparr>buf_arr = [0, 0x80], buf_len = 2\<rparr>, af_TsUs = 0\<rparr>"

lemma rms_loud: "rms (buf_data (af_PCM loud_frame)) = 1"
  by (simp add: loud_frame_def buf_data_def rms_def sample_at_def)

theorem controller_never_illegal_witness:
  "\<exists>c. dialogue_run log_sink (NewController (Default [])  []) 
      [Uplink loud_frame, Uplink loud_frame, Uplink loud_frame, Uplink loud_frame, Uplink loud_frame, TurnStart, TurnEnd] = Some c \<and>
     Controller_IllegalEvents c = 0 \<and> Controller_State c = SpeakingUser \<and> filter (\<lambda>x. x = CallBargeIn) (ct_sink c) = [CallBargeIn]"
proof -
  let ?ops = "[Uplink loud_frame, Uplink loud_frame, Uplink loud_frame, Uplink loud_frame, Uplink loud_frame, TurnStart, TurnEnd]"
  have df: "durationFrames 100000000 20000000 = 5" "durationFrames 300000000 20000000 = 15"
    by (simp_all add: durationFrames_def signed_divide_int_def)
  obtain c where c: "dialogue_run log_sink (NewController (Default []) []) ?ops = Some c"
    "en_inSpeech (ct_det c)" "filter (\<lambda>x. x = CallBargeIn) (ct_sink c) = [CallBargeIn]"
    by (simp add: NewController_def Default_def df Controller_Ingest_def Energy_Process_def
        rms_loud Energy_level_def log_sink_def Controller_apply_def Machine_Apply_def NewMachine_def
        Controller_ResponseStarted_def Controller_ResponseDone_def)
  have "turns_alternate False ?ops" by simp
  from controller_never_illegal [OF this c(1)] c show ?thesis by blast
qed

section \<open>The contract of a sink\<close>

text \<open>
  What a sink promises: a push returns and passes the frame on to what \<open>heard\<close> shows of the state,
  and the two signals leave that alone. A controller over such a sink never blocks and forwards every
  uplink frame exactly once and in order, whatever the detector and the machine decide.
\<close>

fun uplinks :: "dialogue_op list \<Rightarrow> AudioFrame list" where
  "uplinks [] = []"
| "uplinks (Uplink f # ops) = f # uplinks ops"
| "uplinks (TurnStart # ops) = uplinks ops"
| "uplinks (TurnEnd # ops) = uplinks ops"

locale sink_contract =
  fixes sk :: "'s sink"
    and ok :: "'s \<Rightarrow> bool"
    and heard :: "'s \<Rightarrow> 'h"
    and hear :: "'h \<Rightarrow> AudioFrame \<Rightarrow> 'h"
  assumes push_ok: "ok s \<Longrightarrow> \<exists>s' b. sk_PushAudio sk f s = Some (s', b) \<and> ok s' \<and> heard s' = hear (heard s) f"
    and end_ok: "ok s \<Longrightarrow> ok (sk_EndUtterance sk s) \<and> heard (sk_EndUtterance sk s) = heard s"
    and barge_ok: "ok s \<Longrightarrow> ok (sk_BargeIn sk s) \<and> heard (sk_BargeIn sk s) = heard s"
begin

lemma apply_keeps: "ok (ct_sink c) \<Longrightarrow>
    ok (ct_sink (Controller_apply sk c ev)) \<and> heard (ct_sink (Controller_apply sk c ev)) = heard (ct_sink c)"
  using end_ok [of "ct_sink c"] barge_ok [of "ct_sink c"]
  by (auto simp: Controller_apply_def split: prod.split sum.split Action.split)

lemma ingest_forwards:
  assumes "ok (ct_sink c)"
  shows "\<exists>c'. Controller_Ingest proc sk c f = Some c' \<and> ok (ct_sink c') \<and>
    heard (ct_sink c') = hear (heard (ct_sink c)) f"
proof -
  obtain d ev where d: "proc (ct_det c) (buf_data (af_PCM f)) = (d, ev)" by force
  let ?c2 = "if ev \<noteq> EvNone then Controller_apply sk (c\<lparr>ct_det := d\<rparr>) ev else c\<lparr>ct_det := d\<rparr>"
  have "ok (ct_sink ?c2) \<and> heard (ct_sink ?c2) = heard (ct_sink c)"
    using apply_keeps [of "c\<lparr>ct_det := d\<rparr>" ev] assms by auto
  with push_ok [of "ct_sink ?c2" f] show ?thesis
    by (auto simp: Controller_Ingest_def d Let_def)
qed

lemma dialogue_forwards:
  "ok (ct_sink c) \<Longrightarrow> \<exists>c'. dialogue_run sk c ops = Some c' \<and> ok (ct_sink c') \<and>
     heard (ct_sink c') = foldl hear (heard (ct_sink c)) (uplinks ops)"
proof (induction ops arbitrary: c)
  case (Cons op ops)
  show ?case
  proof (cases op)
    case (Uplink f)
    obtain c1 where "Controller_Ingest Energy_Process sk c f = Some c1" "ok (ct_sink c1)"
      "heard (ct_sink c1) = hear (heard (ct_sink c)) f"
      using ingest_forwards [OF Cons.prems, of Energy_Process f] by blast
    with Cons.IH [of c1] Uplink show ?thesis by auto
  next
    case TurnStart
    with Cons.IH [of "Controller_ResponseStarted sk c"] apply_keeps [OF Cons.prems, of ResponseStarted] show ?thesis
      by (auto simp: Controller_ResponseStarted_def)
  next
    case TurnEnd
    with Cons.IH [of "Controller_ResponseDone sk c"] apply_keeps [OF Cons.prems, of ResponseDone] show ?thesis
      by (auto simp: Controller_ResponseDone_def)
  qed
qed simp

end

end
