(* ===== verification/Bufpool.thy ===== *)
theory Bufpool
  imports Ringbuf
begin

text \<open>
  The buffer pool of \<open>internal/ringbuf/pool.go\<close>: a \<open>Reject\<close> ring of byte buffers that
  circulate between the two ends of an audio edge. The pool is a client of the queue contract: its
  lemmas rest on the laws of \<open>Bounded_Queue\<close>, which \<open>Ringbuf\<close> proves for the ring.
\<close>

declare length_ring_list [simp del]

section \<open>State\<close>

record BufferPool =
  pool_free :: "buf Ring"
  pool_size :: nat
  pool_misses :: u64

text \<open>A slot of the free list has 32 bytes; a ring that could be made has a slot, so the buffers are made.\<close>

definition NewBufferPool :: "int \<Rightarrow> int \<Rightarrow> (ring_error + BufferPool) option" where
  "NewBufferPool count sz =
     (case Ring_New 32 nil_buf count Reject of
        Inl e \<Rightarrow> Some (Inl e)
      | Inr free \<Rightarrow>
          if make_panics 1 sz then Some (Inl MakePanic)
          else map_option (\<lambda>(free1, _). Inr \<lparr>pool_free = free1, pool_size = nat sz, pool_misses = 0\<rparr>)
            (push_all (Ring_Push nil_buf) free (replicate (nat count) (make_buf (nat sz)))))"

definition BufferPool_Get :: "BufferPool \<Rightarrow> (BufferPool \<times> buf) option" where
  "BufferPool_Get p =
     map_option (\<lambda>(free1, b, ok).
         if ok then (p\<lparr>pool_free := free1\<rparr>, b)
         else (p\<lparr>pool_free := free1, pool_misses := pool_misses p + 1\<rparr>, make_buf (pool_size p)))
       (Ring_Pop nil_buf (pool_free p))"

definition BufferPool_Put :: "BufferPool \<Rightarrow> buf \<Rightarrow> BufferPool option" where
  "BufferPool_Put p b =
     (if buf_cap b < pool_size p then Some p
      else map_option (\<lambda>(free1, _). p\<lparr>pool_free := free1\<rparr>)
             (Ring_Push nil_buf (pool_free p) (reslice b 0)))"

definition BufferPool_Misses :: "BufferPool \<Rightarrow> u64" where
  "BufferPool_Misses p = pool_misses p"

section \<open>Invariant\<close>

text \<open>Every buffer of the pool is empty and large enough.\<close>

definition fit_buf :: "nat \<Rightarrow> buf \<Rightarrow> bool" where
  "fit_buf n b \<longleftrightarrow> buf_len b = 0 \<and> n \<le> buf_cap b"

definition pool_inv :: "BufferPool \<Rightarrow> bool" where
  "pool_inv p \<longleftrightarrow> reject_ring (pool_free p) \<and> list_all (fit_buf (pool_size p)) (ring_list (pool_free p))"

abbreviation pool_avail :: "BufferPool \<Rightarrow> nat" where
  "pool_avail p \<equiv> length (ring_list (pool_free p))"

abbreviation pool_cap :: "BufferPool \<Rightarrow> nat" where
  "pool_cap p \<equiv> Ring_Cap (pool_free p)"

lemma NewBufferPool_ok:
  assumes "NewBufferPool count sz = Some (Inr p)" "2 \<le> count" "count < 2 ^ 63"
  shows "pool_inv p" "pool_avail p = nat count" "pool_cap p = nat count" "pool_size p = nat sz" "pool_misses p = 0"
proof -
  from assms(1) obtain r where r: "Ring_New 32 nil_buf count Reject = Inr r"
    by (auto simp: NewBufferPool_def split: sum.splits)
  note n = Ring_New_inv [OF r assms(2,3)]
  then have "reject_ring r" by (simp add: reject_ring_def)
  then obtain r1 oks where "push_all (Ring_Push nil_buf) r (replicate (nat count) (make_buf (nat sz))) = Some (r1, oks)"
    "reject_ring r1" "Ring_Cap r1 = nat count" "ring_list r1 = replicate (nat count) (make_buf (nat sz))"
    using rring.push_all_prefix [of r nil_buf "replicate (nat count) (make_buf (nat sz))"] n by auto
  with assms(1) r show "pool_inv p" "pool_avail p = nat count" "pool_cap p = nat count" "pool_size p = nat sz"
    "pool_misses p = 0"
    by (auto simp: NewBufferPool_def pool_inv_def fit_buf_def list_all_iff split: if_splits)
qed

lemma pool_get_hit:
  assumes "pool_inv p" "pool_avail p \<noteq> 0"
  shows "\<exists>p' b. BufferPool_Get p = Some (p', b) \<and> fit_buf (pool_size p) b \<and> pool_inv p' \<and>
    pool_avail p' = pool_avail p - 1 \<and> pool_cap p' = pool_cap p \<and> pool_size p' = pool_size p \<and>
    pool_misses p' = pool_misses p"
proof -
  from assms(2) obtain x xs where l: "ring_list (pool_free p) = x # xs" by (cases "ring_list (pool_free p)") auto
  have "reject_ring (pool_free p)" using assms(1) by (simp add: pool_inv_def)
  then obtain q where "Ring_Pop nil_buf (pool_free p) = Some (q, x, True)" "reject_ring q" "ring_list q = xs"
    "Ring_Cap q = Ring_Cap (pool_free p)"
    using rring.pop_cons [OF _ l, of nil_buf] by blast
  with assms(1) l show ?thesis by (simp add: BufferPool_Get_def pool_inv_def)
qed

lemma pool_get_miss:
  assumes "pool_inv p" "pool_avail p = 0"
  shows "\<exists>p' b. BufferPool_Get p = Some (p', b) \<and> fit_buf (pool_size p) b \<and> pool_inv p' \<and>
    pool_avail p' = 0 \<and> pool_cap p' = pool_cap p \<and> pool_size p' = pool_size p \<and>
    pool_misses p' = pool_misses p + 1"
proof -
  have "reject_ring (pool_free p)" using assms(1) by (simp add: pool_inv_def)
  then obtain x where "Ring_Pop nil_buf (pool_free p) = Some (pool_free p, x, False)"
    using rring.pop_nil [of "pool_free p" nil_buf] assms(2) by auto
  with assms show ?thesis by (simp add: BufferPool_Get_def pool_inv_def fit_buf_def)
qed

lemma pool_put_ok:
  assumes "pool_inv p"
  shows "\<exists>p'. BufferPool_Put p b = Some p' \<and> pool_inv p' \<and>
    pool_avail p' = (if buf_cap b < pool_size p then pool_avail p else min (pool_cap p) (pool_avail p + 1)) \<and>
    pool_cap p' = pool_cap p \<and> pool_size p' = pool_size p \<and> pool_misses p' = pool_misses p"
proof (cases "buf_cap b < pool_size p")
  case True
  with assms show ?thesis by (simp add: BufferPool_Put_def)
next
  case False
  let ?b = "reslice b 0"
  have r: "reject_ring (pool_free p)" using assms by (simp add: pool_inv_def)
  show ?thesis
  proof (cases "pool_avail p < pool_cap p")
    case True
    from rring.push_room [OF r True, of nil_buf ?b] obtain q where
      "Ring_Push nil_buf (pool_free p) ?b = Some (q, True)" "reject_ring q"
      "ring_list q = ring_list (pool_free p) @ [?b]" "Ring_Cap q = pool_cap p" by blast
    with assms False True show ?thesis by (simp add: BufferPool_Put_def pool_inv_def fit_buf_def)
  next
    case full: False
    with rring.bounded [OF r] have e: "pool_avail p = pool_cap p" by force
    from rring.push_full [OF r this, of nil_buf ?b] assms False e show ?thesis
      by (simp add: BufferPool_Put_def)
  qed
qed

section \<open>Runs of calls\<close>

datatype pool_op = PoolGet | PoolPut buf

fun pool_run :: "BufferPool \<Rightarrow> pool_op list \<Rightarrow> (BufferPool \<times> buf list) option" where
  "pool_run p [] = Some (p, [])"
| "pool_run p (PoolGet # ops) =
     Option.bind (BufferPool_Get p) (\<lambda>(p1, b). map_option (apsnd ((#) b)) (pool_run p1 ops))"
| "pool_run p (PoolPut b # ops) = Option.bind (BufferPool_Put p b) (\<lambda>p1. pool_run p1 ops)"

text \<open>The specification: the number of free buffers and the number of misses.\<close>

fun pool_spec :: "nat \<Rightarrow> nat \<Rightarrow> nat \<times> nat \<Rightarrow> pool_op list \<Rightarrow> nat \<times> nat" where
  "pool_spec cap sz s [] = s"
| "pool_spec cap sz (a, m) (PoolGet # ops) =
     pool_spec cap sz (if a = 0 then (0, m + 1) else (a - 1, m)) ops"
| "pool_spec cap sz (a, m) (PoolPut b # ops) =
     pool_spec cap sz (if buf_cap b < sz then a else min cap (a + 1), m) ops"

lemma pool_run_refines:
  "pool_inv p \<Longrightarrow> pool_misses p = word_of_nat m \<Longrightarrow>
     \<exists>p' bs. pool_run p ops = Some (p', bs) \<and> pool_inv p' \<and> list_all (fit_buf (pool_size p)) bs \<and>
       pool_cap p' = pool_cap p \<and> pool_size p' = pool_size p \<and>
       (\<exists>m'. pool_spec (pool_cap p) (pool_size p) (pool_avail p, m) ops = (pool_avail p', m') \<and>
             pool_misses p' = word_of_nat m')"
proof (induction ops arbitrary: p m)
  case Nil
  then show ?case by auto
next
  case (Cons op ops)
  show ?case
  proof (cases op)
    case PoolGet
    show ?thesis
    proof (cases "pool_avail p = 0")
      case True
      obtain p1 b where p1: "BufferPool_Get p = Some (p1, b)" "fit_buf (pool_size p) b" "pool_inv p1"
        "pool_avail p1 = 0" "pool_cap p1 = pool_cap p" "pool_size p1 = pool_size p" "pool_misses p1 = pool_misses p + 1"
        using pool_get_miss [OF Cons.prems(1) True] by blast
      have "pool_misses p1 = word_of_nat (m + 1)" using p1(7) Cons.prems(2) by simp
      from Cons.IH [OF p1(3) this] p1 True PoolGet show ?thesis by auto
    next
      case False
      obtain p1 b where p1: "BufferPool_Get p = Some (p1, b)" "fit_buf (pool_size p) b" "pool_inv p1"
        "pool_avail p1 = pool_avail p - 1" "pool_cap p1 = pool_cap p" "pool_size p1 = pool_size p"
        "pool_misses p1 = pool_misses p"
        using pool_get_hit [OF Cons.prems(1) False] by blast
      have "pool_misses p1 = word_of_nat m" using p1(7) Cons.prems(2) by simp
      from Cons.IH [OF p1(3) this] p1 False PoolGet show ?thesis by auto
    qed
  next
    case (PoolPut b)
    obtain p1 where p1: "BufferPool_Put p b = Some p1" "pool_inv p1"
      "pool_avail p1 = (if buf_cap b < pool_size p then pool_avail p else min (pool_cap p) (pool_avail p + 1))"
      "pool_cap p1 = pool_cap p" "pool_size p1 = pool_size p" "pool_misses p1 = pool_misses p"
      using pool_put_ok [OF Cons.prems(1), of b] by blast
    have "pool_misses p1 = word_of_nat m" using p1(6) Cons.prems(2) by simp
    from Cons.IH [OF p1(2) this] p1 PoolPut show ?thesis by auto
  qed
qed

text \<open>
  A pool made for a power of two from 2 on answers every sequence of \<open>Get\<close> and \<open>Put\<close> calls:
  every call returns, every buffer handed out is empty and at least as large as configured, the
  pool never holds more buffers than it was made for, and \<open>Misses\<close> is the number of \<open>Get\<close> calls that
  found the free list empty.
\<close>

theorem pool_refines_counter:
  assumes "NewBufferPool count sz = Some (Inr p)" "2 \<le> count" "count < 2 ^ 63"
  shows "\<exists>p' bs a m. pool_run p ops = Some (p', bs) \<and> list_all (fit_buf (nat sz)) bs \<and>
    pool_spec (nat count) (nat sz) (nat count, 0) ops = (a, m) \<and>
    length (ring_list (pool_free p')) = a \<and> a \<le> nat count \<and> BufferPool_Misses p' = word_of_nat m"
proof -
  note new = NewBufferPool_ok [OF assms]
  obtain p' bs m' where run: "pool_run p ops = Some (p', bs)" "pool_inv p'" "list_all (fit_buf (pool_size p)) bs"
    "pool_cap p' = pool_cap p" "pool_spec (pool_cap p) (pool_size p) (pool_avail p, 0) ops = (pool_avail p', m')"
    "pool_misses p' = word_of_nat m'"
    using pool_run_refines [OF new(1), of 0 ops] new(5) by auto
  have "pool_avail p' \<le> pool_cap p'" using run(2) by (intro rring.bounded) (simp add: pool_inv_def)
  with run new show ?thesis by (simp add: BufferPool_Misses_def)
qed

lemma new_pool_2: "\<exists>p. NewBufferPool 2 5 = Some (Inr p)"
proof -
  obtain r where "Ring_New 32 nil_buf 2 Reject = Inr r" by (simp add: Ring_New_def make_panics_def maxAlloc_def)
  moreover from this have "reject_ring r" by (simp add: Ring_New_inv reject_ring_def)
  ultimately show ?thesis
    using rring.push_all_prefix [of r nil_buf "replicate 2 (make_buf 5)"] by (auto simp: NewBufferPool_def make_panics_def maxAlloc_def)
qed

theorem pool_refines_counter_witness:
  "\<exists>p p' bs. NewBufferPool 2 5 = Some (Inr p) \<and>
     pool_run p [PoolGet, PoolGet, PoolGet, PoolPut (make_buf 3), PoolPut (make_buf 8)] = Some (p', bs) \<and>
     length (ring_list (pool_free p')) = 1 \<and> BufferPool_Misses p' = 1"
proof -
  obtain p where p: "NewBufferPool 2 5 = Some (Inr p)" using new_pool_2 by blast
  from pool_refines_counter [OF p, of "[PoolGet, PoolGet, PoolGet, PoolPut (make_buf 3), PoolPut (make_buf 8)]"] p
  show ?thesis by auto
qed

section \<open>Steady state without allocation\<close>

text \<open>
  The discipline of the audio path: at most \<open>cap\<close> buffers are in flight, and what comes back
  is at least as large as what went out. \<open>k\<close> counts the buffers in flight.
\<close>

fun pool_paired :: "nat \<Rightarrow> nat \<Rightarrow> nat \<Rightarrow> pool_op list \<Rightarrow> bool" where
  "pool_paired cap sz k [] = True"
| "pool_paired cap sz k (PoolGet # ops) = (k < cap \<and> pool_paired cap sz (k + 1) ops)"
| "pool_paired cap sz k (PoolPut b # ops) = (0 < k \<and> sz \<le> buf_cap b \<and> pool_paired cap sz (k - 1) ops)"

lemma pool_spec_paired:
  "pool_paired cap sz k ops \<Longrightarrow> k \<le> cap \<Longrightarrow> snd (pool_spec cap sz (cap - k, m) ops) = m"
proof (induction ops arbitrary: k)
  case (Cons op ops)
  show ?case
  proof (cases op)
    case PoolGet
    with Cons.prems Cons.IH [of "k + 1"] show ?thesis by simp
  next
    case (PoolPut b)
    have "min cap (cap - k + 1) = cap - (k - 1)" if "0 < k" using that Cons.prems(2) by simp
    with PoolPut Cons.prems Cons.IH [of "k - 1"] show ?thesis by simp
  qed
qed simp

text \<open>
  No allocation in the steady state: as long as at most as many buffers are in flight as the pool
  was made for, and what is put back is large enough, no \<open>Get\<close> ever falls back on a fresh allocation.
\<close>

theorem pool_no_miss:
  assumes "NewBufferPool count sz = Some (Inr p)" "2 \<le> count" "count < 2 ^ 63"
    and "pool_paired (nat count) (nat sz) 0 ops"
  shows "\<exists>p' bs. pool_run p ops = Some (p', bs) \<and> BufferPool_Misses p' = 0"
proof -
  note new = NewBufferPool_ok [OF assms(1-3)]
  have "snd (pool_spec (nat count) (nat sz) (nat count, 0) ops) = 0"
    using pool_spec_paired [OF assms(4), of 0] by simp
  with pool_run_refines [OF new(1), of 0 ops] new show ?thesis by (auto simp: BufferPool_Misses_def)
qed

theorem pool_no_miss_witness:
  "\<exists>p p' bs. NewBufferPool 2 5 = Some (Inr p) \<and>
     pool_run p [PoolGet, PoolGet, PoolPut (make_buf 5), PoolGet] = Some (p', bs) \<and> BufferPool_Misses p' = 0"
proof -
  obtain p where p: "NewBufferPool 2 5 = Some (Inr p)" using new_pool_2 by blast
  from pool_no_miss [OF p, of "[PoolGet, PoolGet, PoolPut (make_buf 5), PoolGet]"] p
  show ?thesis by auto
qed

end
