(* ===== verification/Pipeline.thy ===== *)
theory Pipeline
  imports Turn Vad Bufpool
begin

text \<open>
  The pipeline of \<open>internal/pipeline/pipeline.go\<close> up to its orchestrator: construction from a
  configuration, the calls the session makes, the pipeline as the sink of the voice activity
  controller, and the recogniser's loop with its pump. The orchestrator is the theory \<open>Orchestrator\<close>.
\<close>

section \<open>State and construction\<close>

record Pipeline =
  pl_ingress :: edge
  pl_egress :: edge
  pl_ingressPool :: "BufferPool option"
  pl_endUtt :: "unit list"
  pl_bargeIn :: "unit list"
  pl_history :: "Message list"
  pl_last :: "TurnStats option"

definition Pipeline_New :: "Config \<Rightarrow> ring_error + Pipeline" where
  "Pipeline_New cfg =
     (case ParsePolicy (rb_IngressPolicy (cf_RingBuf cfg)) of Inl e \<Rightarrow> Inl e | Inr inPol \<Rightarrow>
      case ParsePolicy (rb_EgressPolicy (cf_RingBuf cfg)) of Inl e \<Rightarrow> Inl e | Inr outPol \<Rightarrow>
      case newEdge (rb_IngressCapacity (cf_RingBuf cfg)) inPol of Inl e \<Rightarrow> Inl e | Inr ingress \<Rightarrow>
      case newEdge (rb_EgressCapacity (cf_RingBuf cfg)) outPol of Inl e \<Rightarrow> Inl e | Inr egress \<Rightarrow>
      Inr \<lparr>pl_ingress = ingress, pl_egress = egress, pl_ingressPool = None, pl_endUtt = [], pl_bargeIn = [],
           pl_history = [], pl_last = None\<rparr>)"

definition SetIngressPool :: "BufferPool \<Rightarrow> Pipeline \<Rightarrow> Pipeline" where
  "SetIngressPool pool p = p\<lparr>pl_ingressPool := Some pool\<rparr>"

definition PushAudio :: "AudioFrame \<Rightarrow> Pipeline \<Rightarrow> (Pipeline \<times> bool) option" where
  "PushAudio f p = map_option (\<lambda>(e, ok). (p\<lparr>pl_ingress := e\<rparr>, ok)) (edge_push (pl_ingress p) f)"

definition EndUtterance :: "Pipeline \<Rightarrow> Pipeline" where
  "EndUtterance p = p\<lparr>pl_endUtt := fst (chan_offer 1 () (pl_endUtt p))\<rparr>"

definition BargeIn :: "Pipeline \<Rightarrow> Pipeline" where
  "BargeIn p = p\<lparr>pl_bargeIn := fst (chan_offer 1 () (pl_bargeIn p))\<rparr>"

definition IngressDropped :: "Pipeline \<Rightarrow> u64" where
  "IngressDropped p = edge_dropped (pl_ingress p)"

definition EgressDropped :: "Pipeline \<Rightarrow> u64" where
  "EgressDropped p = edge_dropped (pl_egress p)"

definition LastTurn :: "Pipeline \<Rightarrow> TurnStats option" where
  "LastTurn p = pl_last p"

definition publish :: "TurnStats \<Rightarrow> Pipeline \<Rightarrow> Pipeline" where
  "publish s p = p\<lparr>pl_last := Some s\<rparr>"

definition pipeline_inv :: "Pipeline \<Rightarrow> bool" where
  "pipeline_inv p \<longleftrightarrow> edge_inv (pl_ingress p) \<and> edge_inv (pl_egress p) \<and>
     length (pl_endUtt p) \<le> 1 \<and> length (pl_bargeIn p) \<le> 1"

lemma Pipeline_New_valid:
  assumes "Validate cfg = None"
    and "2 \<le> rb_IngressCapacity (cf_RingBuf cfg)" "rb_IngressCapacity (cf_RingBuf cfg) \<le> 2 ^ 42"
    and "2 \<le> rb_EgressCapacity (cf_RingBuf cfg)" "rb_EgressCapacity (cf_RingBuf cfg) \<le> 2 ^ 42"
  shows "\<exists>p. Pipeline_New cfg = Inr p \<and> pipeline_inv p \<and>
    edge_frames (pl_ingress p) = [] \<and> edge_frames (pl_egress p) = [] \<and> pl_history p = [] \<and>
    Ring_Cap (eg_ring (pl_ingress p)) = nat (rb_IngressCapacity (cf_RingBuf cfg)) \<and>
    Ring_Cap (eg_ring (pl_egress p)) = nat (rb_EgressCapacity (cf_RingBuf cfg)) \<and>
    ParsePolicy (rb_IngressPolicy (cf_RingBuf cfg)) = Inr (ring_policy (eg_ring (pl_ingress p)))"
proof -
  note v = Validate_D [OF assms(1)]
  obtain inp outp where pol: "ParsePolicy (rb_IngressPolicy (cf_RingBuf cfg)) = Inr inp"
    "ParsePolicy (rb_EgressPolicy (cf_RingBuf cfg)) = Inr outp" using v(3,4) by blast
  obtain r1 r2 where "Ring_New 40 zero_frame (rb_IngressCapacity (cf_RingBuf cfg)) inp = Inr r1"
    "Ring_New 40 zero_frame (rb_EgressCapacity (cf_RingBuf cfg)) outp = Inr r2"
    using v(1,2) assms(3,5) Ring_New_isPowerOfTwo [of 40 zero_frame] by (force simp: make_panics_def maxAlloc_def isPowerOfTwo_def)
  then obtain e1 e2 where e: "newEdge (rb_IngressCapacity (cf_RingBuf cfg)) inp = Inr e1"
    "newEdge (rb_EgressCapacity (cf_RingBuf cfg)) outp = Inr e2" by (auto simp: newEdge_def)
  from edge_new_ok [OF e(1) assms(2)] edge_new_ok [OF e(2) assms(4)] assms(3,5) show ?thesis
    by (simp add: Pipeline_New_def pol e pipeline_inv_def)
qed

text \<open>
  A valid configuration is enough: for every configuration that \<open>Validate\<close> accepts, with ring
  capacities from 2 to \<open>2^42\<close>, \<open>New\<close> builds a pipeline whose edges are
  well-formed, empty and as large as configured.
\<close>

theorem valid_config_builds_pipeline:
  assumes "Validate cfg = None"
    and "2 \<le> rb_IngressCapacity (cf_RingBuf cfg)" "rb_IngressCapacity (cf_RingBuf cfg) \<le> 2 ^ 42"
    and "2 \<le> rb_EgressCapacity (cf_RingBuf cfg)" "rb_EgressCapacity (cf_RingBuf cfg) \<le> 2 ^ 42"
  shows "\<exists>p. Pipeline_New cfg = Inr p \<and> pipeline_inv p \<and>
    edge_frames (pl_ingress p) = [] \<and> edge_frames (pl_egress p) = [] \<and> pl_history p = [] \<and>
    Ring_Cap (eg_ring (pl_ingress p)) = nat (rb_IngressCapacity (cf_RingBuf cfg)) \<and>
    Ring_Cap (eg_ring (pl_egress p)) = nat (rb_EgressCapacity (cf_RingBuf cfg)) \<and>
    ParsePolicy (rb_IngressPolicy (cf_RingBuf cfg)) = Inr (ring_policy (eg_ring (pl_ingress p)))"
  using assms by (rule Pipeline_New_valid)

theorem valid_config_builds_pipeline_witness:
  "\<exists>p. Pipeline_New (Default []) = Inr p \<and> pipeline_inv p \<and> Ring_Cap (eg_ring (pl_ingress p)) = 64"
proof -
  have "cf_RingBuf (Default []) = \<lparr>rb_IngressCapacity = 64, rb_EgressCapacity = 64,
      rb_IngressPolicy = ''drop_oldest'', rb_EgressPolicy = ''drop_oldest''\<rparr>" by (simp add: Default_def)
  with valid_config_builds_pipeline [OF Validate_Default [of "[]"]] show ?thesis by auto
qed

section \<open>The pipeline as a sink\<close>

definition pipeline_sink :: "Pipeline sink" where
  "pipeline_sink = \<lparr>sk_PushAudio = PushAudio, sk_EndUtterance = EndUtterance, sk_BargeIn = BargeIn\<rparr>"

text \<open>What the ingress edge holds, with what decides how it takes the next frame.\<close>

definition ingress_view :: "Pipeline \<Rightarrow> Policy \<times> nat \<times> AudioFrame list" where
  "ingress_view p = (ring_policy (eg_ring (pl_ingress p)), Ring_Cap (eg_ring (pl_ingress p)), edge_frames (pl_ingress p))"

fun ingress_hear :: "Policy \<times> nat \<times> AudioFrame list \<Rightarrow> AudioFrame \<Rightarrow> Policy \<times> nat \<times> AudioFrame list" where
  "ingress_hear (pol, n, xs) f = (pol, n, pushed_frames pol n xs f)"

lemma signals_inv:
  "pipeline_inv p \<Longrightarrow> pipeline_inv (EndUtterance p) \<and> ingress_view (EndUtterance p) = ingress_view p"
  "pipeline_inv p \<Longrightarrow> pipeline_inv (BargeIn p) \<and> ingress_view (BargeIn p) = ingress_view p"
  using chan_offer_latch [of "pl_endUtt p"] chan_offer_latch [of "pl_bargeIn p"]
  by (auto simp: pipeline_inv_def EndUtterance_def BargeIn_def ingress_view_def)

lemma PushAudio_ok:
  assumes "pipeline_inv p"
  shows "\<exists>p' ok. PushAudio f p = Some (p', ok) \<and> pipeline_inv p' \<and> ingress_view p' = ingress_hear (ingress_view p) f"
proof -
  have "edge_inv (pl_ingress p)" using assms by (simp add: pipeline_inv_def)
  from edge_push_ok [OF this, of f] assms show ?thesis
    by (auto simp: PushAudio_def pipeline_inv_def ingress_view_def)
qed

interpretation pipe: sink_contract pipeline_sink pipeline_inv ingress_view ingress_hear
proof unfold_locales
  fix s f assume "pipeline_inv s"
  from PushAudio_ok [OF this, of f]
  show "\<exists>s' b. sk_PushAudio pipeline_sink f s = Some (s', b) \<and> pipeline_inv s' \<and>
      ingress_view s' = ingress_hear (ingress_view s) f" by (simp add: pipeline_sink_def)
qed (use signals_inv in \<open>auto simp: pipeline_sink_def\<close>)

lemma foldl_pushed_newest:
  assumes "pol \<noteq> Reject" "0 < n" "length xs \<le> n"
  shows "foldl ingress_hear (pol, n, xs) fs = (pol, n, drop (length (xs @ fs) - n) (xs @ fs))"
  using assms(3)
proof (induction fs arbitrary: xs)
  case (Cons f fs)
  have l: "length (pushed_frames pol n xs f) \<le> n"
    using Cons.prems assms by (auto simp: pushed_frames_def)
  show ?case
  proof (cases "length xs < n")
    case True
    with Cons.IH [OF l] show ?thesis by (simp add: pushed_frames_def)
  next
    case False
    then obtain y ys where xs: "xs = y # ys" "n = Suc (length ys)"
      using Cons.prems assms(2) by (cases xs) auto
    have "pushed_frames pol n xs f = ys @ [f]" using assms(1) by (simp add: pushed_frames_def xs)
    with Cons.IH [OF l] show ?thesis by (simp add: xs del: drop_append)
  qed
qed simp

text \<open>
  The reader is never blocked and freshness wins: over a drop-oldest ingress edge a controller with
  any configuration takes any sequence of uplink frames, interleaved with the turns' events in any
  way, and every call returns; while nothing consumes the edge it holds exactly the newest frames, as
  many as fit, in order.
\<close>

theorem ingest_never_blocks:
  assumes "pipeline_inv p" "ring_policy (eg_ring (pl_ingress p)) = DropOldest" "edge_frames (pl_ingress p) = []"
  shows "\<exists>c. dialogue_run pipeline_sink (NewController cfg p) ops = Some c \<and> pipeline_inv (ct_sink c) \<and>
    edge_frames (pl_ingress (ct_sink c)) =
      drop (length (uplinks ops) - Ring_Cap (eg_ring (pl_ingress p))) (uplinks ops)"
proof -
  have s: "ct_sink (NewController cfg p) = p" by (simp add: NewController_def)
  obtain c where c: "dialogue_run pipeline_sink (NewController cfg p) ops = Some c" "pipeline_inv (ct_sink c)"
    "ingress_view (ct_sink c) = foldl ingress_hear (ingress_view p) (uplinks ops)"
    using pipe.dialogue_forwards [of "NewController cfg p" ops] assms(1) s by auto
  have "0 < Ring_Cap (eg_ring (pl_ingress p))"
    using assms(1) ring_cap_pos by (auto simp: pipeline_inv_def edge_inv_def)
  from foldl_pushed_newest [of DropOldest, OF _ this, of "[]" "uplinks ops"] c assms(2,3) show ?thesis
    by (auto simp: ingress_view_def)
qed

theorem ingest_never_blocks_witness:
  "\<exists>p c. Pipeline_New (Default []) = Inr p \<and>
     dialogue_run pipeline_sink (NewController (Default []) p) [Uplink loud_frame, TurnStart, Uplink zero_frame] = Some c \<and>
     edge_frames (pl_ingress (ct_sink c)) = [loud_frame, zero_frame]"
proof -
  have rb: "cf_RingBuf (Default []) = \<lparr>rb_IngressCapacity = 64, rb_EgressCapacity = 64,
      rb_IngressPolicy = ''drop_oldest'', rb_EgressPolicy = ''drop_oldest''\<rparr>" by (simp add: Default_def)
  obtain p where p: "Pipeline_New (Default []) = Inr p" "pipeline_inv p" "edge_frames (pl_ingress p) = []"
    "Ring_Cap (eg_ring (pl_ingress p)) = 64"
    "ParsePolicy ''drop_oldest'' = Inr (ring_policy (eg_ring (pl_ingress p)))"
    using Pipeline_New_valid [OF Validate_Default [of "[]"]] by (auto simp: rb)
  have "ring_policy (eg_ring (pl_ingress p)) = DropOldest" using p(5) by (simp add: ParsePolicy_def)
  from ingest_never_blocks [OF p(2) this p(3), of "Default []" "[Uplink loud_frame, TurnStart, Uplink zero_frame]"] p
  show ?thesis by auto
qed

end
