(* ===== verification/Asrloop.thy ===== *)
theory Asrloop
  imports Pipeline
begin

text \<open>
  The recogniser's loop, \<open>runASRLoop\<close> of \<open>internal/pipeline/pipeline.go\<close>: the pump that moves frames from
  the ingress edge into the recogniser over an unbuffered channel and returns their buffers to the pool,
  and the utterance it posts. Frames are numbered as the pump takes them, so that a trace of its acts
  tells buffers apart.
\<close>

section \<open>The pump\<close>

datatype pump_act = Deliver nat AudioFrame | Recycle nat AudioFrame | AsrReturned

record pump =
  pm_pipe :: Pipeline
  pm_prev :: "(nat \<times> AudioFrame) option"
  pm_taken :: nat
  pm_endAt :: instant
  pm_stopped :: bool
  pm_trace :: "pump_act list"

text \<open>What the \<open>select\<close> statements choose: with the edge empty, the bell (and whether the context is
  cancelled by then), the end of the utterance, or the context; with a frame in hand, the hand-over,
  the end of the utterance, or the context. In between, the reader may push a frame.\<close>

datatype pump_choice = ChBell bool | ChHandOver | ChEndUtt instant | ChCtxDone | EnvPush AudioFrame | EnvEndUtt

definition pump_recycle :: "nat \<times> AudioFrame \<Rightarrow> pump \<Rightarrow> pump option" where
  "pump_recycle nf s =
     (case nf of (n, f) \<Rightarrow>
        case pl_ingressPool (pm_pipe s) of
          None \<Rightarrow> Some (s\<lparr>pm_trace := pm_trace s @ [Recycle n f]\<rparr>)
        | Some pool \<Rightarrow>
            map_option (\<lambda>pool1. s\<lparr>pm_pipe := (pm_pipe s)\<lparr>pl_ingressPool := Some pool1\<rparr>,
                                  pm_trace := pm_trace s @ [Recycle n f]\<rparr>)
              (BufferPool_Put pool (af_PCM f)))"

text \<open>One round with the edge empty.\<close>

definition pump_wait :: "pump_choice \<Rightarrow> pump \<Rightarrow> pump option" where
  "pump_wait ch s =
     (let p = pm_pipe s in
      case ch of
        ChBell cancelled \<Rightarrow>
          (case eg_bell (pl_ingress p) of
             [] \<Rightarrow> None
           | _ # bs \<Rightarrow> Some (s\<lparr>pm_pipe := p\<lparr>pl_ingress := (pl_ingress p)\<lparr>eg_bell := bs\<rparr>\<rparr>, pm_stopped := cancelled\<rparr>))
      | ChEndUtt t \<Rightarrow>
          (case pl_endUtt p of
             [] \<Rightarrow> None
           | _ # us \<Rightarrow> Some (s\<lparr>pm_pipe := p\<lparr>pl_endUtt := us\<rparr>, pm_endAt := t, pm_stopped := True\<rparr>))
      | ChCtxDone \<Rightarrow> Some (s\<lparr>pm_stopped := True\<rparr>)
      | _ \<Rightarrow> None)"

text \<open>One round with the frame \<open>f\<close>, number \<open>n\<close>, in hand.\<close>

definition pump_frame :: "pump_choice \<Rightarrow> nat \<Rightarrow> AudioFrame \<Rightarrow> pump \<Rightarrow> pump option" where
  "pump_frame ch n f s =
     (case ch of
        ChHandOver \<Rightarrow>
          (let s1 = s\<lparr>pm_trace := pm_trace s @ [Deliver n f]\<rparr> in
           map_option (\<lambda>s2. s2\<lparr>pm_prev := Some (n, f)\<rparr>)
             (case pm_prev s1 of None \<Rightarrow> Some s1 | Some prev \<Rightarrow> pump_recycle prev s1))
      | ChEndUtt t \<Rightarrow>
          (case pl_endUtt (pm_pipe s) of
             [] \<Rightarrow> None
           | _ # us \<Rightarrow> pump_recycle (n, f) (s\<lparr>pm_pipe := (pm_pipe s)\<lparr>pl_endUtt := us\<rparr>, pm_endAt := t, pm_stopped := True\<rparr>))
      | ChCtxDone \<Rightarrow> pump_recycle (n, f) (s\<lparr>pm_stopped := True\<rparr>)
      | _ \<Rightarrow> None)"

definition pump_round :: "pump_choice \<Rightarrow> pump \<Rightarrow> pump option" where
  "pump_round ch s =
     (case ch of
        EnvPush f \<Rightarrow> map_option (\<lambda>(p, _). s\<lparr>pm_pipe := p\<rparr>) (PushAudio f (pm_pipe s))
      | EnvEndUtt \<Rightarrow> Some (s\<lparr>pm_pipe := EndUtterance (pm_pipe s)\<rparr>)
      | _ \<Rightarrow>
        if pm_stopped s then None
        else Option.bind (edge_pop (pl_ingress (pm_pipe s))) (\<lambda>(e, f, ok).
          let s1 = s\<lparr>pm_pipe := (pm_pipe s)\<lparr>pl_ingress := e\<rparr>\<rparr> in
          if ok then pump_frame ch (pm_taken s) f (s1\<lparr>pm_taken := pm_taken s + 1\<rparr>)
          else pump_wait ch s1))"

fun pump_run :: "pump_choice list \<Rightarrow> pump \<Rightarrow> pump option" where
  "pump_run [] s = Some s"
| "pump_run (ch # chs) s = Option.bind (pump_round ch s) (pump_run chs)"

text \<open>After the loop: the input is closed, the recogniser returns, and the last frame handed over goes
  back.\<close>

definition pump_close :: "pump \<Rightarrow> pump option" where
  "pump_close s =
     (let s1 = s\<lparr>pm_trace := pm_trace s @ [AsrReturned]\<rparr> in
      case pm_prev s1 of None \<Rightarrow> Some s1 | Some prev \<Rightarrow> pump_recycle prev s1)"

definition pump_start :: "Pipeline \<Rightarrow> pump" where
  "pump_start p = \<lparr>pm_pipe = p, pm_prev = None, pm_taken = 0, pm_endAt = zero_time, pm_stopped = False, pm_trace = []\<rparr>"

section \<open>Buffers\<close>

text \<open>The frames the recogniser was given, in order, and the numbers of those returned to the pool.\<close>

definition delivered :: "pump_act list \<Rightarrow> AudioFrame list" where
  "delivered tr = concat (map (\<lambda>a. case a of Deliver n f \<Rightarrow> [f] | _ \<Rightarrow> []) tr)"

definition recycled :: "pump_act list \<Rightarrow> nat list" where
  "recycled tr = concat (map (\<lambda>a. case a of Recycle n f \<Rightarrow> [n] | _ \<Rightarrow> []) tr)"

lemma trace_simps [simp]:
  "delivered (tr @ [Deliver n f]) = delivered tr @ [f]" "delivered (tr @ [Recycle n f]) = delivered tr"
  "delivered (tr @ [AsrReturned]) = delivered tr" "delivered [] = []"
  "recycled (tr @ [Deliver n f]) = recycled tr" "recycled (tr @ [Recycle n f]) = recycled tr @ [n]"
  "recycled (tr @ [AsrReturned]) = recycled tr" "recycled [] = []"
  by (simp_all add: delivered_def recycled_def)

text \<open>By the ownership rule of the adapters the recogniser may read the buffer it was handed last until
  it takes the next one or returns. \<open>holder\<close> is that buffer; a trace is safe if it is never recycled.\<close>

definition hold_act :: "nat option \<Rightarrow> pump_act \<Rightarrow> nat option" where
  "hold_act h a = (case a of Deliver n f \<Rightarrow> Some n | Recycle n f \<Rightarrow> h | AsrReturned \<Rightarrow> None)"

definition holder :: "pump_act list \<Rightarrow> nat option" where
  "holder tr = foldl hold_act None tr"

fun act_safe :: "nat option \<Rightarrow> pump_act \<Rightarrow> bool" where
  "act_safe h (Recycle n f) = (h \<noteq> Some n)"
| "act_safe h (Deliver n f) = True"
| "act_safe h AsrReturned = True"

fun trace_safe_from :: "nat option \<Rightarrow> pump_act list \<Rightarrow> bool" where
  "trace_safe_from h [] = True"
| "trace_safe_from h (a # tr) =
     (act_safe h a \<and> trace_safe_from (hold_act h a) tr)"

abbreviation trace_safe :: "pump_act list \<Rightarrow> bool" where
  "trace_safe \<equiv> trace_safe_from None"

lemma trace_safe_snoc:
  "trace_safe_from h (tr @ [a]) \<longleftrightarrow>
     trace_safe_from h tr \<and> act_safe (foldl hold_act h tr) a"
  by (induction tr arbitrary: h) (simp_all add: conj_assoc)

lemma holder_snoc [simp]: "holder (tr @ [a]) = hold_act (holder tr) a"
  by (simp add: holder_def)

text \<open>The books of the pump: every frame taken is recycled once, but for the one the recogniser holds.\<close>

definition pump_books :: "(nat \<times> AudioFrame) option \<Rightarrow> nat \<Rightarrow> pump_act list \<Rightarrow> bool" where
  "pump_books prev n tr \<longleftrightarrow> trace_safe tr \<and> distinct (recycled tr) \<and>
     (case prev of
        None \<Rightarrow> holder tr = None \<and> set (recycled tr) = {..<n}
      | Some (k, f) \<Rightarrow> holder tr = Some k \<and> k < n \<and> set (recycled tr) = {..<n} - {k})"

definition pool_ok :: "BufferPool option \<Rightarrow> bool" where
  "pool_ok q = (case q of None \<Rightarrow> True | Some pool \<Rightarrow> pool_inv pool)"

definition pump_inv :: "pump \<Rightarrow> bool" where
  "pump_inv s \<longleftrightarrow> pipeline_inv (pm_pipe s) \<and> pool_ok (pl_ingressPool (pm_pipe s)) \<and>
     pump_books (pm_prev s) (pm_taken s) (pm_trace s)"

lemma insert_lessThan:
  "k < n \<Longrightarrow> insert k ({..<n} - {k}) = {..<n}" "k < n \<Longrightarrow> {..<n :: nat} = {..<n + 1} - {n}"
  "{..<n + 1} = insert n {..<n}" "{..<n} = {..<n + 1} - {n}"
  "k < n \<Longrightarrow> insert n ({..<n} - {k}) = {..<n + 1} - {k}"
  by auto

lemma books_handover:
  assumes "pump_books prev n tr"
  shows "pump_books (Some (n, f)) (n + 1)
    (case prev of None \<Rightarrow> tr @ [Deliver n f] | Some (k, g) \<Rightarrow> (tr @ [Deliver n f]) @ [Recycle k g])"
proof (cases prev)
  case None
  define tr2 where "tr2 = tr @ [Deliver n f]"
  have "trace_safe tr2" "distinct (recycled tr2)" "holder tr2 = Some n" "set (recycled tr2) = {..<n}"
    using assms None by (simp_all add: tr2_def pump_books_def trace_safe_snoc hold_act_def)
  then have "pump_books (Some (n, f)) (n + 1) tr2"
    unfolding pump_books_def option.case prod.case using insert_lessThan(4) [of n] by simp
  then show ?thesis by (simp add: None tr2_def)
next
  case (Some kg)
  obtain k g where kg: "kg = (k, g)" by force
  with assms Some have b: "trace_safe tr" "distinct (recycled tr)" "k < n" "set (recycled tr) = {..<n} - {k}"
    by (simp_all add: pump_books_def)
  define tr2 where "tr2 = (tr @ [Deliver n f]) @ [Recycle k g]"
  have safe: "trace_safe tr2"
    unfolding tr2_def using b(1,3) by (simp only: trace_safe_snoc holder_def [symmetric] holder_snoc) (simp add: hold_act_def)
  have hold: "holder tr2 = Some n"
    unfolding tr2_def by (simp only: holder_snoc) (simp add: hold_act_def)
  have rec: "recycled tr2 = recycled tr @ [k]"
    unfolding tr2_def by (simp only: trace_simps)
  have "set (recycled tr2) = {..<n + 1} - {n}"
    unfolding rec using insert_lessThan(1) [OF b(3)] insert_lessThan(4) [of n] by (simp add: b(4))
  moreover have "distinct (recycled tr2)" using b(2) by (simp add: rec b(4))
  ultimately have "pump_books (Some (n, f)) (n + 1) tr2"
    unfolding pump_books_def option.case prod.case using safe hold by simp
  then show ?thesis by (simp add: Some kg tr2_def)
qed

lemma books_refuse:
  assumes "pump_books prev n tr"
  shows "pump_books prev (n + 1) (tr @ [Recycle n f])"
proof -
  define tr2 where "tr2 = tr @ [Recycle n f]"
  have h: "holder tr \<noteq> Some n" and fresh: "n \<notin> set (recycled tr)" and "trace_safe tr" "distinct (recycled tr)"
  proof -
    show "trace_safe tr" "distinct (recycled tr)" using assms by (simp_all add: pump_books_def)
    show "holder tr \<noteq> Some n" "n \<notin> set (recycled tr)"
      using assms by (cases prev; clarsimp simp: pump_books_def)+
  qed
  then have safe: "trace_safe tr2" "distinct (recycled tr2)"
    by (simp_all add: tr2_def trace_safe_snoc holder_def [symmetric])
  have hold: "holder tr2 = holder tr" and rec: "set (recycled tr2) = insert n (set (recycled tr))"
    by (simp_all add: tr2_def hold_act_def)
  show ?thesis
  proof (cases prev)
    case None
    with assms have b: "holder tr = None" "set (recycled tr) = {..<n}" by (simp_all add: pump_books_def)
    have "set (recycled tr2) = {..<n + 1}" unfolding rec b(2) by (rule insert_lessThan(3) [symmetric])
    with safe hold b(1) show ?thesis
      unfolding pump_books_def tr2_def [symmetric] None option.case by simp
  next
    case (Some kg)
    obtain k g where kg: "kg = (k, g)" by force
    with assms Some have b: "holder tr = Some k" "k < n" "set (recycled tr) = {..<n} - {k}"
      by (simp_all add: pump_books_def)
    have "set (recycled tr2) = {..<n + 1} - {k}" unfolding rec b(3) by (rule insert_lessThan(5) [OF b(2)])
    moreover have "holder tr2 = Some k" "k < n + 1" using hold b by simp_all
    ultimately show ?thesis
      unfolding pump_books_def tr2_def [symmetric] Some kg option.case prod.case using safe by blast
  qed
qed

lemma books_close:
  assumes "pump_books prev n tr"
  shows "let tr' = (case prev of None \<Rightarrow> tr @ [AsrReturned] | Some (k, g) \<Rightarrow> (tr @ [AsrReturned]) @ [Recycle k g]) in
    trace_safe tr' \<and> distinct (recycled tr') \<and> set (recycled tr') = {..<n} \<and> delivered tr' = delivered tr"
proof (cases prev)
  case None
  with assms show ?thesis by (simp add: pump_books_def trace_safe_snoc)
next
  case (Some kg)
  obtain k g where kg: "kg = (k, g)" by force
  with assms Some have b: "trace_safe tr" "distinct (recycled tr)" "k < n" "set (recycled tr) = {..<n} - {k}"
    by (simp_all add: pump_books_def)
  define tr2 where "tr2 = (tr @ [AsrReturned]) @ [Recycle k g]"
  have safe: "trace_safe tr2"
    unfolding tr2_def using b(1) by (simp only: trace_safe_snoc holder_def [symmetric] holder_snoc) (simp add: hold_act_def)
  have rec: "recycled tr2 = recycled tr @ [k]" and del: "delivered tr2 = delivered tr"
    unfolding tr2_def by (simp_all only: trace_simps)
  have "set (recycled tr2) = {..<n}" unfolding rec using insert_lessThan(1) [OF b(3)] by (simp add: b(4))
  moreover have "distinct (recycled tr2)" using b(2) by (simp add: rec b(4))
  ultimately show ?thesis unfolding Some kg option.case prod.case tr2_def [symmetric] Let_def using safe del by simp
qed

lemma pump_recycle_ok:
  assumes "pool_ok (pl_ingressPool (pm_pipe s))"
  shows "\<exists>pool. pump_recycle (n, f) s =
      Some (s\<lparr>pm_pipe := (pm_pipe s)\<lparr>pl_ingressPool := pool\<rparr>, pm_trace := pm_trace s @ [Recycle n f]\<rparr>) \<and> pool_ok pool"
proof (cases "pl_ingressPool (pm_pipe s)")
  case None
  then show ?thesis by (intro exI [of _ None]) (simp add: pump_recycle_def pool_ok_def)
next
  case (Some q)
  with assms have "pool_inv q" by (simp add: pool_ok_def)
  then obtain q1 where "BufferPool_Put q (af_PCM f) = Some q1" "pool_inv q1" using pool_put_ok by blast
  with Some show ?thesis by (intro exI [of _ "Some q1"]) (simp add: pump_recycle_def pool_ok_def)
qed

lemma pump_refuse_inv:
  assumes "pump_inv s" "pipeline_inv p" "pl_ingressPool p = pl_ingressPool (pm_pipe s)"
    and "pump_recycle (pm_taken s, f) (s\<lparr>pm_taken := pm_taken s + 1, pm_pipe := p, pm_endAt := t, pm_stopped := b\<rparr>) = Some s'"
  shows "pump_inv s'"
proof -
  let ?s = "s\<lparr>pm_taken := pm_taken s + 1, pm_pipe := p, pm_endAt := t, pm_stopped := b\<rparr>"
  have "pool_ok (pl_ingressPool (pm_pipe ?s))" using assms(1,3) by (simp add: pump_inv_def)
  from pump_recycle_ok [OF this, of "pm_taken s" f] assms(4) obtain pool where
    "s' = ?s\<lparr>pm_pipe := p\<lparr>pl_ingressPool := pool\<rparr>, pm_trace := pm_trace s @ [Recycle (pm_taken s) f]\<rparr>" "pool_ok pool"
    by auto
  moreover have "pump_books (pm_prev s) (pm_taken s + 1) (pm_trace s @ [Recycle (pm_taken s) f])"
    using assms(1) by (intro books_refuse) (simp add: pump_inv_def)
  ultimately show ?thesis using assms(2) by (simp add: pump_inv_def pipeline_inv_def)
qed

lemma pump_frame_inv:
  assumes "pump_inv s" "pump_frame ch (pm_taken s) f (s\<lparr>pm_taken := pm_taken s + 1\<rparr>) = Some s'"
  shows "pump_inv s'"
proof -
  let ?n = "pm_taken s" and ?s = "s\<lparr>pm_taken := pm_taken s + 1\<rparr>"
  have pipe: "pipeline_inv (pm_pipe s)" using assms(1) by (simp add: pump_inv_def)
  show ?thesis
  proof (cases ch)
    case ChHandOver
    have books: "pump_books (Some (?n, f)) (?n + 1) (case pm_prev s of None \<Rightarrow> pm_trace s @ [Deliver ?n f]
        | Some (k, g) \<Rightarrow> (pm_trace s @ [Deliver ?n f]) @ [Recycle k g])"
      using assms(1) by (intro books_handover) (simp add: pump_inv_def)
    show ?thesis
    proof (cases "pm_prev s")
      case None
      with assms ChHandOver books show ?thesis by (auto simp: pump_frame_def pump_inv_def)
    next
      case (Some prev)
      obtain k g where prev: "prev = (k, g)" by force
      let ?s1 = "?s\<lparr>pm_trace := pm_trace s @ [Deliver ?n f]\<rparr>"
      have "pool_ok (pl_ingressPool (pm_pipe ?s1))" using assms(1) by (simp add: pump_inv_def)
      from pump_recycle_ok [OF this, of k g] obtain pool where
        "pump_recycle (k, g) ?s1 = Some (?s1\<lparr>pm_pipe := (pm_pipe s)\<lparr>pl_ingressPool := pool\<rparr>,
          pm_trace := (pm_trace s @ [Deliver ?n f]) @ [Recycle k g]\<rparr>)" "pool_ok pool" by auto
      with assms(2) ChHandOver Some prev pipe books show ?thesis
        by (auto simp: pump_frame_def pump_inv_def pipeline_inv_def Let_def)
    qed
  next
    case (ChEndUtt t)
    then obtain u us where u: "pl_endUtt (pm_pipe s) = u # us"
      using assms(2) by (cases "pl_endUtt (pm_pipe s)") (auto simp: pump_frame_def)
    have "pipeline_inv ((pm_pipe s)\<lparr>pl_endUtt := us\<rparr>)" using pipe u by (simp add: pipeline_inv_def)
    from pump_refuse_inv [OF assms(1) this, where f = f and t = t and b = True and s' = s'] assms(2) ChEndUtt u show ?thesis
      by (simp add: pump_frame_def)
  next
    case ChCtxDone
    from pump_refuse_inv [OF assms(1) pipe, where f = f and t = "pm_endAt s" and b = True and s' = s'] assms(2) ChCtxDone show ?thesis
      by (simp add: pump_frame_def)
  qed (use assms(2) in \<open>simp_all add: pump_frame_def\<close>)
qed

lemma pump_wait_inv:
  assumes "pump_inv s" "pump_wait ch s = Some s'"
  shows "pump_inv s'"
proof (cases ch)
  case (ChBell c)
  then obtain b bs where "eg_bell (pl_ingress (pm_pipe s)) = b # bs"
    using assms(2) by (cases "eg_bell (pl_ingress (pm_pipe s))") (auto simp: pump_wait_def Let_def)
  with assms ChBell show ?thesis
    by (auto simp: pump_wait_def pump_inv_def pipeline_inv_def edge_inv_def Let_def)
next
  case (ChEndUtt t)
  then obtain u us where "pl_endUtt (pm_pipe s) = u # us"
    using assms(2) by (cases "pl_endUtt (pm_pipe s)") (auto simp: pump_wait_def Let_def)
  with assms ChEndUtt show ?thesis
    by (auto simp: pump_wait_def pump_inv_def pipeline_inv_def Let_def)
qed (use assms in \<open>auto simp: pump_wait_def pump_inv_def Let_def\<close>)

lemma pump_round_inv:
  assumes "pump_inv s" "pump_round ch s = Some s'"
  shows "pump_inv s'"
proof -
  have inv: "pipeline_inv (pm_pipe s)" using assms(1) by (simp add: pump_inv_def)
  have pop: "pump_inv s'" if st: "\<not> pm_stopped s"
    and run: "Option.bind (edge_pop (pl_ingress (pm_pipe s))) (\<lambda>(e, f, ok).
          let s1 = s\<lparr>pm_pipe := (pm_pipe s)\<lparr>pl_ingress := e\<rparr>\<rparr> in
          if ok then pump_frame ch (pm_taken s) f (s1\<lparr>pm_taken := pm_taken s + 1\<rparr>)
          else pump_wait ch s1) = Some s'"
  proof -
    obtain e f ok where e: "edge_pop (pl_ingress (pm_pipe s)) = Some (e, f, ok)" using run by (auto simp: bind_eq_Some_conv)
    let ?s1 = "s\<lparr>pm_pipe := (pm_pipe s)\<lparr>pl_ingress := e\<rparr>\<rparr>"
    have "edge_inv e" using edge_pop_inv(1) [OF _ e] inv by (simp add: pipeline_inv_def)
    then have s1: "pump_inv ?s1" using assms(1) by (simp add: pump_inv_def pipeline_inv_def)
    show ?thesis
    proof (cases ok)
      case True
      with run e have "pump_frame ch (pm_taken ?s1) f (?s1\<lparr>pm_taken := pm_taken ?s1 + 1\<rparr>) = Some s'"
        by (simp add: Let_def)
      with s1 show ?thesis by (rule pump_frame_inv)
    next
      case False
      with run e have "pump_wait ch ?s1 = Some s'" by (simp add: Let_def)
      with s1 show ?thesis by (rule pump_wait_inv)
    qed
  qed
  show ?thesis
  proof (cases ch)
    case (EnvPush f)
    with assms PushAudio_ok [OF inv, of f] show ?thesis
      by (auto simp: pump_round_def pump_inv_def PushAudio_def)
  next
    case EnvEndUtt
    with assms signals_inv(1) [OF inv] show ?thesis
      by (auto simp: pump_round_def pump_inv_def EndUtterance_def)
  qed (use assms(2) pop in \<open>auto simp: pump_round_def split: if_splits\<close>)
qed

lemma pump_run_inv: "pump_inv s \<Longrightarrow> pump_run chs s = Some s' \<Longrightarrow> pump_inv s'"
  by (induction chs arbitrary: s) (auto simp: bind_eq_Some_conv dest: pump_round_inv)

text \<open>
  C7: Buffers go round safely: whatever the reader pushes and whichever way every \<open>select\<close> goes, one
  utterance of the pump returns the buffer of every frame it took from the ring to the pool exactly
  once, and never while the recogniser may still read it.
\<close>

theorem pump_recycles_once:
  assumes "pipeline_inv p" "pl_ingressPool p = Some pool" "pool_inv pool"
    and "pump_run chs (pump_start p) = Some s"
  shows "\<exists>s'. pump_close s = Some s' \<and> trace_safe (pm_trace s') \<and> distinct (recycled (pm_trace s')) \<and>
    set (recycled (pm_trace s')) = {..<pm_taken s'} \<and> delivered (pm_trace s') = delivered (pm_trace s)"
proof -
  have "pump_inv (pump_start p)"
    using assms(1-3) by (simp add: pump_inv_def pump_start_def pump_books_def holder_def pool_ok_def)
  then have inv: "pump_inv s" using assms(4) by (rule pump_run_inv)
  then have "pump_books (pm_prev s) (pm_taken s) (pm_trace s)" by (simp add: pump_inv_def)
  note books = books_close [OF this]
  show ?thesis
  proof (cases "pm_prev s")
    case None
    with books show ?thesis by (auto simp: pump_close_def Let_def)
  next
    case (Some prev)
    obtain n f where prev: "prev = (n, f)" by force
    let ?s1 = "s\<lparr>pm_trace := pm_trace s @ [AsrReturned]\<rparr>"
    have "pool_ok (pl_ingressPool (pm_pipe ?s1))" using inv by (simp add: pump_inv_def)
    from pump_recycle_ok [OF this, of n f] obtain pool' where
      "pump_recycle (n, f) ?s1 = Some (?s1\<lparr>pm_pipe := (pm_pipe s)\<lparr>pl_ingressPool := pool'\<rparr>,
        pm_trace := (pm_trace s @ [AsrReturned]) @ [Recycle n f]\<rparr>)" by auto
    with Some prev books show ?thesis by (auto simp: pump_close_def Let_def)
  qed
qed

lemma pump_recycle_taken: "pump_recycle nf s = Some s' \<Longrightarrow> pm_taken s' = pm_taken s"
  by (auto simp: pump_recycle_def split: prod.splits option.splits)

lemma pump_close_taken: "pump_close s = Some s' \<Longrightarrow> pm_taken s' = pm_taken s"
  by (auto simp: pump_close_def Let_def dest: pump_recycle_taken split: option.splits)

theorem pump_recycles_once_witness:
  "\<exists>p s s'. Pipeline_New (Default []) = Inr p \<and> pump_close s = Some s' \<and>
     pm_trace s = [Deliver 0 loud_frame] \<and> set (recycled (pm_trace s')) = {0}"
proof -
  have rb: "cf_RingBuf (Default []) = \<lparr>rb_IngressCapacity = 64, rb_EgressCapacity = 64,
      rb_IngressPolicy = ''drop_oldest'', rb_EgressPolicy = ''drop_oldest''\<rparr>" by (simp add: Default_def)
  obtain p where p: "Pipeline_New (Default []) = Inr p" "pipeline_inv p" "edge_frames (pl_ingress p) = []"
    "Ring_Cap (eg_ring (pl_ingress p)) = 64"
    using Pipeline_New_valid [OF Validate_Default [of "[]"]] by (auto simp: rb)
  obtain pool where "NewBufferPool 2 5 = Some (Inr pool)" using new_pool_2 by blast
  then have pool: "pool_inv pool" using NewBufferPool_ok(1) [of 2 5 pool] by simp
  let ?p = "SetIngressPool pool p"
  have inv: "pipeline_inv ?p" "pl_ingressPool ?p = Some pool" using p(2) by (simp_all add: SetIngressPool_def pipeline_inv_def)
  have "edge_inv (pl_ingress p)" using p(2) by (simp add: pipeline_inv_def)
  from edge_push_ok [OF this, of loud_frame] p(3,4) obtain e ok where
    e: "edge_push (pl_ingress p) loud_frame = Some (e, ok)" "edge_inv e" "edge_frames e = [loud_frame]"
    by (auto simp: pushed_frames_def)
  from edge_pop_cons [OF e(2,3)] obtain e' where e': "edge_pop e = Some (e', loud_frame, True)" by blast
  let ?s = "\<lparr>pm_pipe = ?p\<lparr>pl_ingress := e'\<rparr>, pm_prev = Some (0, loud_frame), pm_taken = 1, pm_endAt = zero_time,
    pm_stopped = False, pm_trace = [Deliver 0 loud_frame]\<rparr>"
  have push: "PushAudio loud_frame ?p = Some (?p\<lparr>pl_ingress := e\<rparr>, ok)"
    using e(1) by (simp add: PushAudio_def SetIngressPool_def)
  have s: "pump_run [EnvPush loud_frame, ChHandOver] (pump_start ?p) = Some ?s"
    by (simp add: pump_round_def pump_start_def push e' pump_frame_def Let_def)
  from pump_recycles_once [OF inv pool s] obtain s' where
    s': "pump_close ?s = Some s'" "set (recycled (pm_trace s')) = {..<pm_taken s'}" by blast
  have "pm_taken s' = 1" using pump_close_taken [OF s'(1)] by simp
  then have "set (recycled (pm_trace s')) = {0}" using s'(2) by auto
  with s'(1) p(1) show ?thesis by (intro exI [of _ p] exI [of _ ?s] exI [of _ s']) simp
qed

section \<open>One utterance\<close>

type_synonym asr_stage = "budget \<Rightarrow> AudioFrame list \<Rightarrow> Transcript list \<times> stage_end"

text \<open>The collector keeps the last final transcript; the zero value has no text.\<close>

definition last_final :: "Transcript list \<Rightarrow> runes" where
  "last_final trs = (let fs = filter tr_Final trs in if fs = [] then [] else tr_Text (last fs))"

datatype asr_outcome = Posted utterance | AsrCtxErr | AsrStreamErr stage_end

definition asr_round :: "asr_stage \<Rightarrow> budget \<Rightarrow> bool \<Rightarrow> instant \<Rightarrow> pump_choice list \<Rightarrow> Pipeline \<Rightarrow>
    (Pipeline \<times> asr_outcome) option" where
  "asr_round asr b ctx_err now chs p =
     Option.bind (pump_run chs (pump_start p)) (\<lambda>s.
       if \<not> pm_stopped s then None
       else map_option (\<lambda>s1. (pm_pipe s1,
              case asr b (delivered (pm_trace s)) of (trs, r) \<Rightarrow>
                if ctx_err then AsrCtxErr
                else if r \<noteq> StageOk then AsrStreamErr r
                else Posted \<lparr>ut_text = last_final trs, ut_endAt = pm_endAt s, ut_finalAt = now\<rparr>))
            (pump_close s))"

definition mock_asr_stage :: "MockASR \<Rightarrow> asr_stage" where
  "mock_asr_stage m b fs = (case MockASR_Stream m b fs of (trs, ok) \<Rightarrow> (trs, if ok then StageOk else StageCanceled))"

lemma mock_asr_text:
  "MockASR_Stream m b fs = (trs, True) \<Longrightarrow> last_final trs = masr_Script m"
proof -
  assume r: "MockASR_Stream m b fs = (trs, True)"
  let ?ws = "Fields (masr_Script m)"
  have eq: "mock_asr_loop m ?ws b 0 0 0 fs = (trs, True)" using r by (simp add: MockASR_Stream_def)
  note fin = mock_asr_loop_finals [of m ?ws b 0 0 0 fs, unfolded eq fst_conv snd_conv]
  then obtain ps t where t: "trs = ps @ [t]" "tr_Final t" by auto
  with fin(2) have "tr_Text t = masr_Script m" by simp
  with t show ?thesis by (simp add: last_final_def Let_def)
qed

lemma asr_round_posts:
  assumes "asr_round (mock_asr_stage m) b False now chs p = Some (p', Posted u)"
  shows "ut_text u = masr_Script m" "ut_finalAt u = now"
proof -
  from assms obtain s z where s: "pump_close s = Some z"
    "(case mock_asr_stage m b (delivered (pm_trace s)) of (trs, r) \<Rightarrow>
        if r \<noteq> StageOk then AsrStreamErr r
        else Posted \<lparr>ut_text = last_final trs, ut_endAt = pm_endAt s, ut_finalAt = now\<rparr>) = Posted u"
    by (auto simp: asr_round_def bind_eq_Some_conv split: if_splits)
  obtain trs r where mock: "mock_asr_stage m b (delivered (pm_trace s)) = (trs, r)" by force
  with s(2) have u: "r = StageOk" "u = \<lparr>ut_text = last_final trs, ut_endAt = pm_endAt s, ut_finalAt = now\<rparr>"
    by (auto split: if_splits)
  with mock have "MockASR_Stream m b (delivered (pm_trace s)) = (trs, True)"
    by (auto simp: mock_asr_stage_def split: prod.splits if_splits)
  with u(2) show "ut_text u = masr_Script m" "ut_finalAt u = now" using mock_asr_text by auto
qed

end
