(* ===== verification/Orchestrator.thy ===== *)
theory Orchestrator
  imports Pipeline
begin

text \<open>
  The orchestrator, \<open>Run\<close> of \<open>internal/pipeline/pipeline.go\<close>, with the ends of a turn from \<open>turn.go\<close>:
  one step per choice of its \<open>select\<close>. A turn's chain is computed when the turn ends, from the
  environment the step carries; until then the orchestrator does not touch what the chain uses. The
  recogniser posting an utterance and the controller asking for a cancellation are steps of the
  environment.
\<close>

section \<open>State\<close>

datatype pipe_log = LogTurnStart utterance | LogTurnEnd bool | LogStats TurnStats | LogStageErr string

datatype run_return = ReturnCtx | ReturnAsr string

record run_state =
  rn_pipe :: Pipeline
  rn_finals :: "utterance list"
  rn_cur :: "utterance option"
  rn_log :: "pipe_log list"
  rn_returned :: "run_return option"

text \<open>\<open>begin\<close> and \<open>end\<close> are the readings of the clock around a cancellation.\<close>

datatype run_event =
    EvCtxDone turn_env instant instant
  | EvAsrErr string turn_env instant instant
  | EvBargeIn turn_env instant instant
  | EvFinal
  | EvTurnDone turn_env
  | EnvPost utterance
  | EnvBargeIn

definition run_start :: "Pipeline \<Rightarrow> run_state" where
  "run_start p = \<lparr>rn_pipe = p, rn_finals = [], rn_cur = None, rn_log = [], rn_returned = None\<rparr>"

section \<open>Starting and ending a turn\<close>

definition startTurn :: "utterance \<Rightarrow> run_state \<Rightarrow> run_state" where
  "startTurn u s = s\<lparr>rn_cur := Some u, rn_log := rn_log s @ [LogTurnStart u]\<rparr>"

definition end_turn :: "bool \<Rightarrow> turnHandle \<Rightarrow> run_state \<Rightarrow> run_state" where
  "end_turn cancelled h s =
     (let p = rn_pipe s in
      s\<lparr>rn_pipe := publish (th_stats h)
          (p\<lparr>pl_history := appendHistory (pl_history p) (ts_Prompt (th_stats h)) (ts_Reply (th_stats h))\<rparr>),
        rn_log := rn_log s @ [LogStats (th_stats h), LogTurnEnd cancelled], rn_cur := None\<rparr>)"

definition finishTurn :: "llm_stage \<Rightarrow> tts_stage \<Rightarrow> turn_env \<Rightarrow> utterance \<Rightarrow> run_state \<Rightarrow> run_state option" where
  "finishTurn llm tts te u s =
     map_option (\<lambda>(h, egress, _, _).
         end_turn False h
           (s\<lparr>rn_pipe := (rn_pipe s)\<lparr>pl_egress := egress\<rparr>,
              rn_log := rn_log s @ (case th_err h of None \<Rightarrow> [] | Some e \<Rightarrow> [LogStageErr e])\<rparr>))
       (turn_chain llm tts te (pl_history (rn_pipe s)) u (pl_egress (rn_pipe s)))"

definition cancelTurn :: "llm_stage \<Rightarrow> tts_stage \<Rightarrow> turn_env \<Rightarrow> instant \<Rightarrow> instant \<Rightarrow> utterance \<Rightarrow> run_state \<Rightarrow>
    run_state option" where
  "cancelTurn llm tts te t0 t1 u s =
     Option.bind (turn_chain llm tts te (pl_history (rn_pipe s)) u (pl_egress (rn_pipe s))) (\<lambda>(h, egress, _, _).
     map_option (\<lambda>(egress1, n).
         end_turn True
           (h\<lparr>th_stats := (th_stats h)\<lparr>ts_Cancelled := True, ts_FlushedFrames := n, ts_BargeInLatency := time_sub t1 t0\<rparr>\<rparr>)
           (s\<lparr>rn_pipe := (rn_pipe s)\<lparr>pl_egress := egress1\<rparr>\<rparr>))
       (edge_drain egress))"

section \<open>One step of the loop\<close>

text \<open>\<open>cap\<close> is the capacity of the channel of finals; \<open>None\<close> means that the case is not ready.\<close>

definition cancel_cur :: "llm_stage \<Rightarrow> tts_stage \<Rightarrow> turn_env \<Rightarrow> instant \<Rightarrow> instant \<Rightarrow> run_state \<Rightarrow> run_state option" where
  "cancel_cur llm tts te t0 t1 s =
     (case rn_cur s of None \<Rightarrow> Some s | Some u \<Rightarrow> cancelTurn llm tts te t0 t1 u s)"

fun run_step :: "llm_stage \<Rightarrow> tts_stage \<Rightarrow> nat \<Rightarrow> run_event \<Rightarrow> run_state \<Rightarrow> run_state option" where
  "run_step llm tts cap (EvCtxDone te t0 t1) s =
     (if rn_returned s \<noteq> None then None
      else map_option (\<lambda>s1. s1\<lparr>rn_returned := Some ReturnCtx\<rparr>) (cancel_cur llm tts te t0 t1 s))"
| "run_step llm tts cap (EvAsrErr e te t0 t1) s =
     (if rn_returned s \<noteq> None then None
      else map_option (\<lambda>s1. s1\<lparr>rn_returned := Some (ReturnAsr e)\<rparr>) (cancel_cur llm tts te t0 t1 s))"
| "run_step llm tts cap (EvBargeIn te t0 t1) s =
     (if rn_returned s \<noteq> None then None
      else case pl_bargeIn (rn_pipe s) of
        [] \<Rightarrow> None
      | _ # bs \<Rightarrow> cancel_cur llm tts te t0 t1 (s\<lparr>rn_pipe := (rn_pipe s)\<lparr>pl_bargeIn := bs\<rparr>\<rparr>))"
| "run_step llm tts cap EvFinal s =
     (if rn_returned s \<noteq> None \<or> rn_cur s \<noteq> None then None
      else case rn_finals s of
        [] \<Rightarrow> None
      | u # us \<Rightarrow>
          let s1 = s\<lparr>rn_finals := us\<rparr> in
          if ut_text u = [] then Some s1 else Some (startTurn u s1))"
| "run_step llm tts cap (EvTurnDone te) s =
     (if rn_returned s \<noteq> None then None
      else case rn_cur s of None \<Rightarrow> None | Some u \<Rightarrow> finishTurn llm tts te u s)"
| "run_step llm tts cap (EnvPost u) s =
     (case chan_offer cap u (rn_finals s) of (q, ok) \<Rightarrow> if ok then Some (s\<lparr>rn_finals := q\<rparr>) else None)"
| "run_step llm tts cap EnvBargeIn s = Some (s\<lparr>rn_pipe := BargeIn (rn_pipe s)\<rparr>)"

fun run_steps :: "llm_stage \<Rightarrow> tts_stage \<Rightarrow> nat \<Rightarrow> run_event list \<Rightarrow> run_state \<Rightarrow> run_state option" where
  "run_steps llm tts cap [] s = Some s"
| "run_steps llm tts cap (ev # evs) s = Option.bind (run_step llm tts cap ev s) (run_steps llm tts cap evs)"

section \<open>What the log tells\<close>

definition log_starts :: "pipe_log list \<Rightarrow> utterance list" where
  "log_starts l = concat (map (\<lambda>x. case x of LogTurnStart u \<Rightarrow> [u] | _ \<Rightarrow> []) l)"

definition log_exchanges :: "pipe_log list \<Rightarrow> (runes \<times> runes) list" where
  "log_exchanges l = concat (map (\<lambda>x. case x of LogStats s \<Rightarrow> [(ts_Prompt s, ts_Reply s)] | _ \<Rightarrow> []) l)"

text \<open>The calls of \<open>OnTurnStart\<close> and \<open>OnTurnEnd\<close>, as the controller receives them.\<close>

definition log_turn_ops :: "pipe_log list \<Rightarrow> dialogue_op list" where
  "log_turn_ops l = concat (map (\<lambda>x. case x of LogTurnStart u \<Rightarrow> [TurnStart] | LogTurnEnd b \<Rightarrow> [TurnEnd] | _ \<Rightarrow> []) l)"

lemma log_simps [simp]:
  "log_starts (l @ l') = log_starts l @ log_starts l'" "log_starts [] = []"
  "log_starts [LogTurnStart u] = [u]" "log_starts [LogStageErr e] = []"
  "log_starts [LogStats st, LogTurnEnd b] = []"
  "log_exchanges (l @ l') = log_exchanges l @ log_exchanges l'" "log_exchanges [] = []"
  "log_exchanges [LogTurnStart u] = []" "log_exchanges [LogStageErr e] = []"
  "log_exchanges [LogStats st, LogTurnEnd b] = [(ts_Prompt st, ts_Reply st)]"
  "log_turn_ops (l @ l') = log_turn_ops l @ log_turn_ops l'" "log_turn_ops [] = []"
  "log_turn_ops [LogTurnStart u] = [TurnStart]" "log_turn_ops [LogStageErr e] = []"
  "log_turn_ops [LogStats st, LogTurnEnd b] = [TurnEnd]"
  by (simp_all add: log_starts_def log_exchanges_def log_turn_ops_def)

definition log_err :: "string option \<Rightarrow> pipe_log list" where
  "log_err e = (case e of None \<Rightarrow> [] | Some m \<Rightarrow> [LogStageErr m])"

lemma log_err_simps [simp]: "log_starts (log_err e) = []" "log_exchanges (log_err e) = []" "log_turn_ops (log_err e) = []"
  by (cases e; simp add: log_err_def)+

text \<open>Starts and ends alternate; the flag is whether a turn is active after them.\<close>

fun alternation :: "bool \<Rightarrow> dialogue_op list \<Rightarrow> bool option" where
  "alternation b [] = Some b"
| "alternation b (Uplink f # ops) = alternation b ops"
| "alternation b (TurnStart # ops) = (if b then None else alternation True ops)"
| "alternation b (TurnEnd # ops) = (if b then alternation False ops else None)"

lemma alternation_append: "alternation b (xs @ ys) = Option.bind (alternation b xs) (\<lambda>c. alternation c ys)"
  by (induction b xs rule: alternation.induct) auto

lemma alternation_iff: "turns_alternate b ops \<longleftrightarrow> alternation b ops \<noteq> None"
  by (induction b ops rule: alternation.induct) auto

definition spoken :: "utterance list \<Rightarrow> utterance list" where
  "spoken us = filter (\<lambda>u. ut_text u \<noteq> []) us"

definition posts :: "run_event list \<Rightarrow> utterance list" where
  "posts evs = concat (map (\<lambda>e. case e of EnvPost u \<Rightarrow> [u] | _ \<Rightarrow> []) evs)"

definition run_inv :: "utterance list \<Rightarrow> run_state \<Rightarrow> bool" where
  "run_inv posted s \<longleftrightarrow> edge_inv (pl_egress (rn_pipe s)) \<and>
     log_starts (rn_log s) @ spoken (rn_finals s) = spoken posted \<and>
     alternation False (log_turn_ops (rn_log s)) = Some (rn_cur s \<noteq> None) \<and>
     map ut_text (log_starts (rn_log s)) =
       map fst (log_exchanges (rn_log s)) @ (case rn_cur s of None \<Rightarrow> [] | Some u \<Rightarrow> [ut_text u]) \<and>
     pl_history (rn_pipe s) = remembered (log_exchanges (rn_log s)) \<and>
     (rn_returned s \<noteq> None \<longrightarrow> rn_cur s = None)"

section \<open>Steps keep the books\<close>

lemma egress_pump_total:
  "edge_inv e \<Longrightarrow> \<exists>s' e' got. egress_pump clock takes i s e fs = Some (s', e', got) \<and> edge_inv e'"
proof (induction fs arbitrary: i s e)
  case (Cons f fs)
  obtain e1 got1 where e1: "take_frames (takes i) e = Some (e1, got1)" "edge_inv e1"
    using take_frames_ok [OF Cons.prems] by blast
  obtain e2 ok where e2: "edge_push e1 f = Some (e2, ok)" "edge_inv e2" using edge_push_ok [OF e1(2)] by blast
  let ?s2 = "(if ts_TTSFirstFrameAt s = zero_time then s\<lparr>ts_TTSFirstFrameAt := clock i\<rparr> else s)
    \<lparr>ts_TTSLastFrameAt := clock i\<rparr>"
  from Cons.IH [OF e2(2), of "i + 1" ?s2] e1 e2 show ?case by (auto simp: Let_def)
qed simp

lemma turn_chain_total:
  assumes "edge_inv egress"
  shows "\<exists>h e' seen got. turn_chain llm tts te history u egress = Some (h, e', seen, got) \<and> edge_inv e' \<and>
    ts_Prompt (th_stats h) = ut_text u"
proof -
  let ?turn = "\<lparr>tn_Prompt = ut_text u, tn_History = history\<rparr>"
  obtain toks r where llm: "llm (te_llm te) ?turn = (toks, r)" by force
  obtain s1 seen sent where fwd: "forward (te_fwd_clock te) 0 (te_fwd te) (init_stats u (te_start te)) toks = (s1, seen, sent)"
    by (metis prod_cases3)
  obtain frames r' where tts: "tts (te_tts te) sent = (frames, r')" by force
  obtain s2 e' got where pump: "egress_pump (te_pump_clock te) (te_takes te) 0 s1 egress frames = Some (s2, e', got)" "edge_inv e'"
    using egress_pump_total [OF assms] by blast
  have "ts_Prompt s2 = ut_text u"
    using egress_pump_keeps [OF pump(1)] forward_keeps [OF fwd] by (simp add: init_stats_def)
  with pump show ?thesis by (auto simp: turn_chain_def Let_def llm fwd tts)
qed

lemma end_turn_inv:
  assumes "run_inv posted s" "rn_cur s = Some u" "edge_inv e" "ts_Prompt (th_stats h) = ut_text u"
  shows "run_inv posted (end_turn c h (s\<lparr>rn_pipe := (rn_pipe s)\<lparr>pl_egress := e\<rparr>, rn_log := rn_log s @ log_err err\<rparr>))"
  using assms by (simp add: run_inv_def end_turn_def Let_def publish_def alternation_append appendHistory_remembered)

lemma finishTurn_inv:
  assumes "run_inv posted s" "rn_cur s = Some u"
  shows "\<exists>s'. finishTurn llm tts te u s = Some s' \<and> run_inv posted s' \<and> rn_cur s' = None \<and> rn_returned s' = rn_returned s"
proof -
  have "edge_inv (pl_egress (rn_pipe s))" using assms(1) by (simp add: run_inv_def)
  from turn_chain_total [OF this, of llm tts te "pl_history (rn_pipe s)" u] obtain h e seen got where
    h: "turn_chain llm tts te (pl_history (rn_pipe s)) u (pl_egress (rn_pipe s)) = Some (h, e, seen, got)"
    "edge_inv e" "ts_Prompt (th_stats h) = ut_text u" by blast
  from end_turn_inv [OF assms h(2,3), of False "th_err h"] h(1) show ?thesis
    by (simp add: finishTurn_def log_err_def [symmetric]) (simp add: end_turn_def Let_def)
qed

lemma cancelTurn_inv:
  assumes "run_inv posted s" "rn_cur s = Some u"
  shows "\<exists>s'. cancelTurn llm tts te t0 t1 u s = Some s' \<and> run_inv posted s' \<and> rn_cur s' = None \<and>
    rn_returned s' = rn_returned s \<and> edge_frames (pl_egress (rn_pipe s')) = [] \<and>
    (\<exists>st. pl_last (rn_pipe s') = Some st \<and> ts_Cancelled st \<and> rn_log s' = rn_log s @ [LogStats st, LogTurnEnd True])"
proof -
  have "edge_inv (pl_egress (rn_pipe s))" using assms(1) by (simp add: run_inv_def)
  from turn_chain_total [OF this, of llm tts te "pl_history (rn_pipe s)" u] obtain h e seen got where
    h: "turn_chain llm tts te (pl_history (rn_pipe s)) u (pl_egress (rn_pipe s)) = Some (h, e, seen, got)"
    "edge_inv e" "ts_Prompt (th_stats h) = ut_text u" by blast
  from edge_drain_ok [OF h(2)] obtain e' where e': "edge_drain e = Some (e', length (edge_frames e))"
    "edge_inv e'" "edge_frames e' = []" by blast
  let ?h = "h\<lparr>th_stats := (th_stats h)\<lparr>ts_Cancelled := True, ts_FlushedFrames := length (edge_frames e),
      ts_BargeInLatency := time_sub t1 t0\<rparr>\<rparr>"
  have "ts_Prompt (th_stats ?h) = ut_text u" using h(3) by simp
  from end_turn_inv [OF assms e'(2) this, of True None] h(1) e' show ?thesis
    by (simp add: cancelTurn_def log_err_def) (simp add: end_turn_def Let_def publish_def)
qed

lemma cancel_cur_inv:
  assumes "run_inv posted s"
  shows "\<exists>s'. cancel_cur llm tts te t0 t1 s = Some s' \<and> run_inv posted s' \<and> rn_cur s' = None \<and> rn_returned s' = rn_returned s"
proof (cases "rn_cur s")
  case None
  with assms show ?thesis by (simp add: cancel_cur_def)
next
  case (Some u)
  from cancelTurn_inv [OF assms Some, of llm tts te t0 t1] show ?thesis by (auto simp: cancel_cur_def Some)
qed

lemma run_inv_cong:
  "run_inv posted s \<Longrightarrow> pl_egress p = pl_egress (rn_pipe s) \<Longrightarrow> pl_history p = pl_history (rn_pipe s) \<Longrightarrow>
     run_inv posted (s\<lparr>rn_pipe := p\<rparr>)"
  by (simp add: run_inv_def)

lemma run_step_inv:
  assumes inv: "run_inv posted s" and step: "run_step llm tts cap ev s = Some s'"
  shows "run_inv (posted @ posts [ev]) s'"
proof (cases ev)
  case (EvCtxDone te t0 t1)
  from cancel_cur_inv [OF inv, of llm tts te t0 t1] EvCtxDone step show ?thesis
    by (auto simp: posts_def run_inv_def split: if_splits)
next
  case (EvAsrErr e te t0 t1)
  from cancel_cur_inv [OF inv, of llm tts te t0 t1] EvAsrErr step show ?thesis
    by (auto simp: posts_def run_inv_def split: if_splits)
next
  case (EvBargeIn te t0 t1)
  then obtain b bs where b: "pl_bargeIn (rn_pipe s) = b # bs" "rn_returned s = None"
    using step by (auto split: if_splits list.splits)
  let ?s = "s\<lparr>rn_pipe := (rn_pipe s)\<lparr>pl_bargeIn := bs\<rparr>\<rparr>"
  have "run_inv posted ?s" using inv by (intro run_inv_cong) simp_all
  from cancel_cur_inv [OF this, of llm tts te t0 t1] EvBargeIn step b show ?thesis by (auto simp: posts_def)
next
  case EvFinal
  then obtain u us where u: "rn_finals s = u # us" "rn_cur s = None" "rn_returned s = None"
    using step by (auto split: if_splits list.splits)
  with inv step EvFinal show ?thesis
    by (auto simp: run_inv_def startTurn_def spoken_def posts_def alternation_append split: if_splits)
next
  case (EvTurnDone te)
  then obtain u where "rn_cur s = Some u" using step by (auto split: if_splits option.splits)
  from finishTurn_inv [OF inv this, of llm tts te] step EvTurnDone \<open>rn_cur s = Some u\<close> show ?thesis
    by (auto simp: posts_def split: if_splits)
next
  case (EnvPost u)
  with step have "s' = s\<lparr>rn_finals := rn_finals s @ [u]\<rparr>" by (auto simp: chan_offer_def split: if_splits)
  with inv EnvPost show ?thesis by (simp add: run_inv_def spoken_def posts_def flip: append_assoc)
next
  case EnvBargeIn
  with step have "s' = s\<lparr>rn_pipe := BargeIn (rn_pipe s)\<rparr>" by simp
  moreover have "run_inv posted (s\<lparr>rn_pipe := BargeIn (rn_pipe s)\<rparr>)"
    using inv by (intro run_inv_cong) (simp_all add: BargeIn_def)
  ultimately show ?thesis using EnvBargeIn by (simp add: posts_def)
qed

lemma posts_Cons: "posts (ev # evs) = posts [ev] @ posts evs"
  by (simp add: posts_def)

lemma run_steps_inv:
  "run_inv posted s \<Longrightarrow> run_steps llm tts cap evs s = Some s' \<Longrightarrow> run_inv (posted @ posts evs) s'"
proof (induction evs arbitrary: posted s)
  case Nil
  then show ?case by (simp add: posts_def)
next
  case (Cons ev evs)
  then obtain s1 where s1: "run_step llm tts cap ev s = Some s1" "run_steps llm tts cap evs s1 = Some s'"
    by (auto simp: bind_eq_Some_conv)
  from Cons.IH [OF run_step_inv [OF Cons.prems(1) s1(1)] s1(2)] show ?case
    by (simp only: append_assoc posts_Cons [of ev evs])
qed

lemma run_start_inv: "edge_inv (pl_egress p) \<Longrightarrow> pl_history p = [] \<Longrightarrow> run_inv [] (run_start p)"
  by (simp add: run_inv_def run_start_def spoken_def remembered_Nil)

text \<open>
  C5: Every utterance is answered in order and none twice: over every sequence of choices, with any
  models, the turns started so far and the utterances still queued are exactly the non-empty
  utterances posted, in order; at most one turn runs at a time, every turn but a running one has ended
  with its own prompt, its start and its end were reported alternately, and once \<open>Run\<close> has returned
  no turn is left running.
\<close>

theorem orchestrator_turns:
  assumes "edge_inv (pl_egress p)" "pl_history p = []" "run_steps llm tts cap evs (run_start p) = Some s"
  shows "log_starts (rn_log s) @ spoken (rn_finals s) = spoken (posts evs) \<and>
    map ut_text (log_starts (rn_log s)) =
      map fst (log_exchanges (rn_log s)) @ (case rn_cur s of None \<Rightarrow> [] | Some u \<Rightarrow> [ut_text u]) \<and>
    turns_alternate False (log_turn_ops (rn_log s)) \<and>
    (rn_returned s = None \<or> rn_cur s = None)"
  using run_steps_inv [OF run_start_inv [OF assms(1,2)] assms(3)] by (auto simp: run_inv_def alternation_iff)

text \<open>
  The conversation the model is shown is the recent past, whole and in order: after any run the
  memory consists of the last eight exchanges, each the prompt of a turn that ended followed by what
  was said in reply, whether the turn was cancelled or not; it never exceeds sixteen messages.
\<close>

theorem orchestrator_history:
  assumes "edge_inv (pl_egress p)" "pl_history p = []" "run_steps llm tts cap evs (run_start p) = Some s"
  shows "pl_history (rn_pipe s) = remembered (log_exchanges (rn_log s)) \<and>
    length (pl_history (rn_pipe s)) = min maxHistory (2 * length (log_exchanges (rn_log s)))"
proof -
  have h: "pl_history (rn_pipe s) = remembered (log_exchanges (rn_log s))"
    using run_steps_inv [OF run_start_inv [OF assms(1,2)] assms(3)] by (simp add: run_inv_def)
  show ?thesis unfolding h by (simp add: remembered_def maxHistory_def)
qed

text \<open>
  C19: A barge-in silences the agent: when a turn is running and the signal is set, taking it returns,
  ends the turn as cancelled, and leaves no frame of it in the egress ring; the memory keeps what had
  been said.
\<close>

theorem barge_in_flushes:
  assumes "edge_inv (pl_egress p)" "pl_history p = []" "run_steps llm tts cap evs (run_start p) = Some s"
    and "rn_returned s = None" "rn_cur s = Some u" "pl_bargeIn (rn_pipe s) \<noteq> []"
  shows "\<exists>s' st. run_step llm tts cap (EvBargeIn te t0 t1) s = Some s' \<and> rn_cur s' = None \<and>
    edge_frames (pl_egress (rn_pipe s')) = [] \<and> LastTurn (rn_pipe s') = Some st \<and> ts_Cancelled st \<and>
    rn_log s' = rn_log s @ [LogStats st, LogTurnEnd True]"
proof -
  obtain b bs where b: "pl_bargeIn (rn_pipe s) = b # bs" using assms(6) by (cases "pl_bargeIn (rn_pipe s)") auto
  let ?s = "s\<lparr>rn_pipe := (rn_pipe s)\<lparr>pl_bargeIn := bs\<rparr>\<rparr>"
  have "run_inv ([] @ posts evs) ?s"
    using run_steps_inv [OF run_start_inv [OF assms(1,2)] assms(3)] by (intro run_inv_cong) simp_all
  from cancelTurn_inv [OF this, of u llm tts te t0 t1] assms(4,5) b show ?thesis
    by (auto simp: cancel_cur_def LastTurn_def)
qed

text \<open>A concrete run for the witnesses: the recogniser posts an empty utterance and a question; the
  answer is cut off by a barge-in.\<close>

definition demo_env :: turn_env where
  "demo_env = \<lparr>te_llm = None, te_fwd = None, te_tts = None, te_start = 1, te_fwd_clock = int, te_pump_clock = int,
     te_takes = (\<lambda>_. 0), te_end = 9, te_llm_first = True\<rparr>"

definition demo_events :: "run_event list" where
  "demo_events = [EnvPost \<lparr>ut_text = [], ut_endAt = 0, ut_finalAt = 0\<rparr>, EnvPost \<lparr>ut_text = [63], ut_endAt = 0, ut_finalAt = 1\<rparr>,
     EvFinal, EvFinal, EnvBargeIn]"

definition demo_llm :: llm_stage where
  "demo_llm = mock_llm_stage \<lparr>mllm_Reply = [104, 105]\<rparr>"

definition demo_tts :: tts_stage where
  "demo_tts b toks = ([], StageOk)"

lemma demo_pipeline: "\<exists>p :: Pipeline. edge_inv (pl_egress p) \<and> pl_history p = [] \<and> pl_bargeIn p = []"
proof -
  obtain e where "newEdge 2 DropOldest = Inr e" using new_edge_2 by blast
  then have "edge_inv e" using edge_new_ok(1) [of 2 DropOldest e] by simp
  then show ?thesis
    by (intro exI [of _ "\<lparr>pl_ingress = e, pl_egress = e, pl_ingressPool = None, pl_endUtt = [], pl_bargeIn = [],
           pl_history = [], pl_last = None\<rparr>"]) simp
qed

definition demo_state :: "Pipeline \<Rightarrow> run_state" where
  "demo_state p = \<lparr>rn_pipe = p\<lparr>pl_bargeIn := [()]\<rparr>, rn_finals = [], rn_cur = Some \<lparr>ut_text = [63], ut_endAt = 0, ut_finalAt = 1\<rparr>,
      rn_log = [LogTurnStart \<lparr>ut_text = [63], ut_endAt = 0, ut_finalAt = 1\<rparr>], rn_returned = None\<rparr>"

lemma demo_run:
  assumes "pl_bargeIn p = []"
  shows "run_steps demo_llm demo_tts 2 demo_events (run_start p) = Some (demo_state p)"
  using assms by (simp add: demo_events_def demo_state_def run_start_def chan_offer_def startTurn_def BargeIn_def)

theorem orchestrator_turns_witness:
  "\<exists>p s. run_steps demo_llm demo_tts 2 demo_events (run_start p) = Some s \<and> spoken (posts demo_events) = log_starts (rn_log s)"
proof -
  obtain p :: Pipeline where p: "edge_inv (pl_egress p)" "pl_history p = []" "pl_bargeIn p = []" using demo_pipeline by blast
  note run = demo_run [OF p(3)]
  have "spoken (posts demo_events) = log_starts (rn_log (demo_state p))"
    using orchestrator_turns [OF p(1,2) run] by (simp add: spoken_def demo_state_def)
  with run show ?thesis by blast
qed

theorem orchestrator_history_witness:
  "\<exists>p s. run_steps demo_llm demo_tts 2 demo_events (run_start p) = Some s \<and> pl_history (rn_pipe s) = []"
proof -
  obtain p :: Pipeline where p: "edge_inv (pl_egress p)" "pl_history p = []" "pl_bargeIn p = []" using demo_pipeline by blast
  note run = demo_run [OF p(3)]
  have "pl_history (rn_pipe (demo_state p)) = []"
    using orchestrator_history [OF p(1,2) run] p(2) by (simp add: demo_state_def remembered_Nil)
  with run show ?thesis by blast
qed

theorem barge_in_flushes_witness:
  "\<exists>p s s'. run_steps demo_llm demo_tts 2 demo_events (run_start p) = Some s \<and>
     run_step demo_llm demo_tts 2 (EvBargeIn demo_env 0 0) s = Some s' \<and> rn_cur s' = None \<and>
     edge_frames (pl_egress (rn_pipe s')) = []"
proof -
  obtain p :: Pipeline where p: "edge_inv (pl_egress p)" "pl_history p = []" "pl_bargeIn p = []" using demo_pipeline by blast
  note run = demo_run [OF p(3)]
  have "rn_returned (demo_state p) = None" "rn_cur (demo_state p) = Some \<lparr>ut_text = [63], ut_endAt = 0, ut_finalAt = 1\<rparr>"
    "pl_bargeIn (rn_pipe (demo_state p)) \<noteq> []" by (simp_all add: demo_state_def)
  from barge_in_flushes [OF p(1,2) run this, of demo_env 0 0] run show ?thesis by blast
qed

end
