(* ===== verification/Metrics.thy ===== *)
theory Metrics
  imports Turn
begin

text \<open>
  The instruments of \<open>internal/metrics\<close>: counters and histograms (\<open>metrics.go\<close>), the hub of the
  dashboard (\<open>hub.go\<close>) and the recording of a turn (\<open>m.go\<close>). Counts are 64-bit words, seconds are
  reals (no NaN). The text format, JSON and HTTP are left out.
\<close>

section \<open>Histograms\<close>

record Histogram =
  hg_bounds :: "real list"
  hg_counts :: "u64 list"
  hg_inf :: u64
  hg_sum :: real
  hg_count :: u64

definition NewHistogram :: "real list \<Rightarrow> Histogram" where
  "NewHistogram bounds = \<lparr>hg_bounds = bounds, hg_counts = replicate (length bounds) 0, hg_inf = 0, hg_sum = 0, hg_count = 0\<rparr>"

text \<open>\<open>sort.SearchFloat64s\<close>: binary search for the first index whose bound is at least \<open>x\<close>.\<close>

function search_floats :: "real list \<Rightarrow> real \<Rightarrow> nat \<Rightarrow> nat \<Rightarrow> nat" where
  "search_floats bs x i j =
     (if i < j then
        let h = (i + j) div 2 in
        if \<not> bs ! h \<ge> x then search_floats bs x (h + 1) j else search_floats bs x i h
      else i)"
  by auto
termination by (relation "measure (\<lambda>(bs, x, i, j). j - i)") auto

declare search_floats.simps [simp del]

definition SearchFloat64s :: "real list \<Rightarrow> real \<Rightarrow> nat" where
  "SearchFloat64s bs x = search_floats bs x 0 (length bs)"

definition Histogram_Observe :: "Histogram \<Rightarrow> real \<Rightarrow> Histogram" where
  "Histogram_Observe h x =
     (if x < 0 then h
      else let i = SearchFloat64s (hg_bounds h) x;
               h1 = (if i < length (hg_bounds h) then h\<lparr>hg_counts := (hg_counts h)[i := hg_counts h ! i + 1]\<rparr>
                     else h\<lparr>hg_inf := hg_inf h + 1\<rparr>) in
        h1\<lparr>hg_count := hg_count h1 + 1, hg_sum := hg_sum h1 + x\<rparr>)"

definition Histogram_Count :: "Histogram \<Rightarrow> u64" where
  "Histogram_Count h = hg_count h"

text \<open>What a scrape shows: the cumulative buckets, \<open>+Inf\<close>, the sum and the count.\<close>

fun cumulate :: "u64 \<Rightarrow> u64 list \<Rightarrow> u64 list" where
  "cumulate c [] = []"
| "cumulate c (n # ns) = (c + n) # cumulate (c + n) ns"

record scrape_view =
  sv_buckets :: "(real \<times> u64) list"
  sv_inf :: u64
  sv_sum :: real
  sv_count :: u64

definition Histogram_render :: "Histogram \<Rightarrow> scrape_view" where
  "Histogram_render h =
     (let cum = cumulate 0 (hg_counts h) in
      \<lparr>sv_buckets = zip (hg_bounds h) cum, sv_inf = (if cum = [] then 0 else last cum) + hg_inf h,
       sv_sum = hg_sum h, sv_count = hg_count h\<rparr>)"

definition observe_all :: "Histogram \<Rightarrow> real list \<Rightarrow> Histogram" where
  "observe_all h xs = foldl Histogram_Observe h xs"

lemma search_floats_spec:
  assumes "sorted bs" "i \<le> j" "j \<le> length bs" "\<forall>k < i. bs ! k < x" "\<forall>k < length bs. j \<le> k \<longrightarrow> x \<le> bs ! k"
  shows "search_floats bs x i j \<le> length bs \<and> (\<forall>k < length bs. bs ! k < x \<longleftrightarrow> k < search_floats bs x i j)"
  using assms
proof (induction bs x i j rule: search_floats.induct)
  case (1 bs x i j)
  show ?case
  proof (cases "i < j")
    case False
    then have "search_floats bs x i j = i" by (subst search_floats.simps) simp
    moreover have "bs ! k < x \<longleftrightarrow> k < i" if "k < length bs" for k
      using that 1(3-7) False by (metis linorder_not_less le_antisym)
    ultimately show ?thesis using 1 False by simp
  next
    case True
    let ?h = "(i + j) div 2"
    have h: "i \<le> ?h" "?h < j" using True by auto
    show ?thesis
    proof (cases "bs ! ?h \<ge> x")
      case False
      then have e: "search_floats bs x i j = search_floats bs x (?h + 1) j"
        using True by (subst search_floats.simps) (simp add: Let_def)
      have "\<forall>k < ?h + 1. bs ! k < x"
      proof (intro allI impI)
        fix k assume "k < ?h + 1"
        then have "bs ! k \<le> bs ! ?h" using 1(3,5) h by (intro sorted_nth_mono) auto
        with False show "bs ! k < x" by simp
      qed
      with 1(1) [OF True refl] False h 1(3-7) show ?thesis unfolding e by simp
    next
      case ge: True
      then have e: "search_floats bs x i j = search_floats bs x i ?h"
        using True by (subst search_floats.simps) (simp add: Let_def)
      have "\<forall>k < length bs. ?h \<le> k \<longrightarrow> x \<le> bs ! k"
      proof (intro allI impI)
        fix k assume "k < length bs" "?h \<le> k"
        then have "bs ! ?h \<le> bs ! k" using 1(3) by (intro sorted_nth_mono) auto
        with ge show "x \<le> bs ! k" by simp
      qed
      with 1(2) [OF True refl] ge h 1(3-7) show ?thesis unfolding e by simp
    qed
  qed
qed

lemma SearchFloat64s_spec:
  assumes "sorted bs"
  shows "SearchFloat64s bs x \<le> length bs" "k < length bs \<Longrightarrow> bs ! k < x \<longleftrightarrow> k < SearchFloat64s bs x"
  using search_floats_spec [OF assms, of 0 "length bs" x] by (auto simp: SearchFloat64s_def)

text \<open>The bucket an observation falls into, and how many fell into each.\<close>

definition hist_inv :: "real list \<Rightarrow> real list \<Rightarrow> Histogram \<Rightarrow> bool" where
  "hist_inv bs xs h \<longleftrightarrow> hg_bounds h = bs \<and> length (hg_counts h) = length bs \<and>
     (\<forall>i < length bs. hg_counts h ! i = word_of_nat (length (filter (\<lambda>x. SearchFloat64s bs x = i) xs))) \<and>
     hg_inf h = word_of_nat (length (filter (\<lambda>x. SearchFloat64s bs x = length bs) xs)) \<and>
     hg_count h = word_of_nat (length xs) \<and> hg_sum h = sum_list xs"

lemma observe_inv:
  assumes "hist_inv bs xs h" "sorted bs"
  shows "hist_inv bs (xs @ (if x < 0 then [] else [x])) (Histogram_Observe h x)"
  using assms SearchFloat64s_spec(1) [OF assms(2), of x]
  by (auto simp: hist_inv_def Histogram_Observe_def Let_def nth_list_update)

lemma observe_all_inv:
  assumes "sorted bs"
  shows "hist_inv bs (filter (\<lambda>x. 0 \<le> x) xs) (observe_all (NewHistogram bs) xs)"
proof (induction xs rule: rev_induct)
  case Nil
  then show ?case by (simp add: observe_all_def hist_inv_def NewHistogram_def)
next
  case (snoc x xs)
  from observe_inv [OF snoc assms, of x] show ?case by (auto simp: observe_all_def not_le not_less)
qed

lemma nth_cumulate: "i < length ns \<Longrightarrow> cumulate c ns ! i = c + sum_list (take (Suc i) ns)"
proof (induction ns arbitrary: c i)
  case (Cons n ns)
  then show ?case by (cases i) (auto simp: add.assoc)
qed simp

lemma length_cumulate [simp]: "length (cumulate c ns) = length ns"
  by (induction ns arbitrary: c) auto

lemma sum_counts:
  assumes "m \<le> length ns" "\<forall>i < length ns. ns ! i = (word_of_nat (length (filter (\<lambda>x. f x = i) xs)) :: u64)"
  shows "sum_list (take m ns) = word_of_nat (length (filter (\<lambda>x. f x < m) xs))"
  using assms(1)
proof (induction m)
  case (Suc m)
  then have "sum_list (take (Suc m) ns) = word_of_nat (length (filter (\<lambda>x. f x < m) xs)) + ns ! m"
    by (simp add: take_Suc_conv_app_nth)
  also have "\<dots> = word_of_nat (length (filter (\<lambda>x. f x < m) xs) + length (filter (\<lambda>x. f x = m) xs))"
    using Suc.prems assms(2) by simp
  also have "length (filter (\<lambda>x. f x < m) xs) + length (filter (\<lambda>x. f x = m) xs) = length (filter (\<lambda>x. f x < Suc m) xs)"
    by (induction xs) auto
  finally show ?case .
qed simp

lemma cumulate_Nil_iff [simp]: "cumulate c ns = [] \<longleftrightarrow> ns = []"
  by (cases ns) auto

lemma histogram_shown:
  assumes "sorted bs"
  shows "Histogram_render (observe_all (NewHistogram bs) xs) =
    (let ys = filter (\<lambda>x. 0 \<le> x) xs in
     \<lparr>sv_buckets = map (\<lambda>b. (b, word_of_nat (length (filter (\<lambda>x. x \<le> b) ys)))) bs,
      sv_inf = word_of_nat (length ys), sv_sum = sum_list ys, sv_count = word_of_nat (length ys)\<rparr>)"
proof -
  define ys where "ys = filter (\<lambda>x. 0 \<le> x) xs"
  define h where "h = observe_all (NewHistogram bs) xs"
  have inv: "hist_inv bs ys h" using observe_all_inv [OF assms] by (simp add: ys_def h_def)
  then have h: "hg_bounds h = bs" "length (hg_counts h) = length bs" "hg_count h = word_of_nat (length ys)"
    "hg_sum h = sum_list ys" "hg_inf h = word_of_nat (length (filter (\<lambda>x. SearchFloat64s bs x = length bs) ys))"
    "\<forall>i < length (hg_counts h). hg_counts h ! i = word_of_nat (length (filter (\<lambda>x. SearchFloat64s bs x = i) ys))"
    by (simp_all add: hist_inv_def)
  note sums = sum_counts [OF _ h(6)]
  have le: "SearchFloat64s bs x < Suc i \<longleftrightarrow> x \<le> bs ! i" if "i < length bs" for x i
    using SearchFloat64s_spec(2) [OF assms that, of x] by (auto simp: not_le)
  have "zip bs (cumulate 0 (hg_counts h)) = map (\<lambda>b. (b, word_of_nat (length (filter (\<lambda>x. x \<le> b) ys)))) bs"
    by (rule nth_equalityI) (simp_all add: h(2) nth_cumulate sums le)
  moreover have "(if cumulate 0 (hg_counts h) = [] then 0 else last (cumulate 0 (hg_counts h))) + hg_inf h = word_of_nat (length ys)"
  proof -
    have "(if cumulate 0 (hg_counts h) = [] then 0 else last (cumulate 0 (hg_counts h))) = sum_list (take (length bs) (hg_counts h))"
      by (cases "hg_counts h" rule: rev_cases) (auto simp: last_conv_nth nth_cumulate h(2) [symmetric] simp flip: length_greater_0_conv)
    also have "\<dots> = word_of_nat (length (filter (\<lambda>x. SearchFloat64s bs x < length bs) ys))"
      by (rule sums) (simp add: h(2))
    finally have "(if cumulate 0 (hg_counts h) = [] then 0 else last (cumulate 0 (hg_counts h))) + hg_inf h =
        word_of_nat (length (filter (\<lambda>x. SearchFloat64s bs x < length bs) ys) +
          length (filter (\<lambda>x. SearchFloat64s bs x = length bs) ys))" by (simp add: h(5))
    also have "length (filter (\<lambda>x. SearchFloat64s bs x < length bs) ys) +
        length (filter (\<lambda>x. SearchFloat64s bs x = length bs) ys) = length ys"
      using SearchFloat64s_spec(1) [OF assms] by (induction ys) (auto simp: le_less)
    finally show ?thesis .
  qed
  ultimately show ?thesis
    unfolding h_def [symmetric] ys_def [symmetric] by (simp add: Histogram_render_def Let_def h(1,3,4))
qed

text \<open>
  The exposition is right: after any observations on ascending bounds, the bucket of a bound shows
  how many non-negative observations did not exceed it (modulo \<open>2^64\<close>), the \<open>+Inf\<close> bucket and the count
  show how many there were, and the sum is theirs; negative values leave no trace.
\<close>

theorem histogram_cumulative:
  assumes "sorted bs"
  shows "Histogram_render (observe_all (NewHistogram bs) xs) =
    (let ys = filter (\<lambda>x. 0 \<le> x) xs in
     \<lparr>sv_buckets = map (\<lambda>b. (b, word_of_nat (length (filter (\<lambda>x. x \<le> b) ys)))) bs,
      sv_inf = word_of_nat (length ys), sv_sum = sum_list ys, sv_count = word_of_nat (length ys)\<rparr>)"
  using assms by (rule histogram_shown)

theorem histogram_cumulative_witness:
  "sv_buckets (Histogram_render (observe_all (NewHistogram [1, 2]) [1 / 2, 2, - 3, 5])) = [(1, 1), (2, 2)] \<and>
   sv_inf (Histogram_render (observe_all (NewHistogram [1, 2]) [1 / 2, 2, - 3, 5])) = 3"
  using histogram_cumulative [of "[1, 2]" "[1 / 2, 2, - 3, 5]"] by simp

section \<open>Hub\<close>

text \<open>Subscribers are numbered; each has a channel of capacity 64.\<close>

record 'b Hub =
  hub_subs :: "nat \<Rightarrow> 'b list option"
  hub_hist :: "'b list"

definition hubHistory :: nat where "hubHistory = 50"
definition subCap :: nat where "subCap = 64"

definition NewHub :: "'b Hub" where
  "NewHub = \<lparr>hub_subs = (\<lambda>_. None), hub_hist = []\<rparr>"

definition Hub_Publish :: "'b \<Rightarrow> 'b Hub \<Rightarrow> 'b Hub" where
  "Hub_Publish b h =
     (let hist = hub_hist h @ [b];
          hist1 = (if length hist > hubHistory then drop (length hist - hubHistory) hist else hist) in
      h\<lparr>hub_hist := hist1, hub_subs := (\<lambda>c. map_option (\<lambda>q. fst (chan_offer subCap b q)) (hub_subs h c))\<rparr>)"

text \<open>Blocking sends into the new channel; \<open>None\<close> would be a send that blocks for ever under the lock.\<close>

fun send_all :: "nat \<Rightarrow> 'b list \<Rightarrow> 'b list \<Rightarrow> 'b list option" where
  "send_all cap q [] = Some q"
| "send_all cap q (b # bs) = (if length q < cap then send_all cap (q @ [b]) bs else None)"

definition Hub_subscribe :: "nat \<Rightarrow> 'b Hub \<Rightarrow> 'b Hub option" where
  "Hub_subscribe c h = map_option (\<lambda>q. h\<lparr>hub_subs := (hub_subs h)(c \<mapsto> q)\<rparr>) (send_all subCap [] (hub_hist h))"

definition Hub_unsubscribe :: "nat \<Rightarrow> 'b Hub \<Rightarrow> 'b Hub" where
  "Hub_unsubscribe c h = h\<lparr>hub_subs := (hub_subs h)(c := None)\<rparr>"

text \<open>The dashboard's side: take one record.\<close>

definition Hub_receive :: "nat \<Rightarrow> 'b Hub \<Rightarrow> 'b Hub" where
  "Hub_receive c h = h\<lparr>hub_subs := (hub_subs h)(c := map_option tl (hub_subs h c))\<rparr>"

datatype 'b hub_op = HubPublish 'b | HubSubscribe nat | HubUnsubscribe nat | HubReceive nat

fun hub_run :: "'b hub_op list \<Rightarrow> 'b Hub \<Rightarrow> 'b Hub option" where
  "hub_run [] h = Some h"
| "hub_run (HubPublish b # ops) h = hub_run ops (Hub_Publish b h)"
| "hub_run (HubSubscribe c # ops) h = Option.bind (Hub_subscribe c h) (hub_run ops)"
| "hub_run (HubUnsubscribe c # ops) h = hub_run ops (Hub_unsubscribe c h)"
| "hub_run (HubReceive c # ops) h = hub_run ops (Hub_receive c h)"

fun published_to :: "'b hub_op list \<Rightarrow> 'b list" where
  "published_to [] = []"
| "published_to (HubPublish b # ops) = b # published_to ops"
| "published_to (_ # ops) = published_to ops"

lemma send_all_room: "length q + length bs \<le> cap \<Longrightarrow> send_all cap q bs = Some (q @ bs)"
  by (induction bs arbitrary: q) auto

definition last_records :: "'b list \<Rightarrow> 'b list" where
  "last_records bs = drop (length bs - hubHistory) bs"

lemma publish_history: "hub_hist h = last_records bs \<Longrightarrow> hub_hist (Hub_Publish b h) = last_records (bs @ [b])"
  by (cases "length bs < hubHistory") (auto simp: Hub_Publish_def last_records_def Let_def Suc_diff_le)

text \<open>
  The hub never blocks a turn: over any publications, subscriptions, departures and receptions every
  call returns, although a subscription sends the whole history into its channel under the lock; the
  history is always the last fifty records published, in order, and is what a new dashboard sees first.
\<close>

theorem hub_never_blocks:
  "\<exists>h. hub_run ops NewHub = Some h \<and> hub_hist h = last_records (published_to ops) \<and>
     Hub_subscribe c h = Some (h\<lparr>hub_subs := (hub_subs h)(c \<mapsto> hub_hist h)\<rparr>)"
proof -
  have sub: "Hub_subscribe c h = Some (h\<lparr>hub_subs := (hub_subs h)(c \<mapsto> hub_hist h)\<rparr>)"
    if "hub_hist h = last_records bs" for c and h :: "'b Hub" and bs
    using that send_all_room [of "[]" "hub_hist h" subCap]
    by (simp add: Hub_subscribe_def last_records_def subCap_def hubHistory_def)
  have "hub_hist h = last_records bs \<Longrightarrow>
      \<exists>h'. hub_run ops h = Some h' \<and> hub_hist h' = last_records (bs @ published_to ops)" for h bs
  proof (induction ops arbitrary: h bs)
    case (Cons op ops)
    show ?case
    proof (cases op)
      case (HubPublish b)
      with Cons.IH [OF publish_history [OF Cons.prems, of b]] show ?thesis by simp
    next
      case (HubSubscribe k)
      with Cons sub [OF Cons.prems, of k] show ?thesis by simp
    qed (use Cons in \<open>simp_all add: Hub_unsubscribe_def Hub_receive_def\<close>)
  qed simp
  from this [of NewHub "[]"] obtain h where h: "hub_run ops NewHub = Some h" "hub_hist h = last_records (published_to ops)"
    by (auto simp: NewHub_def last_records_def)
  with sub show ?thesis by blast
qed

section \<open>Recording a turn\<close>

text \<open>\<open>rec_Time\<close> is the instant whose wall-clock text the record carries.\<close>

record TurnRecord =
  rec_Session :: string
  rec_Time :: instant
  rec_Prompt :: runes
  rec_Reply :: runes
  rec_Cancelled :: bool
  rec_WallMs :: real
  rec_ASRFinalMs :: real
  rec_LLMStartMs :: real
  rec_LLMFirstTokenMs :: real
  rec_LLMLastTokenMs :: real
  rec_TTSStartMs :: real
  rec_TTSFirstFrameMs :: real
  rec_TTSLastFrameMs :: real
  rec_FirstResponseMs :: real
  rec_KernelMs :: real
  rec_BargeInMs :: real
  rec_SerialMs :: real

record M =
  m_hub :: "TurnRecord Hub"
  m_TurnsCompleted :: u64
  m_TurnsCancelled :: u64
  m_FirstResponse :: Histogram
  m_KernelOverhead :: Histogram
  m_StageASRFinal :: Histogram
  m_StageQueueWait :: Histogram
  m_StageLLMFirst :: Histogram
  m_StageTTSFirst :: Histogram
  m_BargeInCancel :: Histogram
  m_AccIngressDropped :: u64
  m_AccEgressDropped :: u64
  m_AccDupFrames :: u64
  m_AccStaleFrames :: u64
  m_AccSubtitleDrops :: u64
  m_AccIllegalEvents :: u64

definition latencyBuckets :: "real list" where
  "latencyBuckets = [5 / 1000, 1 / 100, 25 / 1000, 5 / 100, 1 / 10, 2 / 10, 5 / 10, 1, 2, 5]"

definition cancelBuckets :: "real list" where
  "cancelBuckets = [1 / 1000, 2 / 1000, 5 / 1000, 1 / 100, 25 / 1000, 5 / 100, 1 / 10, 2 / 10, 5 / 10]"

definition M_New :: M where
  "M_New = \<lparr>m_hub = NewHub, m_TurnsCompleted = 0, m_TurnsCancelled = 0,
     m_FirstResponse = NewHistogram latencyBuckets, m_KernelOverhead = NewHistogram latencyBuckets,
     m_StageASRFinal = NewHistogram latencyBuckets, m_StageQueueWait = NewHistogram latencyBuckets,
     m_StageLLMFirst = NewHistogram latencyBuckets, m_StageTTSFirst = NewHistogram latencyBuckets,
     m_BargeInCancel = NewHistogram cancelBuckets,
     m_AccIngressDropped = 0, m_AccEgressDropped = 0, m_AccDupFrames = 0, m_AccStaleFrames = 0,
     m_AccSubtitleDrops = 0, m_AccIllegalEvents = 0\<rparr>"

definition Seconds :: "duration \<Rightarrow> real" where
  "Seconds d = real_of_int d / 1000000000"

definition ms_of :: "duration \<Rightarrow> real" where
  "ms_of d = real_of_int (d sdiv 1000) / 1000"

definition rel_ms :: "instant \<Rightarrow> instant \<Rightarrow> real" where
  "rel_ms t0 t = (if t = zero_time then - 1 else ms_of (time_sub t t0))"

definition shortID :: "string \<Rightarrow> string" where
  "shortID s = (if length s > 8 then take 8 s else s)"

definition truncate_runes :: "runes \<Rightarrow> nat \<Rightarrow> runes" where
  "truncate_runes s n = (if length s \<le> n then s else take n s @ [0x2026])"

definition toRecord :: "string \<Rightarrow> TurnStats \<Rightarrow> TurnRecord" where
  "toRecord sid ts =
     (let rel = rel_ms (ts_UtteranceEndAt ts);
          asr = rel (ts_ASRFinalAt ts); start = rel (ts_LLMStartAt ts); lst = rel (ts_LLMLastTokenAt ts);
          tstart = rel (ts_TTSStartAt ts); tlast = rel (ts_TTSLastFrameAt ts);
          serial = (if asr \<ge> 0 \<and> lst \<ge> 0 \<and> start \<ge> 0 then
                      asr + (lst - start) + (if tlast \<ge> 0 \<and> tstart \<ge> 0 then tlast - tstart else 0)
                    else 0) in
      \<lparr>rec_Session = shortID sid, rec_Time = ts_EndedAt ts, rec_Prompt = truncate_runes (ts_Prompt ts) 60,
       rec_Reply = truncate_runes (ts_Reply ts) 60, rec_Cancelled = ts_Cancelled ts,
       rec_WallMs = rel (ts_EndedAt ts), rec_ASRFinalMs = asr, rec_LLMStartMs = start,
       rec_LLMFirstTokenMs = rel (ts_LLMFirstTokenAt ts), rec_LLMLastTokenMs = lst, rec_TTSStartMs = tstart,
       rec_TTSFirstFrameMs = rel (ts_TTSFirstFrameAt ts), rec_TTSLastFrameMs = tlast,
       rec_FirstResponseMs = ms_of (FirstResponse ts), rec_KernelMs = ms_of (KernelOverhead ts),
       rec_BargeInMs = ms_of (ts_BargeInLatency ts), rec_SerialMs = serial\<rparr>)"

definition RecordTurn :: "string \<Rightarrow> TurnStats \<Rightarrow> M \<Rightarrow> M" where
  "RecordTurn sid ts m =
     (let m1 = (if ts_Cancelled ts then
                  let m0 = m\<lparr>m_TurnsCancelled := m_TurnsCancelled m + 1\<rparr> in
                  if ts_BargeInLatency ts > 0 then
                    m0\<lparr>m_BargeInCancel := Histogram_Observe (m_BargeInCancel m0) (Seconds (ts_BargeInLatency ts))\<rparr>
                  else m0
                else m\<lparr>m_TurnsCompleted := m_TurnsCompleted m + 1\<rparr>);
          m2 = (if ts_TTSFirstFrameAt ts \<noteq> zero_time then
                  m1\<lparr>m_FirstResponse := Histogram_Observe (m_FirstResponse m1) (Seconds (FirstResponse ts)),
                     m_KernelOverhead := Histogram_Observe (m_KernelOverhead m1) (Seconds (KernelOverhead ts)),
                     m_StageASRFinal := Histogram_Observe (m_StageASRFinal m1)
                       (Seconds (time_sub (ts_ASRFinalAt ts) (ts_UtteranceEndAt ts))),
                     m_StageQueueWait := Histogram_Observe (m_StageQueueWait m1)
                       (Seconds (time_sub (ts_LLMStartAt ts) (ts_ASRFinalAt ts))),
                     m_StageLLMFirst := Histogram_Observe (m_StageLLMFirst m1)
                       (Seconds (time_sub (ts_LLMFirstTokenAt ts) (ts_LLMStartAt ts))),
                     m_StageTTSFirst := Histogram_Observe (m_StageTTSFirst m1)
                       (Seconds (time_sub (ts_TTSFirstFrameAt ts) (ts_TTSStartAt ts)))\<rparr>
                else m1) in
      m2\<lparr>m_hub := Hub_Publish (toRecord sid ts) (m_hub m2)\<rparr>)"

definition record_all :: "(string \<times> TurnStats) list \<Rightarrow> M \<Rightarrow> M" where
  "record_all ts m = foldl (\<lambda>m (sid, t). RecordTurn sid t m) m ts"

lemma RecordTurn_fields:
  "m_TurnsCancelled (RecordTurn sid t m) = m_TurnsCancelled m + (if ts_Cancelled t then 1 else 0)"
  "m_TurnsCompleted (RecordTurn sid t m) = m_TurnsCompleted m + (if ts_Cancelled t then 0 else 1)"
  "m_FirstResponse (RecordTurn sid t m) =
     (if ts_TTSFirstFrameAt t = zero_time then m_FirstResponse m
      else Histogram_Observe (m_FirstResponse m) (Seconds (FirstResponse t)))"
  "m_hub (RecordTurn sid t m) = Hub_Publish (toRecord sid t) (m_hub m)"
  by (simp_all add: RecordTurn_def Let_def)

lemma sorted_latencyBuckets: "sorted latencyBuckets"
  by (simp add: latencyBuckets_def)

lemma record_all_snoc: "record_all (ts @ [(sid, t)]) m = RecordTurn sid t (record_all ts m)"
  by (simp add: record_all_def)

lemma counters_recorded:
  "m_TurnsCompleted (record_all ts M_New) = word_of_nat (length (filter (\<lambda>(_, t). \<not> ts_Cancelled t) ts))"
  "m_TurnsCancelled (record_all ts M_New) = word_of_nat (length (filter (\<lambda>(_, t). ts_Cancelled t) ts))"
  "hub_hist (m_hub (record_all ts M_New)) = last_records (map (\<lambda>(sid, t). toRecord sid t) ts)"
proof (induction ts rule: rev_induct)
  case Nil
  { case 1 show ?case by (simp add: record_all_def M_New_def) }
  { case 2 show ?case by (simp add: record_all_def M_New_def) }
  { case 3 show ?case by (simp add: record_all_def M_New_def NewHub_def last_records_def) }
next
  case (snoc x ts)
  obtain sid t where x: "x = (sid, t)" by force
  { case 1 show ?case using snoc(1) by (simp add: x record_all_snoc RecordTurn_fields) }
  { case 2 show ?case using snoc(2) by (simp add: x record_all_snoc RecordTurn_fields) }
  { case 3 show ?case unfolding x record_all_snoc RecordTurn_fields using publish_history [OF snoc(3)] by simp }
qed

lemma first_response_recorded:
  "m_FirstResponse (record_all ts M_New) = observe_all (NewHistogram latencyBuckets)
     (map (\<lambda>(_, t). Seconds (FirstResponse t)) (filter (\<lambda>(_, t). ts_TTSFirstFrameAt t \<noteq> zero_time) ts))"
proof (induction ts rule: rev_induct)
  case (snoc y ts)
  then show ?case by (cases y) (auto simp: record_all_snoc RecordTurn_fields observe_all_def)
qed (simp add: record_all_def M_New_def observe_all_def)

text \<open>
  Every turn is counted once: after any turns have been recorded, the completed and the cancelled
  counters are the numbers of turns that were not and that were cancelled, the first-response
  histogram shows exactly the answered turns' latencies, and the dashboard's history is the last fifty.
\<close>

theorem turns_recorded_once:
  "m_TurnsCompleted (record_all ts M_New) = word_of_nat (length (filter (\<lambda>(_, t). \<not> ts_Cancelled t) ts)) \<and>
   m_TurnsCancelled (record_all ts M_New) = word_of_nat (length (filter (\<lambda>(_, t). ts_Cancelled t) ts)) \<and>
   Histogram_render (m_FirstResponse (record_all ts M_New)) =
     Histogram_render (observe_all (NewHistogram latencyBuckets)
       (map (\<lambda>(_, t). Seconds (FirstResponse t)) (filter (\<lambda>(_, t). ts_TTSFirstFrameAt t \<noteq> zero_time) ts))) \<and>
   hub_hist (m_hub (record_all ts M_New)) = last_records (map (\<lambda>(sid, t). toRecord sid t) ts)"
  unfolding first_response_recorded using counters_recorded by auto

end
