(* ===== verification/Session.thy ===== *)
theory Session
  imports Pipeline Frame
begin

text \<open>
  A session of \<open>internal/session/session.go\<close>: its construction, the handlers of its loops and the
  operations connections perform on it, as functions of the session's state. The pool and the pipeline
  are shared objects in Go; here the pool is the one the pipeline holds, so a buffer taken by the
  reader is missing for the pump and one returned by the pump is there for the reader. How the loops
  interleave is the theory \<open>Sesslock\<close>.
\<close>

section \<open>Wire messages\<close>

abbreviation FRAME_TYPE_AUDIO :: u32 where "FRAME_TYPE_AUDIO \<equiv> 1"
abbreviation FRAME_TYPE_TEXT :: u32 where "FRAME_TYPE_TEXT \<equiv> 2"
abbreviation FRAME_TYPE_CONTROL :: u32 where "FRAME_TYPE_CONTROL \<equiv> 3"

record wireMsg =
  wm_typ :: u32
  wm_tsUs :: int
  wm_payload :: "u8 list"

datatype ControlKind = KIND_UNSPECIFIED | KIND_START | KIND_STOP | KIND_BARGE_IN | KIND_ERROR | KIND_other int
datatype TextSource = SOURCE_TRANSCRIPT | SOURCE_TOKEN

record ControlPayload =
  cp_Kind :: ControlKind
  cp_Detail :: string
  cp_SessionId :: string
  cp_Epoch :: u64
  cp_LastSeq :: u64

text \<open>\<open>proto.Marshal\<close> and \<open>proto.Unmarshal\<close> of the two payloads; \<open>None\<close> is an error. The library is
  a parameter.\<close>

record codec =
  cd_control :: "ControlPayload \<Rightarrow> u8 list option"
  cd_uncontrol :: "u8 list \<Rightarrow> ControlPayload option"
  cd_text :: "runes \<Rightarrow> bool \<Rightarrow> TextSource \<Rightarrow> u8 list option"

definition control_of :: "ControlKind \<Rightarrow> ControlPayload" where
  "control_of k = \<lparr>cp_Kind = k, cp_Detail = [], cp_SessionId = [], cp_Epoch = 0, cp_LastSeq = 0\<rparr>"

section \<open>State\<close>

text \<open>An attachment: the two closed channels are the flags of the loops' ends; \<open>ats_cancelled\<close> is its
  context, \<open>ats_closed\<close> its connection.\<close>

record attachment =
  ats_epoch :: u64
  ats_stale :: bool
  ats_cancelled :: bool
  ats_closed :: bool
  ats_readExited :: bool
  ats_writeExited :: bool

text \<open>Attachments are named by the order of their creation. \<open>ss_pumped\<close> is the message the audio pump
  holds between advancing the clock and the send.\<close>

record Session =
  ss_id :: string
  ss_ctrl :: "(Energy, Pipeline) Controller"
  ss_runCancelled :: bool
  ss_wire :: "wireMsg list"
  ss_pumped :: "wireMsg option"
  ss_clockUs :: int
  ss_downlinkSeq :: u64
  ss_uplinkFloor :: u64
  ss_lastActive :: instant
  ss_dupFrames :: u64
  ss_staleFrames :: u64
  ss_subtitleDrops :: u64
  ss_epoch :: u64
  ss_att :: "nat option"
  ss_closed :: bool
  ss_atts :: "attachment list"

abbreviation ss_pipe :: "Session \<Rightarrow> Pipeline" where
  "ss_pipe s \<equiv> ct_sink (ss_ctrl s)"

definition set_pipe :: "Pipeline \<Rightarrow> Session \<Rightarrow> Session" where
  "set_pipe p s = s\<lparr>ss_ctrl := (ss_ctrl s)\<lparr>ct_sink := p\<rparr>\<rparr>"

definition set_att :: "nat \<Rightarrow> (attachment \<Rightarrow> attachment) \<Rightarrow> Session \<Rightarrow> Session" where
  "set_att a g s = s\<lparr>ss_atts := (ss_atts s)[a := g (ss_atts s ! a)]\<rparr>"

definition touch :: "instant \<Rightarrow> Session \<Rightarrow> Session" where
  "touch now s = s\<lparr>ss_lastActive := now\<rparr>"

definition wireCap :: nat where
  "wireCap = 256"

section \<open>Construction\<close>

text \<open>\<open>SessPanic\<close> is the run-time panic of \<open>make\<close>, wherever it happens; the others are errors.\<close>

datatype session_error = SessPanic | ErrIngressPool ring_error | ErrPipeline ring_error

definition frameBytes :: "Config \<Rightarrow> int" where
  "frameBytes cfg =
     wrap_int ((wrap_int (au_SampleRate (cf_Audio cfg) * au_FrameDuration (cf_Audio cfg)) sdiv Second) * 2)"

definition or_panic :: "(ring_error \<Rightarrow> session_error) \<Rightarrow> ring_error \<Rightarrow> session_error" where
  "or_panic wrap e = (if e = MakePanic then SessPanic else wrap e)"

definition newSession :: "Config \<Rightarrow> string \<Rightarrow> instant \<Rightarrow> (session_error + Session) option" where
  "newSession cfg sid now =
     (case NewBufferPool (wrap_int (2 * rb_IngressCapacity (cf_RingBuf cfg))) (frameBytes cfg) of
        None \<Rightarrow> None
      | Some (Inl e) \<Rightarrow> Some (Inl (or_panic ErrIngressPool e))
      | Some (Inr pool) \<Rightarrow>
          Some (case Pipeline_New cfg of
              Inl e \<Rightarrow> Inl (or_panic ErrPipeline e)
            | Inr p \<Rightarrow> Inr \<lparr>ss_id = sid, ss_ctrl = NewController cfg (SetIngressPool pool p), ss_runCancelled = False,
                ss_wire = [], ss_pumped = None, ss_clockUs = 0, ss_downlinkSeq = 0, ss_uplinkFloor = 0,
                ss_lastActive = now, ss_dupFrames = 0, ss_staleFrames = 0, ss_subtitleDrops = 0, ss_epoch = 0,
                ss_att = None, ss_closed = False, ss_atts = []\<rparr>))"

section \<open>Subtitles and signals\<close>

definition wire_offer :: "wireMsg \<Rightarrow> Session \<Rightarrow> Session" where
  "wire_offer m s =
     (case chan_offer wireCap m (ss_wire s) of (q, ok) \<Rightarrow>
        if ok then s\<lparr>ss_wire := q\<rparr> else s\<lparr>ss_subtitleDrops := ss_subtitleDrops s + 1\<rparr>)"

definition enqueueText :: "codec \<Rightarrow> runes \<Rightarrow> bool \<Rightarrow> TextSource \<Rightarrow> int \<Rightarrow> Session \<Rightarrow> Session" where
  "enqueueText cd txt fin src ts s =
     (case cd_text cd txt fin src of
        None \<Rightarrow> s
      | Some payload \<Rightarrow> wire_offer \<lparr>wm_typ = FRAME_TYPE_TEXT, wm_tsUs = ts, wm_payload = payload\<rparr> s)"

definition enqueueControl :: "codec \<Rightarrow> ControlKind \<Rightarrow> Session \<Rightarrow> Session" where
  "enqueueControl cd kind s =
     (case cd_control cd (control_of kind) of
        None \<Rightarrow> s
      | Some payload \<Rightarrow> wire_offer \<lparr>wm_typ = FRAME_TYPE_CONTROL, wm_tsUs = ss_clockUs s, wm_payload = payload\<rparr> s)"

text \<open>The observers \<open>newSession\<close> installs on the pipeline.\<close>

definition OnTranscript :: "codec \<Rightarrow> Transcript \<Rightarrow> Session \<Rightarrow> Session" where
  "OnTranscript cd tr s = enqueueText cd (tr_Text tr) (tr_Final tr) SOURCE_TRANSCRIPT (tr_TsUs tr) s"

definition OnToken :: "codec \<Rightarrow> Token \<Rightarrow> Session \<Rightarrow> Session" where
  "OnToken cd tok s = enqueueText cd (tok_Text tok) False SOURCE_TOKEN (ss_clockUs s) s"

definition OnTurnStart :: "Session \<Rightarrow> Session" where
  "OnTurnStart s = s\<lparr>ss_ctrl := Controller_ResponseStarted pipeline_sink (ss_ctrl s)\<rparr>"

definition OnTurnEnd :: "codec \<Rightarrow> bool \<Rightarrow> Session \<Rightarrow> Session" where
  "OnTurnEnd cd cancelled s =
     (let s1 = s\<lparr>ss_ctrl := Controller_ResponseDone pipeline_sink (ss_ctrl s)\<rparr> in
      if cancelled then enqueueControl cd KIND_BARGE_IN s1 else s1)"

section \<open>Attaching and closing\<close>

datatype attach_error = SessionClosed | StaleEpoch u64 u64

definition attach_check :: "u64 \<Rightarrow> Session \<Rightarrow> attach_error option" where
  "attach_check claimed s =
     (if ss_closed s then Some SessionClosed
      else if claimed \<le> ss_epoch s then Some (StaleEpoch claimed (ss_epoch s)) else None)"

text \<open>What is done to the attachment in place before the wait for its reader.\<close>

definition attach_supersede :: "Session \<Rightarrow> Session" where
  "attach_supersede s =
     (case ss_att s of
        None \<Rightarrow> s
      | Some old \<Rightarrow> set_att old (\<lambda>t. t\<lparr>ats_stale := True, ats_cancelled := True, ats_closed := True\<rparr>) s)"

definition attach_bind :: "u64 \<Rightarrow> instant \<Rightarrow> Session \<Rightarrow> Session" where
  "attach_bind claimed now s =
     touch now (s\<lparr>ss_epoch := claimed,
       ss_atts := ss_atts s @ [\<lparr>ats_epoch = claimed, ats_stale = False, ats_cancelled = ss_runCancelled s,
         ats_closed = False, ats_readExited = False, ats_writeExited = False\<rparr>],
       ss_att := Some (length (ss_atts s))\<rparr>)"

text \<open>The whole operation; \<open>None\<close> while the old reader has not exited.\<close>

definition attach :: "u64 \<Rightarrow> instant \<Rightarrow> Session \<Rightarrow> (attach_error + Session \<times> nat) option" where
  "attach claimed now s =
     (case attach_check claimed s of
        Some e \<Rightarrow> Some (Inl e)
      | None \<Rightarrow>
          let s1 = attach_supersede s in
          if (case ss_att s1 of None \<Rightarrow> True | Some old \<Rightarrow> ats_readExited (ss_atts s1 ! old))
          then Some (Inr (attach_bind claimed now s1, length (ss_atts s1)))
          else None)"

definition detach :: "nat \<Rightarrow> Session \<Rightarrow> Session" where
  "detach a s = (if ss_att s = Some a then s\<lparr>ss_att := None\<rparr> else s)"

text \<open>\<open>close\<close>: the critical section, then the cancellations.\<close>

definition close_mark :: "Session \<Rightarrow> Session \<times> nat option" where
  "close_mark s = (s\<lparr>ss_closed := True\<rparr>, ss_att s)"

definition close_cancel :: "nat option \<Rightarrow> Session \<Rightarrow> Session" where
  "close_cancel a s =
     (let s1 = s\<lparr>ss_runCancelled := True, ss_atts := map (\<lambda>t. t\<lparr>ats_cancelled := True\<rparr>) (ss_atts s)\<rparr> in
      case a of None \<Rightarrow> s1 | Some i \<Rightarrow> set_att i (\<lambda>t. t\<lparr>ats_closed := True\<rparr>) s1)"

definition Session_close :: "Session \<Rightarrow> Session" where
  "Session_close s =
     (if ss_closed s then s else case close_mark s of (s1, a) \<Rightarrow> close_cancel a s1)"

section \<open>The reader\<close>

definition advanceFloor :: "u64 \<Rightarrow> Session \<Rightarrow> Session \<times> bool" where
  "advanceFloor sq s =
     (if sq \<le> ss_uplinkFloor s then (s, False) else (s\<lparr>ss_uplinkFloor := sq\<rparr>, True))"

definition pool_Get :: "Session \<Rightarrow> (Session \<times> buf) option" where
  "pool_Get s =
     (case pl_ingressPool (ss_pipe s) of
        None \<Rightarrow> None
      | Some pool \<Rightarrow> map_option (\<lambda>(pool1, b). (set_pipe (SetIngressPool pool1 (ss_pipe s)) s, b)) (BufferPool_Get pool))"

datatype reader_next = NextRead buf | NextStop

text \<open>One frame of \<open>readLoop\<close>. \<open>pooled\<close> says that the connection reads into the loop's buffer;
  \<open>payload\<close> is \<open>f.Payload\<close>, the very buffer \<open>b\<close> then. \<open>None\<close> is a call that does not return.\<close>

definition Ingest_frame :: "bool \<Rightarrow> Frame \<Rightarrow> buf \<Rightarrow> buf \<Rightarrow> Session \<Rightarrow> (Session \<times> reader_next) option" where
  "Ingest_frame pooled f payload b s =
     Option.bind (Controller_Ingest Energy_Process pipeline_sink (ss_ctrl s)
         \<lparr>af_PCM = payload, af_TsUs = sint (frame_ts f)\<rparr>) (\<lambda>c.
       let s1 = s\<lparr>ss_ctrl := c\<rparr> in
       if pooled then map_option (\<lambda>(s2, b2). (s2, NextRead b2)) (pool_Get s1)
       else Some (s1, NextRead b))"

definition readLoop_frame :: "codec \<Rightarrow> bool \<Rightarrow> instant \<Rightarrow> Frame \<Rightarrow> buf \<Rightarrow> buf \<Rightarrow> Session \<Rightarrow>
    (Session \<times> reader_next) option" where
  "readLoop_frame cd pooled now f payload b s0 =
     (let s = touch now s0 in
      if frame_type f = FRAME_TYPE_AUDIO then
        (case advanceFloor (frame_seq f) s of
           (s1, False) \<Rightarrow> Some (s1\<lparr>ss_dupFrames := ss_dupFrames s1 + 1\<rparr>, NextRead b)
         | (s1, True) \<Rightarrow> Ingest_frame pooled f payload b s1)
      else if frame_type f = FRAME_TYPE_CONTROL then
        (case cd_uncontrol cd (frame_payload f) of
           None \<Rightarrow> Some (s, NextRead b)
         | Some c \<Rightarrow> Some (s, if cp_Kind c = KIND_STOP then NextStop else NextRead b))
      else Some (s, NextRead b))"

definition stale_frame :: "Session \<Rightarrow> Session" where
  "stale_frame s = s\<lparr>ss_staleFrames := ss_staleFrames s + 1\<rparr>"

definition reader_exit :: "nat \<Rightarrow> Session \<Rightarrow> Session" where
  "reader_exit a s = set_att a (\<lambda>t. t\<lparr>ats_readExited := True, ats_cancelled := True\<rparr>) s"

section \<open>The writer and the audio pump\<close>

definition writeFrame :: "u32 \<Rightarrow> int \<Rightarrow> u8 list \<Rightarrow> Session \<Rightarrow> Session \<times> Frame" where
  "writeFrame typ ts payload s =
     (let sq = ss_downlinkSeq s + 1 in
      (s\<lparr>ss_downlinkSeq := sq\<rparr>,
       \<lparr>frame_type = typ, frame_seq = sq, frame_ts = word_of_int ts, frame_payload = payload\<rparr>))"

text \<open>The acknowledgement; \<open>None\<close> if it cannot be encoded and the writer exits.\<close>

definition write_ack :: "codec \<Rightarrow> nat \<Rightarrow> string \<Rightarrow> Session \<Rightarrow> (Session \<times> Frame) option" where
  "write_ack cd a detail s =
     map_option (\<lambda>payload. writeFrame FRAME_TYPE_CONTROL 0 payload s)
       (cd_control cd \<lparr>cp_Kind = KIND_START, cp_Detail = detail, cp_SessionId = ss_id s,
          cp_Epoch = ats_epoch (ss_atts s ! a), cp_LastSeq = ss_uplinkFloor s\<rparr>)"

text \<open>The case of a message in the queue: the frame handed to the connection and what the session is
  when the write has succeeded or failed.\<close>

definition write_next :: "bool \<Rightarrow> instant \<Rightarrow> Session \<Rightarrow> (Session \<times> Frame) option" where
  "write_next ok now s =
     (case ss_wire s of
        [] \<Rightarrow> None
      | m # ms \<Rightarrow>
          (case writeFrame (wm_typ m) (wm_tsUs m) (wm_payload m) (s\<lparr>ss_wire := ms\<rparr>) of
             (s1, f) \<Rightarrow> Some (if ok then touch now s1 else s1, f)))"

definition writer_exit :: "nat \<Rightarrow> Session \<Rightarrow> Session" where
  "writer_exit a s = set_att a (\<lambda>t. t\<lparr>ats_writeExited := True, ats_cancelled := True\<rparr>) s"

definition clock_step :: "int \<Rightarrow> nat \<Rightarrow> int \<Rightarrow> int" where
  "clock_step rate bytes t =
     wrap_int (t + wrap_int (int (bytes div 2) * 1000000) sdiv rate)"

text \<open>The two halves of a round of the pump; the inner \<open>None\<close> is the wait for a frame, the outer one
  a call that does not return.\<close>

definition audioPump_take :: "int \<Rightarrow> Session \<Rightarrow> Session option option" where
  "audioPump_take rate s =
     map_option (\<lambda>(e, f, ok).
         if ok then
           Some ((set_pipe ((ss_pipe s)\<lparr>pl_egress := e\<rparr>) s)\<lparr>
             ss_clockUs := clock_step rate (buf_len (af_PCM f)) (ss_clockUs s),
             ss_pumped := Some \<lparr>wm_typ = FRAME_TYPE_AUDIO, wm_tsUs = ss_clockUs s, wm_payload = buf_data (af_PCM f)\<rparr>\<rparr>)
         else None)
       (edge_pop (pl_egress (ss_pipe s)))"

definition audioPump_send :: "Session \<Rightarrow> Session option" where
  "audioPump_send s =
     (case ss_pumped s of
        None \<Rightarrow> None
      | Some m \<Rightarrow> if length (ss_wire s) < wireCap then Some (s\<lparr>ss_wire := ss_wire s @ [m], ss_pumped := None\<rparr>) else None)"

section \<open>Invariant\<close>

definition session_ok :: "Session \<Rightarrow> bool" where
  "session_ok s \<longleftrightarrow> pipeline_inv (ss_pipe s) \<and>
     (case pl_ingressPool (ss_pipe s) of None \<Rightarrow> False | Some pool \<Rightarrow> pool_inv pool) \<and>
     length (ss_wire s) \<le> wireCap"

lemma session_ok_cong:
  "session_ok s \<Longrightarrow> ss_ctrl s' = ss_ctrl s \<Longrightarrow> ss_wire s' = ss_wire s \<Longrightarrow> session_ok s'"
  by (simp add: session_ok_def)

lemma session_ok_pool:
  "session_ok s \<Longrightarrow> \<exists>pool. pl_ingressPool (ss_pipe s) = Some pool \<and> pool_inv pool"
  by (auto simp: session_ok_def split: option.splits)

lemma NewBufferPool_pow2:
  assumes "isPowerOfTwo n" "2 \<le> n" "n < 2 ^ 63" "\<not> make_panics 32 n" "\<not> make_panics 1 sz"
  shows "\<exists>p. NewBufferPool n sz = Some (Inr p)"
proof -
  from assms(1,4) obtain r where r: "Ring_New 32 nil_buf n Reject = Inr r"
    using Ring_New_isPowerOfTwo [of 32 nil_buf n Reject] by blast
  with assms have "reject_ring r" by (simp add: Ring_New_inv reject_ring_def)
  with r assms(5) show ?thesis
    using rring.push_all_prefix [of r nil_buf "replicate (nat n) (make_buf (nat sz))"] by (auto simp: NewBufferPool_def)
qed

lemma isPowerOfTwo_double: "isPowerOfTwo n \<Longrightarrow> isPowerOfTwo (2 * n)"
proof -
  assume "isPowerOfTwo n"
  then obtain k where "n = 2 ^ k" by (auto simp: isPowerOfTwo_iff)
  then have "2 * n = 2 ^ Suc k" by simp
  then show ?thesis unfolding isPowerOfTwo_iff by blast
qed

definition fresh_session :: "string \<Rightarrow> instant \<Rightarrow> Session \<Rightarrow> bool" where
  "fresh_session sid now s \<longleftrightarrow> session_ok s \<and> ss_id s = sid \<and> \<not> ss_closed s \<and> ss_epoch s = 0 \<and> ss_att s = None \<and>
     ss_atts s = [] \<and> ss_uplinkFloor s = 0 \<and> ss_downlinkSeq s = 0 \<and> ss_clockUs s = 0 \<and> ss_wire s = [] \<and>
     ss_pumped s = None \<and> \<not> ss_runCancelled s \<and> ss_lastActive s = now \<and> ss_dupFrames s = 0 \<and> ss_staleFrames s = 0 \<and> ss_subtitleDrops s = 0 \<and>
     edge_frames (pl_ingress (ss_pipe s)) = [] \<and> edge_frames (pl_egress (ss_pipe s)) = []"

text \<open>The same but for the invariant, which a ring of one slot does not have.\<close>

definition blank_session :: "string \<Rightarrow> instant \<Rightarrow> Session \<Rightarrow> bool" where
  "blank_session sid now s \<longleftrightarrow> ss_id s = sid \<and> \<not> ss_closed s \<and> ss_epoch s = 0 \<and> ss_att s = None \<and>
     ss_atts s = [] \<and> ss_uplinkFloor s = 0 \<and> ss_downlinkSeq s = 0 \<and> ss_clockUs s = 0 \<and> ss_wire s = [] \<and>
     ss_pumped s = None \<and> \<not> ss_runCancelled s \<and> ss_lastActive s = now \<and> ss_dupFrames s = 0 \<and> ss_staleFrames s = 0 \<and> ss_subtitleDrops s = 0 \<and>
     edge_frames (pl_ingress (ss_pipe s)) = [] \<and> edge_frames (pl_egress (ss_pipe s)) = []"

lemma newEdge_empty: "newEdge n pol = Inr e \<Longrightarrow> edge_frames e = []"
  by (auto simp: newEdge_def Ring_New_def ring_list_def ring_count_def split: if_splits)

lemma newSession_blank:
  assumes "newSession cfg sid now = Some (Inr s)"
  shows "blank_session sid now s"
proof -
  from assms obtain pool p where p: "Pipeline_New cfg = Inr p" and s: "s = \<lparr>ss_id = sid, ss_ctrl = NewController cfg (SetIngressPool pool p),
      ss_runCancelled = False, ss_wire = [], ss_pumped = None, ss_clockUs = 0, ss_downlinkSeq = 0, ss_uplinkFloor = 0,
      ss_lastActive = now, ss_dupFrames = 0, ss_staleFrames = 0, ss_subtitleDrops = 0, ss_epoch = 0,
      ss_att = None, ss_closed = False, ss_atts = []\<rparr>"
    by (auto simp: newSession_def split: option.splits sum.splits)
  from p have "edge_frames (pl_ingress p) = []" "edge_frames (pl_egress p) = []"
    by (auto simp: Pipeline_New_def dest: newEdge_empty split: sum.splits)
  with s show ?thesis by (simp add: blank_session_def NewController_def SetIngressPool_def)
qed

definition capacities :: "Config \<Rightarrow> int \<times> int" where
  "capacities cfg = (rb_IngressCapacity (cf_RingBuf cfg), rb_EgressCapacity (cf_RingBuf cfg))"

text \<open>What \<open>make\<close> has room for: the pool of twice the ingress capacity, its buffers, the rings.\<close>

definition fits_memory :: "Config \<Rightarrow> bool" where
  "fits_memory cfg \<longleftrightarrow> 0 \<le> frameBytes cfg \<and> frameBytes cfg \<le> 2 ^ 48 \<and> fst (capacities cfg) \<le> 2 ^ 42 \<and> snd (capacities cfg) \<le> 2 ^ 42"

lemma pow2_bound: "isPowerOfTwo n \<Longrightarrow> n \<le> 2 ^ k \<or> 2 ^ Suc k \<le> n"
proof -
  assume "isPowerOfTwo n"
  then obtain j where "n = 2 ^ j" by (auto simp: isPowerOfTwo_iff)
  then show ?thesis by (metis not_less_eq_eq one_le_numeral power_increasing)
qed

lemma newEdge_pow2:
  assumes "isPowerOfTwo n"
  shows "if n \<le> 2 ^ 42 then \<exists>e. newEdge n pol = Inr e else newEdge n pol = Inl MakePanic"
proof -
  have p: "0 < n" "n AND (n - 1) = 0" using assms by (simp_all add: isPowerOfTwo_def)
  from pow2_bound [OF assms, of 42] p show ?thesis
    by (auto simp: newEdge_def Ring_New_def make_panics_def maxAlloc_def)
qed

lemma Pipeline_New_outcome:
  assumes "Validate cfg = None"
  shows "if fst (capacities cfg) \<le> 2 ^ 42 \<and> snd (capacities cfg) \<le> 2 ^ 42 then \<exists>p. Pipeline_New cfg = Inr p
    else Pipeline_New cfg = Inl MakePanic"
proof -
  note v = Validate_D [OF assms]
  obtain inp outp where pol: "ParsePolicy (rb_IngressPolicy (cf_RingBuf cfg)) = Inr inp"
    "ParsePolicy (rb_EgressPolicy (cf_RingBuf cfg)) = Inr outp" using v(3,4) by blast
  from newEdge_pow2 [OF v(1), of inp] newEdge_pow2 [OF v(2), of outp] show ?thesis
    by (auto simp: Pipeline_New_def pol capacities_def split: if_splits)
qed

lemma NewBufferPool_outcome:
  assumes "isPowerOfTwo c" "c < 2 ^ 62"
  shows "if c \<le> 2 ^ 42 \<and> 0 \<le> sz \<and> sz \<le> 2 ^ 48 then \<exists>p. NewBufferPool (wrap_int (2 * c)) sz = Some (Inr p)
    else NewBufferPool (wrap_int (2 * c)) sz = Some (Inl MakePanic)"
proof -
  have c: "0 < c" using assms(1) by (simp add: isPowerOfTwo_def)
  then have w: "wrap_int (2 * c) = 2 * c" using assms(2) by (intro wrap_int_id) auto
  have p2: "isPowerOfTwo (2 * c)" using assms(1) by (rule isPowerOfTwo_double)
  then have r: "0 < 2 * c" "(2 * c) AND (2 * c - 1) = 0" by (simp_all add: isPowerOfTwo_def)
  show ?thesis
  proof (cases "c \<le> 2 ^ 42")
    case True
    then have m: "\<not> make_panics 32 (2 * c)" using c by (simp add: make_panics_def maxAlloc_def)
    show ?thesis
    proof (cases "make_panics 1 sz")
      case True
      with r m show ?thesis by (auto simp: w NewBufferPool_def Ring_New_def make_panics_def maxAlloc_def)
    next
      case False
      with NewBufferPool_pow2 [OF p2 _ _ m False] c assms(2) \<open>c \<le> 2 ^ 42\<close> show ?thesis
        by (simp add: w make_panics_def maxAlloc_def)
    qed
  next
    case False
    with pow2_bound [OF assms(1), of 42] have "make_panics 32 (2 * c)" by (simp add: make_panics_def maxAlloc_def)
    with r False show ?thesis by (simp add: w NewBufferPool_def Ring_New_def)
  qed
qed

lemma newSession_outcome:
  assumes "Validate cfg = None" "fst (capacities cfg) < 2 ^ 63"
  shows "if fst (capacities cfg) = 2 ^ 62 then newSession cfg sid now = Some (Inl (ErrIngressPool (BadCapacity (- (2 ^ 63)))))
    else if fits_memory cfg then \<exists>s. newSession cfg sid now = Some (Inr s)
    else newSession cfg sid now = Some (Inl SessPanic)"
proof -
  note p = Validate_D(1) [OF assms(1)]
  have c: "fst (capacities cfg) = rb_IngressCapacity (cf_RingBuf cfg)" by (simp add: capacities_def)
  show ?thesis
  proof (cases "fst (capacities cfg) = 2 ^ 62")
    case True
    then show ?thesis by (simp add: c newSession_def wrap_int_def NewBufferPool_def Ring_New_def or_panic_def)
  next
    case False
    then have "rb_IngressCapacity (cf_RingBuf cfg) < 2 ^ 62" using pow2_bound [OF p, of 61] pow2_bound [OF p, of 62] assms(2) c by auto
    from NewBufferPool_outcome [OF p this, of "frameBytes cfg"] Pipeline_New_outcome [OF assms(1)] False c show ?thesis
      by (auto simp: newSession_def fits_memory_def or_panic_def split: if_splits)
  qed
qed

lemma newSession_ok:
  assumes "Validate cfg = None" "newSession cfg sid now = Some (Inr s)" "fits_memory cfg"
    "2 \<le> fst (capacities cfg)" "2 \<le> snd (capacities cfg)"
  shows "fresh_session sid now s"
proof -
  let ?c = "rb_IngressCapacity (cf_RingBuf cfg)"
  have cap: "2 \<le> ?c" "?c \<le> 2 ^ 42" "2 \<le> rb_EgressCapacity (cf_RingBuf cfg)" "rb_EgressCapacity (cf_RingBuf cfg) \<le> 2 ^ 42"
    using assms(3-5) by (simp_all add: capacities_def fits_memory_def)
  have w: "wrap_int (2 * ?c) = 2 * ?c" using cap(1,2) by (intro wrap_int_id) auto
  from assms(2) obtain pool p where pool: "NewBufferPool (2 * ?c) (frameBytes cfg) = Some (Inr pool)" and p: "Pipeline_New cfg = Inr p"
    and s: "ss_pipe s = SetIngressPool pool p" "ss_wire s = []"
    by (auto simp: newSession_def w NewController_def split: option.splits sum.splits)
  have "pool_inv pool" using NewBufferPool_ok(1) [OF pool] cap(1,2) by simp
  moreover have "pipeline_inv p" using Pipeline_New_valid [OF assms(1) cap] p by auto
  ultimately have "session_ok s" using s by (simp add: session_ok_def pipeline_inv_def SetIngressPool_def)
  with newSession_blank [OF assms(2)] show ?thesis by (simp add: fresh_session_def blank_session_def)
qed


lemma frameBytes_Default: "frameBytes (Default pr) = 640"
  by (simp add: frameBytes_def Default_def wrap_int_def signed_divide_int_def)

lemma capacities_Default: "capacities (Default pr) = (64, 64)"
proof -
  have "cf_RingBuf (Default pr) = \<lparr>rb_IngressCapacity = 64, rb_EgressCapacity = 64,
      rb_IngressPolicy = ''drop_oldest'', rb_EgressPolicy = ''drop_oldest''\<rparr>" by (simp add: Default_def)
  then show ?thesis by (simp add: capacities_def)
qed

definition negative_frames :: Config where
  "negative_frames = (Default [])\<lparr>cf_Audio := (cf_Audio (Default []))\<lparr>au_FrameDuration := - (20 * Millisecond)\<rparr>\<rparr>"

lemma newSession_Default: "\<exists>s. newSession (Default []) sid now = Some (Inr s) \<and> fresh_session sid now s"
proof -
  have "fits_memory (Default [])" by (simp add: fits_memory_def frameBytes_Default capacities_Default)
  with newSession_outcome [OF Validate_Default [of "[]"], of sid now] newSession_ok [OF Validate_Default [of "[]"]] show ?thesis
    by (auto simp: capacities_Default)
qed

lemma negative_frames_panic: "newSession negative_frames sid now = Some (Inl SessPanic)"
proof -
  have r: "capacities negative_frames = (64, 64)" using capacities_Default [of "[]"] by (simp add: negative_frames_def capacities_def)
  have v: "Validate negative_frames = None"
    by (simp add: negative_frames_def Validate_def Default_def isPowerOfTwo_def parse_policy_error_def ParsePolicy_def)
  have "frameBytes negative_frames = - 640"
    by (simp add: frameBytes_def negative_frames_def Default_def wrap_int_def signed_divide_int_def)
  with newSession_outcome [OF v, of sid now] show ?thesis by (simp add: r fits_memory_def)
qed


section \<open>What the reader keeps\<close>

text \<open>The fields the mutex protects, and the attachments' flags.\<close>

definition same_lock :: "Session \<Rightarrow> Session \<Rightarrow> bool" where
  "same_lock s s' \<longleftrightarrow> ss_id s' = ss_id s \<and> ss_epoch s' = ss_epoch s \<and> ss_att s' = ss_att s \<and> ss_closed s' = ss_closed s \<and>
     ss_atts s' = ss_atts s \<and> ss_runCancelled s' = ss_runCancelled s"

definition is_stop :: "codec \<Rightarrow> Frame \<Rightarrow> bool" where
  "is_stop cd f \<longleftrightarrow> frame_type f = FRAME_TYPE_CONTROL \<and>
     map_option cp_Kind (cd_uncontrol cd (frame_payload f)) = Some KIND_STOP"

text \<open>The frames that get past the watermark.\<close>

definition delivers :: "Frame \<Rightarrow> Session \<Rightarrow> bool" where
  "delivers f s \<longleftrightarrow> frame_type f = FRAME_TYPE_AUDIO \<and> ss_uplinkFloor s < frame_seq f"

lemma pool_Get_ok:
  assumes "session_ok s"
  shows "\<exists>s' b. pool_Get s = Some (s', b) \<and> session_ok s' \<and> same_lock s s' \<and> ss_uplinkFloor s' = ss_uplinkFloor s \<and>
    pl_ingress (ss_pipe s') = pl_ingress (ss_pipe s)"
proof -
  obtain pool where pool: "pl_ingressPool (ss_pipe s) = Some pool" "pool_inv pool"
    using session_ok_pool [OF assms] by blast
  obtain pool' b where "BufferPool_Get pool = Some (pool', b)" "pool_inv pool'"
    using pool_get_hit [OF pool(2)] pool_get_miss [OF pool(2)] by blast
  with pool assms show ?thesis
    by (auto simp: pool_Get_def session_ok_def set_pipe_def SetIngressPool_def pipeline_inv_def same_lock_def)
qed

lemma ingest_keeps_pool:
  "Controller_Ingest Energy_Process pipeline_sink c f = Some c' \<Longrightarrow>
     pl_ingressPool (ct_sink c') = pl_ingressPool (ct_sink c)"
  by (auto simp: Controller_Ingest_def Controller_apply_def pipeline_sink_def PushAudio_def EndUtterance_def BargeIn_def Let_def
      split: prod.splits if_splits sum.splits Action.splits)

lemma Ingest_frame_ok:
  assumes "session_ok s"
  shows "\<exists>s' b'. Ingest_frame pooled f payload b s = Some (s', NextRead b') \<and> session_ok s' \<and> same_lock s s' \<and>
    ss_uplinkFloor s' = ss_uplinkFloor s \<and>
    ingress_view (ss_pipe s') = ingress_hear (ingress_view (ss_pipe s)) \<lparr>af_PCM = payload, af_TsUs = sint (frame_ts f)\<rparr>"
proof -
  let ?f = "\<lparr>af_PCM = payload, af_TsUs = sint (frame_ts f)\<rparr>"
  have "pipeline_inv (ct_sink (ss_ctrl s))" using assms by (simp add: session_ok_def)
  from pipe.ingest_forwards [OF this, of Energy_Process ?f] obtain c where c:
    "Controller_Ingest Energy_Process pipeline_sink (ss_ctrl s) ?f = Some c" "pipeline_inv (ct_sink c)"
    "ingress_view (ct_sink c) = ingress_hear (ingress_view (ss_pipe s)) ?f" by blast
  let ?s1 = "s\<lparr>ss_ctrl := c\<rparr>"
  have ok: "session_ok ?s1" using assms c(2) ingest_keeps_pool [OF c(1)] by (simp add: session_ok_def)
  have l: "same_lock s ?s1" by (simp add: same_lock_def)
  obtain s2 b2 where "pool_Get ?s1 = Some (s2, b2)" "session_ok s2" "same_lock ?s1 s2"
    "ss_uplinkFloor s2 = ss_uplinkFloor s" "pl_ingress (ss_pipe s2) = pl_ingress (ct_sink c)"
    using pool_Get_ok [OF ok] by auto
  with ok l c show ?thesis by (cases pooled) (auto simp: Ingest_frame_def same_lock_def ingress_view_def)
qed

lemma readLoop_frame_ok:
  assumes "session_ok s"
  shows "\<exists>s' n. readLoop_frame cd pooled now f payload b s = Some (s', n) \<and> session_ok s' \<and> same_lock s s' \<and>
    (n = NextStop \<longleftrightarrow> is_stop cd f) \<and>
    ss_uplinkFloor s' = (if delivers f s then frame_seq f else ss_uplinkFloor s) \<and>
    ingress_view (ss_pipe s') =
      (if delivers f s then ingress_hear (ingress_view (ss_pipe s)) \<lparr>af_PCM = payload, af_TsUs = sint (frame_ts f)\<rparr>
       else ingress_view (ss_pipe s))"
proof (cases "delivers f s")
  case True
  let ?s = "(touch now s)\<lparr>ss_uplinkFloor := frame_seq f\<rparr>"
  have "session_ok ?s" using assms by (rule session_ok_cong) (simp_all add: touch_def)
  from Ingest_frame_ok [OF this, of pooled f payload b] True show ?thesis
    by (auto simp: readLoop_frame_def Let_def delivers_def advanceFloor_def touch_def is_stop_def same_lock_def)
next
  case False
  then have r: "readLoop_frame cd pooled now f payload b s = Some
      (if frame_type f = FRAME_TYPE_AUDIO then (touch now s)\<lparr>ss_dupFrames := ss_dupFrames s + 1\<rparr> else touch now s,
       if is_stop cd f then NextStop else NextRead b)"
    by (auto simp: readLoop_frame_def Let_def delivers_def advanceFloor_def touch_def is_stop_def split: option.splits)
  have "session_ok (touch now s)" "session_ok ((touch now s)\<lparr>ss_dupFrames := ss_dupFrames s + 1\<rparr>)"
    using assms by (auto intro: session_ok_cong simp: touch_def)
  with False show ?thesis unfolding r by (auto simp: touch_def same_lock_def)
qed

text \<open>A codec for evaluation on concrete frames.\<close>

definition demo_codec :: codec where
  "demo_codec = \<lparr>cd_control = (\<lambda>c. Some []), cd_uncontrol = (\<lambda>bs. if bs = [2] then Some (control_of KIND_STOP) else None),
     cd_text = (\<lambda>_ _ _. Some [])\<rparr>"

definition stop_frame :: Frame where
  "stop_frame = \<lparr>frame_type = FRAME_TYPE_CONTROL, frame_seq = 0, frame_ts = 0, frame_payload = [2]\<rparr>"

end
