(* ===== verification/Downlink.thy ===== *)
theory Downlink
  imports Session
begin

text \<open>
  The downlink of a session: the audio pump, the observers of the pipeline and the writers of the
  attachments share the queue \<open>wire\<close>, the sample clock and the sequence counter. A run is any
  sequence of their rounds; what it shows is the stream a client receives across reconnections.
\<close>

section \<open>Runs\<close>

text \<open>One round of \<open>audioPump\<close>: with a message in hand it sends or stays blocked, otherwise it takes a
  frame or stays parked.\<close>

definition audioPump :: "int \<Rightarrow> Session \<Rightarrow> Session option" where
  "audioPump rate s =
     (case ss_pumped s of
        Some _ \<Rightarrow> Some (case audioPump_send s of None \<Rightarrow> s | Some s1 \<Rightarrow> s1)
      | None \<Rightarrow> map_option (\<lambda>r. case r of None \<Rightarrow> s | Some s1 \<Rightarrow> s1) (audioPump_take rate s))"

datatype down_op = DnSynth AudioFrame | DnPump | DnFlush | DnTranscript Transcript | DnToken Token | DnTurnStart | DnTurnEnd bool
  | DnAck nat string | DnWrite bool instant

definition synth :: "AudioFrame \<Rightarrow> Session \<Rightarrow> Session option" where
  "synth f s = map_option (\<lambda>(e, _). set_pipe ((ss_pipe s)\<lparr>pl_egress := e\<rparr>) s) (edge_push (pl_egress (ss_pipe s)) f)"

text \<open>The flush of \<open>cancelTurn\<close>.\<close>

definition flush :: "Session \<Rightarrow> Session option" where
  "flush s = map_option (\<lambda>(e, _). set_pipe ((ss_pipe s)\<lparr>pl_egress := e\<rparr>) s) (edge_drain (pl_egress (ss_pipe s)))"

text \<open>One operation: the session, the frames the pump took and the frames given to the connection.\<close>

fun down_step :: "codec \<Rightarrow> int \<Rightarrow> down_op \<Rightarrow> Session \<Rightarrow> (Session \<times> AudioFrame list \<times> Frame list) option" where
  "down_step cd rate (DnSynth f) s = map_option (\<lambda>s1. (s1, [], [])) (synth f s)"
| "down_step cd rate DnPump s =
     map_option (\<lambda>s1. (s1, if ss_pumped s = None then take 1 (edge_frames (pl_egress (ss_pipe s))) else [], []))
       (audioPump rate s)"
| "down_step cd rate DnFlush s = map_option (\<lambda>s1. (s1, [], [])) (flush s)"
| "down_step cd rate (DnTranscript tr) s = Some (OnTranscript cd tr s, [], [])"
| "down_step cd rate (DnToken tok) s = Some (OnToken cd tok s, [], [])"
| "down_step cd rate DnTurnStart s = Some (OnTurnStart s, [], [])"
| "down_step cd rate (DnTurnEnd b) s = Some (OnTurnEnd cd b s, [], [])"
| "down_step cd rate (DnAck a detail) s =
     Some (case write_ack cd a detail s of None \<Rightarrow> (s, [], []) | Some (s1, f) \<Rightarrow> (s1, [], [f]))"
| "down_step cd rate (DnWrite ok now) s =
     Some (case write_next ok now s of None \<Rightarrow> (s, [], []) | Some (s1, f) \<Rightarrow> (s1, [], [f]))"

fun down_run :: "codec \<Rightarrow> int \<Rightarrow> down_op list \<Rightarrow> Session \<Rightarrow> (Session \<times> AudioFrame list \<times> Frame list) option" where
  "down_run cd rate [] s = Some (s, [], [])"
| "down_run cd rate (op # ops) s =
     Option.bind (down_step cd rate op s) (\<lambda>(s1, fs1, ws1).
       map_option (\<lambda>(s2, fs2, ws2). (s2, fs1 @ fs2, ws1 @ ws2)) (down_run cd rate ops s1))"

section \<open>The stream a client receives\<close>

fun stamped :: "int \<Rightarrow> int \<Rightarrow> AudioFrame list \<Rightarrow> wireMsg list" where
  "stamped rate t [] = []"
| "stamped rate t (f # fs) =
     \<lparr>wm_typ = FRAME_TYPE_AUDIO, wm_tsUs = t, wm_payload = buf_data (af_PCM f)\<rparr> #
     stamped rate (clock_step rate (buf_len (af_PCM f)) t) fs"

definition clock_after :: "int \<Rightarrow> int \<Rightarrow> AudioFrame list \<Rightarrow> int" where
  "clock_after rate t fs = foldl (\<lambda>t f. clock_step rate (buf_len (af_PCM f)) t) t fs"

definition msg_view :: "wireMsg \<Rightarrow> u64 \<times> u8 list" where
  "msg_view m = (word_of_int (wm_tsUs m), wm_payload m)"

definition frame_view :: "Frame \<Rightarrow> u64 \<times> u8 list" where
  "frame_view f = (frame_ts f, frame_payload f)"

definition audio_msgs :: "wireMsg list \<Rightarrow> (u64 \<times> u8 list) list" where
  "audio_msgs ms = map msg_view (filter (\<lambda>m. wm_typ m = FRAME_TYPE_AUDIO) ms)"

definition audio_frames :: "Frame list \<Rightarrow> (u64 \<times> u8 list) list" where
  "audio_frames fs = map frame_view (filter (\<lambda>f. frame_type f = FRAME_TYPE_AUDIO) fs)"

text \<open>What is on its way: queued, and in the pump's hand.\<close>

definition pending :: "Session \<Rightarrow> (u64 \<times> u8 list) list" where
  "pending s = audio_msgs (ss_wire s @ (case ss_pumped s of None \<Rightarrow> [] | Some m \<Rightarrow> [m]))"

lemma stamped_append: "stamped rate t (fs @ gs) = stamped rate t fs @ stamped rate (clock_after rate t fs) gs"
  by (induction fs arbitrary: t) (auto simp: clock_after_def)

lemma audio_msgs_simps [simp]:
  "audio_msgs [] = []" "audio_msgs (ms @ ns) = audio_msgs ms @ audio_msgs ns"
  "audio_msgs (m # ms) = (if wm_typ m = FRAME_TYPE_AUDIO then [msg_view m] else []) @ audio_msgs ms"
  by (simp_all add: audio_msgs_def)

lemma audio_frames_simps [simp]:
  "audio_frames [] = []" "audio_frames (ms @ ns) = audio_frames ms @ audio_frames ns"
  "audio_frames (m # ms) = (if frame_type m = FRAME_TYPE_AUDIO then [frame_view m] else []) @ audio_frames ms"
  by (simp_all add: audio_frames_def)

lemma clock_after_simps [simp]:
  "clock_after rate t [] = t" "clock_after rate t [f] = clock_step rate (buf_len (af_PCM f)) t"
  "clock_after rate t (fs @ gs) = clock_after rate (clock_after rate t fs) gs"
  by (simp_all add: clock_after_def)

lemma down_run_append:
  "down_run cd rate (xs @ ys) s = Option.bind (down_run cd rate xs s) (\<lambda>(s1, fs1, ws1).
     map_option (\<lambda>(s2, fs2, ws2). (s2, fs1 @ fs2, ws1 @ ws2)) (down_run cd rate ys s1))"
proof (induction xs arbitrary: s)
  case (Cons op ops)
  show ?case
    by (cases "down_step cd rate op s")
      (auto simp: Cons option.map_comp comp_def split_def map_option_bind bind_map_option)
qed (simp add: option.map_ident split_def)

section \<open>What a step keeps\<close>

text \<open>A message in the pump's hand is audio.\<close>

definition down_ok :: "Session \<Rightarrow> bool" where
  "down_ok s \<longleftrightarrow> session_ok s \<and> (case ss_pumped s of None \<Rightarrow> True | Some m \<Rightarrow> wm_typ m = FRAME_TYPE_AUDIO)"

text \<open>The books of a step: \<open>fs\<close> taken, \<open>ws\<close> written.\<close>

definition down_books :: "int \<Rightarrow> Session \<Rightarrow> Session \<Rightarrow> AudioFrame list \<Rightarrow> Frame list \<Rightarrow> bool" where
  "down_books rate s s' fs ws \<longleftrightarrow> down_ok s' \<and>
     audio_frames ws @ pending s' = pending s @ audio_msgs (stamped rate (ss_clockUs s) fs) \<and>
     ss_clockUs s' = clock_after rate (ss_clockUs s) fs \<and>
     map frame_seq ws = map (\<lambda>i. ss_downlinkSeq s + 1 + word_of_nat i) [0..<length ws] \<and>
     ss_downlinkSeq s' = ss_downlinkSeq s + word_of_nat (length ws)"

lemma down_books_quiet:
  assumes "down_ok s'" "pending s' = pending s" "ss_clockUs s' = ss_clockUs s" "ss_downlinkSeq s' = ss_downlinkSeq s"
  shows "down_books rate s s' [] []"
  using assms by (simp add: down_books_def)

lemma down_books_trans:
  assumes "down_books rate s s1 fs1 ws1" "down_books rate s1 s2 fs2 ws2"
  shows "down_books rate s s2 (fs1 @ fs2) (ws1 @ ws2)"
proof -
  have u: "[0..<length ws1 + length ws2] = [0..<length ws1] @ map (\<lambda>i. i + length ws1) [0..<length ws2]"
    using map_add_upt [of "length ws1" "length ws2"] upt_add_eq_append [of 0 "length ws1" "length ws2"]
    by (simp add: add.commute)
  have "map frame_seq (ws1 @ ws2) = map (\<lambda>i. ss_downlinkSeq s + 1 + word_of_nat i) [0..<length (ws1 @ ws2)]"
    using assms unfolding down_books_def by (simp add: u comp_def algebra_simps)
  moreover have "audio_frames (ws1 @ ws2) @ pending s2 = pending s @ audio_msgs (stamped rate (ss_clockUs s) (fs1 @ fs2))"
    using assms unfolding down_books_def by (simp add: stamped_append)
  ultimately show ?thesis using assms unfolding down_books_def by simp
qed

lemma wire_offer_books:
  assumes "down_ok s" "wm_typ m \<noteq> FRAME_TYPE_AUDIO"
  shows "down_books rate s (wire_offer m s) [] []"
proof (rule down_books_quiet)
  show "down_ok (wire_offer m s)"
    using assms(1) by (auto simp: wire_offer_def chan_offer_def down_ok_def session_ok_def)
qed (use assms in \<open>auto simp: wire_offer_def chan_offer_def pending_def\<close>)

lemma text_books: "down_ok s \<Longrightarrow> down_books rate s (enqueueText cd txt fin src ts s) [] []"
  by (auto simp: enqueueText_def intro!: wire_offer_books down_books_quiet split: option.splits)

lemma control_books: "down_ok s \<Longrightarrow> down_books rate s (enqueueControl cd k s) [] []"
  by (auto simp: enqueueControl_def intro!: wire_offer_books down_books_quiet split: option.splits)

lemma controller_apply_pool:
  "pipeline_inv (ct_sink c) \<Longrightarrow> pipeline_inv (ct_sink (Controller_apply pipeline_sink c ev)) \<and>
     pl_ingressPool (ct_sink (Controller_apply pipeline_sink c ev)) = pl_ingressPool (ct_sink c)"
  using pipe.apply_keeps [of c ev]
  by (auto simp: Controller_apply_def pipeline_sink_def EndUtterance_def BargeIn_def
      split: prod.splits sum.splits Action.splits)

lemma controller_books:
  assumes "down_ok s"
  shows "down_books rate s (s\<lparr>ss_ctrl := Controller_apply pipeline_sink (ss_ctrl s) ev\<rparr>) [] []"
proof -
  have "pipeline_inv (ct_sink (ss_ctrl s))" using assms by (simp add: down_ok_def session_ok_def)
  from controller_apply_pool [OF this, of ev] assms show ?thesis
    by (intro down_books_quiet) (auto simp: down_ok_def session_ok_def pending_def)
qed

lemma write_books:
  assumes "down_ok s" "down_ok (fst (writeFrame typ ts payload s1))" "ss_downlinkSeq s1 = ss_downlinkSeq s"
    "ss_clockUs s1 = ss_clockUs s" "ss_pumped s1 = ss_pumped s"
    "audio_msgs (ss_wire s) = (if typ = FRAME_TYPE_AUDIO then [(word_of_int ts, payload)] else []) @ audio_msgs (ss_wire s1)"
    "writeFrame typ ts payload s1 = (s', f)"
  shows "down_books rate s s' [] [f]"
  using assms by (auto simp: down_books_def writeFrame_def Let_def pending_def frame_view_def down_ok_def)

lemma synth_books:
  assumes "down_ok s"
  shows "\<exists>s'. synth f s = Some s' \<and> down_books rate s s' [] []"
proof -
  have "edge_inv (pl_egress (ss_pipe s))" using assms by (simp add: down_ok_def session_ok_def pipeline_inv_def)
  from edge_push_ok [OF this, of f] obtain e ok where
    "edge_push (pl_egress (ss_pipe s)) f = Some (e, ok)" "edge_inv e" by blast
  with assms show ?thesis
    by (auto simp: synth_def down_ok_def session_ok_def pipeline_inv_def set_pipe_def pending_def intro!: down_books_quiet)
qed

lemma flush_books:
  assumes "down_ok s"
  shows "\<exists>s'. flush s = Some s' \<and> down_books rate s s' [] []"
proof -
  have "edge_inv (pl_egress (ss_pipe s))" using assms by (simp add: down_ok_def session_ok_def pipeline_inv_def)
  from edge_drain_ok [OF this] obtain e n where "edge_drain (pl_egress (ss_pipe s)) = Some (e, n)" "edge_inv e" by blast
  with assms show ?thesis
    by (auto simp: flush_def down_ok_def session_ok_def pipeline_inv_def set_pipe_def pending_def intro!: down_books_quiet)
qed

lemma pump_books:
  assumes "down_ok s"
  shows "\<exists>s'. audioPump rate s = Some s' \<and>
    down_books rate s s' (if ss_pumped s = None then take 1 (edge_frames (pl_egress (ss_pipe s))) else []) []"
proof (cases "ss_pumped s")
  case (Some m)
  with assms show ?thesis
    by (auto simp: audioPump_def audioPump_send_def down_books_def down_ok_def session_ok_def pending_def)
next
  case None
  have inv: "edge_inv (pl_egress (ss_pipe s))" using assms by (simp add: down_ok_def session_ok_def pipeline_inv_def)
  show ?thesis
  proof (cases "edge_frames (pl_egress (ss_pipe s))")
    case Nil
    with edge_pop_nil [OF inv] None assms show ?thesis
      by (simp add: audioPump_def audioPump_take_def down_books_quiet)
  next
    case (Cons f fs)
    from edge_pop_cons [OF inv this] obtain e where
      "edge_pop (pl_egress (ss_pipe s)) = Some (e, f, True)" "edge_inv e" by blast
    with Cons None assms show ?thesis
      by (simp add: audioPump_def audioPump_take_def down_books_def down_ok_def session_ok_def pipeline_inv_def
          set_pipe_def pending_def msg_view_def)
  qed
qed

lemma down_step_books:
  assumes "down_ok s"
  shows "\<exists>s' fs ws. down_step cd rate op s = Some (s', fs, ws) \<and> down_books rate s s' fs ws"
proof (cases op)
  case (DnSynth f)
  with synth_books [OF assms, of f rate] show ?thesis by auto
next
  case DnPump
  with pump_books [OF assms, of rate] show ?thesis by auto
next
  case DnFlush
  with flush_books [OF assms, of rate] show ?thesis by auto
next
  case (DnTurnEnd b)
  note c = controller_books [OF assms, of rate ResponseDone]
  then have "down_ok (s\<lparr>ss_ctrl := Controller_apply pipeline_sink (ss_ctrl s) ResponseDone\<rparr>)" by (simp add: down_books_def)
  from down_books_trans [OF c control_books [OF this]] c DnTurnEnd show ?thesis
    by (auto simp: OnTurnEnd_def Controller_ResponseDone_def Let_def)
next
  case (DnAck a detail)
  show ?thesis
  proof (cases "write_ack cd a detail s")
    case None
    with DnAck assms show ?thesis by (simp add: down_books_quiet)
  next
    case (Some r)
    then obtain s1 f payload where r: "writeFrame FRAME_TYPE_CONTROL 0 payload s = (s1, f)" "r = (s1, f)"
      by (cases r) (auto simp: write_ack_def)
    have "down_books rate s s1 [] [f]"
      using r(1) assms by (intro write_books [where s = s and ts = 0])
        (auto simp: writeFrame_def Let_def down_ok_def session_ok_def)
    with Some r DnAck show ?thesis by simp
  qed
next
  case (DnWrite ok now)
  show ?thesis
  proof (cases "ss_wire s")
    case Nil
    with DnWrite assms show ?thesis by (simp add: write_next_def down_books_quiet)
  next
    case (Cons m ms)
    obtain s1 f where w: "writeFrame (wm_typ m) (wm_tsUs m) (wm_payload m) (s\<lparr>ss_wire := ms\<rparr>) = (s1, f)" by force
    have "down_books rate s s1 [] [f]"
      using w Cons assms by (intro write_books [where s = s and ?s1.0 = "s\<lparr>ss_wire := ms\<rparr>"])
        (auto simp: writeFrame_def Let_def down_ok_def session_ok_def msg_view_def)
    then have "down_books rate s (touch now s1) [] [f]"
      by (auto simp: down_books_def down_ok_def session_ok_def touch_def pending_def)
    with \<open>down_books rate s s1 [] [f]\<close> Cons w DnWrite show ?thesis by (cases ok) (simp_all add: write_next_def)
  qed
qed (use assms text_books controller_books in
  \<open>auto simp: OnTranscript_def OnToken_def OnTurnStart_def Controller_ResponseStarted_def\<close>)

lemma down_run_books:
  "down_ok s \<Longrightarrow> \<exists>s' fs ws. down_run cd rate ops s = Some (s', fs, ws) \<and> down_books rate s s' fs ws"
proof (induction ops arbitrary: s)
  case (Cons op ops)
  from down_step_books [OF Cons.prems] obtain s1 fs1 ws1 where
    s1: "down_step cd rate op s = Some (s1, fs1, ws1)" "down_books rate s s1 fs1 ws1" by blast
  then have "down_ok s1" by (simp add: down_books_def)
  from Cons.IH [OF this] obtain s2 fs2 ws2 where
    "down_run cd rate ops s1 = Some (s2, fs2, ws2)" "down_books rate s1 s2 fs2 ws2" by blast
  with s1 show ?case by (auto intro: down_books_trans)
qed (simp add: down_books_quiet)

section \<open>Drift of the clock\<close>

definition samples_of :: "AudioFrame list \<Rightarrow> int" where
  "samples_of fs = sum_list (map (\<lambda>f. int (buf_len (af_PCM f) div 2)) fs)"

lemma samples_of_nonneg: "0 \<le> samples_of fs"
  by (auto simp: samples_of_def intro!: sum_list_nonneg)

lemma scaled_sum_less:
  fixes t :: int
  assumes "0 < rate" "0 \<le> t" "0 \<le> q" "rate * t \<le> tot" "rate * q + r = n" "0 \<le> r" "tot + n < b"
  shows "t + q < b"
proof -
  have "1 * (t + q) \<le> rate * (t + q)" using assms(1-3) by (intro mult_right_mono) auto
  also have "\<dots> \<le> tot + n" using assms(4-6) by (simp add: distrib_left)
  finally show ?thesis using assms(7) by simp
qed

lemma drift_step:
  fixes t :: int
  assumes "rate * t \<le> tot" "tot \<le> rate * t + (rate - 1) * k" "rate * q + r = n" "0 \<le> r" "r \<le> rate - 1"
  shows "rate * (t + q) \<le> tot + n \<and> tot + n \<le> rate * (t + q) + (rate - 1) * (k + 1)"
  using assms by (simp add: algebra_simps)

lemma clock_drift:
  assumes "0 < rate"
  shows "samples_of fs * 1000000 < 2 ^ 63 \<Longrightarrow>
    0 \<le> clock_after rate 0 fs \<and> rate * clock_after rate 0 fs \<le> samples_of fs * 1000000 \<and>
    samples_of fs * 1000000 \<le> rate * clock_after rate 0 fs + (rate - 1) * int (length fs)"
proof (induction fs rule: rev_induct)
  case (snoc f fs)
  let ?n = "int (buf_len (af_PCM f) div 2) * 1000000"
  let ?t = "clock_after rate 0 fs"
  have tot: "samples_of (fs @ [f]) * 1000000 = samples_of fs * 1000000 + ?n" by (simp add: samples_of_def distrib_right)
  with snoc.prems have less: "samples_of fs * 1000000 + ?n < 2 ^ 63" by simp
  moreover have "0 \<le> ?n" by simp
  ultimately have IH: "0 \<le> ?t" "rate * ?t \<le> samples_of fs * 1000000"
    "samples_of fs * 1000000 \<le> rate * ?t + (rate - 1) * int (length fs)"
    using snoc.IH by linarith+
  have n: "wrap_int ?n = ?n" using less samples_of_nonneg [of fs] by (intro wrap_int_id) auto
  have dm: "rate * (?n div rate) + ?n mod rate = ?n" by simp
  have md: "0 \<le> ?n mod rate" "?n mod rate \<le> rate - 1" using assms pos_mod_bound [of rate ?n] by auto
  have d0: "0 \<le> ?n div rate" using assms by (simp add: pos_imp_zdiv_nonneg_iff)
  have "?t + ?n div rate < 2 ^ 63"
    using scaled_sum_less [OF assms IH(1) d0 IH(2) dm md(1) less] .
  then have c: "clock_after rate 0 (fs @ [f]) = ?t + ?n div rate"
    using n d0 IH(1) assms by (simp add: clock_step_def sdiv_pos_eq wrap_int_id)
  show ?case
    unfolding c tot using drift_step [OF IH(2,3) dm md] IH(1) d0 by (simp add: add.commute)
qed (simp add: samples_of_def)

text \<open>
  C14: The downlink is one stream: for a fresh session, whatever synthesis, transcripts, tokens, turns,
  reconnections and failing writes do and in whatever order, every call returns; the audio frames
  written, queued and in the pump's hand are exactly the frames taken from the egress ring, in order,
  each stamped with the clock before it; the sequence numbers written are consecutive; and the clock
  is behind the audio taken by less than a microsecond per frame.
\<close>

theorem downlink_stream:
  assumes "fresh_session sid now s" "0 < rate"
  shows "\<exists>s' fs ws. down_run cd rate ops s = Some (s', fs, ws) \<and>
    audio_frames ws @ pending s' = audio_msgs (stamped rate 0 fs) \<and>
    map frame_seq ws = map (\<lambda>i. word_of_nat (i + 1)) [0..<length ws] \<and>
    length (ss_wire s') \<le> wireCap \<and>
    (samples_of fs * 1000000 < 2 ^ 63 \<longrightarrow>
       rate * ss_clockUs s' \<le> samples_of fs * 1000000 \<and>
       samples_of fs * 1000000 \<le> rate * ss_clockUs s' + (rate - 1) * int (length fs))"
proof -
  have "down_ok s" using assms(1) by (simp add: fresh_session_def down_ok_def)
  from down_run_books [OF this, of cd rate ops] obtain s' fs ws where
    r: "down_run cd rate ops s = Some (s', fs, ws)" "down_books rate s s' fs ws" by blast
  have z: "ss_clockUs s = 0" "pending s = []" "ss_downlinkSeq s = 0"
    using assms(1) by (simp_all add: fresh_session_def pending_def)
  from r(2) have "length (ss_wire s') \<le> wireCap" by (simp add: down_books_def down_ok_def session_ok_def)
  moreover from r(2) z have "audio_frames ws @ pending s' = audio_msgs (stamped rate 0 fs)"
    "map frame_seq ws = map (\<lambda>i. word_of_nat (i + 1)) [0..<length ws]" "ss_clockUs s' = clock_after rate 0 fs"
    by (simp_all add: down_books_def)
  ultimately show ?thesis using r(1) clock_drift [OF assms(2), of fs] by auto
qed

definition tone :: AudioFrame where
  "tone = \<lparr>af_PCM = \<lparr>buf_arr = [1, 0, 2, 0, 3, 0], buf_len = 6\<rparr>, af_TsUs = 0\<rparr>"

text \<open>Three samples at 16 kHz are 187.5 microseconds; the clock counts 187.\<close>

theorem downlink_stream_witness:
  "\<exists>s s' ws. newSession (Default []) ''x'' 0 = Some (Inr s) \<and>
     down_run demo_codec 16000 [DnAck 0 ''created'', DnAck 1 ''resumed'', DnSynth tone, DnPump] s = Some (s', [tone], ws) \<and>
     map frame_seq ws = [1, 2] \<and> ss_clockUs s' = 187"
proof -
  let ?ops = "[DnAck 0 ''created'', DnAck 1 ''resumed'', DnSynth tone, DnPump]"
  obtain s where s: "newSession (Default []) ''x'' 0 = Some (Inr s)" "fresh_session ''x'' 0 s"
    using newSession_Default by blast
  from downlink_stream [OF s(2), of 16000 demo_codec ?ops] obtain s' fs ws where
    r: "down_run demo_codec 16000 ?ops s = Some (s', fs, ws)"
    "map frame_seq ws = map (\<lambda>i. word_of_nat (i + 1)) [0..<length ws]"
    "samples_of fs * 1000000 < 2 ^ 63 \<longrightarrow> 16000 * ss_clockUs s' \<le> samples_of fs * 1000000 \<and>
       samples_of fs * 1000000 \<le> 16000 * ss_clockUs s' + 15999 * int (length fs)" by auto
  have inv: "edge_inv (pl_egress (ss_pipe s))" "edge_frames (pl_egress (ss_pipe s)) = []" "ss_pumped s = None"
    using s(2) by (simp_all add: fresh_session_def session_ok_def pipeline_inv_def)
  then have "0 < Ring_Cap (eg_ring (pl_egress (ss_pipe s)))" by (simp add: edge_inv_def ring_cap_pos)
  with edge_push_ok [OF inv(1), of tone] inv(2) obtain e ok where
    e: "edge_push (pl_egress (ss_pipe s)) tone = Some (e, ok)" "edge_frames e = [tone]"
    by (auto simp: pushed_frames_def)
  from r(1) inv(3) e have fs: "fs = [tone]" "length ws = 2"
    by (auto simp: write_ack_def demo_codec_def writeFrame_def Let_def synth_def set_pipe_def)
  with r(3) have "ss_clockUs s' = 187" by (simp add: samples_of_def tone_def)
  moreover have "map frame_seq ws = [1, 2]" using r(2) fs(2) by (simp add: upt_rec)
  ultimately show ?thesis using s(1) r(1) [unfolded fs(1)]
    by (intro exI [of _ s] exI [of _ s'] exI [of _ ws] conjI)
qed

section \<open>The signal that is overtaken\<close>

text \<open>A session with one frame in its egress ring, taken by the pump.\<close>

lemma pump_in_hand:
  assumes "fresh_session sid now s"
  shows "\<exists>s1. down_run cd rate [DnSynth f, DnPump] s = Some (s1, [f], []) \<and> session_ok s1 \<and> ss_wire s1 = [] \<and>
    edge_frames (pl_egress (ss_pipe s1)) = [] \<and>
    ss_pumped s1 = Some \<lparr>wm_typ = FRAME_TYPE_AUDIO, wm_tsUs = 0, wm_payload = buf_data (af_PCM f)\<rparr>"
proof -
  have ok: "session_ok s" "edge_inv (pl_egress (ss_pipe s))" "edge_frames (pl_egress (ss_pipe s)) = []"
    "ss_pumped s = None" "ss_wire s = []" "ss_clockUs s = 0"
    using assms by (simp_all add: fresh_session_def session_ok_def pipeline_inv_def)
  then have "0 < Ring_Cap (eg_ring (pl_egress (ss_pipe s)))" by (simp add: edge_inv_def ring_cap_pos)
  with edge_push_ok [OF ok(2), of f] ok(3) obtain e b where
    e: "edge_push (pl_egress (ss_pipe s)) f = Some (e, b)" "edge_inv e" "edge_frames e = [f]"
    by (auto simp: pushed_frames_def)
  from edge_pop_cons [OF e(2,3)] obtain e2 where
    "edge_pop e = Some (e2, f, True)" "edge_inv e2" "edge_frames e2 = []" by blast
  with e ok show ?thesis
    by (simp add: synth_def set_pipe_def audioPump_def audioPump_take_def session_ok_def pipeline_inv_def)
qed

text \<open>
  The barge-in signal can be overtaken: from every fresh session there is a schedule in which the
  pump has taken a frame of the cancelled turn, the flush finds the egress ring empty, the turn ends,
  and the client is sent the \<open>BARGE_IN\<close> first and the cancelled turn's audio after it.
\<close>

theorem barge_in_overtaken:
  assumes "fresh_session sid now s" "cd_control cd (control_of KIND_BARGE_IN) = Some payload"
  shows "\<exists>s' w1 w2. down_run cd rate [DnSynth f, DnPump, DnFlush, DnTurnEnd True, DnPump, DnWrite True t, DnWrite True t] s =
      Some (s', [f], [w1, w2]) \<and>
    frame_type w1 = FRAME_TYPE_CONTROL \<and> frame_payload w1 = payload \<and>
    frame_type w2 = FRAME_TYPE_AUDIO \<and> frame_payload w2 = buf_data (af_PCM f)"
proof -
  obtain s1 where s1: "down_run cd rate [DnSynth f, DnPump] s = Some (s1, [f], [])" "session_ok s1" "ss_wire s1 = []"
    "edge_frames (pl_egress (ss_pipe s1)) = []"
    "ss_pumped s1 = Some \<lparr>wm_typ = FRAME_TYPE_AUDIO, wm_tsUs = 0, wm_payload = buf_data (af_PCM f)\<rparr>"
    using pump_in_hand [OF assms(1)] by blast
  have "edge_inv (pl_egress (ss_pipe s1))" using s1(2) by (simp add: session_ok_def pipeline_inv_def)
  from edge_drain_ok [OF this] obtain e n where e: "edge_drain (pl_egress (ss_pipe s1)) = Some (e, n)" by blast
  let ?rest = "[DnFlush, DnTurnEnd True, DnPump, DnWrite True t, DnWrite True t]"
  have "\<exists>s' w1 w2. down_run cd rate ?rest s1 = Some (s', [], [w1, w2]) \<and>
      frame_type w1 = FRAME_TYPE_CONTROL \<and> frame_payload w1 = payload \<and>
      frame_type w2 = FRAME_TYPE_AUDIO \<and> frame_payload w2 = buf_data (af_PCM f)"
    using s1(3,5)
    by (simp add: e flush_def OnTurnEnd_def enqueueControl_def assms(2) wire_offer_def chan_offer_def wireCap_def set_pipe_def
        audioPump_def audioPump_send_def write_next_def writeFrame_def Let_def touch_def)
  moreover have "down_run cd rate ([DnSynth f, DnPump] @ ?rest) s =
      map_option (\<lambda>(s2, fs2, ws2). (s2, [f] @ fs2, [] @ ws2)) (down_run cd rate ?rest s1)"
    unfolding down_run_append s1(1) by simp
  ultimately show ?thesis by auto
qed

theorem barge_in_overtaken_witness:
  "\<exists>s s' w1 w2. newSession (Default []) ''x'' 0 = Some (Inr s) \<and>
     down_run demo_codec 16000 [DnSynth tone, DnPump, DnFlush, DnTurnEnd True, DnPump, DnWrite True 5, DnWrite True 5] s =
       Some (s', [tone], [w1, w2]) \<and>
     frame_type w1 = FRAME_TYPE_CONTROL \<and> frame_payload w2 = [1, 0, 2, 0, 3, 0]"
proof -
  obtain s where s: "newSession (Default []) ''x'' 0 = Some (Inr s)" "fresh_session ''x'' 0 s"
    using newSession_Default by blast
  have "cd_control demo_codec (control_of KIND_BARGE_IN) = Some []" by (simp add: demo_codec_def)
  from barge_in_overtaken [OF s(2) this, of 16000 tone 5] s(1) show ?thesis
    by (auto simp: tone_def buf_data_def)
qed

end
