(* ===== verification/Sesslock.thy ===== *)
theory Sesslock
  imports Session
begin

text \<open>
  The concurrency of a session (\<open>internal/session/session.go\<close> and \<open>reclaim\<close> of \<open>manager.go\<close>): the
  read loops and writers of its attachments, the handlers that attach connections, and whatever
  reclaims it, interleaved in every way. Each thread has a program counter. A critical section
  of the mutex \<open>mu\<close> that does not block is one step, enabled while the mutex is free; \<open>attach\<close> waits
  for the old reader inside its critical section, so it takes the mutex in one step and releases it
  in another. The manager's own mutex never encloses a blocking operation.
\<close>

section \<open>Threads\<close>

text \<open>A reader waits for a frame, has one that passed the test for staleness, is about to reclaim the
  session, is about to lock the mutex in \<open>close\<close>, has left that critical section, or has exited.\<close>

datatype read_pc = RdStart | RdAwait buf | RdGot Frame buf buf | RdStop | RdClosing | RdClosed "nat option" | RdExited

text \<open>A handler in \<open>attach\<close>: before the lock, waiting for the reader of an attachment with the mutex held,
  or returned.\<close>

datatype attach_pc = AtIdle | AtWant u64 | AtWait nat u64 | AtDone nat | AtRefused attach_error

text \<open>Any other thread in \<open>reclaim\<close>: the idle reaper, the shutdown, the death of the pipeline.\<close>

datatype reclaim_pc = RcIdle | RcClosing | RcClosed "nat option" | RcDone

record world =
  w_sess :: Session
  w_mu :: "nat option"
  w_listed :: bool
  w_read :: "nat \<Rightarrow> read_pc"
  w_attach :: "nat \<Rightarrow> attach_pc"
  w_reclaim :: "nat \<Rightarrow> reclaim_pc"
  w_delivered :: "(u64 \<times> u64) list"

abbreviation w_atts :: "world \<Rightarrow> attachment list" where
  "w_atts w \<equiv> ss_atts (w_sess w)"

definition world_of :: "Session \<Rightarrow> world" where
  "world_of s = \<lparr>w_sess = s, w_mu = None, w_listed = True, w_read = (\<lambda>_. RdExited), w_attach = (\<lambda>_. AtIdle),
     w_reclaim = (\<lambda>_. RcIdle), w_delivered = []\<rparr>"

text \<open>The end of \<open>attach\<close>: the epoch, the new attachment with its loops, the unlock.\<close>

definition bind_attachment :: "nat \<Rightarrow> u64 \<Rightarrow> instant \<Rightarrow> world \<Rightarrow> world" where
  "bind_attachment k e now w =
     (let a = length (w_atts w) in
      w\<lparr>w_sess := attach_bind e now (w_sess w), w_mu := None, w_read := (w_read w)(a := RdStart),
        w_attach := (w_attach w)(k := AtDone a)\<rparr>)"

text \<open>The log of what the detector and the pipeline were given, with the epoch of the attachment.\<close>

definition log_delivery :: "nat \<Rightarrow> Frame \<Rightarrow> world \<Rightarrow> (u64 \<times> u64) list" where
  "log_delivery a f w =
     w_delivered w @ (if delivers f (w_sess w) then [(ats_epoch (w_atts w ! a), frame_seq f)] else [])"

definition reader_exits :: "nat \<Rightarrow> Session \<Rightarrow> world \<Rightarrow> world" where
  "reader_exits a s w = w\<lparr>w_sess := reader_exit a s, w_read := (w_read w)(a := RdExited)\<rparr>"

text \<open>What the goroutines not shown here may do: anything that leaves the mutex's fields, the
  attachments and the watermark alone.\<close>

definition other_goroutines :: "Session \<Rightarrow> Session \<Rightarrow> bool" where
  "other_goroutines s s' \<longleftrightarrow> session_ok s' \<and> ss_id s' = ss_id s \<and> ss_epoch s' = ss_epoch s \<and> ss_att s' = ss_att s \<and>
     ss_closed s' = ss_closed s \<and> ss_atts s' = ss_atts s \<and> ss_uplinkFloor s' = ss_uplinkFloor s"

inductive world_step :: "codec \<Rightarrow> bool \<Rightarrow> world \<Rightarrow> world \<Rightarrow> bool" for cd :: codec and pooled :: bool where
  dial: "w_attach w k = AtIdle \<Longrightarrow> world_step cd pooled w (w\<lparr>w_attach := (w_attach w)(k := AtWant e)\<rparr>)"
| refuse: "w_attach w k = AtWant e \<Longrightarrow> w_mu w = None \<Longrightarrow> attach_check e (w_sess w) = Some err \<Longrightarrow>
    world_step cd pooled w (w\<lparr>w_attach := (w_attach w)(k := AtRefused err)\<rparr>)"
| attach_free: "w_attach w k = AtWant e \<Longrightarrow> w_mu w = None \<Longrightarrow> attach_check e (w_sess w) = None \<Longrightarrow>
    ss_att (w_sess w) = None \<Longrightarrow> world_step cd pooled w (bind_attachment k e now w)"
| attach_lock: "w_attach w k = AtWant e \<Longrightarrow> w_mu w = None \<Longrightarrow> attach_check e (w_sess w) = None \<Longrightarrow>
    ss_att (w_sess w) = Some old \<Longrightarrow>
    world_step cd pooled w (w\<lparr>w_sess := attach_supersede (w_sess w), w_mu := Some k,
      w_attach := (w_attach w)(k := AtWait old e)\<rparr>)"
| attach_go: "w_attach w k = AtWait old e \<Longrightarrow> ats_readExited (w_atts w ! old) \<Longrightarrow>
    world_step cd pooled w (bind_attachment k e now w)"
| read_start: "w_read w a = RdStart \<Longrightarrow> (if pooled then pool_Get (w_sess w) else Some (w_sess w, nil_buf)) = Some (s, b) \<Longrightarrow>
    world_step cd pooled w (w\<lparr>w_sess := s, w_read := (w_read w)(a := RdAwait b)\<rparr>)"
| read_stale: "w_read w a = RdAwait b \<Longrightarrow> ats_stale (w_atts w ! a) \<Longrightarrow>
    world_step cd pooled w (w\<lparr>w_sess := stale_frame (w_sess w), w_read := (w_read w)(a := RdAwait b2)\<rparr>)"
| read_fresh: "w_read w a = RdAwait b \<Longrightarrow> \<not> ats_stale (w_atts w ! a) \<Longrightarrow>
    world_step cd pooled w (w\<lparr>w_read := (w_read w)(a := RdGot f payload b2)\<rparr>)"
| read_error: "w_read w a = RdAwait b \<Longrightarrow> world_step cd pooled w (reader_exits a (w_sess w) w)"
| read_frame: "w_read w a = RdGot f payload b \<Longrightarrow>
    readLoop_frame cd pooled now f payload b (w_sess w) = Some (s, NextRead b2) \<Longrightarrow>
    world_step cd pooled w (w\<lparr>w_sess := s, w_read := (w_read w)(a := RdAwait b2), w_delivered := log_delivery a f w\<rparr>)"
| read_stop: "w_read w a = RdGot f payload b \<Longrightarrow>
    readLoop_frame cd pooled now f payload b (w_sess w) = Some (s, NextStop) \<Longrightarrow>
    world_step cd pooled w (w\<lparr>w_sess := s, w_read := (w_read w)(a := RdStop)\<rparr>)"
| stop_gone: "w_read w a = RdStop \<Longrightarrow> \<not> w_listed w \<Longrightarrow> world_step cd pooled w (reader_exits a (w_sess w) w)"
| stop_delist: "w_read w a = RdStop \<Longrightarrow> w_listed w \<Longrightarrow>
    world_step cd pooled w (w\<lparr>w_listed := False, w_read := (w_read w)(a := RdClosing)\<rparr>)"
| stop_closed: "w_read w a = RdClosing \<Longrightarrow> w_mu w = None \<Longrightarrow> ss_closed (w_sess w) \<Longrightarrow>
    world_step cd pooled w (reader_exits a (w_sess w) w)"
| stop_mark: "w_read w a = RdClosing \<Longrightarrow> w_mu w = None \<Longrightarrow> \<not> ss_closed (w_sess w) \<Longrightarrow>
    close_mark (w_sess w) = (s, att) \<Longrightarrow>
    world_step cd pooled w (w\<lparr>w_sess := s, w_read := (w_read w)(a := RdClosed att)\<rparr>)"
| stop_cancel: "w_read w a = RdClosed att \<Longrightarrow>
    world_step cd pooled w (reader_exits a (close_cancel att (w_sess w)) w)"
| reclaim_delist: "w_reclaim w k = RcIdle \<Longrightarrow> w_listed w \<Longrightarrow>
    world_step cd pooled w (w\<lparr>w_listed := False, w_reclaim := (w_reclaim w)(k := RcClosing)\<rparr>)"
| reclaim_closed: "w_reclaim w k = RcClosing \<Longrightarrow> w_mu w = None \<Longrightarrow> ss_closed (w_sess w) \<Longrightarrow>
    world_step cd pooled w (w\<lparr>w_reclaim := (w_reclaim w)(k := RcDone)\<rparr>)"
| reclaim_mark: "w_reclaim w k = RcClosing \<Longrightarrow> w_mu w = None \<Longrightarrow> \<not> ss_closed (w_sess w) \<Longrightarrow>
    close_mark (w_sess w) = (s, att) \<Longrightarrow>
    world_step cd pooled w (w\<lparr>w_sess := s, w_reclaim := (w_reclaim w)(k := RcClosed att)\<rparr>)"
| reclaim_cancel: "w_reclaim w k = RcClosed att \<Longrightarrow>
    world_step cd pooled w (w\<lparr>w_sess := close_cancel att (w_sess w), w_reclaim := (w_reclaim w)(k := RcDone)\<rparr>)"
| write_exit: "world_step cd pooled w (w\<lparr>w_sess := writer_exit a (w_sess w)\<rparr>)"
| detach: "w_mu w = None \<Longrightarrow> a < length (w_atts w) \<Longrightarrow> ats_readExited (w_atts w ! a) \<Longrightarrow> ats_writeExited (w_atts w ! a) \<Longrightarrow>
    world_step cd pooled w (w\<lparr>w_sess := detach a (w_sess w)\<rparr>)"
| others: "other_goroutines (w_sess w) s \<Longrightarrow> world_step cd pooled w (w\<lparr>w_sess := s\<rparr>)"

inductive world_reach :: "codec \<Rightarrow> bool \<Rightarrow> world \<Rightarrow> world \<Rightarrow> bool" for cd :: codec and pooled :: bool and w0 :: world where
  here: "world_reach cd pooled w0 w0"
| step: "world_reach cd pooled w0 w \<Longrightarrow> world_step cd pooled w w' \<Longrightarrow> world_reach cd pooled w0 w'"

section \<open>Invariant\<close>

definition epochs :: "Session \<Rightarrow> u64 list" where
  "epochs s = map ats_epoch (ss_atts s)"

definition exits :: "Session \<Rightarrow> bool list" where
  "exits s = map ats_readExited (ss_atts s)"

text \<open>A reader that has not exited belongs to the attachment in place, whose epoch is the session's.\<close>

definition reader_ok :: "world \<Rightarrow> nat \<Rightarrow> bool" where
  "reader_ok w a \<longleftrightarrow>
     (if w_read w a = RdExited then a < length (exits (w_sess w)) \<longrightarrow> exits (w_sess w) ! a
      else a < length (exits (w_sess w)) \<and> \<not> exits (w_sess w) ! a \<and> ss_att (w_sess w) = Some a \<and>
        epochs (w_sess w) ! a = ss_epoch (w_sess w))"

fun attacher_ok :: "world \<Rightarrow> nat \<Rightarrow> attach_pc \<Rightarrow> bool" where
  "attacher_ok w k (AtWait old e) \<longleftrightarrow> w_mu w = Some k \<and> ss_att (w_sess w) = Some old \<and> ss_epoch (w_sess w) < e \<and>
     \<not> ss_closed (w_sess w)"
| "attacher_ok w k _ \<longleftrightarrow> w_mu w \<noteq> Some k"

definition delivered_before :: "u64 \<times> u64 \<Rightarrow> u64 \<times> u64 \<Rightarrow> bool" where
  "delivered_before x y \<longleftrightarrow> fst x \<le> fst y \<and> snd x < snd y"

definition log_ok :: "Session \<Rightarrow> (u64 \<times> u64) list \<Rightarrow> bool" where
  "log_ok s l \<longleftrightarrow> sorted_wrt delivered_before l \<and>
     list_all (\<lambda>x. fst x \<le> ss_epoch s \<and> snd x \<le> ss_uplinkFloor s) l"

definition epochs_ok :: "Session \<Rightarrow> bool" where
  "epochs_ok s \<longleftrightarrow> sorted_wrt (<) (epochs s) \<and> list_all (\<lambda>e. e \<le> ss_epoch s) (epochs s) \<and>
     (case ss_att s of None \<Rightarrow> True | Some a \<Rightarrow> a < length (epochs s))"

definition world_inv :: "world \<Rightarrow> bool" where
  "world_inv w \<longleftrightarrow> session_ok (w_sess w) \<and> epochs_ok (w_sess w) \<and> log_ok (w_sess w) (w_delivered w) \<and>
     (\<forall>a. reader_ok w a) \<and> (\<forall>k. attacher_ok w k (w_attach w k))"

lemma length_views [simp]: "length (epochs s) = length (ss_atts s)" "length (exits s) = length (ss_atts s)"
  by (simp_all add: epochs_def exits_def)

text \<open>A step that leaves the mutex's fields, the epochs and the exits alone, and starts or ends no
  reader, keeps the invariant.\<close>

definition same_view :: "Session \<Rightarrow> Session \<Rightarrow> bool" where
  "same_view s s' \<longleftrightarrow> ss_epoch s' = ss_epoch s \<and> ss_att s' = ss_att s \<and> ss_closed s' = ss_closed s \<and>
     epochs s' = epochs s \<and> exits s' = exits s \<and> ss_uplinkFloor s' = ss_uplinkFloor s"

lemma world_inv_frame:
  assumes "world_inv w" "session_ok (w_sess w')" "same_view (w_sess w) (w_sess w')" "w_mu w' = w_mu w"
    "w_delivered w' = w_delivered w" "\<And>a. w_read w' a = RdExited \<longleftrightarrow> w_read w a = RdExited"
    "\<And>k. attacher_ok w k (w_attach w k) \<Longrightarrow> attacher_ok w k (w_attach w' k)"
  shows "world_inv w'"
proof -
  have len: "length (ss_atts (w_sess w')) = length (ss_atts (w_sess w))"
    using assms(3) length_views unfolding same_view_def by metis
  have r: "reader_ok w' a \<longleftrightarrow> reader_ok w a" for a
    using assms(3,6) len by (auto simp: reader_ok_def same_view_def)
  have at: "attacher_ok w' k pc \<longleftrightarrow> attacher_ok w k pc" for k pc
    using assms(3,4) by (cases pc) (auto simp: same_view_def)
  show ?thesis
    using assms(1-3,5,7) len unfolding world_inv_def r at
    by (auto simp: epochs_ok_def log_ok_def same_view_def split: option.splits)
qed

lemma same_view_lock: "same_lock s s' \<Longrightarrow> ss_uplinkFloor s' = ss_uplinkFloor s \<Longrightarrow> same_view s s'"
  by (simp add: same_view_def same_lock_def epochs_def exits_def)

lemma map_list_update_same:
  "(\<And>t. h (g t) = h t) \<Longrightarrow> map h (xs[a := g (xs ! a)]) = map h xs"
  by (cases "a < length xs") (simp_all add: map_update list_update_same_conv list_update_beyond)

lemma same_view_set_att:
  assumes "\<And>t. ats_epoch (g t) = ats_epoch t" "\<And>t. ats_readExited (g t) = ats_readExited t"
  shows "same_view s (set_att a g s)"
  using map_list_update_same [of ats_epoch g "ss_atts s" a] map_list_update_same [of ats_readExited g "ss_atts s" a] assms
  by (simp add: same_view_def epochs_def exits_def set_att_def)

lemma same_view_trans: "same_view s s1 \<Longrightarrow> same_view s1 s2 \<Longrightarrow> same_view s s2"
  by (simp add: same_view_def)

lemma set_att_fields [simp]:
  "ss_ctrl (set_att a g s) = ss_ctrl s" "ss_wire (set_att a g s) = ss_wire s" "ss_epoch (set_att a g s) = ss_epoch s"
  "ss_att (set_att a g s) = ss_att s" "ss_closed (set_att a g s) = ss_closed s"
  "ss_uplinkFloor (set_att a g s) = ss_uplinkFloor s" "length (ss_atts (set_att a g s)) = length (ss_atts s)"
  by (simp_all add: set_att_def)

lemma session_ok_set_att: "session_ok s \<Longrightarrow> session_ok (set_att a g s)"
  by (rule session_ok_cong) simp_all

lemma supersede_view: "same_view s (attach_supersede s)"
  by (cases "ss_att s") (auto simp: attach_supersede_def same_view_def [of s s] intro: same_view_set_att)

lemma supersede_ok: "session_ok s \<Longrightarrow> session_ok (attach_supersede s)"
  by (cases "ss_att s") (auto simp: attach_supersede_def intro: session_ok_set_att)

lemma close_cancel_view: "same_view s (close_cancel a s)"
proof -
  let ?s = "s\<lparr>ss_runCancelled := True, ss_atts := map (\<lambda>t. t\<lparr>ats_cancelled := True\<rparr>) (ss_atts s)\<rparr>"
  have "same_view s ?s" by (simp add: same_view_def epochs_def exits_def comp_def)
  moreover have "same_view ?s (set_att i (\<lambda>t. t\<lparr>ats_closed := True\<rparr>) ?s)" for i by (rule same_view_set_att) simp_all
  ultimately show ?thesis by (cases a) (auto simp: close_cancel_def Let_def intro: same_view_trans)
qed

lemma close_cancel_ok: "session_ok s \<Longrightarrow> session_ok (close_cancel a s)"
  by (cases a) (simp_all add: close_cancel_def Let_def session_ok_def)

lemma writer_exit_view: "same_view s (writer_exit a s)"
  unfolding writer_exit_def by (rule same_view_set_att) simp_all

lemma writer_exit_ok: "session_ok s \<Longrightarrow> session_ok (writer_exit a s)"
  by (simp add: writer_exit_def session_ok_set_att)

text \<open>The end of a reader.\<close>

lemma reader_exit_fields [simp]:
  "ss_ctrl (reader_exit a s) = ss_ctrl s" "ss_wire (reader_exit a s) = ss_wire s" "ss_epoch (reader_exit a s) = ss_epoch s"
  "ss_att (reader_exit a s) = ss_att s" "ss_closed (reader_exit a s) = ss_closed s"
  "ss_uplinkFloor (reader_exit a s) = ss_uplinkFloor s" "length (ss_atts (reader_exit a s)) = length (ss_atts s)"
  by (simp_all add: reader_exit_def)

lemma reader_exits_inv:
  assumes "world_inv w" "w_read w a \<noteq> RdExited" "session_ok s" "same_view (w_sess w) s"
  shows "world_inv (reader_exits a s w)"
proof -
  have a: "a < length (ss_atts s)" "ss_att (w_sess w) = Some a"
    using assms(1,2,4) length_views [of s] length_views [of "w_sess w"]
    by (auto simp: world_inv_def reader_ok_def same_view_def split: if_splits)
  have e: "exits (reader_exit a s) = (exits s)[a := True]"
    by (simp add: reader_exit_def exits_def set_att_def map_update)
  have p: "epochs (reader_exit a s) = epochs s"
    using map_list_update_same [of ats_epoch "\<lambda>t. t\<lparr>ats_readExited := True, ats_cancelled := True\<rparr>" "ss_atts s" a]
    by (simp add: reader_exit_def epochs_def set_att_def)
  let ?w = "reader_exits a s w"
  have r: "reader_ok ?w b" for b
  proof -
    have "reader_ok w b" using assms(1) by (simp add: world_inv_def)
    then show ?thesis
      using a assms(4) length_views(2) [of s] length_views(2) [of "w_sess w"]
      by (cases "b = a") (auto simp: reader_ok_def reader_exits_def e p same_view_def split: if_splits)
  qed
  have at: "attacher_ok ?w k pc \<longleftrightarrow> attacher_ok w k pc" for k pc
    using assms(4) by (cases pc) (auto simp: same_view_def reader_exits_def)
  have "epochs_ok (reader_exit a s)" "log_ok (reader_exit a s) (w_delivered w)"
    using assms(1,4) by (auto simp: world_inv_def epochs_ok_def p log_ok_def same_view_def
        length_views [symmetric] simp del: length_views split: option.splits)
  moreover have "session_ok (reader_exit a s)" using assms(3) by (rule session_ok_cong) simp_all
  ultimately show ?thesis
    using r assms(1) unfolding world_inv_def at by (auto simp: reader_exits_def)
qed

text \<open>The beginning of one: no other reader is left, because the mutex's holder has seen the last one exit.\<close>

lemma no_reader_left:
  assumes "world_inv w" "case ss_att (w_sess w) of None \<Rightarrow> True | Some old \<Rightarrow> ats_readExited (w_atts w ! old)"
  shows "w_read w a = RdExited"
proof (rule ccontr)
  assume "w_read w a \<noteq> RdExited"
  moreover have "reader_ok w a" using assms(1) by (simp add: world_inv_def)
  ultimately show False using assms(2) by (auto simp: reader_ok_def exits_def split: if_splits)
qed

lemma sorted_wrt_less_snoc: "sorted_wrt (<) (xs @ [x :: 'a :: order]) \<longleftrightarrow> sorted_wrt (<) xs \<and> (\<forall>y\<in>set xs. y < x)"
  by (auto simp: sorted_wrt_append)

lemma bind_attachment_inv:
  assumes "world_inv w" "case ss_att (w_sess w) of None \<Rightarrow> True | Some old \<Rightarrow> ats_readExited (w_atts w ! old)"
    and "ss_epoch (w_sess w) < e" "w_mu w = None \<or> w_mu w = Some k"
  shows "world_inv (bind_attachment k e now w)"
proof -
  let ?w = "bind_attachment k e now w"
  let ?n = "length (w_atts w)"
  note inv = assms(1) [unfolded world_inv_def]
  have s: "w_sess ?w = attach_bind e now (w_sess w)" "w_mu ?w = None" "w_read ?w = (w_read w)(?n := RdStart)"
    "w_attach ?w = (w_attach w)(k := AtDone ?n)" "w_delivered ?w = w_delivered w"
    by (simp_all add: bind_attachment_def Let_def)
  have b: "epochs (attach_bind e now (w_sess w)) = epochs (w_sess w) @ [e]"
    "exits (attach_bind e now (w_sess w)) = exits (w_sess w) @ [False]"
    "ss_epoch (attach_bind e now (w_sess w)) = e" "ss_att (attach_bind e now (w_sess w)) = Some ?n"
    "ss_uplinkFloor (attach_bind e now (w_sess w)) = ss_uplinkFloor (w_sess w)"
    "length (ss_atts (attach_bind e now (w_sess w))) = Suc ?n" "length (exits (w_sess w)) = ?n" "length (epochs (w_sess w)) = ?n"
    by (simp_all add: attach_bind_def touch_def epochs_def exits_def)
  have "session_ok (attach_bind e now (w_sess w))"
    using inv by (auto intro: session_ok_cong simp: attach_bind_def touch_def)
  moreover have "epochs_ok (attach_bind e now (w_sess w))"
    using inv assms(3) by (auto simp: epochs_ok_def b sorted_wrt_less_snoc list_all_iff)
  moreover have "log_ok (attach_bind e now (w_sess w)) (w_delivered w)"
    using inv assms(3) by (fastforce simp: log_ok_def b list_all_iff)
  moreover have "reader_ok ?w a" for a
  proof -
    have "reader_ok w a" using inv by simp
    with no_reader_left [OF assms(1,2), of a] show ?thesis
      by (cases a ?n rule: linorder_cases)
        (auto simp: reader_ok_def s b nth_append)
  qed
  moreover have "attacher_ok ?w j (w_attach ?w j)" for j
  proof (cases "j = k")
    case False
    have "attacher_ok w j (w_attach w j)" using inv by simp
    with False assms(4) show ?thesis by (cases "w_attach w j") (auto simp: s)
  qed (simp add: s)
  ultimately show ?thesis unfolding world_inv_def s by auto
qed

lemma close_mark_inv:
  assumes "world_inv w" "w_mu w = None" "w_sess w' = (w_sess w)\<lparr>ss_closed := True\<rparr>" "w_mu w' = None"
    "w_delivered w' = w_delivered w" "w_attach w' = w_attach w" "\<And>a. w_read w' a = RdExited \<longleftrightarrow> w_read w a = RdExited"
  shows "world_inv w'"
proof -
  have "reader_ok w' a \<longleftrightarrow> reader_ok w a" for a using assms(3,7) by (simp add: reader_ok_def epochs_def exits_def)
  moreover have "attacher_ok w' k pc" if "attacher_ok w k pc" for k pc
    using that assms(2,4) by (cases pc) auto
  moreover have "session_ok (w_sess w')" using assms(1,3) by (auto simp: world_inv_def intro: session_ok_cong)
  ultimately show ?thesis
    using assms(1,3,5,6) by (auto simp: world_inv_def epochs_ok_def log_ok_def epochs_def split: option.splits)
qed

lemma detach_inv:
  assumes "world_inv w" "w_mu w = None" "ats_readExited (w_atts w ! a)"
  shows "world_inv (w\<lparr>w_sess := detach a (w_sess w)\<rparr>)"
proof (cases "ss_att (w_sess w) = Some a")
  case True
  have "w_read w b = RdExited" for b using no_reader_left [OF assms(1)] True assms(3) by simp
  moreover have "attacher_ok (w\<lparr>w_sess := detach a (w_sess w)\<rparr>) k pc" if "attacher_ok w k pc" for k pc
    using that assms(2) by (cases pc) auto
  moreover have "session_ok (detach a (w_sess w))"
    using assms(1) by (auto simp: world_inv_def detach_def intro: session_ok_cong)
  ultimately show ?thesis
    using assms(1) True by (auto simp: world_inv_def epochs_ok_def log_ok_def reader_ok_def detach_def epochs_def exits_def)
qed (use assms in \<open>simp add: detach_def\<close>)

lemma read_frame_inv:
  assumes "world_inv w" "w_read w a = RdGot f payload b"
    and "readLoop_frame cd pooled now f payload b (w_sess w) = Some (s, NextRead b2)"
  shows "world_inv (w\<lparr>w_sess := s, w_read := (w_read w)(a := RdAwait b2), w_delivered := log_delivery a f w\<rparr>)"
proof -
  let ?w = "w\<lparr>w_sess := s, w_read := (w_read w)(a := RdAwait b2), w_delivered := log_delivery a f w\<rparr>"
  note inv = assms(1) [unfolded world_inv_def]
  from readLoop_frame_ok [of "w_sess w" cd pooled now f payload b] inv assms(3) have s:
    "session_ok s" "same_lock (w_sess w) s"
    "ss_uplinkFloor s = (if delivers f (w_sess w) then frame_seq f else ss_uplinkFloor (w_sess w))" by auto
  have v: "epochs s = epochs (w_sess w)" "exits s = exits (w_sess w)" "ss_att s = ss_att (w_sess w)"
    "ss_epoch s = ss_epoch (w_sess w)" "ss_closed s = ss_closed (w_sess w)"
    using s(2) by (simp_all add: same_lock_def epochs_def exits_def)
  have "reader_ok w a" using inv by simp
  then have e: "ats_epoch (w_atts w ! a) = ss_epoch (w_sess w)"
    using assms(2) by (auto simp: reader_ok_def epochs_def)
  have "log_ok s (log_delivery a f w)"
    using inv by (fastforce simp: log_ok_def log_delivery_def s(3) v e sorted_wrt_append list_all_iff
        delivered_before_def delivers_def)
  moreover have "epochs_ok s"
    using inv by (auto simp: epochs_ok_def v length_views [symmetric] simp del: length_views split: option.splits)
  moreover have "reader_ok ?w c" for c
  proof -
    have "reader_ok w c" using inv by simp
    with assms(2) show ?thesis by (cases "c = a") (auto simp: reader_ok_def v length_views [symmetric] simp del: length_views)
  qed
  moreover have "attacher_ok ?w k pc \<longleftrightarrow> attacher_ok w k pc" for k pc by (cases pc) (auto simp: v)
  ultimately show ?thesis using inv s(1) unfolding world_inv_def by auto
qed

lemma same_view_refl [simp]: "same_view s s"
  by (simp add: same_view_def)

lemma inv_session: "world_inv w \<Longrightarrow> session_ok (w_sess w)"
  by (simp add: world_inv_def)

lemma inv_reader: "world_inv w \<Longrightarrow> reader_ok w a"
  by (simp add: world_inv_def)

lemma inv_attacher: "world_inv w \<Longrightarrow> w_attach w k = pc \<Longrightarrow> attacher_ok w k pc"
  by (auto simp: world_inv_def)

lemma read_start_inv:
  assumes "world_inv w" "w_read w a = RdStart"
    "(if pooled then pool_Get (w_sess w) else Some (w_sess w, nil_buf)) = Some (s, b)"
  shows "world_inv (w\<lparr>w_sess := s, w_read := (w_read w)(a := RdAwait b)\<rparr>)"
proof -
  have ok: "session_ok (w_sess w)" using assms(1) by (simp add: world_inv_def)
  with pool_Get_ok [OF this] assms(3) have s: "session_ok s" "same_view (w_sess w) s"
    by (auto simp: same_view_refl intro: same_view_lock split: if_splits)
  show ?thesis by (rule world_inv_frame [OF assms(1)]) (use s assms(2) in auto)
qed

lemma read_stop_inv:
  assumes "world_inv w" "w_read w a = RdGot f payload b"
    "readLoop_frame cd pooled now f payload b (w_sess w) = Some (s, NextStop)"
  shows "world_inv (w\<lparr>w_sess := s, w_read := (w_read w)(a := RdStop)\<rparr>)"
proof -
  have ok: "session_ok (w_sess w)" using assms(1) by (simp add: world_inv_def)
  from readLoop_frame_ok [OF this, of cd pooled now f payload b] assms(3)
  have s: "session_ok s" "same_view (w_sess w) s"
    by (auto simp: is_stop_def delivers_def intro: same_view_lock split: if_splits)
  show ?thesis by (rule world_inv_frame [OF assms(1)]) (use s assms(2) in auto)
qed

lemma world_step_inv: "world_step cd pooled w w' \<Longrightarrow> world_inv w \<Longrightarrow> world_inv w'"
proof (induction rule: world_step.induct)
  case (dial w k e)
  have "attacher_ok w k (AtWant e)" using inv_attacher [OF dial.prems dial.hyps] by simp
  then show ?case by (intro world_inv_frame [OF dial.prems]) (simp_all add: inv_session [OF dial.prems])
next
  case (refuse w k e err)
  then show ?case
    using inv_session [OF refuse.prems] by (intro world_inv_frame [OF refuse.prems]) simp_all
next
  case (attach_free w k e now)
  then show ?case by (intro bind_attachment_inv) (simp_all add: attach_check_def not_le split: if_splits)
next
  case (attach_lock w k e old)
  note inv = attach_lock.prems [unfolded world_inv_def]
  let ?w = "w\<lparr>w_sess := attach_supersede (w_sess w), w_mu := Some k, w_attach := (w_attach w)(k := AtWait old e)\<rparr>"
  have v: "same_view (w_sess w) (attach_supersede (w_sess w))" by (rule supersede_view)
  have "attacher_ok ?w j (w_attach ?w j)" for j
  proof -
    have "attacher_ok w j (w_attach w j)" using inv by simp
    moreover have "ss_epoch (w_sess w) < e" "\<not> ss_closed (w_sess w)"
      using attach_lock.hyps(3) by (auto simp: attach_check_def not_le split: if_splits)
    ultimately show ?thesis
      using attach_lock.hyps(2,4) v by (cases "j = k"; cases "w_attach w j") (simp_all add: same_view_def)
  qed
  moreover have "world_inv (w\<lparr>w_sess := attach_supersede (w_sess w)\<rparr>)"
    by (rule world_inv_frame [OF attach_lock.prems]) (use inv v supersede_ok in auto)
  moreover have "reader_ok ?w a \<longleftrightarrow> reader_ok (w\<lparr>w_sess := attach_supersede (w_sess w)\<rparr>) a" for a
    by (simp add: reader_ok_def)
  ultimately show ?case by (auto simp: world_inv_def)
next
  case (attach_go w k old e now)
  then have "attacher_ok w k (AtWait old e)" using inv_attacher by blast
  with attach_go show ?case by (intro bind_attachment_inv) simp_all
next
  case (read_start w a s b)
  then show ?case by (intro read_start_inv)
next
  case (read_stale w a b b2)
  then show ?case
    using session_ok_cong [OF inv_session [OF read_stale.prems], of "stale_frame (w_sess w)"]
    by (intro world_inv_frame [OF read_stale.prems]) (simp_all add: same_view_def stale_frame_def epochs_def exits_def)
next
  case (read_fresh w a b f payload b2)
  then show ?case by (intro world_inv_frame [OF read_fresh.prems]) (simp_all add: inv_session)
next
  case (read_error w a b)
  then show ?case by (intro reader_exits_inv) (simp_all add: inv_session)
next
  case (read_frame w a f payload b now s b2)
  then show ?case by (intro read_frame_inv)
next
  case (read_stop w a f payload b now s)
  then show ?case by (intro read_stop_inv)
next
  case (stop_gone w a)
  then show ?case by (intro reader_exits_inv) (simp_all add: inv_session)
next
  case (stop_delist w a)
  then show ?case by (intro world_inv_frame [OF stop_delist.prems]) (simp_all add: inv_session)
next
  case (stop_closed w a)
  then show ?case by (intro reader_exits_inv) (simp_all add: inv_session)
next
  case (stop_mark w a s att)
  then show ?case by (elim close_mark_inv) (auto simp: close_mark_def)
next
  case (stop_cancel w a att)
  then show ?case by (intro reader_exits_inv) (simp_all add: inv_session close_cancel_ok close_cancel_view)
next
  case (reclaim_delist w k)
  then show ?case by (intro world_inv_frame [OF reclaim_delist.prems]) (simp_all add: inv_session)
next
  case (reclaim_closed w k)
  then show ?case by (intro world_inv_frame [OF reclaim_closed.prems]) (simp_all add: inv_session)
next
  case (reclaim_mark w k s att)
  then show ?case by (elim close_mark_inv) (auto simp: close_mark_def)
next
  case (reclaim_cancel w k att)
  then show ?case
    by (intro world_inv_frame [OF reclaim_cancel.prems]) (simp_all add: inv_session close_cancel_ok close_cancel_view)
next
  case (write_exit w a)
  then show ?case
    by (intro world_inv_frame [OF write_exit.prems]) (simp_all add: inv_session writer_exit_view writer_exit_ok)
next
  case (detach w a)
  then show ?case by (intro detach_inv)
next
  case (others w s)
  then show ?case
    by (intro world_inv_frame [OF others.prems])
      (simp_all add: other_goroutines_def same_view_def epochs_def exits_def)
qed

lemma world_of_inv: "fresh_session sid now s \<Longrightarrow> world_inv (world_of s)"
  by (simp add: world_inv_def world_of_def fresh_session_def epochs_ok_def log_ok_def reader_ok_def epochs_def exits_def)

lemma world_reach_inv: "world_reach cd pooled w0 w \<Longrightarrow> world_inv w0 \<Longrightarrow> world_inv w"
  by (induction rule: world_reach.induct) (auto dest: world_step_inv)

lemma world_reach_trans: "world_reach cd pooled w1 w2 \<Longrightarrow> world_reach cd pooled w0 w1 \<Longrightarrow> world_reach cd pooled w0 w2"
  by (induction rule: world_reach.induct) (auto intro: world_reach.step)

section \<open>One reader at a time\<close>

text \<open>
  C2: A session has one voice: over every interleaving of connections, reclaims and readers from a fresh
  session, at most one read loop has not exited, so the buffer pool has one taker; it belongs to the
  attachment in place and speaks with the session's epoch; attachments come with increasing epochs;
  and the frames given to the detector have increasing sequence numbers and epochs that never go back,
  across every reconnection and replay.
\<close>

theorem session_single_reader:
  assumes "fresh_session sid now s" "world_reach cd pooled (world_of s) w"
    and "w_read w a \<noteq> RdExited"
  shows "ss_att (w_sess w) = Some a \<and> ats_epoch (w_atts w ! a) = ss_epoch (w_sess w) \<and>
    (\<forall>b. w_read w b \<noteq> RdExited \<longrightarrow> b = a) \<and>
    sorted_wrt (<) (map ats_epoch (w_atts w)) \<and> sorted_wrt delivered_before (w_delivered w)"
proof -
  have inv: "world_inv w" using world_reach_inv [OF assms(2) world_of_inv [OF assms(1)]] .
  then have r: "w_read w b \<noteq> RdExited \<Longrightarrow> b < length (w_atts w) \<and> ss_att (w_sess w) = Some b \<and>
      epochs (w_sess w) ! b = ss_epoch (w_sess w)" for b
    by (auto simp: world_inv_def reader_ok_def split: if_splits)
  from r [OF assms(3)] have "ats_epoch (w_atts w ! a) = ss_epoch (w_sess w)" by (auto simp: epochs_def)
  moreover from r [OF assms(3)] r have "w_read w b \<noteq> RdExited \<longrightarrow> b = a" for b by fastforce
  ultimately show ?thesis
    using r [OF assms(3)] inv by (auto simp: world_inv_def epochs_ok_def log_ok_def epochs_def)
qed

section \<open>Deadlock\<close>

text \<open>The first attachment of a fresh session, its reader waiting for a frame.\<close>

definition reading :: "nat \<Rightarrow> world \<Rightarrow> bool" where
  "reading a w \<longleftrightarrow> world_inv w \<and> w_mu w = None \<and> w_listed w \<and> ss_att (w_sess w) = Some a \<and>
     length (w_atts w) = Suc a \<and> \<not> ats_stale (w_atts w ! a) \<and> (\<exists>b. w_read w a = RdAwait b) \<and> \<not> ss_closed (w_sess w)"

lemma read_start_enabled:
  assumes "world_inv w"
  shows "\<exists>s b. (if pooled then pool_Get (w_sess w) else Some (w_sess w, nil_buf)) = Some (s, b) \<and> same_lock (w_sess w) s \<and>
    ss_uplinkFloor s = ss_uplinkFloor (w_sess w)"
proof (cases pooled)
  case True
  have "session_ok (w_sess w)" using assms by (simp add: world_inv_def)
  from pool_Get_ok [OF this] True show ?thesis by auto
qed (simp add: same_lock_def)

lemma first_attachment:
  assumes "fresh_session sid t s" "0 < e"
  shows "\<exists>w. world_reach cd pooled (world_of s) w \<and> reading 0 w \<and> w_attach w = (\<lambda>_. AtIdle)(0 := AtDone 0) \<and>
    ss_epoch (w_sess w) = e \<and> w_delivered w = [] \<and> ss_uplinkFloor (w_sess w) = 0"
proof -
  let ?w1 = "(world_of s)\<lparr>w_attach := (w_attach (world_of s))(0 := AtWant e)\<rparr>"
  let ?w2 = "bind_attachment 0 e t ?w1"
  have f: "ss_att s = None" "ss_atts s = []" "ss_epoch s = 0" "\<not> ss_closed s" "ss_uplinkFloor s = 0"
    using assms(1) by (simp_all add: fresh_session_def)
  have "world_step cd pooled (world_of s) ?w1" by (rule world_step.dial) (simp add: world_of_def)
  then have "world_reach cd pooled (world_of s) ?w1" using world_reach.intros by blast
  moreover have "world_step cd pooled ?w1 ?w2"
    using assms(2) f by (intro world_step.attach_free) (auto simp: world_of_def attach_check_def not_le)
  ultimately have r2: "world_reach cd pooled (world_of s) ?w2" by (rule world_reach.step)
  then have inv2: "world_inv ?w2" using world_reach_inv world_of_inv [OF assms(1)] by blast
  obtain s3 b where s3: "(if pooled then pool_Get (w_sess ?w2) else Some (w_sess ?w2, nil_buf)) = Some (s3, b)"
    "same_lock (w_sess ?w2) s3" "ss_uplinkFloor s3 = ss_uplinkFloor (w_sess ?w2)"
    using read_start_enabled [OF inv2] by blast
  let ?w3 = "?w2\<lparr>w_sess := s3, w_read := (w_read ?w2)(0 := RdAwait b)\<rparr>"
  have "world_step cd pooled ?w2 ?w3"
    by (rule world_step.read_start [OF _ s3(1)]) (simp add: bind_attachment_def world_of_def f)
  with r2 have r3: "world_reach cd pooled (world_of s) ?w3" by (rule world_reach.step)
  then have "world_inv ?w3" using world_reach_inv world_of_inv [OF assms(1)] by blast
  then have "reading 0 ?w3"
    using s3(2) f by (auto simp: reading_def same_lock_def bind_attachment_def attach_bind_def touch_def world_of_def)
  moreover have "w_attach ?w3 = (\<lambda>_. AtIdle)(0 := AtDone 0)" "ss_epoch (w_sess ?w3) = e" "w_delivered ?w3 = []"
    "ss_uplinkFloor (w_sess ?w3) = 0"
    using s3(2,3) f by (simp_all add: same_lock_def bind_attachment_def attach_bind_def touch_def world_of_def)
  ultimately show ?thesis using r3 by blast
qed

text \<open>The mutex's holder waits for a reader that waits for the mutex.\<close>

definition stuck :: "nat \<Rightarrow> nat \<Rightarrow> u64 \<Rightarrow> world \<Rightarrow> bool" where
  "stuck k old e w \<longleftrightarrow> w_attach w k = AtWait old e \<and> w_read w old = RdClosing"

lemma stuck_step:
  assumes "world_step cd pooled w w'" "world_inv w" "stuck k old e w"
  shows "stuck k old e w'"
  using assms
proof (induction rule: world_step.induct)
  case (attach_free w k' e' now)
  then have "attacher_ok w k (AtWait old e)" using inv_attacher unfolding stuck_def by blast
  with attach_free show ?case by simp
next
  case (attach_go w k' old' e' now)
  then have "attacher_ok w k (AtWait old e)" "attacher_ok w k' (AtWait old' e')" "reader_ok w old"
    using inv_attacher inv_reader unfolding stuck_def by blast+
  with attach_go show ?case by (auto simp: stuck_def reader_ok_def exits_def)
next
  case (attach_lock w k' e' old')
  then have "attacher_ok w k (AtWait old e)" using inv_attacher unfolding stuck_def by blast
  with attach_lock show ?case by simp
next
  case (stop_closed w a)
  then have "attacher_ok w k (AtWait old e)" using inv_attacher unfolding stuck_def by blast
  with stop_closed show ?case by simp
next
  case (stop_mark w a s att)
  then have "attacher_ok w k (AtWait old e)" using inv_attacher unfolding stuck_def by blast
  with stop_mark show ?case by simp
qed (auto simp: stuck_def reader_exits_def)

lemma stuck_reach: "world_reach cd pooled w w' \<Longrightarrow> world_inv w \<Longrightarrow> stuck k old e w \<Longrightarrow> stuck k old e w'"
  by (induction rule: world_reach.induct) (auto intro: stuck_step world_reach_inv)

text \<open>
  C10: A client that says goodbye while its successor arrives takes the session with it: from every fresh
  session there is a schedule of one connection sending \<open>STOP\<close> and a second one attaching, after which,
  whatever else happens, the second handler holds the mutex for ever waiting for a reader that waits
  for that mutex in \<open>close\<close>; the session is never closed, the second connection never attached.
\<close>

theorem attach_stop_deadlock:
  assumes "fresh_session sid t s" "is_stop cd f"
  shows "\<exists>w. world_reach cd pooled (world_of s) w \<and> \<not> w_listed w \<and>
    (\<forall>w'. world_reach cd pooled w w' \<longrightarrow> w_mu w' = Some 1 \<and> w_attach w' 1 = AtWait 0 2 \<and> w_read w' 0 = RdClosing \<and>
       \<not> ss_closed (w_sess w') \<and> ss_att (w_sess w') = Some 0)"
proof -
  obtain w where w: "world_reach cd pooled (world_of s) w" "reading 0 w" "w_attach w = (\<lambda>_. AtIdle)(0 := AtDone 0)"
    "ss_epoch (w_sess w) = 1"
    using first_attachment [OF assms(1), of 1] by auto
  then obtain b where b: "w_read w 0 = RdAwait b" by (auto simp: reading_def)
  let ?w1 = "w\<lparr>w_read := (w_read w)(0 := RdGot f b b)\<rparr>"
  let ?w2 = "?w1\<lparr>w_attach := (w_attach ?w1)(1 := AtWant 2)\<rparr>"
  let ?w3 = "?w2\<lparr>w_sess := attach_supersede (w_sess ?w2), w_mu := Some 1, w_attach := (w_attach ?w2)(1 := AtWait 0 2)\<rparr>"
  have "world_step cd pooled w ?w1" using w(2) b by (intro world_step.read_fresh) (auto simp: reading_def)
  with w(1) have "world_reach cd pooled (world_of s) ?w1" by (rule world_reach.step)
  moreover have "world_step cd pooled ?w1 ?w2" using w(3) by (intro world_step.dial) simp
  ultimately have "world_reach cd pooled (world_of s) ?w2" by (rule world_reach.step)
  moreover have "world_step cd pooled ?w2 ?w3"
    using w(2,4) by (intro world_step.attach_lock) (auto simp: reading_def attach_check_def word_le_nat_alt)
  ultimately have r3: "world_reach cd pooled (world_of s) ?w3" by (rule world_reach.step)
  then have "world_inv ?w3" using world_reach_inv world_of_inv [OF assms(1)] by blast
  then have "session_ok (w_sess ?w3)" by (rule inv_session)
  from readLoop_frame_ok [OF this, of cd pooled 0 f b b] assms(2) obtain s4 where
    s4: "readLoop_frame cd pooled 0 f b b (w_sess ?w3) = Some (s4, NextStop)" by auto
  let ?w4 = "?w3\<lparr>w_sess := s4, w_read := (w_read ?w3)(0 := RdStop)\<rparr>"
  let ?w5 = "?w4\<lparr>w_listed := False, w_read := (w_read ?w4)(0 := RdClosing)\<rparr>"
  have "world_step cd pooled ?w3 ?w4" by (rule world_step.read_stop [OF _ s4]) simp
  with r3 have "world_reach cd pooled (world_of s) ?w4" by (rule world_reach.step)
  moreover have "world_step cd pooled ?w4 ?w5" using w(2) by (intro world_step.stop_delist) (auto simp: reading_def)
  ultimately have r5: "world_reach cd pooled (world_of s) ?w5" by (rule world_reach.step)
  then have inv5: "world_inv ?w5" using world_reach_inv world_of_inv [OF assms(1)] by blast
  have st5: "stuck 1 0 2 ?w5" by (simp add: stuck_def)
  have "w_mu w' = Some 1 \<and> w_attach w' 1 = AtWait 0 2 \<and> w_read w' 0 = RdClosing \<and>
      \<not> ss_closed (w_sess w') \<and> ss_att (w_sess w') = Some 0" if "world_reach cd pooled ?w5 w'" for w'
  proof -
    have st: "stuck 1 0 2 w'" using stuck_reach [OF that inv5 st5] .
    then have "w_attach w' 1 = AtWait 0 2" by (simp only: stuck_def)
    from inv_attacher [OF world_reach_inv [OF that inv5] this] st show ?thesis by (simp add: stuck_def)
  qed
  with r5 show ?thesis by (intro exI [of _ ?w5]) simp
qed

definition stopping :: "codec \<Rightarrow> read_pc \<Rightarrow> bool" where
  "stopping cd pc \<longleftrightarrow> (case pc of RdGot f _ _ \<Rightarrow> is_stop cd f | RdStop \<Rightarrow> True | RdClosing \<Rightarrow> True | _ \<Rightarrow> False)"

lemma waiting_go:
  assumes "w_attach w k = AtWait old e" "w_read w old = RdExited" "world_inv w"
  shows "\<exists>w' a. world_step cd pooled w w' \<and> w_attach w' k = AtDone a \<and> ss_epoch (w_sess w') = e"
proof -
  have "reader_ok w old" using assms(3) by (rule inv_reader)
  moreover have "attacher_ok w k (AtWait old e)" using assms(3,1) by (rule inv_attacher)
  moreover have "epochs_ok (w_sess w)" using assms(3) by (simp add: world_inv_def)
  ultimately have "ats_readExited (w_atts w ! old)" using assms(2) by (simp add: reader_ok_def epochs_ok_def exits_def)
  from world_step.attach_go [OF assms(1) this] have "world_step cd pooled w (bind_attachment k e 0 w)" .
  moreover have "w_attach (bind_attachment k e 0 w) k = AtDone (length (w_atts w))"
    "ss_epoch (w_sess (bind_attachment k e 0 w)) = e"
    by (simp_all add: bind_attachment_def attach_bind_def touch_def Let_def)
  ultimately show ?thesis by blast
qed

lemma readLoop_frame_next:
  assumes "session_ok s" "\<not> is_stop cd f"
  shows "\<exists>s' b2. readLoop_frame cd pooled now f payload b s = Some (s', NextRead b2)"
proof -
  obtain s' n where r: "readLoop_frame cd pooled now f payload b s = Some (s', n)" "n = NextStop \<longleftrightarrow> is_stop cd f"
    using readLoop_frame_ok [OF assms(1), of cd pooled now f payload b] by (elim exE conjE)
  with assms(2) show ?thesis by (cases n) auto
qed

text \<open>A reader that is not stopping is at most two of its own steps from its exit.\<close>

lemma reader_at_read_exits:
  assumes "w_read v old = RdAwait b" "world_reach cd pooled w v" "w_attach v k = AtWait old e"
  shows "\<exists>w'. world_reach cd pooled w w' \<and> w_attach w' k = AtWait old e \<and> w_read w' old = RdExited"
  using world_reach.step [OF assms(2) world_step.read_error [OF assms(1)]] assms(3)
  by (intro exI [of _ "reader_exits old (w_sess v) v"]) (simp add: reader_exits_def)

lemma waiting_exit:
  assumes "w_attach w k = AtWait old e" "\<not> stopping cd (w_read w old)" "world_inv w"
  shows "\<exists>w'. world_reach cd pooled w w' \<and> w_attach w' k = AtWait old e \<and> w_read w' old = RdExited"
proof (cases "w_read w old")
  case RdStart
  obtain s b where s: "(if pooled then pool_Get (w_sess w) else Some (w_sess w, nil_buf)) = Some (s, b)"
    using read_start_enabled [OF assms(3)] by blast
  show ?thesis
    by (rule reader_at_read_exits [OF _ world_reach.step [OF world_reach.here world_step.read_start [OF RdStart s]]])
      (simp_all add: assms(1))
next
  case (RdAwait b)
  then show ?thesis using world_reach.here assms(1) by (rule reader_at_read_exits)
next
  case (RdGot f payload b)
  with assms(2) have "\<not> is_stop cd f" by (simp add: stopping_def)
  from readLoop_frame_next [OF inv_session [OF assms(3)] this] obtain s b2 where
    s: "readLoop_frame cd pooled 0 f payload b (w_sess w) = Some (s, NextRead b2)" by blast
  show ?thesis
    by (rule reader_at_read_exits [OF _ world_reach.step [OF world_reach.here world_step.read_frame [OF RdGot s]]])
      (simp_all add: assms(1))
next
  case (RdClosed att)
  from world_reach.step [OF world_reach.here world_step.stop_cancel [OF this]] assms(1) show ?thesis
    by (intro exI [of _ "reader_exits old (close_cancel att (w_sess w)) w"]) (simp add: reader_exits_def)
next
  case RdExited
  with assms(1) world_reach.here show ?thesis by blast
qed (use assms(2) in \<open>simp_all add: stopping_def\<close>)

text \<open>
  Otherwise an attach that waits can finish: in every reachable world, a handler waiting for the old
  reader can still be let through to the epoch it claims, unless that reader is handling a \<open>STOP\<close>.
\<close>

theorem attach_can_finish:
  assumes "fresh_session sid t s" "world_reach cd pooled (world_of s) w"
    and "w_attach w k = AtWait old e" "\<not> stopping cd (w_read w old)"
  shows "\<exists>w' a. world_reach cd pooled w w' \<and> w_attach w' k = AtDone a \<and> ss_epoch (w_sess w') = e"
proof -
  have inv: "world_inv w" using world_reach_inv [OF assms(2) world_of_inv [OF assms(1)]] .
  obtain v where v: "world_reach cd pooled w v" "w_attach v k = AtWait old e" "w_read v old = RdExited"
    using waiting_exit [OF assms(3,4) inv] by blast
  with waiting_go [OF v(2,3) world_reach_inv [OF v(1) inv], of cd pooled] show ?thesis
    by (auto intro: world_reach.step)
qed

section \<open>Concrete schedules\<close>

definition audio_frame :: Frame where
  "audio_frame = \<lparr>frame_type = FRAME_TYPE_AUDIO, frame_seq = 5, frame_ts = 0, frame_payload = []\<rparr>"

theorem session_single_reader_witness:
  "\<exists>s w. newSession (Default []) ''x'' 0 = Some (Inr s) \<and> world_reach demo_codec True (world_of s) w \<and>
     w_delivered w = [(1, 5)] \<and> ss_att (w_sess w) = Some 0 \<and> w_read w 0 \<noteq> RdExited"
proof -
  obtain s where s: "newSession (Default []) ''x'' 0 = Some (Inr s)" "fresh_session ''x'' 0 s"
    using newSession_Default by blast
  obtain w where w: "world_reach demo_codec True (world_of s) w" "reading 0 w" "ss_epoch (w_sess w) = 1" "w_delivered w = []"
    "ss_uplinkFloor (w_sess w) = 0"
    using first_attachment [OF s(2), of 1 demo_codec True] by auto
  then obtain b where b: "w_read w 0 = RdAwait b" by (auto simp: reading_def)
  let ?w1 = "w\<lparr>w_read := (w_read w)(0 := RdGot audio_frame b b)\<rparr>"
  have "world_step demo_codec True w ?w1" using w(2) b by (intro world_step.read_fresh) (auto simp: reading_def)
  with w(1) have r1: "world_reach demo_codec True (world_of s) ?w1" by (rule world_reach.step)
  have inv: "world_inv w" using w(2) by (simp add: reading_def)
  have "\<not> is_stop demo_codec audio_frame" by (simp add: is_stop_def audio_frame_def)
  from readLoop_frame_next [OF inv_session [OF inv] this] obtain s2 b2 where
    s2: "readLoop_frame demo_codec True 0 audio_frame b b (w_sess ?w1) = Some (s2, NextRead b2)" by fastforce
  let ?w2 = "?w1\<lparr>w_sess := s2, w_read := (w_read ?w1)(0 := RdAwait b2), w_delivered := log_delivery 0 audio_frame ?w1\<rparr>"
  have "world_step demo_codec True ?w1 ?w2" by (rule world_step.read_frame [OF _ s2]) simp
  with r1 have r2: "world_reach demo_codec True (world_of s) ?w2" by (rule world_reach.step)
  have live: "w_read ?w2 0 \<noteq> RdExited" by simp
  note one = session_single_reader [OF s(2) r2 live]
  have e: "ats_epoch (w_atts w ! 0) = 1" using inv_reader [OF inv, of 0] b w(3) by (auto simp: reader_ok_def epochs_def)
  have "w_delivered ?w2 = (if delivers audio_frame (w_sess w) then [(1, 5)] else [])"
    by (simp add: log_delivery_def w(4) e audio_frame_def)
  moreover have "delivers audio_frame (w_sess w)" by (simp add: delivers_def audio_frame_def w(5))
  ultimately show ?thesis using s(1) r2 one live by (intro exI [of _ s] exI [of _ ?w2]) simp
qed

theorem attach_stop_deadlock_witness:
  "\<exists>s w. newSession (Default []) ''x'' 0 = Some (Inr s) \<and> world_reach demo_codec True (world_of s) w \<and>
     w_mu w = Some 1 \<and> w_attach w 1 = AtWait 0 2 \<and> w_read w 0 = RdClosing"
proof -
  obtain s where s: "newSession (Default []) ''x'' 0 = Some (Inr s)" "fresh_session ''x'' 0 s"
    using newSession_Default by blast
  have "is_stop demo_codec stop_frame" by (simp add: is_stop_def stop_frame_def demo_codec_def control_of_def)
  from attach_stop_deadlock [OF s(2) this, of True] s(1) world_reach.here show ?thesis by blast
qed

theorem attach_can_finish_witness:
  "\<exists>s w w' a. newSession (Default []) ''x'' 0 = Some (Inr s) \<and> world_reach demo_codec False (world_of s) w \<and>
     w_attach w 1 = AtWait 0 2 \<and> world_reach demo_codec False w w' \<and> w_attach w' 1 = AtDone a \<and> ss_epoch (w_sess w') = 2"
proof -
  obtain s where s: "newSession (Default []) ''x'' 0 = Some (Inr s)" "fresh_session ''x'' 0 s"
    using newSession_Default by blast
  obtain w where w: "world_reach demo_codec False (world_of s) w" "reading 0 w" "w_attach w = (\<lambda>_. AtIdle)(0 := AtDone 0)"
    "ss_epoch (w_sess w) = 1"
    using first_attachment [OF s(2), of 1 demo_codec False] by auto
  let ?w1 = "w\<lparr>w_attach := (w_attach w)(1 := AtWant 2)\<rparr>"
  let ?w2 = "?w1\<lparr>w_sess := attach_supersede (w_sess ?w1), w_mu := Some 1, w_attach := (w_attach ?w1)(1 := AtWait 0 2)\<rparr>"
  have "world_step demo_codec False w ?w1" using w(3) by (intro world_step.dial) simp
  with w(1) have "world_reach demo_codec False (world_of s) ?w1" by (rule world_reach.step)
  moreover have "world_step demo_codec False ?w1 ?w2"
    using w(2,4) by (intro world_step.attach_lock) (auto simp: reading_def attach_check_def word_le_nat_alt)
  ultimately have r2: "world_reach demo_codec False (world_of s) ?w2" by (rule world_reach.step)
  have wait: "w_attach ?w2 1 = AtWait 0 2" "\<not> stopping demo_codec (w_read ?w2 0)"
    using w(2) by (auto simp: reading_def stopping_def)
  from attach_can_finish [OF s(2) r2 wait] obtain w' a where
    "world_reach demo_codec False ?w2 w'" "w_attach w' 1 = AtDone a" "ss_epoch (w_sess w') = 2" by blast
  with s(1) r2 wait(1) show ?thesis by (intro exI [of _ s] exI [of _ ?w2] exI [of _ w'] exI [of _ a]) simp
qed

end
