(* ===== verification/Manager.thy ===== *)
theory Manager
  imports Session Metrics "HOL-Library.AList"
begin

text \<open>
  The session manager of \<open>internal/session/manager.go\<close>: the handshake that creates or resumes a session,
  the idle reaper, and the totals it exports over live and reclaimed sessions. The map of sessions is
  an association list; the objects in it are shared with the sessions' own goroutines, so what those
  do to a session replaces its entry. The mutex encloses no operation that blocks.
\<close>

section \<open>State\<close>

record Manager =
  mg_cfg :: Config
  mg_m :: "M option"
  mg_sessions :: "(string \<times> Session) list"
  mg_staleEpochClaims :: u64
  mg_sessionsCreated :: u64
  mg_sessionsReclaimed :: u64

definition NewManager :: "Config \<Rightarrow> M option \<Rightarrow> Manager" where
  "NewManager cfg m = \<lparr>mg_cfg = cfg, mg_m = m, mg_sessions = [], mg_staleEpochClaims = 0, mg_sessionsCreated = 0,
     mg_sessionsReclaimed = 0\<rparr>"

definition Count :: "Manager \<Rightarrow> nat" where
  "Count mgr = length (mg_sessions mgr)"

definition set_session :: "string \<Rightarrow> Session \<Rightarrow> Manager \<Rightarrow> Manager" where
  "set_session sid s mgr = mgr\<lparr>mg_sessions := AList.update sid s (mg_sessions mgr)\<rparr>"

definition StaleEpochClaims :: "Manager \<Rightarrow> u64" where
  "StaleEpochClaims mgr = mg_staleEpochClaims mgr"

record Stats =
  st_Epoch :: u64
  st_DupFrames :: u64
  st_StaleFrames :: u64
  st_SubtitleDrops :: u64

definition SessionStats :: "string \<Rightarrow> Manager \<Rightarrow> Stats option" where
  "SessionStats sid mgr =
     map_option (\<lambda>s. \<lparr>st_Epoch = ss_epoch s, st_DupFrames = ss_dupFrames s, st_StaleFrames = ss_staleFrames s,
        st_SubtitleDrops = ss_subtitleDrops s\<rparr>) (map_of (mg_sessions mgr) sid)"

section \<open>Handshake\<close>

text \<open>\<open>fresh\<close> is the identifier \<open>newSessionID\<close> draws. The start payload is shared with the caller, which
  reads its epoch afterwards; the outer \<open>None\<close> is a construction that does not return.\<close>

definition resolve :: "string \<Rightarrow> instant \<Rightarrow> ControlPayload \<Rightarrow> Manager \<Rightarrow>
    (Manager \<times> ControlPayload \<times> (session_error + string \<times> string)) option" where
  "resolve fresh now start mgr =
     (if cp_SessionId start \<noteq> [] \<and> map_of (mg_sessions mgr) (cp_SessionId start) \<noteq> None
      then Some (mgr, start, Inr (cp_SessionId start, ''resumed''))
      else case newSession (mg_cfg mgr) fresh now of
        None \<Rightarrow> None
      | Some (Inl e) \<Rightarrow> Some (mgr, start, Inl e)
      | Some (Inr s) \<Rightarrow>
          let mgr1 = (set_session fresh s mgr)\<lparr>mg_sessionsCreated := mg_sessionsCreated mgr + 1\<rparr> in
          Some (if cp_SessionId start \<noteq> []
                then (mgr1, start\<lparr>cp_Epoch := 1\<rparr>, Inr (fresh, ''expired; new session created''))
                else (mgr1, if cp_Epoch start = 0 then start\<lparr>cp_Epoch := 1\<rparr> else start, Inr (fresh, ''created''))))"

datatype reject = ExpectedStart | RejSession session_error | RejAttach attach_error

text \<open>\<open>HsPanicked\<close> is a construction that panics: the deferred unlock runs, nothing else does.\<close>

datatype handshake = HsReadError frame_error | HsRejected reject | HsAttached string nat string | HsPanicked

definition count_stale :: "Manager \<Rightarrow> Manager" where
  "count_stale mgr = mgr\<lparr>mg_staleEpochClaims := mg_staleEpochClaims mgr + 1\<rparr>"

text \<open>The handler up to the attachment; \<open>None\<close> while \<open>attach\<close> waits for the old reader.\<close>

definition handshake_start :: "string \<Rightarrow> instant \<Rightarrow> ControlPayload \<Rightarrow> Manager \<Rightarrow> (Manager \<times> handshake) option" where
  "handshake_start fresh now start mgr =
     Option.bind (resolve fresh now start mgr) (\<lambda>(mgr1, start1, r).
       case r of
         Inl SessPanic \<Rightarrow> Some (mgr1, HsPanicked)
       | Inl e \<Rightarrow> Some (count_stale mgr1, HsRejected (RejSession e))
       | Inr (sid, detail) \<Rightarrow>
           Option.bind (map_of (mg_sessions mgr1) sid) (\<lambda>s.
             map_option (\<lambda>ar. case ar of
                 Inl e \<Rightarrow> (count_stale mgr1, HsRejected (RejAttach e))
               | Inr (s1, a) \<Rightarrow> (set_session sid s1 mgr1, HsAttached sid a detail))
             (attach (cp_Epoch start1) now s)))"

definition Handler :: "codec \<Rightarrow> string \<Rightarrow> instant \<Rightarrow> frame_error + Frame \<Rightarrow> Manager \<Rightarrow> (Manager \<times> handshake) option" where
  "Handler cd fresh now r mgr =
     (case r of
        Inl e \<Rightarrow> Some (mgr, HsReadError e)
      | Inr f \<Rightarrow>
          if frame_type f \<noteq> FRAME_TYPE_CONTROL then Some (mgr, HsRejected ExpectedStart)
          else case cd_uncontrol cd (frame_payload f) of
            None \<Rightarrow> Some (mgr, HsRejected ExpectedStart)
          | Some start \<Rightarrow>
              if cp_Kind start \<noteq> KIND_START then Some (mgr, HsRejected ExpectedStart)
              else handshake_start fresh now start mgr)"

text \<open>The frame a rejected client gets; \<open>detail\<close> is the text of the error.\<close>

definition writeError :: "codec \<Rightarrow> string \<Rightarrow> Frame option" where
  "writeError cd detail =
     map_option (\<lambda>payload. \<lparr>frame_type = FRAME_TYPE_CONTROL, frame_seq = 0, frame_ts = 0, frame_payload = payload\<rparr>)
       (cd_control cd ((control_of KIND_ERROR)\<lparr>cp_Detail := detail\<rparr>))"

section \<open>Reclaiming\<close>

definition Session_IllegalEvents :: "Session \<Rightarrow> u64" where
  "Session_IllegalEvents s = Controller_IllegalEvents (ss_ctrl s)"

text \<open>The critical section of \<open>reclaim\<close>, then what follows it.\<close>

definition reclaim_remove :: "string \<Rightarrow> Manager \<Rightarrow> Manager" where
  "reclaim_remove sid mgr = mgr\<lparr>mg_sessions := AList.delete sid (mg_sessions mgr)\<rparr>"

definition account :: "Session \<Rightarrow> M \<Rightarrow> M" where
  "account s m = m\<lparr>m_AccIngressDropped := m_AccIngressDropped m + IngressDropped (ss_pipe s),
     m_AccEgressDropped := m_AccEgressDropped m + EgressDropped (ss_pipe s),
     m_AccDupFrames := m_AccDupFrames m + ss_dupFrames s,
     m_AccStaleFrames := m_AccStaleFrames m + ss_staleFrames s,
     m_AccSubtitleDrops := m_AccSubtitleDrops m + ss_subtitleDrops s,
     m_AccIllegalEvents := m_AccIllegalEvents m + Session_IllegalEvents s\<rparr>"

definition reclaim_account :: "Session \<Rightarrow> Manager \<Rightarrow> Manager" where
  "reclaim_account s mgr =
     mgr\<lparr>mg_sessionsReclaimed := mg_sessionsReclaimed mgr + 1, mg_m := map_option (account s) (mg_m mgr)\<rparr>"

definition reclaim :: "string \<Rightarrow> Manager \<Rightarrow> Manager \<times> Session option" where
  "reclaim sid mgr =
     (case map_of (mg_sessions mgr) sid of
        None \<Rightarrow> (mgr, None)
      | Some s \<Rightarrow> let s1 = Session_close s in (reclaim_account s1 (reclaim_remove sid mgr), Some s1))"

text \<open>A loop of reclaims, with the sessions it closed as it left them.\<close>

fun reclaim_all :: "string list \<Rightarrow> Manager \<Rightarrow> Manager \<times> (string \<times> Session) list" where
  "reclaim_all [] mgr = (mgr, [])"
| "reclaim_all (sid # sids) mgr =
     (let (mgr1, s) = reclaim sid mgr; (mgr2, closed) = reclaim_all sids mgr1
      in (mgr2, (case s of None \<Rightarrow> [] | Some s1 \<Rightarrow> [(sid, s1)]) @ closed))"

definition idle_for :: "instant \<Rightarrow> Manager \<Rightarrow> string \<times> Session \<Rightarrow> bool" where
  "idle_for now mgr p \<longleftrightarrow> time_sub now (ss_lastActive (snd p)) > se_IdleTimeout (cf_Session (mg_cfg mgr))"

definition reapIdle :: "instant \<Rightarrow> Manager \<Rightarrow> Manager \<times> (string \<times> Session) list" where
  "reapIdle now mgr = reclaim_all (map fst (filter (idle_for now mgr) (mg_sessions mgr))) mgr"

text \<open>The period of \<open>Run\<close>'s ticker, its two cases.\<close>

definition run_tick :: "duration \<Rightarrow> duration" where
  "run_tick idle =
     (let tick = idle sdiv 4;
          tick1 = (if tick > Second then Second else tick) in
      if tick1 < 10 * Millisecond then 10 * Millisecond else tick1)"

datatype run_case = RunTick instant | RunDone

fun Manager_Run :: "run_case list \<Rightarrow> Manager \<Rightarrow> Manager \<times> (string \<times> Session) list" where
  "Manager_Run [] mgr = (mgr, [])"
| "Manager_Run (RunTick now # cs) mgr =
     (let (mgr1, closed) = reapIdle now mgr; (mgr2, closed2) = Manager_Run cs mgr1 in (mgr2, closed @ closed2))"
| "Manager_Run (RunDone # cs) mgr = reclaim_all (map fst (mg_sessions mgr)) mgr"

section \<open>Exported totals\<close>

text \<open>\<open>sum\<close> of \<open>registerGauges\<close>: what reclaimed sessions left plus what live ones count.\<close>

definition gauge :: "(M \<Rightarrow> u64) \<Rightarrow> (Session \<Rightarrow> u64) \<Rightarrow> Manager \<Rightarrow> u64" where
  "gauge acc live mgr =
     foldl (\<lambda>t p. t + live (snd p)) (case mg_m mgr of None \<Rightarrow> 0 | Some m \<Rightarrow> acc m) (mg_sessions mgr)"

definition gauges :: "((M \<Rightarrow> u64) \<times> (Session \<Rightarrow> u64)) list" where
  "gauges = [(m_AccIngressDropped, \<lambda>s. IngressDropped (ss_pipe s)), (m_AccEgressDropped, \<lambda>s. EgressDropped (ss_pipe s)),
     (m_AccDupFrames, ss_dupFrames), (m_AccStaleFrames, ss_staleFrames), (m_AccSubtitleDrops, ss_subtitleDrops),
     (m_AccIllegalEvents, Session_IllegalEvents)]"

section \<open>What a handshake does\<close>

definition known_session :: "ControlPayload \<Rightarrow> Manager \<Rightarrow> Session option" where
  "known_session start mgr =
     (if cp_SessionId start = [] then None else map_of (mg_sessions mgr) (cp_SessionId start))"

text \<open>An attachment is in place whose reader has not exited.\<close>

definition reader_left :: "Session \<Rightarrow> bool" where
  "reader_left s \<longleftrightarrow> (case ss_att s of None \<Rightarrow> False | Some a \<Rightarrow> \<not> ats_readExited (ss_atts s ! a))"

definition is_start :: "codec \<Rightarrow> Frame \<Rightarrow> ControlPayload \<Rightarrow> bool" where
  "is_start cd f start \<longleftrightarrow> frame_type f = FRAME_TYPE_CONTROL \<and> cd_uncontrol cd (frame_payload f) = Some start \<and>
     cp_Kind start = KIND_START"

definition attached_to :: "u64 \<Rightarrow> nat \<Rightarrow> Session \<Rightarrow> bool" where
  "attached_to e a s \<longleftrightarrow> ss_epoch s = e \<and> ss_att s = Some a \<and> length (ss_atts s) = Suc a \<and>
     ats_epoch (ss_atts s ! a) = e \<and> \<not> ats_stale (ss_atts s ! a)"

text \<open>A session with an attachment in place names it among its attachments.\<close>

definition att_in_range :: "Session \<Rightarrow> bool" where
  "att_in_range s \<longleftrightarrow> (case ss_att s of None \<Rightarrow> True | Some a \<Rightarrow> a < length (ss_atts s))"

lemma attach_bind_attached: "attached_to e (length (ss_atts s)) (attach_bind e now s)"
  by (simp add: attached_to_def attach_bind_def touch_def)

lemma attach_outcome:
  assumes "att_in_range s"
  shows "if ss_closed s then attach e now s = Some (Inl SessionClosed)
    else if e \<le> ss_epoch s then attach e now s = Some (Inl (StaleEpoch e (ss_epoch s)))
    else if reader_left s then attach e now s = None
    else \<exists>s'. attach e now s = Some (Inr (s', length (ss_atts s))) \<and> attached_to e (length (ss_atts s)) s' \<and>
      ss_uplinkFloor s' = ss_uplinkFloor s"
proof -
  let ?s = "attach_supersede s"
  have sup: "ss_att ?s = ss_att s" "length (ss_atts ?s) = length (ss_atts s)" "ss_uplinkFloor ?s = ss_uplinkFloor s"
    by (cases "ss_att s"; simp add: attach_supersede_def set_att_def)+
  have old: "ats_readExited (ss_atts ?s ! a) = ats_readExited (ss_atts s ! a)" if "ss_att s = Some a" for a
    using that assms by (simp add: attach_supersede_def set_att_def att_in_range_def)
  have "ss_uplinkFloor (attach_bind e now ?s) = ss_uplinkFloor s" by (simp add: attach_bind_def touch_def sup)
  with attach_bind_attached [of e ?s now] sup old show ?thesis
    by (cases "ss_att s") (simp_all add: attach_def attach_check_def reader_left_def Let_def)
qed

lemma resolve_new:
  assumes "newSession (mg_cfg mgr) fresh now = Some (Inr s)" "known_session start mgr = None"
  shows "resolve fresh now start mgr = Some ((set_session fresh s mgr)\<lparr>mg_sessionsCreated := mg_sessionsCreated mgr + 1\<rparr>,
      if cp_SessionId start = [] \<and> cp_Epoch start \<noteq> 0 then start else start\<lparr>cp_Epoch := 1\<rparr>,
      Inr (fresh, if cp_SessionId start = [] then ''created'' else ''expired; new session created''))"
  using assms by (auto simp: resolve_def known_session_def Let_def split: if_splits)

lemma handshake_fails:
  assumes "known_session start mgr = None"
  shows "newSession (mg_cfg mgr) fresh now = None \<Longrightarrow> handshake_start fresh now start mgr = None"
    "newSession (mg_cfg mgr) fresh now = Some (Inl e) \<Longrightarrow> handshake_start fresh now start mgr =
       Some (if e = SessPanic then (mgr, HsPanicked) else (count_stale mgr, HsRejected (RejSession e)))"
proof -
  have n: "(cp_SessionId start \<noteq> [] \<and> map_of (mg_sessions mgr) (cp_SessionId start) \<noteq> None) = False"
    using assms by (auto simp: known_session_def split: if_splits)
  show "newSession (mg_cfg mgr) fresh now = None \<Longrightarrow> handshake_start fresh now start mgr = None"
    unfolding handshake_start_def resolve_def n by simp
  show "newSession (mg_cfg mgr) fresh now = Some (Inl e) \<Longrightarrow> handshake_start fresh now start mgr =
       Some (if e = SessPanic then (mgr, HsPanicked) else (count_stale mgr, HsRejected (RejSession e)))"
    unfolding handshake_start_def resolve_def n by (cases e) simp_all
qed

lemma handshake_creates:
  assumes "known_session start mgr = None" "newSession (mg_cfg mgr) fresh now = Some (Inr s0)"
  shows "\<exists>s mgr'. handshake_start fresh now start mgr =
      Some (mgr', HsAttached fresh 0 (if cp_SessionId start = [] then ''created'' else ''expired; new session created'')) \<and>
      map_of (mg_sessions mgr') = (map_of (mg_sessions mgr))(fresh \<mapsto> s) \<and> ss_uplinkFloor s = 0 \<and>
      attached_to (if cp_SessionId start = [] \<and> cp_Epoch start \<noteq> 0 then cp_Epoch start else 1) 0 s \<and>
      mg_sessionsCreated mgr' = mg_sessionsCreated mgr + 1 \<and> StaleEpochClaims mgr' = StaleEpochClaims mgr"
proof -
  let ?start = "if cp_SessionId start = [] \<and> cp_Epoch start \<noteq> 0 then start else start\<lparr>cp_Epoch := 1\<rparr>"
  have f: "\<not> ss_closed s0" "ss_epoch s0 = 0" "ss_att s0 = None" "ss_atts s0 = []" "ss_uplinkFloor s0 = 0"
    using newSession_blank [OF assms(2)] by (simp_all add: blank_session_def)
  have e: "\<not> cp_Epoch ?start \<le> 0" by simp
  obtain s' where "attach (cp_Epoch ?start) now s0 = Some (Inr (s', 0))" "attached_to (cp_Epoch ?start) 0 s'"
    "ss_uplinkFloor s' = 0"
    using attach_outcome [of s0 "cp_Epoch ?start" now] f e by (auto simp: att_in_range_def reader_left_def split: if_splits)
  with resolve_new [OF assms(2,1)] show ?thesis
    unfolding handshake_start_def by (auto simp: set_session_def update_conv' StaleEpochClaims_def)
qed

lemma start_outcome:
  assumes "list_all (\<lambda>p. att_in_range (snd p)) (mg_sessions mgr)"
  shows "case known_session start mgr of
        None \<Rightarrow> (case newSession (mg_cfg mgr) fresh now of
            None \<Rightarrow> handshake_start fresh now start mgr = None
          | Some (Inl e) \<Rightarrow> handshake_start fresh now start mgr =
              Some (if e = SessPanic then (mgr, HsPanicked) else (count_stale mgr, HsRejected (RejSession e)))
          | Some (Inr _) \<Rightarrow> \<exists>s mgr'. handshake_start fresh now start mgr =
              Some (mgr', HsAttached fresh 0 (if cp_SessionId start = [] then ''created'' else ''expired; new session created'')) \<and>
              map_of (mg_sessions mgr') = (map_of (mg_sessions mgr))(fresh \<mapsto> s) \<and> ss_uplinkFloor s = 0 \<and>
              attached_to (if cp_SessionId start = [] \<and> cp_Epoch start \<noteq> 0 then cp_Epoch start else 1) 0 s \<and>
              mg_sessionsCreated mgr' = mg_sessionsCreated mgr + 1 \<and> StaleEpochClaims mgr' = StaleEpochClaims mgr)
      | Some s \<Rightarrow>
          if ss_closed s \<or> cp_Epoch start \<le> ss_epoch s then
            handshake_start fresh now start mgr = Some (count_stale mgr, HsRejected (RejAttach
              (if ss_closed s then SessionClosed else StaleEpoch (cp_Epoch start) (ss_epoch s))))
          else if reader_left s then handshake_start fresh now start mgr = None
          else \<exists>s'. handshake_start fresh now start mgr = Some (set_session (cp_SessionId start) s' mgr,
                 HsAttached (cp_SessionId start) (length (ss_atts s)) ''resumed'') \<and>
               attached_to (cp_Epoch start) (length (ss_atts s)) s' \<and> ss_uplinkFloor s' = ss_uplinkFloor s"
proof (cases "known_session start mgr")
  case None
  note f = handshake_fails [OF None, of fresh now]
  show ?thesis
  proof (cases "newSession (mg_cfg mgr) fresh now")
    case none: None
    with None f(1) show ?thesis by simp
  next
    case (Some x)
    then show ?thesis
    proof (cases x)
      case (Inl e)
      with Some None f(2) show ?thesis by simp
    next
      case (Inr s0)
      with Some have "newSession (mg_cfg mgr) fresh now = Some (Inr s0)" by simp
      from handshake_creates [OF None this] None this show ?thesis by (simp only: option.case sum.case)
    qed
  qed
next
  case (Some s)
  then have k: "cp_SessionId start \<noteq> []" "map_of (mg_sessions mgr) (cp_SessionId start) = Some s"
    by (auto simp: known_session_def split: if_splits)
  then have "att_in_range s" using assms map_of_SomeD [OF k(2)] by (fastforce simp: list_all_iff)
  from attach_outcome [OF this, of "cp_Epoch start" now] k Some show ?thesis
    unfolding handshake_start_def resolve_def by (auto split: if_splits)
qed

text \<open>
  C9: Every handshake has one outcome, whatever is read: an error of the read ends it and a frame that is not a \<open>START\<close>
  (another type, a payload that does not decode, another kind) is rejected, both with nothing changed. A \<open>START\<close> that
  names no session the manager has gets a new one and is attached at once, with the claimed epoch only when it names no
  session; when the construction fails it is refused and counted, and when it panics nothing is counted. A known session is
  resumed with its watermark when the claim is above its epoch, as soon as the old reader has gone; any other claim is
  refused and counted and changes no session.
\<close>

theorem handshake_outcome:
  assumes "list_all (\<lambda>p. att_in_range (snd p)) (mg_sessions mgr)"
  shows "case r of Inl e \<Rightarrow> Handler cd fresh now r mgr = Some (mgr, HsReadError e)
    | Inr f \<Rightarrow> ((\<nexists>start. is_start cd f start) \<longrightarrow> Handler cd fresh now r mgr = Some (mgr, HsRejected ExpectedStart)) \<and>
      (\<forall>start. is_start cd f start \<longrightarrow> (case known_session start mgr of
        None \<Rightarrow> (case newSession (mg_cfg mgr) fresh now of
            None \<Rightarrow> Handler cd fresh now r mgr = None
          | Some (Inl e) \<Rightarrow> Handler cd fresh now r mgr =
              Some (if e = SessPanic then (mgr, HsPanicked) else (count_stale mgr, HsRejected (RejSession e)))
          | Some (Inr _) \<Rightarrow> \<exists>s mgr'. Handler cd fresh now r mgr =
              Some (mgr', HsAttached fresh 0 (if cp_SessionId start = [] then ''created'' else ''expired; new session created'')) \<and>
              map_of (mg_sessions mgr') = (map_of (mg_sessions mgr))(fresh \<mapsto> s) \<and> ss_uplinkFloor s = 0 \<and>
              attached_to (if cp_SessionId start = [] \<and> cp_Epoch start \<noteq> 0 then cp_Epoch start else 1) 0 s \<and>
              mg_sessionsCreated mgr' = mg_sessionsCreated mgr + 1 \<and> StaleEpochClaims mgr' = StaleEpochClaims mgr)
      | Some s \<Rightarrow>
          if ss_closed s \<or> cp_Epoch start \<le> ss_epoch s then
            Handler cd fresh now r mgr = Some (count_stale mgr, HsRejected (RejAttach
              (if ss_closed s then SessionClosed else StaleEpoch (cp_Epoch start) (ss_epoch s))))
          else if reader_left s then Handler cd fresh now r mgr = None
          else \<exists>s'. Handler cd fresh now r mgr = Some (set_session (cp_SessionId start) s' mgr,
                 HsAttached (cp_SessionId start) (length (ss_atts s)) ''resumed'') \<and>
               attached_to (cp_Epoch start) (length (ss_atts s)) s' \<and> ss_uplinkFloor s' = ss_uplinkFloor s))"
proof (cases r)
  case (Inl e)
  then show ?thesis by (simp add: Handler_def)
next
  case (Inr f)
  have no: "Handler cd fresh now (Inr f) mgr = Some (mgr, HsRejected ExpectedStart)" if "\<nexists>start. is_start cd f start"
    using that by (auto simp: Handler_def is_start_def split: option.splits)
  have H: "Handler cd fresh now (Inr f) mgr = handshake_start fresh now start mgr" if "is_start cd f start" for start
    using that by (simp add: Handler_def is_start_def)
  note so = start_outcome [OF assms, where fresh = fresh and now = now]
  show ?thesis
    unfolding Inr sum.case
  proof (intro conjI allI impI)
    assume "\<nexists>start. is_start cd f start"
    then show "Handler cd fresh now (Inr f) mgr = Some (mgr, HsRejected ExpectedStart)" by (rule no)
  qed (use so in \<open>simp only: H\<close>)
qed

definition start_codec :: codec where
  "start_codec = demo_codec\<lparr>cd_uncontrol := (\<lambda>bs. Some \<lparr>cp_Kind = KIND_START, cp_Detail = [], cp_SessionId = ''gone'',
     cp_Epoch = 7, cp_LastSeq = 0\<rparr>)\<rparr>"

text \<open>
  A client resumes a session the server has forgotten and gets a new one at epoch 1; a client whose first frame is no
  \<open>START\<close> is rejected; a server whose frames have a negative size panics.
\<close>

theorem handshake_outcome_witness:
  "(\<exists>s mgr'. Handler start_codec ''x'' 0 (Inr stop_frame) (NewManager (Default []) None) =
       Some (mgr', HsAttached ''x'' 0 ''expired; new session created'') \<and>
     map_of (mg_sessions mgr') ''x'' = Some s \<and> attached_to 1 0 s \<and> mg_sessionsCreated mgr' = 1) \<and>
   Handler demo_codec ''x'' 0 (Inr stop_frame) (NewManager (Default []) None) =
     Some (NewManager (Default []) None, HsRejected ExpectedStart) \<and>
   Handler start_codec ''x'' 0 (Inr stop_frame) (NewManager negative_frames None) = Some (NewManager negative_frames None, HsPanicked)"
proof -
  let ?start = "\<lparr>cp_Kind = KIND_START, cp_Detail = [], cp_SessionId = ''gone'', cp_Epoch = 7, cp_LastSeq = 0\<rparr>"
  let ?mgr = "NewManager (Default []) None" and ?neg = "NewManager negative_frames None"
  have i: "is_start start_codec stop_frame ?start" "\<nexists>start. is_start demo_codec stop_frame start"
    by (auto simp: is_start_def stop_frame_def start_codec_def demo_codec_def control_of_def)
  have r: "list_all (\<lambda>p. att_in_range (snd p)) (mg_sessions (NewManager cfg None))" for cfg by (simp add: NewManager_def)
  obtain s0 where s0: "newSession (mg_cfg ?mgr) ''x'' 0 = Some (Inr s0)"
    using newSession_Default [of "''x''" 0] by (auto simp: NewManager_def)
  have neg: "newSession (mg_cfg ?neg) ''x'' 0 = Some (Inl SessPanic)"
    using negative_frames_panic by (simp add: NewManager_def)
  have k: "known_session ?start (NewManager cfg None) = None" for cfg by (simp add: known_session_def NewManager_def)
  show ?thesis
    using handshake_outcome [OF r [of "Default []"], where r = "Inr stop_frame" and cd = start_codec and fresh = "''x''" and now = 0]
      handshake_outcome [OF r [of "Default []"], where r = "Inr stop_frame" and cd = demo_codec and fresh = "''x''" and now = 0]
      handshake_outcome [OF r [of negative_frames], where r = "Inr stop_frame" and cd = start_codec and fresh = "''x''" and now = 0] i k s0 neg
    by (fastforce simp: NewManager_def)
qed

section \<open>Reaping\<close>

lemma gauge_sum:
  "gauge acc live mgr = (case mg_m mgr of None \<Rightarrow> 0 | Some m \<Rightarrow> acc m) + sum_list (map (\<lambda>p. live (snd p)) (mg_sessions mgr))"
proof -
  have "foldl (\<lambda>t p. t + live (snd p)) z ps = z + sum_list (map (\<lambda>p. live (snd p)) ps)" for z ps
    by (induction ps arbitrary: z) (simp_all add: add.assoc)
  then show ?thesis by (simp add: gauge_def)
qed

lemma delete_filter: "AList.delete k al = filter (\<lambda>p. fst p \<noteq> k) al"
  by (induction al) auto

lemma sum_delete:
  fixes g :: "'v \<Rightarrow> u64"
  assumes "distinct (map fst al)" "map_of al k = Some v"
  shows "sum_list (map (\<lambda>p. g (snd p)) (AList.delete k al)) = sum_list (map (\<lambda>p. g (snd p)) al) - g v"
  using assms
proof (induction al)
  case (Cons p al)
  show ?case
  proof (cases "fst p = k")
    case True
    with Cons.prems have "k \<notin> fst ` set al" "snd p = v" by (cases p; simp)+
    then have "AList.delete k al = al" "snd p = v" by (simp_all add: delete_id)
    with True show ?thesis by (cases p) auto
  next
    case False
    with Cons show ?thesis by (cases p) (auto simp: algebra_simps)
  qed
qed simp

lemma close_counts:
  "(acc, live) \<in> set gauges \<Longrightarrow> live (Session_close s) = live s"
  by (auto simp: gauges_def Session_close_def close_mark_def close_cancel_def set_att_def Let_def Session_IllegalEvents_def
      split: option.splits)

lemma account_adds: "(acc, live) \<in> set gauges \<Longrightarrow> acc (account s m) = acc m + live s"
  by (auto simp: gauges_def account_def)

lemma reclaim_known:
  assumes "distinct (map fst (mg_sessions mgr))" "map_of (mg_sessions mgr) sid = Some s" "mg_m mgr = Some m"
  shows "mg_sessions (fst (reclaim sid mgr)) = filter (\<lambda>p. fst p \<noteq> sid) (mg_sessions mgr)"
    "mg_cfg (fst (reclaim sid mgr)) = mg_cfg mgr"
    "mg_sessionsReclaimed (fst (reclaim sid mgr)) = mg_sessionsReclaimed mgr + 1"
    "\<exists>m'. mg_m (fst (reclaim sid mgr)) = Some m'"
    "(acc, live) \<in> set gauges \<Longrightarrow> gauge acc live (fst (reclaim sid mgr)) = gauge acc live mgr"
  using assms sum_delete [OF assms(1,2), of live]
  by (auto simp: reclaim_def reclaim_account_def reclaim_remove_def delete_filter gauge_sum account_adds close_counts Let_def)

lemma reclaim_closes:
  "map_of (mg_sessions mgr) sid = Some s \<Longrightarrow> snd (reclaim sid mgr) = Some (Session_close s)"
  by (simp add: reclaim_def Let_def)

lemma map_of_filter_neq: "k \<noteq> sid \<Longrightarrow> map_of (filter (\<lambda>p. fst p \<noteq> sid) al) k = map_of al k"
  by (induction al) auto

lemma reclaim_all_known:
  assumes "mg_m mgr = Some m" "distinct sids" "set sids \<subseteq> fst ` set (mg_sessions mgr)" "distinct (map fst (mg_sessions mgr))"
    "(acc, live) \<in> set gauges"
  shows "mg_sessions (fst (reclaim_all sids mgr)) = filter (\<lambda>p. fst p \<notin> set sids) (mg_sessions mgr) \<and>
    mg_sessionsReclaimed (fst (reclaim_all sids mgr)) = mg_sessionsReclaimed mgr + word_of_nat (length sids) \<and>
    gauge acc live (fst (reclaim_all sids mgr)) = gauge acc live mgr \<and>
    snd (reclaim_all sids mgr) = map (\<lambda>sid. (sid, Session_close (the (map_of (mg_sessions mgr) sid)))) sids"
  using assms(1-4)
proof (induction sids arbitrary: mgr m)
  case (Cons sid sids)
  obtain s where s: "map_of (mg_sessions mgr) sid = Some s"
    using Cons.prems(3) by (metis list.set_intros(1) map_of_eq_None_iff not_None_eq subsetD)
  note r = reclaim_known [OF Cons.prems(4) s Cons.prems(1)]
  let ?mgr = "fst (reclaim sid mgr)"
  obtain m' where m': "mg_m ?mgr = Some m'" using r(4) by blast
  have d: "distinct (map fst (mg_sessions ?mgr))" using Cons.prems(4) by (simp add: r(1) distinct_map_filter)
  have sub: "set sids \<subseteq> fst ` set (mg_sessions ?mgr)" using Cons.prems(2,3) unfolding r(1) by force
  have d2: "distinct sids" and new: "sid \<notin> set sids" using Cons.prems(2) by simp_all
  have same: "map (\<lambda>k. (k, Session_close (the (map_of (mg_sessions ?mgr) k)))) sids =
      map (\<lambda>k. (k, Session_close (the (map_of (mg_sessions mgr) k)))) sids"
  proof (rule map_cong [OF refl])
    fix k assume "k \<in> set sids"
    then have "k \<noteq> sid" using new by blast
    then show "(k, Session_close (the (map_of (mg_sessions ?mgr) k))) = (k, Session_close (the (map_of (mg_sessions mgr) k)))"
      unfolding r(1) by (simp add: map_of_filter_neq)
  qed
  from Cons.IH [OF m' d2 sub d] r(1,3) r(5) [OF assms(5)] reclaim_closes [OF s] s same show ?case
    by (simp add: conj_commute split_beta)
qed simp

text \<open>What a closed session no longer holds: its goroutines and attachments are cancelled, its connection closed.\<close>

definition released :: "Session \<Rightarrow> bool" where
  "released s \<longleftrightarrow> ss_closed s \<and> ss_runCancelled s \<and> list_all ats_cancelled (ss_atts s) \<and>
     (case ss_att s of None \<Rightarrow> True | Some a \<Rightarrow> ats_closed (ss_atts s ! a))"

lemma close_releases:
  assumes "att_in_range s" "\<not> ss_closed s"
  shows "released (Session_close s)"
proof (cases "ss_att s")
  case (Some a)
  with assms have "a < length (ss_atts s)" by (simp add: att_in_range_def)
  with Some assms(2) show ?thesis
    by (auto simp: released_def Session_close_def close_mark_def close_cancel_def set_att_def list_all_length nth_list_update)
qed (use assms in \<open>simp add: released_def Session_close_def close_mark_def close_cancel_def list_all_length\<close>)

text \<open>
  C24: The reaper takes exactly the idle: whatever sessions there are, one tick closes, reclaims and counts those whose last
  activity is more than the timeout ago, each once and in the order of the snapshot, and leaves the others as they are;
  every session it takes ends closed, and one that was open has its goroutines and all its attachments cancelled and the
  connection of the one in place closed; every exported total is the same before and after.
\<close>

theorem reap_exactly_idle:
  assumes "distinct (map fst (mg_sessions mgr))" "mg_m mgr = Some m" "(acc, live) \<in> set gauges"
    "list_all (\<lambda>p. att_in_range (snd p)) (mg_sessions mgr)"
  shows "mg_sessions (fst (reapIdle now mgr)) = filter (\<lambda>p. \<not> idle_for now mgr p) (mg_sessions mgr) \<and>
    map fst (snd (reapIdle now mgr)) = map fst (filter (idle_for now mgr) (mg_sessions mgr)) \<and>
    (\<forall>(sid, s') \<in> set (snd (reapIdle now mgr)). ss_closed s' \<and>
      (\<exists>s. map_of (mg_sessions mgr) sid = Some s \<and> s' = Session_close s \<and> (\<not> ss_closed s \<longrightarrow> released s'))) \<and>
    mg_sessionsReclaimed (fst (reapIdle now mgr)) =
      mg_sessionsReclaimed mgr + word_of_nat (length (filter (idle_for now mgr) (mg_sessions mgr))) \<and>
    gauge acc live (fst (reapIdle now mgr)) = gauge acc live mgr"
proof -
  let ?idle = "filter (idle_for now mgr) (mg_sessions mgr)"
  let ?sids = "map fst ?idle"
  have d: "distinct ?sids" using assms(1) by (rule distinct_map_filter)
  have sub: "set ?sids \<subseteq> fst ` set (mg_sessions mgr)" by auto
  have eq: "fst p \<in> set ?sids \<longleftrightarrow> idle_for now mgr p" if "p \<in> set (mg_sessions mgr)" for p
    using that assms(1) by (auto simp: distinct_map inj_on_def)
  have left: "filter (\<lambda>p. fst p \<notin> set ?sids) (mg_sessions mgr) = filter (\<lambda>p. \<not> idle_for now mgr p) (mg_sessions mgr)"
    using eq by (intro filter_cong) simp_all
  have r: "mg_sessions (fst (reapIdle now mgr)) = filter (\<lambda>p. fst p \<notin> set ?sids) (mg_sessions mgr)"
    "mg_sessionsReclaimed (fst (reapIdle now mgr)) = mg_sessionsReclaimed mgr + word_of_nat (length ?sids)"
    "gauge acc live (fst (reapIdle now mgr)) = gauge acc live mgr"
    "snd (reapIdle now mgr) = map (\<lambda>sid. (sid, Session_close (the (map_of (mg_sessions mgr) sid)))) ?sids"
    using reclaim_all_known [OF assms(2) d sub assms(1,3)] unfolding reapIdle_def by blast+
  have names: "map fst (snd (reapIdle now mgr)) = ?sids" unfolding r(4) by (simp add: comp_def)
  have closed: "ss_closed s' \<and> (\<exists>s. map_of (mg_sessions mgr) sid = Some s \<and> s' = Session_close s \<and> (\<not> ss_closed s \<longrightarrow> released s'))"
    if "(sid, s') \<in> set (snd (reapIdle now mgr))" for sid s'
  proof -
    have "(sid, s') \<in> set (map (\<lambda>sid. (sid, Session_close (the (map_of (mg_sessions mgr) sid)))) ?sids)" using that unfolding r(4) .
    then obtain s where s: "(sid, s) \<in> set (mg_sessions mgr)" "s' = Session_close (the (map_of (mg_sessions mgr) sid))" by auto
    then have m: "map_of (mg_sessions mgr) sid = Some s" using assms(1) by simp
    have "att_in_range s" using s(1) assms(4) by (auto simp: list_all_iff)
    then have "\<not> ss_closed s \<longrightarrow> released s'" using close_releases m s(2) by simp
    moreover have "ss_closed (Session_close s)"
      by (auto simp: Session_close_def close_mark_def close_cancel_def set_att_def Let_def split: option.split)
    ultimately show ?thesis using m s(2) by simp
  qed
  show ?thesis
    unfolding r(1-3) left names using closed by (intro conjI ballI) (auto simp del: set_filter)
qed

text \<open>
  The exported totals dip: between the deletion of a session from the map and the addition of its
  counters to the accumulated ones, a scrape reports every total without that session's share; it is
  whole again when \<open>reclaim\<close> returns.
\<close>

theorem exported_total_dips:
  assumes "distinct (map fst (mg_sessions mgr))" "map_of (mg_sessions mgr) sid = Some s" "mg_m mgr = Some m"
    and "(acc, live) \<in> set gauges"
  shows "gauge acc live (reclaim_remove sid mgr) = gauge acc live mgr - live s \<and>
    gauge acc live (fst (reclaim sid mgr)) = gauge acc live mgr"
  using sum_delete [OF assms(1,2), of live] reclaim_known(5) [OF assms(1-4)]
  by (simp add: gauge_sum reclaim_remove_def)

definition reap_demo :: "Session \<Rightarrow> Manager" where
  "reap_demo s = \<lparr>mg_cfg = Default [], mg_m = Some M_New,
     mg_sessions = [(''a'', s\<lparr>ss_dupFrames := 3\<rparr>), (''b'', s\<lparr>ss_dupFrames := 4, ss_lastActive := 100 * Second\<rparr>)],
     mg_staleEpochClaims = 0, mg_sessionsCreated = 2, mg_sessionsReclaimed = 0\<rparr>"

text \<open>At 70 seconds one of two sessions has been idle for more than a minute: it is closed.\<close>

theorem reap_exactly_idle_witness:
  "\<exists>s mgr s'. newSession (Default []) ''a'' 0 = Some (Inr s) \<and> reapIdle (70 * Second) (reap_demo s) = (mgr, [(''a'', s')]) \<and>
     released s' \<and> ss_dupFrames s' = 3 \<and>
     map fst (mg_sessions mgr) = [''b''] \<and> mg_sessionsReclaimed mgr = 1 \<and> gauge m_AccDupFrames ss_dupFrames mgr = 7"
proof -
  obtain s where s: "newSession (Default []) ''a'' 0 = Some (Inr s)" "fresh_session ''a'' 0 s"
    using newSession_Default by blast
  have la: "ss_lastActive s = 0" "ss_att s = None" "\<not> ss_closed s" using s(2) by (simp_all add: fresh_session_def)
  have p: "distinct (map fst (mg_sessions (reap_demo s)))" "mg_m (reap_demo s) = Some M_New"
    "(m_AccDupFrames, ss_dupFrames) \<in> set gauges" "list_all (\<lambda>p. att_in_range (snd p)) (mg_sessions (reap_demo s))"
    by (simp_all add: reap_demo_def gauges_def att_in_range_def la)
  note r = reap_exactly_idle [OF p, of "70 * Second"]
  have idle: "idle_for (70 * Second) (reap_demo s) (''a'', s\<lparr>ss_dupFrames := 3\<rparr>)"
    "\<not> idle_for (70 * Second) (reap_demo s) (''b'', s\<lparr>ss_dupFrames := 4, ss_lastActive := 100 * Second\<rparr>)"
    by (simp_all add: idle_for_def reap_demo_def Default_def time_sub_def la)
  have f: "filter (idle_for (70 * Second) (reap_demo s)) (mg_sessions (reap_demo s)) = [(''a'', s\<lparr>ss_dupFrames := 3\<rparr>)]"
    using idle by (simp add: reap_demo_def)
  have g: "gauge m_AccDupFrames ss_dupFrames (reap_demo s) = 7" by (simp add: gauge_sum reap_demo_def M_New_def)
  obtain s' where s': "snd (reapIdle (70 * Second) (reap_demo s)) = [(''a'', s')]" using r f by auto
  with r have "s' = Session_close (s\<lparr>ss_dupFrames := 3\<rparr>)" "released s'" by (auto simp: reap_demo_def la)
  moreover have "ss_dupFrames (Session_close t) = ss_dupFrames t" for t
    using close_counts [of m_AccDupFrames ss_dupFrames t] p(3) by simp
  moreover have "mg_sessionsReclaimed (fst (reapIdle (70 * Second) (reap_demo s))) = 1" using r f by (simp add: reap_demo_def)
  moreover have "map fst (mg_sessions (fst (reapIdle (70 * Second) (reap_demo s)))) = [''b'']" using r idle by (simp add: reap_demo_def)
  moreover have "gauge m_AccDupFrames ss_dupFrames (fst (reapIdle (70 * Second) (reap_demo s))) = 7" using r g by simp
  ultimately show ?thesis using s(1) s'
    by (intro exI [of _ s] exI [of _ "fst (reapIdle (70 * Second) (reap_demo s))"] exI [of _ s']) (simp add: prod_eq_iff)
qed

theorem exported_total_dips_witness:
  "\<exists>s. newSession (Default []) ''a'' 0 = Some (Inr s) \<and> gauge m_AccDupFrames ss_dupFrames (reap_demo s) = 7 \<and>
     gauge m_AccDupFrames ss_dupFrames (reclaim_remove ''a'' (reap_demo s)) = 4 \<and>
     gauge m_AccDupFrames ss_dupFrames (fst (reclaim ''a'' (reap_demo s))) = 7"
proof -
  obtain s where s: "newSession (Default []) ''a'' 0 = Some (Inr s)" using newSession_Default by blast
  have "distinct (map fst (mg_sessions (reap_demo s)))" "mg_m (reap_demo s) = Some M_New"
    "map_of (mg_sessions (reap_demo s)) ''a'' = Some (s\<lparr>ss_dupFrames := 3\<rparr>)"
    "(m_AccDupFrames, ss_dupFrames) \<in> set gauges" by (simp_all add: reap_demo_def gauges_def)
  note r = exported_total_dips [OF this(1,3,2,4)]
  have "gauge m_AccDupFrames ss_dupFrames (reap_demo s) = 7" by (simp add: gauge_sum reap_demo_def M_New_def)
  with r s show ?thesis by (intro exI [of _ s]) simp
qed

end
