(* ===== verification/Loadpace.thy ===== *)
theory Loadpace
  imports Turn Vad
begin

text \<open>
  The pacing of the load generator (\<open>internal/loadgen/shaper.go\<close>): the shaper of arrival times and the
  clock of a virtual caller. The random source is a parameter: \<open>release\<close> is given the draw it makes.
\<close>

section \<open>The shaper\<close>

record Netem =
  ne_Delay :: duration
  ne_Jitter :: duration
  ne_BurstEvery :: duration
  ne_BurstHold :: duration
  ne_Seed :: u64

definition netem_enabled :: "Netem \<Rightarrow> bool" where
  "netem_enabled n \<longleftrightarrow> ne_Delay n > 0 \<or> ne_Jitter n > 0 \<or> ne_BurstEvery n > 0 \<and> ne_BurstHold n > 0"

record shaper =
  sh_n :: Netem
  sh_epoch :: instant
  sh_lastRelease :: instant

definition newShaper :: "Netem \<Rightarrow> shaper" where
  "newShaper n = \<lparr>sh_n = n, sh_epoch = zero_time, sh_lastRelease = zero_time\<rparr>"

text \<open>\<open>draw\<close> is what \<open>Int64N(Jitter)\<close> returns.\<close>

definition shaper_release :: "duration \<Rightarrow> instant \<Rightarrow> shaper \<Rightarrow> shaper \<times> instant" where
  "shaper_release draw ideal s0 =
     (let s = (if sh_epoch s0 = zero_time then s0\<lparr>sh_epoch := ideal\<rparr> else s0);
          n = sh_n s;
          d1 = ne_Delay n + (if ne_Jitter n > 0 then draw else 0);
          phase = time_sub ideal (sh_epoch s) smod ne_BurstEvery n;
          d2 = (if ne_BurstEvery n > 0 \<and> ne_BurstHold n > 0 \<and> phase < ne_BurstHold n
                then d1 + (ne_BurstHold n - phase) else d1);
          t = ideal + d2;
          t1 = (if t < sh_lastRelease s then sh_lastRelease s else t) in
      (s\<lparr>sh_lastRelease := t1\<rparr>, t1))"

section \<open>The clock\<close>

record clock =
  ck_interval :: duration
  ck_next :: instant
  ck_lastIdeal :: instant
  ck_sh :: "shaper option"

definition newClock :: "duration \<Rightarrow> Netem \<Rightarrow> clock" where
  "newClock interval n = \<lparr>ck_interval = interval, ck_next = zero_time, ck_lastIdeal = zero_time,
     ck_sh = (if netem_enabled n then Some (newShaper n) else None)\<rparr>"

text \<open>The instant \<open>wait\<close> sleeps until.\<close>

definition clock_wait :: "instant \<Rightarrow> duration \<Rightarrow> clock \<Rightarrow> clock \<times> instant" where
  "clock_wait now draw c0 =
     (let c = (if ck_next c0 = zero_time then c0\<lparr>ck_next := now\<rparr> else c0);
          rel = (case ck_sh c of None \<Rightarrow> ck_next c | Some s \<Rightarrow> snd (shaper_release draw (ck_next c) s));
          sh1 = (case ck_sh c of None \<Rightarrow> None | Some s \<Rightarrow> Some (fst (shaper_release draw (ck_next c) s))) in
      (c\<lparr>ck_sh := sh1, ck_lastIdeal := ck_next c, ck_next := ck_next c + ck_interval c\<rparr>, rel))"

definition peekIdeal :: "instant \<Rightarrow> clock \<Rightarrow> instant" where
  "peekIdeal now c = (if ck_next c = zero_time then now else ck_next c)"

text \<open>\<open>sleepUntil\<close>: what it returns, given the time it is called, whether the context is done then, and
  whether it is done before the timer fires.\<close>

definition sleepUntil :: "instant \<Rightarrow> bool \<Rightarrow> bool \<Rightarrow> instant \<Rightarrow> bool" where
  "sleepUntil now done_now done_first t = (if time_sub t now \<le> 0 then \<not> done_now else \<not> done_first)"

text \<open>The slots of a run of waits, each with the reading of the clock and the draw: ideal and released.\<close>

fun clock_run :: "clock \<Rightarrow> (instant \<times> duration) list \<Rightarrow> clock \<times> (instant \<times> instant) list" where
  "clock_run c [] = (c, [])"
| "clock_run c ((now, draw) # ws) =
     (case clock_wait now draw c of (c1, rel) \<Rightarrow>
      case clock_run c1 ws of (c2, slots) \<Rightarrow> (c2, (ck_lastIdeal c1, rel) # slots))"

section \<open>Where the slots are\<close>

definition hold_of :: "Netem \<Rightarrow> duration" where
  "hold_of n = (if ne_BurstEvery n > 0 \<and> ne_BurstHold n > 0 then ne_BurstHold n else 0)"

definition netem_ok :: "Netem \<Rightarrow> bool" where
  "netem_ok n \<longleftrightarrow> 0 \<le> ne_Delay n"

definition draw_ok :: "Netem \<Rightarrow> duration \<Rightarrow> bool" where
  "draw_ok n draw \<longleftrightarrow> 0 \<le> draw \<and> (0 < ne_Jitter n \<longrightarrow> draw < ne_Jitter n)"

abbreviation jitter_of :: "Netem \<Rightarrow> duration" where
  "jitter_of n \<equiv> max 0 (ne_Jitter n)"

text \<open>A shaper that has released nothing after the bound of the slot before \<open>ideal\<close>.\<close>

definition shaper_ok :: "Netem \<Rightarrow> instant \<Rightarrow> shaper \<Rightarrow> bool" where
  "shaper_ok n ideal s \<longleftrightarrow> sh_n s = n \<and> (sh_epoch s = zero_time \<or> sh_epoch s \<le> ideal) \<and>
     sh_lastRelease s \<le> ideal + ne_Delay n + jitter_of n + hold_of n"

lemma smod_nonneg: "0 \<le> (k :: int) \<Longrightarrow> 0 < l \<Longrightarrow> 0 \<le> k smod l"
  by (cases "k = 0") (simp_all add: signed_modulo_int_def)

lemma release_slot:
  assumes "shaper_ok n ideal s" "netem_ok n" "draw_ok n draw" "shaper_release draw ideal s = (s', t)"
  shows "ideal + ne_Delay n \<le> t" "t \<le> ideal + ne_Delay n + jitter_of n + hold_of n" "sh_lastRelease s \<le> t"
    "sh_lastRelease s' = t" "ideal \<le> ideal' \<Longrightarrow> shaper_ok n ideal' s'"
proof -
  let ?e = "if sh_epoch s = zero_time then ideal else sh_epoch s"
  have e: "?e \<le> ideal" using assms(1) by (auto simp: shaper_ok_def)
  then have "0 \<le> time_sub ideal ?e" by (simp add: time_sub_def)
  then have ph: "0 < ne_BurstEvery n \<Longrightarrow> 0 \<le> time_sub ideal ?e smod ne_BurstEvery n" by (rule smod_nonneg)
  let ?d1 = "ne_Delay n + (if ne_Jitter n > 0 then draw else 0)"
  let ?ph = "time_sub ideal ?e smod ne_BurstEvery n"
  let ?d2 = "if ne_BurstEvery n > 0 \<and> ne_BurstHold n > 0 \<and> ?ph < ne_BurstHold n then ?d1 + (ne_BurstHold n - ?ph) else ?d1"
  have n: "sh_n s = n" using assms(1) by (simp add: shaper_ok_def)
  have r: "t = max (ideal + ?d2) (sh_lastRelease s)" "s' = (if sh_epoch s = zero_time then s\<lparr>sh_epoch := ideal\<rparr> else s)\<lparr>sh_lastRelease := t\<rparr>"
    using assms(4) n by (auto simp: shaper_release_def Let_def max_def)
  have d1: "ne_Delay n \<le> ?d1" "?d1 \<le> ne_Delay n + jitter_of n" using assms(3) by (auto simp: draw_ok_def)
  have d2: "?d1 \<le> ?d2" "?d2 \<le> ?d1 + hold_of n" using ph by (auto simp: hold_of_def)
  show "ideal + ne_Delay n \<le> t" "sh_lastRelease s \<le> t" unfolding r(1) using d1(1) d2(1) by linarith+
  show b: "t \<le> ideal + ne_Delay n + jitter_of n + hold_of n"
    unfolding r(1) using d1(2) d2(2) assms(1) by (simp only: shaper_ok_def) linarith
  show "sh_lastRelease s' = t" by (simp add: r(2))
  assume "ideal \<le> ideal'"
  with b n e show "shaper_ok n ideal' s'" by (auto simp: shaper_ok_def r(2) split: if_splits)
qed

definition grid :: "instant \<Rightarrow> duration \<Rightarrow> nat \<Rightarrow> instant list" where
  "grid t d n = map (\<lambda>i. t + int i * d) [0..<n]"

lemma grid_Suc: "grid t d (Suc n) = t # grid (t + d) d n"
proof -
  have "[0..<Suc n] = 0 # map Suc [0..<n]" by (simp add: map_Suc_upt upt_conv_Cons del: upt_Suc)
  then show ?thesis by (simp add: grid_def comp_def algebra_simps del: upt_Suc)
qed

text \<open>What one slot promises, after a release at \<open>last\<close>.\<close>

fun slots_ok :: "Netem \<Rightarrow> instant \<Rightarrow> (instant \<times> instant) list \<Rightarrow> bool" where
  "slots_ok n lst [] = True"
| "slots_ok n lst ((ideal, rel) # slots) \<longleftrightarrow>
     lst \<le> rel \<and> ideal + ne_Delay n \<le> rel \<and> rel \<le> ideal + ne_Delay n + jitter_of n + hold_of n \<and> slots_ok n rel slots"

lemma clock_run_shaped:
  assumes "netem_ok n" "0 \<le> d" "list_all (\<lambda>w. draw_ok n (snd w)) ws"
    and "shaper_ok n t s" "zero_time < t"
  shows "\<exists>c' slots. clock_run \<lparr>ck_interval = d, ck_next = t, ck_lastIdeal = l, ck_sh = Some s\<rparr> ws = (c', slots) \<and>
    map fst slots = grid t d (length ws) \<and> slots_ok n (sh_lastRelease s) slots"
  using assms(3-5)
proof (induction ws arbitrary: t s l)
  case (Cons w ws)
  obtain now draw where w: "w = (now, draw)" by force
  obtain s' rel where r: "shaper_release draw t s = (s', rel)" by force
  note slot = release_slot [OF Cons.prems(2) assms(1) _ r]
  have dr: "draw_ok n draw" using Cons.prems(1) w by simp
  have next_ok: "shaper_ok n (t + d) s'" using slot(5) [OF dr] assms(2) by simp
  have "zero_time < t + d" using Cons.prems(3) assms(2) by simp
  with Cons.IH [OF _ next_ok this, of t] Cons.prems(1) obtain c' slots where
    "clock_run \<lparr>ck_interval = d, ck_next = t + d, ck_lastIdeal = t, ck_sh = Some s'\<rparr> ws = (c', slots)"
    "map fst slots = grid (t + d) d (length ws)" "slots_ok n (sh_lastRelease s') slots" by auto
  moreover have "clock_wait now draw \<lparr>ck_interval = d, ck_next = t, ck_lastIdeal = l, ck_sh = Some s\<rparr> =
      (\<lparr>ck_interval = d, ck_next = t + d, ck_lastIdeal = t, ck_sh = Some s'\<rparr>, rel)"
    using Cons.prems(3) by (simp add: clock_wait_def Let_def r)
  ultimately show ?case
    using slot(1-4) [OF dr] by (simp add: w grid_Suc)
qed (simp add: grid_def)

lemma clock_run_plain:
  assumes "0 \<le> d" "zero_time < t"
  shows "\<exists>c'. clock_run \<lparr>ck_interval = d, ck_next = t, ck_lastIdeal = l, ck_sh = None\<rparr> ws =
    (c', map (\<lambda>t. (t, t)) (grid t d (length ws)))"
  using assms(2)
proof (induction ws arbitrary: t l)
  case (Cons w ws)
  obtain now draw where w: "w = (now, draw)" by force
  have "zero_time < t + d" using Cons.prems assms(1) by simp
  from Cons.IH [OF this, of t] Cons.prems show ?case by (auto simp: w grid_Suc clock_wait_def Let_def)
qed (simp add: grid_def)

text \<open>
  C28: A caller keeps its grid: whatever the perturbation and the draws and however late it runs, the
  frames of a caller are due at the first reading of the clock and every interval after it; they leave
  in order, each at the earliest after the added delay and at the latest after the jitter and the hold
  of a burst, and exactly when due without perturbation.
\<close>

theorem uplink_pacing:
  assumes "0 \<le> d" "netem_ok n" "zero_time < fst w" "list_all (\<lambda>w. draw_ok n (snd w)) (w # ws)"
  shows "\<exists>c slots. clock_run (newClock d n) (w # ws) = (c, slots) \<and>
    map fst slots = grid (fst w) d (Suc (length ws)) \<and>
    (if netem_enabled n then slots_ok n zero_time slots else map snd slots = map fst slots)"
proof -
  obtain now draw where w: "w = (now, draw)" by force
  show ?thesis
  proof (cases "netem_enabled n")
    case True
    obtain s rel where r: "shaper_release draw now (newShaper n) = (s, rel)" by force
    have ok: "shaper_ok n now (newShaper n)"
      using assms(2,3) by (auto simp: shaper_ok_def newShaper_def netem_ok_def hold_of_def w)
    have dr: "draw_ok n draw" using assms(4) w by simp
    note slot = release_slot [OF ok assms(2) dr r]
    have s: "shaper_ok n (now + d) s" using slot(5) assms(1) by simp
    have "zero_time < now + d" using assms(1,3) w by simp
    from clock_run_shaped [OF assms(2,1) _ s this, of ws now] assms(4) obtain c' slots where
      "clock_run \<lparr>ck_interval = d, ck_next = now + d, ck_lastIdeal = now, ck_sh = Some s\<rparr> ws = (c', slots)"
      "map fst slots = grid (now + d) d (length ws)" "slots_ok n rel slots" using slot(4) by auto
    moreover have "clock_wait now draw (newClock d n) =
        (\<lparr>ck_interval = d, ck_next = now + d, ck_lastIdeal = now, ck_sh = Some s\<rparr>, rel)"
      by (simp add: clock_wait_def newClock_def True Let_def r)
    ultimately show ?thesis using True slot(1-3) by (simp add: w grid_Suc newShaper_def)
  next
    case False
    have "zero_time < now + d" using assms(1,3) w by simp
    from clock_run_plain [OF assms(1) this, of now ws] False show ?thesis
      by (auto simp: w clock_wait_def newClock_def Let_def grid_Suc comp_def)
  qed
qed

definition bursty :: Netem where
  "bursty = \<lparr>ne_Delay = 5, ne_Jitter = 0, ne_BurstEvery = 100, ne_BurstHold = 30, ne_Seed = 0\<rparr>"

lemma release_bursty:
  "shaper_release 0 ideal \<lparr>sh_n = bursty, sh_epoch = e, sh_lastRelease = l\<rparr> =
     (let e1 = (if e = zero_time then ideal else e); phase = time_sub ideal e1 smod 100;
          t = max (ideal + 5 + (if phase < 30 then 30 - phase else 0)) l in
      (\<lparr>sh_n = bursty, sh_epoch = e1, sh_lastRelease = t\<rparr>, t))"
  by (auto simp: shaper_release_def bursty_def Let_def max_def)

text \<open>The first two of three frames fall into the hold of a burst.\<close>

theorem uplink_pacing_witness:
  "\<exists>c slots. clock_run (newClock 20 bursty) [(1000, 0), (0, 0), (0, 0)] = (c, slots) \<and>
     map fst slots = [1000, 1020, 1040] \<and> map snd slots = [1035, 1035, 1045]"
proof -
  have z: "zero_time < fst (1000 :: int, 0 :: int)" "zero_time \<noteq> 1000" "zero_time \<noteq> 1020" "zero_time \<noteq> 1040" "zero_time < 1000"
    by (simp_all add: zero_time_def)
  have n: "netem_enabled bursty" "netem_ok bursty" "list_all (\<lambda>w. draw_ok bursty (snd w)) [(1000, 0), (0, 0), (0, 0)]"
    by (simp_all add: bursty_def netem_enabled_def netem_ok_def draw_ok_def)
  have "0 \<le> (20 :: int)" by simp
  from uplink_pacing [OF this n(2) z(1) n(3)] obtain c slots where
    r: "clock_run (newClock 20 bursty) [(1000, 0), (0, 0), (0, 0)] = (c, slots)"
    "map fst slots = grid 1000 20 (Suc (length [(0 :: instant, 0 :: duration), (0, 0)]))" unfolding fst_conv by blast
  have s: "(0 :: int) smod 100 = 0" "(20 :: int) smod 100 = 20" "(40 :: int) smod 100 = 40"
    by (simp_all add: signed_modulo_int_def)
  have e: "time_sub 1000 1000 = 0" "time_sub 1020 1000 = 20" "time_sub 1040 1000 = 40" by (simp_all add: time_sub_def)
  have c0: "newClock 20 bursty = \<lparr>ck_interval = 20, ck_next = zero_time, ck_lastIdeal = zero_time,
      ck_sh = Some \<lparr>sh_n = bursty, sh_epoch = zero_time, sh_lastRelease = zero_time\<rparr>\<rparr>"
    using n(1) by (simp add: newClock_def newShaper_def)
  have "snd (clock_run (newClock 20 bursty) [(1000, 0), (0, 0), (0, 0)]) = [(1000, 1035), (1020, 1035), (1040, 1045)]"
    using z(2-5) by (simp add: c0 clock_wait_def release_bursty Let_def s e max_def)
  with r show ?thesis by (simp add: grid_def upt_rec)
qed

end
