(* ===== verification/Loadreport.thy ===== *)
theory Loadreport
  imports Metrics "HOL-Library.AList"
begin

text \<open>
  The load generator's reading of a run: the scrapes of the server's exposition
  (\<open>internal/loadgen/scrape.go\<close>), the quantiles estimated from them, the records of the steps and the
  mechanical search for the knee (\<open>report.go\<close>). Floating-point numbers are exact reals; the upper bound
  \<open>+Inf\<close> of a bucket is a value of its own. The HTTP request and the files written are I/O.
\<close>

section \<open>Bounds of buckets\<close>

datatype bound = Fin real | PInf

instantiation bound :: linorder
begin

fun less_eq_bound :: "bound \<Rightarrow> bound \<Rightarrow> bool" where
  "less_eq_bound a PInf = True"
| "less_eq_bound PInf (Fin b) = False"
| "less_eq_bound (Fin a) (Fin b) = (a \<le> b)"

definition less_bound :: "bound \<Rightarrow> bound \<Rightarrow> bool" where
  "less_bound a b \<longleftrightarrow> a \<le> b \<and> \<not> b \<le> a"

instance
proof
  fix a b c :: bound
  show "a < b \<longleftrightarrow> a \<le> b \<and> \<not> b \<le> a" by (simp add: less_bound_def)
  show "a \<le> a" by (cases a) auto
  show "a \<le> b \<Longrightarrow> b \<le> c \<Longrightarrow> a \<le> c" by (cases a; cases b; cases c) auto
  show "a \<le> b \<Longrightarrow> b \<le> a \<Longrightarrow> a = b" by (cases a; cases b) auto
  show "a \<le> b \<or> b \<le> a" by (cases a; cases b) auto
qed

end

lemma less_bound_simps [simp]: "Fin a < Fin b \<longleftrightarrow> a < b" "Fin a < PInf" "\<not> PInf < c"
proof -
  show "\<not> PInf < c" by (cases c) (simp_all add: less_bound_def)
qed (auto simp: less_bound_def)

section \<open>Parsing the exposition\<close>

record snapshot =
  sn_scalars :: "(string \<times> real) list"
  sn_hists :: "(string \<times> (bound \<times> real) list) list"

definition empty_snapshot :: snapshot where
  "empty_snapshot = \<lparr>sn_scalars = [], sn_hists = []\<rparr>"

definition decimal_value :: "string \<Rightarrow> nat" where
  "decimal_value ds = foldl (\<lambda>n c. 10 * n + (of_char c - 48)) 0 ds"

definition split_sign :: "string \<Rightarrow> bool \<times> string" where
  "split_sign s = (case s of [] \<Rightarrow> (False, []) | c # cs \<Rightarrow>
     if c = CHR ''-'' then (True, cs) else if c = CHR ''+'' then (False, cs) else (False, s))"

definition parse_exponent :: "string \<Rightarrow> int option" where
  "parse_exponent s = (case s of [] \<Rightarrow> Some 0 | c # cs \<Rightarrow>
     if c \<noteq> CHR ''e'' \<and> c \<noteq> CHR ''E'' then None
     else case split_sign cs of (neg, ds) \<Rightarrow>
       if ds = [] \<or> \<not> list_all is_digit ds then None
       else Some (if neg then - int (decimal_value ds) else int (decimal_value ds)))"

text \<open>\<open>strconv.ParseFloat\<close> on decimal numbers, without rounding; what it reads as infinity or NaN is
  outside the reals and left out.\<close>

definition ParseFloat :: "string \<Rightarrow> real option" where
  "ParseFloat s =
     (case split_sign s of (neg, s1) \<Rightarrow>
        let ip = takeWhile is_digit s1; s2 = dropWhile is_digit s1;
            s3 = (case s2 of c # cs \<Rightarrow> if c = CHR ''.'' then cs else [] | [] \<Rightarrow> []);
            fp = takeWhile is_digit s3;
            rest = (case s2 of c # cs \<Rightarrow> if c = CHR ''.'' then dropWhile is_digit cs else s2 | [] \<Rightarrow> []) in
        if ip = [] \<and> fp = [] then None
        else map_option (\<lambda>e.
            let m = real (decimal_value (ip @ fp)) / 10 ^ length fp;
                v = (if e \<ge> 0 then m * 10 ^ nat e else m / 10 ^ nat (- e)) in
            if neg then - v else v)
          (parse_exponent rest))"

text \<open>\<open>strings.Index\<close>, \<open>strings.HasSuffix\<close> and \<open>strings.LastIndexByte\<close>.\<close>

definition has_prefix :: "string \<Rightarrow> string \<Rightarrow> bool" where
  "has_prefix p s \<longleftrightarrow> take (length p) s = p"

definition has_suffix :: "string \<Rightarrow> string \<Rightarrow> bool" where
  "has_suffix p s \<longleftrightarrow> length p \<le> length s \<and> drop (length s - length p) s = p"

fun str_index :: "string \<Rightarrow> string \<Rightarrow> nat option" where
  "str_index p [] = (if p = [] then Some 0 else None)"
| "str_index p (c # cs) = (if has_prefix p (c # cs) then Some 0 else map_option Suc (str_index p cs))"

fun last_index :: "char \<Rightarrow> string \<Rightarrow> nat option" where
  "last_index x [] = None"
| "last_index x (c # cs) =
     (case last_index x cs of Some i \<Rightarrow> Some (Suc i) | None \<Rightarrow> if c = x then Some 0 else None)"

text \<open>\<open>bucketKey\<close>: the outer \<open>None\<close> is the panic of a slice whose end is before its start.\<close>

definition bucketKey :: "string \<Rightarrow> (string \<times> bound) option option" where
  "bucketKey key =
     (case str_index ''_bucket{le=\"'' key of
        None \<Rightarrow> Some None
      | Some i \<Rightarrow>
          if \<not> has_suffix ''\"}'' key then Some None
          else let n = i + length ''_bucket{le=\"'' in
            if length key - 2 < n then None
            else let leStr = take (length key - 2 - n) (drop n key) in
              if leStr = ''+Inf'' then Some (Some (take i key, PInf))
              else Some (map_option (\<lambda>le. (take i key, Fin le)) (ParseFloat leStr)))"

definition parseLine :: "string \<Rightarrow> snapshot \<Rightarrow> snapshot option" where
  "parseLine line snap =
     (if line = [] \<or> has_prefix ''#'' line then Some snap
      else case last_index CHR '' '' line of
        None \<Rightarrow> Some snap
      | Some sp \<Rightarrow>
          if sp = 0 then Some snap
          else let key = take sp line in
            case ParseFloat (drop (sp + 1) line) of
              None \<Rightarrow> Some snap
            | Some val \<Rightarrow>
                (case bucketKey key of
                   None \<Rightarrow> None
                 | Some (Some (name, le)) \<Rightarrow>
                     let m = (case map_of (sn_hists snap) name of None \<Rightarrow> [] | Some m \<Rightarrow> m) in
                     Some (snap\<lparr>sn_hists := AList.update name (AList.update le val m) (sn_hists snap)\<rparr>)
                 | Some None \<Rightarrow> Some (snap\<lparr>sn_scalars := AList.update key val (sn_scalars snap)\<rparr>)))"

fun scrape_lines :: "string list \<Rightarrow> snapshot \<Rightarrow> snapshot option" where
  "scrape_lines [] snap = Some snap"
| "scrape_lines (l # ls) snap = Option.bind (parseLine l snap) (scrape_lines ls)"

text \<open>A read of a Go map; an absent key reads as zero.\<close>

definition read_map :: "('k \<times> real) list \<Rightarrow> 'k \<Rightarrow> real" where
  "read_map m k = (case map_of m k of None \<Rightarrow> 0 | Some v \<Rightarrow> v)"

definition scalarDelta :: "snapshot \<Rightarrow> snapshot \<Rightarrow> string \<Rightarrow> real" where
  "scalarDelta s0 s1 name = read_map (sn_scalars s1) name - read_map (sn_scalars s0) name"

section \<open>Histograms of a window\<close>

fun delta_counts :: "(bound \<Rightarrow> real) \<Rightarrow> real \<Rightarrow> bound list \<Rightarrow> real list" where
  "delta_counts cum prev [] = []"
| "delta_counts cum prev (le # les) = (cum le - prev) # delta_counts cum (cum le) les"

definition histDelta :: "snapshot \<Rightarrow> snapshot \<Rightarrow> string \<Rightarrow> bound list \<times> real list" where
  "histDelta s0 s1 name =
     (case map_of (sn_hists s1) name of
        None \<Rightarrow> ([], [])
      | Some h1 \<Rightarrow>
          let bounds = sort (map fst h1);
              cum = (\<lambda>le. read_map h1 le -
                 (case map_of (sn_hists s0) name of None \<Rightarrow> 0 | Some h0 \<Rightarrow> read_map h0 le)) in
          (bounds, delta_counts cum 0 bounds))"

text \<open>The loop of \<open>histQuantile\<close>, and what it returns in the bucket where it stops.\<close>

definition interpolate :: "bound list \<Rightarrow> real \<Rightarrow> nat \<Rightarrow> real \<Rightarrow> real \<Rightarrow> bound" where
  "interpolate bounds target i cum c =
     (let lower = (if i > 0 then bounds ! (i - 1) else Fin 0); upper = bounds ! i in
      if upper = PInf then lower
      else if c \<le> 0 then upper
      else case (lower, upper) of
          (Fin l, Fin u) \<Rightarrow> Fin (l + (u - l) * (target - (cum - c)) / c)
        | _ \<Rightarrow> PInf)"

fun quantile_loop :: "bound list \<Rightarrow> real \<Rightarrow> nat \<Rightarrow> real \<Rightarrow> real list \<Rightarrow> bound" where
  "quantile_loop bounds target i cum [] =
     (let lst = bounds ! (length bounds - 1) in
      if lst = PInf \<and> length bounds > 1 then bounds ! (length bounds - 2) else lst)"
| "quantile_loop bounds target i cum (c # cs) =
     (if cum + c \<ge> target then interpolate bounds target i (cum + c) c
      else quantile_loop bounds target (i + 1) (cum + c) cs)"

definition histQuantile :: "bound list \<Rightarrow> real list \<Rightarrow> real \<Rightarrow> bound" where
  "histQuantile bounds counts q =
     (let tot = sum_list counts in
      if tot \<le> 0 \<or> bounds = [] then Fin (- 1) else quantile_loop bounds (q * tot) 0 0 counts)"

section \<open>Percentiles of samples\<close>

definition percentile :: "real list \<Rightarrow> real \<Rightarrow> real" where
  "percentile xs q =
     (if xs = [] then - 1
      else let s = sort xs; idx = nat \<lfloor>q * real (length s) + 1 / 2\<rfloor> in
        s ! (if idx \<ge> length s then length s - 1 else idx) * 1000)"

section \<open>The quantile of a window is in the right bucket\<close>

lemma quantile_loop_stops:
  assumes "k < length cs" "\<And>j. j < k \<Longrightarrow> cum + sum_list (take (Suc j) cs) < target"
    "target \<le> cum + sum_list (take (Suc k) cs)"
  shows "quantile_loop bounds target i cum cs =
    interpolate bounds target (i + k) (cum + sum_list (take (Suc k) cs)) (cs ! k)"
  using assms
proof (induction cs arbitrary: i cum k)
  case (Cons c cs)
  show ?case
  proof (cases k)
    case 0
    then show ?thesis using Cons.prems(3) by simp
  next
    case (Suc k')
    have "cum + c < target" using Cons.prems(2) [of 0] Suc by simp
    moreover have "quantile_loop bounds target (i + 1) (cum + c) cs =
        interpolate bounds target (i + 1 + k') (cum + c + sum_list (take (Suc k') cs)) (cs ! k')"
      using Cons.prems(1,3) Cons.prems(2) [of "Suc j" for j] Suc by (intro Cons.IH) (simp_all add: add.assoc)
    ultimately show ?thesis using Suc by (simp add: add.assoc)
  qed
qed simp

lemma length_delta_counts [simp]: "length (delta_counts cum prev les) = length les"
  by (induction les arbitrary: prev) auto

lemma sum_delta_counts: "k < length les \<Longrightarrow> sum_list (take (Suc k) (delta_counts cum prev les)) = cum (les ! k) - prev"
proof (induction les arbitrary: prev k)
  case (Cons le les)
  then show ?case by (cases k) auto
qed simp

lemma nth_delta_counts:
  "k < length les \<Longrightarrow> delta_counts cum prev les ! k = cum (les ! k) - (if k = 0 then prev else cum (les ! (k - 1)))"
proof (induction les arbitrary: prev k)
  case (Cons le les)
  then show ?case by (cases k) auto
qed simp

lemma sorted_nth_le_iff:
  assumes "sorted s" "r < length s"
  shows "s ! r \<le> (b :: real) \<longleftrightarrow> r < length (filter (\<lambda>y. y \<le> b) s)"
  using assms
proof (induction s arbitrary: r)
  case (Cons x s)
  show ?case
  proof (cases "x \<le> b")
    case True
    then show ?thesis using Cons by (cases r) auto
  next
    case False
    with Cons.prems(1) have "filter (\<lambda>y. y \<le> b) (x # s) = []" by (auto simp: filter_empty_conv)
    moreover have "x \<le> (x # s) ! r" using Cons.prems by (cases r) auto
    ultimately show ?thesis using False by (simp only: list.size) auto
  qed
qed simp

lemma length_filter_sort: "length (filter P (sort xs)) = length (filter P xs)"
  by (simp add: filter_sort)

lemma order_statistic_le:
  "r < length ys \<Longrightarrow> sort ys ! r \<le> (b :: real) \<longleftrightarrow> r < length (filter (\<lambda>y. y \<le> b) ys)"
  using sorted_nth_le_iff [of "sort ys" r b] by (simp add: length_filter_sort)

text \<open>The buckets a scrape finds for a histogram the server exposes.\<close>

definition exposed :: "scrape_view \<Rightarrow> (bound \<times> real) list" where
  "exposed v = map (\<lambda>(b, c). (Fin b, real (unat c))) (sv_buckets v) @ [(PInf, real (unat (sv_inf v)))]"

definition count_le :: "real list \<Rightarrow> bound \<Rightarrow> nat" where
  "count_le ys b = length (filter (\<lambda>y. Fin y \<le> b) ys)"

lemma count_le_simps [simp]: "count_le ys PInf = length ys" "count_le ys (Fin b) = length (filter (\<lambda>y. y \<le> b) ys)"
  "count_le (ys @ zs) d = count_le ys d + count_le zs d"
  by (simp_all add: count_le_def)

lemma exposed_observed:
  assumes "sorted bs" "length (filter (\<lambda>x. 0 \<le> x) xs) < 2 ^ 64"
  shows "exposed (Histogram_render (observe_all (NewHistogram bs) xs)) =
    map (\<lambda>b. (b, real (count_le (filter (\<lambda>x. 0 \<le> x) xs) b))) (map Fin bs @ [PInf])"
proof -
  have "unat (word_of_nat (length (filter P (filter (\<lambda>x. 0 \<le> x) xs))) :: u64) = length (filter P (filter (\<lambda>x. 0 \<le> x) xs))" for P
    using assms(2) length_filter_le [of P "filter (\<lambda>x. 0 \<le> x) xs"]
    by (simp add: unat_of_nat)
  from this [of "\<lambda>_. True"] this show ?thesis
    by (simp add: histogram_shown [OF assms(1)] exposed_def Let_def del: of_nat_unat)
qed

lemma map_of_graph: "x \<in> set xs \<Longrightarrow> map_of (map (\<lambda>b. (b, f b)) xs) x = Some (f x)"
  by (induction xs) auto

lemma sorted_map_Fin [simp]: "sorted (map Fin bs) \<longleftrightarrow> sorted bs"
  by (induction bs) auto

lemma histDelta_window:
  assumes "sorted bs" "distinct bs" "length (filter (\<lambda>x. 0 \<le> x) (xs0 @ xs1)) < 2 ^ 64"
    "map_of (sn_hists s0) name = Some (exposed (Histogram_render (observe_all (NewHistogram bs) xs0)))"
    "map_of (sn_hists s1) name = Some (exposed (Histogram_render (observe_all (NewHistogram bs) (xs0 @ xs1))))"
  shows "histDelta s0 s1 name =
    (map Fin bs @ [PInf],
     delta_counts (\<lambda>b. real (count_le (filter (\<lambda>x. 0 \<le> x) xs1) b)) 0 (map Fin bs @ [PInf]))"
proof -
  let ?B = "map Fin bs @ [PInf]"
  have srt: "sorted ?B"
    using assms(1) by (simp add: sorted_append)
  have cong: "delta_counts f p les = delta_counts g p les" if "\<And>l. l \<in> set les \<Longrightarrow> f l = g l" for f g p les
    using that by (induction les arbitrary: p) auto
  have e0: "exposed (Histogram_render (observe_all (NewHistogram bs) xs0)) =
      map (\<lambda>b. (b, real (count_le (filter (\<lambda>x. 0 \<le> x) xs0) b))) ?B"
    using assms(3) by (intro exposed_observed assms) simp
  have e1: "exposed (Histogram_render (observe_all (NewHistogram bs) (xs0 @ xs1))) =
      map (\<lambda>b. (b, real (count_le (filter (\<lambda>x. 0 \<le> x) (xs0 @ xs1)) b))) ?B"
    by (intro exposed_observed assms)
  show ?thesis
    unfolding histDelta_def assms(4,5) e0 e1 option.case Let_def
    by (simp only: map_map comp_def fst_conv sorted_sort_id [OF srt] list.map_ident prod.inject refl simp_thms)
      (rule cong, simp add: read_map_def map_of_graph del: map_append list.map set_append)
qed

lemma interpolate_between:
  fixes l u tg p c :: real
  assumes "l \<le> u" "p < tg" "tg \<le> p + c"
  shows "l \<le> l + (u - l) * (tg - (p + c - c)) / c" "l + (u - l) * (tg - (p + c - c)) / c \<le> u"
proof -
  have "0 \<le> (tg - p) / c" "(tg - p) / c \<le> 1" "0 \<le> u - l" using assms by (auto simp: field_simps)
  note m = mult_nonneg_nonneg [OF this(3,1)] mult_left_le [OF this(2,3)]
  have e: "(u - l) * (tg - (p + c - c)) / c = (u - l) * ((tg - p) / c)" by simp
  show "l \<le> l + (u - l) * (tg - (p + c - c)) / c" "l + (u - l) * (tg - (p + c - c)) / c \<le> u"
    unfolding e using m by linarith+
qed

text \<open>The rank a quantile asks for, and the bucket the observation of that rank fell into.\<close>

definition rank_value :: "real list \<Rightarrow> real \<Rightarrow> real" where
  "rank_value ys q = sort ys ! (nat \<lceil>q * real (length ys)\<rceil> - 1)"

lemma rank_value_le:
  assumes "ys \<noteq> []" "0 < q" "q \<le> 1"
  shows "rank_value ys q \<le> b \<longleftrightarrow> q * real (length ys) \<le> real (count_le ys (Fin b))"
proof -
  have pos: "0 < q * real (length ys)" using assms by simp
  have "q * real (length ys) \<le> real (length ys)" using assms by (simp add: mult_left_le_one_le)
  with pos have c: "0 < \<lceil>q * real (length ys)\<rceil>" "\<lceil>q * real (length ys)\<rceil> \<le> int (length ys)"
    by (simp_all add: ceiling_le_iff)
  then have "nat \<lceil>q * real (length ys)\<rceil> - 1 < length ys" by linarith
  then have "rank_value ys q \<le> b \<longleftrightarrow> nat \<lceil>q * real (length ys)\<rceil> - 1 < count_le ys (Fin b)"
    unfolding rank_value_def count_le_simps by (rule order_statistic_le)
  also have "\<dots> \<longleftrightarrow> \<lceil>q * real (length ys)\<rceil> \<le> int (count_le ys (Fin b))" using c(1) by linarith
  also have "\<dots> \<longleftrightarrow> q * real (length ys) \<le> real (count_le ys (Fin b))" by (simp add: ceiling_le_iff)
  finally show ?thesis .
qed

lemma quantile_of_counts:
  fixes ys bs :: "real list" and q :: real
  defines "B \<equiv> map Fin bs @ [PInf]" and "i \<equiv> SearchFloat64s bs (rank_value ys q)"
  assumes bs: "sorted bs" "bs \<noteq> []" "0 \<le> hd bs" and q: "0 < q" "q \<le> 1" and ys: "ys \<noteq> []"
  defines "v \<equiv> histQuantile B (delta_counts (\<lambda>b. real (count_le ys b)) 0 B) q"
  shows "(i < length bs \<longrightarrow> (\<exists>x. v = Fin x \<and> (if i = 0 then 0 else bs ! (i - 1)) \<le> x \<and> x \<le> bs ! i)) \<and>
    (i = length bs \<longrightarrow> v = Fin (last bs)) \<and> i \<le> length bs"
proof -
  let ?cum = "\<lambda>b. real (count_le ys b)" and ?tg = "q * real (length ys)"
  let ?cs = "delta_counts ?cum 0 B"
  have lB: "length B = Suc (length bs)" and nB: "\<And>k. k < length bs \<Longrightarrow> B ! k = Fin (bs ! k)" "B ! length bs = PInf"
    by (simp_all add: B_def nth_append)
  have tot: "sum_list ?cs = real (length ys)"
    using sum_delta_counts [of "length bs" B ?cum 0] by (simp add: lB nB)
  have i: "i \<le> length bs" "\<And>k. k < length bs \<Longrightarrow> bs ! k < rank_value ys q \<longleftrightarrow> k < i"
    unfolding i_def by (rule SearchFloat64s_spec [OF bs(1)])+
  have below: "?cum (B ! k) < ?tg" if "k < i" for k
  proof -
    have k: "k < length bs" using that i(1) by simp
    then have "\<not> rank_value ys q \<le> bs ! k" using that i(2) by (simp add: not_le)
    then show ?thesis by (simp add: nB(1) [OF k] rank_value_le [OF ys q] del: count_le_simps)
  qed
  have reached: "?tg \<le> ?cum (B ! i)"
  proof (cases "i < length bs")
    case True
    then show ?thesis using i(2) [OF True] rank_value_le [OF ys q, of "bs ! i"] by (simp add: nB(1) not_less del: count_le_simps)
  next
    case False
    then show ?thesis using i(1) q ys by (simp add: nB(2) mult_left_le_one_le)
  qed
  define p where "p = (if i = 0 then 0 else ?cum (B ! (i - 1)))"
  have c: "?cs ! i = ?cum (B ! i) - p" using i(1) by (simp add: nth_delta_counts lB p_def)
  have p: "p < ?tg" using below [of "i - 1"] q ys by (auto simp: p_def)
  have v: "v = interpolate B ?tg i (p + ?cs ! i) (?cs ! i)"
    using quantile_loop_stops [of i ?cs 0 ?tg B 0] below reached i(1) ys
    by (simp add: v_def histQuantile_def tot sum_delta_counts lB c B_def [symmetric] Let_def)
      (simp add: B_def)
  show ?thesis
  proof (cases "i = length bs")
    case True
    with bs(2) have "v = B ! (i - 1)" by (simp add: v interpolate_def nB(2) [symmetric] Let_def)
    also have "\<dots> = Fin (last bs)" using True bs(2) by (simp add: nB(1) last_conv_nth)
    finally show ?thesis using True by simp
  next
    case False
    with i(1) have lt: "i < length bs" by simp
    let ?l = "if i = 0 then 0 else bs ! (i - 1)" and ?c = "?cs ! i"
    have "?l \<le> bs ! i"
      using bs lt by (auto simp: hd_conv_nth intro: sorted_nth_mono)
    note between = interpolate_between [OF this p, of ?c]
    have "v = Fin (?l + (bs ! i - ?l) * (?tg - (p + ?c - ?c)) / ?c)"
      using lt p reached by (auto simp: v interpolate_def nB(1) c Let_def)
    with between reached lt show ?thesis by (simp add: c)
  qed
qed

text \<open>
  C20: The quantile the load generator reports is in the right bucket: when the scrapes at the two ends of
  a window show a histogram of the server on ascending bounds, and observations fell into the window,
  then for \<open>0 < q \<le> 1\<close> the estimate lies between the bounds of the bucket of the observation of rank
  \<open>\<lceil>q n\<rceil>\<close> among the window's own \<open>n\<close> observations, and is the last bound when that observation is above it:
  what was observed before the window does not matter.
\<close>

theorem window_quantile:
  assumes "sorted bs" "distinct bs" "bs \<noteq> []" "0 \<le> hd bs" "0 < q" "q \<le> 1"
    "length (filter (\<lambda>x. 0 \<le> x) (xs0 @ xs1)) < 2 ^ 64" "filter (\<lambda>x. 0 \<le> x) xs1 \<noteq> []"
    "map_of (sn_hists s0) name = Some (exposed (Histogram_render (observe_all (NewHistogram bs) xs0)))"
    "map_of (sn_hists s1) name = Some (exposed (Histogram_render (observe_all (NewHistogram bs) (xs0 @ xs1))))"
  shows "let v = (case histDelta s0 s1 name of (b, c) \<Rightarrow> histQuantile b c q);
             i = SearchFloat64s bs (rank_value (filter (\<lambda>x. 0 \<le> x) xs1) q) in
    if i < length bs then \<exists>x. v = Fin x \<and> (if i = 0 then 0 else bs ! (i - 1)) \<le> x \<and> x \<le> bs ! i
    else v = Fin (last bs)"
  using quantile_of_counts [OF assms(1,3,4,5,6,8)]
  by (auto simp: histDelta_window [OF assms(1,2,7,9,10)] Let_def)

theorem window_quantile_witness:
  "(let v = (case histDelta
          \<lparr>sn_scalars = [], sn_hists = [(''h'', exposed (Histogram_render (observe_all (NewHistogram [1, 2]) [5])))]\<rparr>
          \<lparr>sn_scalars = [], sn_hists = [(''h'', exposed (Histogram_render (observe_all (NewHistogram [1, 2]) ([5] @ [1 / 2, 3 / 2]))))]\<rparr>
          ''h'' of (b, c) \<Rightarrow> histQuantile b c 1);
        i = SearchFloat64s [1, 2] (rank_value (filter (\<lambda>x. 0 \<le> x) [1 / 2, 3 / 2]) 1) in
    if i < length [1, 2 :: real] then \<exists>x. v = Fin x \<and> (if i = 0 then 0 else [1, 2] ! (i - 1)) \<le> x \<and> x \<le> [1, 2] ! i
    else v = Fin (last [1, 2]))"
  by (rule window_quantile) (simp_all add: exposed_def del: append_Cons)

section \<open>Percentiles are near their rank\<close>

lemma sorted_nth_less_iff:
  assumes "sorted s" "r < length s"
  shows "(b :: real) \<le> s ! r \<longleftrightarrow> length (filter (\<lambda>y. y < b) s) \<le> r"
  using assms
proof (induction s arbitrary: r)
  case (Cons x s)
  show ?case
  proof (cases "x < b")
    case True
    then show ?thesis using Cons by (cases r) auto
  next
    case False
    with Cons.prems(1) have "filter (\<lambda>y. y < b) (x # s) = []" by (auto simp: filter_empty_conv)
    moreover have "x \<le> (x # s) ! r" using Cons.prems by (cases r) auto
    ultimately show ?thesis using False by (simp only: list.size) auto
  qed
qed simp

text \<open>
  The percentile of the client's samples: for \<open>0 \<le> q \<le> 1\<close> it is one of the samples, fewer than or as
  many as \<open>q n + 1/2\<close> of the \<open>n\<close> samples lie below it, and more than \<open>q n + 1/2\<close> of them (or all) do not
  lie above it.
\<close>

theorem percentile_rank:
  assumes "xs \<noteq> []" "0 \<le> q" "q \<le> 1"
  shows "\<exists>s \<in> set xs. percentile xs q = s * 1000 \<and>
    real (length (filter (\<lambda>x. x < s) xs)) \<le> q * real (length xs) + 1 / 2 \<and>
    (q * real (length xs) + 1 / 2 < real (length (filter (\<lambda>x. x \<le> s) xs)) \<or> (\<forall>x \<in> set xs. x \<le> s))"
proof -
  let ?n = "length xs"
  define idx where "idx = nat \<lfloor>q * real ?n + 1 / 2\<rfloor>"
  define k where "k = (if idx \<ge> ?n then ?n - 1 else idx)"
  have k: "k < ?n" "k \<le> idx" using assms(1) by (auto simp: k_def)
  have "0 \<le> q * real ?n" using assms by simp
  then have idx: "real idx \<le> q * real ?n + 1 / 2" "q * real ?n + 1 / 2 < real idx + 1"
    unfolding idx_def by linarith+
  let ?s = "sort xs ! k"
  have "?s \<in> set xs" using k(1) nth_mem [of k "sort xs"] by simp
  moreover have "percentile xs q = ?s * 1000"
    using assms(1) by (simp add: percentile_def Let_def idx_def k_def)
  moreover have "k < length (filter (\<lambda>x. x \<le> ?s) xs)" using order_statistic_le [OF k(1), of ?s] by simp
  moreover have "length (filter (\<lambda>x. x < ?s) xs) \<le> k"
    using sorted_nth_less_iff [of "sort xs" k ?s] k(1) by (simp add: length_filter_sort)
  moreover have "\<forall>x \<in> set xs. x \<le> ?s" if "k \<noteq> idx"
  proof
    fix x assume "x \<in> set xs"
    then obtain j where "j < ?n" "x = sort xs ! j" by (metis in_set_conv_nth length_sort set_sort)
    then show "x \<le> ?s" using that by (auto simp: k_def split: if_splits intro: sorted_nth_mono)
  qed
  ultimately show ?thesis using idx k by (cases "k = idx") (auto intro!: bexI [of _ ?s])
qed

theorem percentile_rank_witness:
  "\<exists>s \<in> set [2, 1 :: real]. percentile [2, 1] (1 / 2) = s * 1000 \<and>
    real (length (filter (\<lambda>x. x < s) [2, 1])) \<le> 1 / 2 * real (length [2, 1 :: real]) + 1 / 2 \<and>
    (1 / 2 * real (length [2, 1 :: real]) + 1 / 2 < real (length (filter (\<lambda>x. x \<le> s) [2, 1])) \<or> (\<forall>x \<in> set [2, 1]. x \<le> s))"
  by (rule percentile_rank) simp_all

text \<open>When \<open>q n\<close> is a whole rank, the sample returned is the one after it, not the one of that rank.\<close>

lemma percentile_whole_rank:
  assumes "0 < k" "k < length xs" "q * real (length xs) = real k"
  shows "percentile xs q = sort xs ! k * 1000"
proof -
  have "nat \<lfloor>real k + 1 / 2\<rfloor> = k" "xs \<noteq> []" using assms by (linarith, auto)
  with assms show ?thesis by (simp add: percentile_def Let_def)
qed

section \<open>Which lines end the scrape with a panic\<close>

lemma last_index_None: "last_index x s = None \<longleftrightarrow> x \<notin> set s"
  by (induction s) (auto split: option.splits)

lemma last_index_split: "last_index x s = Some i \<Longrightarrow> \<exists>pre v. s = pre @ x # v \<and> x \<notin> set v \<and> i = length pre"
proof (induction s arbitrary: i)
  case (Cons c cs)
  show ?case
  proof (cases "last_index x cs")
    case None
    with Cons.prems show ?thesis by (intro exI [of _ "[]"] exI [of _ cs]) (auto simp: last_index_None split: if_splits)
  next
    case (Some j)
    with Cons obtain pre v where "cs = pre @ x # v" "x \<notin> set v" "j = length pre" by blast
    with Cons.prems Some show ?thesis by (intro exI [of _ "c # pre"] exI [of _ v]) auto
  qed
qed simp

lemma last_index_append [simp]: "x \<notin> set v \<Longrightarrow> last_index x (pre @ x # v) = Some (length pre)"
  by (induction pre) (simp_all add: last_index_None [THEN iffD2])

lemma has_prefix_iff: "has_prefix p s \<longleftrightarrow> (\<exists>w. s = p @ w)"
  unfolding has_prefix_def by (metis append_eq_conv_conj append_take_drop_id)

lemma has_suffix_iff: "has_suffix p s \<longleftrightarrow> (\<exists>u. s = u @ p)"
  unfolding has_suffix_def by (metis append_eq_conv_conj append_take_drop_id diff_add_inverse2 le_add2 length_append)

lemma str_index_split: "str_index p s = Some i \<Longrightarrow> \<exists>pre w. s = pre @ p @ w \<and> i = length pre"
proof (induction p s arbitrary: i rule: str_index.induct)
  case (2 p c cs)
  show ?case
  proof (cases "has_prefix p (c # cs)")
    case True
    then obtain w where "c # cs = p @ w" by (auto simp: has_prefix_iff)
    moreover have "i = 0" using True 2(2) by simp
    ultimately show ?thesis by (intro exI [of _ "[]"] exI [of _ w]) simp
  next
    case False
    with 2(2) obtain j where "str_index p cs = Some j" "i = Suc j" by auto
    with 2(1) [OF False] obtain pre w where "cs = pre @ p @ w" "i = length (c # pre)" by auto
    then show ?thesis by (intro exI [of _ "c # pre"] exI [of _ w]) simp
  qed
qed (auto split: if_splits)

lemma bucketKey_panics:
  "bucketKey key = None \<longleftrightarrow>
    (\<exists>pre. key = pre @ ''_bucket{le=\"}'' \<and> str_index ''_bucket{le=\"'' key = Some (length pre))"
proof (cases "str_index ''_bucket{le=\"'' key")
  case None
  then show ?thesis by (simp add: bucketKey_def)
next
  case (Some i)
  from str_index_split [OF this] obtain pre w
    where key: "key = pre @ ''_bucket{le=\"'' @ w" and i: "i = length pre" by blast
  have "has_suffix ''\"}'' key \<and> length key - 2 < i + 12 \<longleftrightarrow> w = ''}''"
  proof
    assume p: "has_suffix ''\"}'' key \<and> length key - 2 < i + 12"
    then obtain u where u: "key = u @ ''\"}''" by (auto simp: has_suffix_iff)
    then have "last key = CHR ''}''" by simp
    moreover have "length w < 2" using p by (simp add: key i)
    ultimately show "w = ''}''" by (cases w) (auto simp: key)
  next
    assume "w = ''}''"
    then have "key = (pre @ ''_bucket{le='') @ ''\"}''" by (simp add: key)
    then show "has_suffix ''\"}'' key \<and> length key - 2 < i + 12"
      unfolding has_suffix_iff by (auto simp: i)
  qed
  moreover have "w = ''}'' \<longleftrightarrow> (\<exists>q. key = q @ ''_bucket{le=\"}'' \<and> i = length q)"
    by (auto simp: key i)
  ultimately show ?thesis using Some by (auto simp: bucketKey_def Let_def)
qed

text \<open>
  A line of the exposition stops the load generator with a panic exactly when it is not a comment, ends
  in a number and its key ends in an opened label that is closed at once: the slice between the
  label's quotes would end before it begins. Every other line, however malformed, is skipped or stored.
\<close>

theorem scrape_panics:
  "parseLine line snap = None \<longleftrightarrow>
    \<not> has_prefix ''#'' line \<and>
    (\<exists>pre v. line = pre @ ''_bucket{le=\"} '' @ v \<and> CHR '' '' \<notin> set v \<and> ParseFloat v \<noteq> None \<and>
       str_index ''_bucket{le=\"'' (pre @ ''_bucket{le=\"}'') = Some (length pre))"
proof (cases "line = [] \<or> has_prefix ''#'' line \<or> last_index CHR '' '' line = None")
  case True
  then have "parseLine line snap = Some snap" by (auto simp: parseLine_def)
  moreover have "line \<noteq> pre @ ''_bucket{le=\"} '' @ v" if "\<not> has_prefix ''#'' line" for pre v
    using True that by (auto simp: last_index_None)
  ultimately show ?thesis by fastforce
next
  case False
  then obtain key v where line: "line = key @ CHR '' '' # v" and v: "CHR '' '' \<notin> set v"
    using last_index_split [of "CHR '' ''" line] by blast
  have "parseLine line snap = None \<longleftrightarrow> key \<noteq> [] \<and> ParseFloat v \<noteq> None \<and> bucketKey key = None"
    using False v by (auto simp: parseLine_def line split: option.splits)
  also have "\<dots> \<longleftrightarrow> ParseFloat v \<noteq> None \<and>
      (\<exists>pre. key = pre @ ''_bucket{le=\"}'' \<and> str_index ''_bucket{le=\"'' key = Some (length pre))"
    by (auto simp: bucketKey_panics)
  also have "\<dots> \<longleftrightarrow> (\<exists>pre u. line = pre @ ''_bucket{le=\"} '' @ u \<and> CHR '' '' \<notin> set u \<and> ParseFloat u \<noteq> None \<and>
       str_index ''_bucket{le=\"'' (pre @ ''_bucket{le=\"}'') = Some (length pre))" (is "?l = ?r")
  proof
    assume ?l
    then obtain pre where "key = pre @ ''_bucket{le=\"}''" "str_index ''_bucket{le=\"'' key = Some (length pre)"
      "ParseFloat v \<noteq> None" by blast
    with v show ?r by (intro exI [of _ pre] exI [of _ v]) (simp add: line)
  next
    assume ?r
    then obtain pre u where u: "line = (pre @ ''_bucket{le=\"}'') @ CHR '' '' # u" "CHR '' '' \<notin> set u" "ParseFloat u \<noteq> None"
       "str_index ''_bucket{le=\"'' (pre @ ''_bucket{le=\"}'') = Some (length pre)" by auto
    have "key = pre @ ''_bucket{le=\"}'' \<and> v = u"
      using arg_cong [OF u(1), of "last_index CHR '' ''"] u(1) v u(2) by (simp add: line del: append_assoc)
    with u show ?l by blast
  qed
  finally show ?thesis using False by simp
qed

section \<open>Records of the steps\<close>

record windowAgg =
  wa_first :: "real list"
  wa_barge :: "real list"
  wa_turns :: int
  wa_errs :: int
  wa_frames :: u64

record StepRecord =
  sr_Concurrency :: int
  sr_LiveWorkers :: int
  sr_DurationS :: real
  sr_Turns :: int
  sr_Errors :: int
  sr_E2EFirstP50 :: real
  sr_E2EFirstP95 :: real
  sr_E2EFirstP99 :: real
  sr_E2EBargeP50 :: real
  sr_E2EBargeP99 :: real
  sr_SrvFirstP50 :: bound
  sr_SrvFirstP99 :: bound
  sr_SrvKernelP99 :: bound
  sr_SrvBargeP99 :: bound
  sr_ServerTurnRate :: real
  sr_UplinkFPS :: real
  sr_IngressDropRate :: real
  sr_EgressDropPerS :: real
  sr_CPUUtil :: real
  sr_Goroutines :: real
  sr_HeapMB :: real
  sr_SessionsActive :: real

fun bound_map :: "(real \<Rightarrow> real) \<Rightarrow> bound \<Rightarrow> bound" where
  "bound_map f (Fin x) = Fin (f x)"
| "bound_map f PInf = PInf"

definition histQ :: "snapshot \<Rightarrow> snapshot \<Rightarrow> string \<Rightarrow> real \<Rightarrow> bound" where
  "histQ s0 s1 name q =
     (case histDelta s0 s1 name of (bounds, counts) \<Rightarrow>
        let v = histQuantile bounds counts q in
        if v < Fin 0 then Fin (- 1) else bound_map (\<lambda>x. x * 1000) v)"

text \<open>\<open>elapsed\<close> is in nanoseconds and positive.\<close>

definition seconds_of :: "int \<Rightarrow> real" where
  "seconds_of d = real_of_int d / 10 ^ 9"

definition buildRecord :: "int \<Rightarrow> int \<Rightarrow> windowAgg \<Rightarrow> snapshot option \<Rightarrow> snapshot option \<Rightarrow> int \<Rightarrow> StepRecord" where
  "buildRecord n elapsed agg s0 s1 live =
     (let secs = seconds_of elapsed;
          rec0 = \<lparr>sr_Concurrency = n, sr_LiveWorkers = live, sr_DurationS = secs,
            sr_Turns = wa_turns agg, sr_Errors = wa_errs agg,
            sr_E2EFirstP50 = percentile (wa_first agg) (50 / 100),
            sr_E2EFirstP95 = percentile (wa_first agg) (95 / 100),
            sr_E2EFirstP99 = percentile (wa_first agg) (99 / 100),
            sr_E2EBargeP50 = percentile (wa_barge agg) (50 / 100),
            sr_E2EBargeP99 = percentile (wa_barge agg) (99 / 100),
            sr_SrvFirstP50 = Fin (- 1), sr_SrvFirstP99 = Fin (- 1), sr_SrvKernelP99 = Fin (- 1), sr_SrvBargeP99 = Fin (- 1),
            sr_ServerTurnRate = - 1, sr_UplinkFPS = real (unat (wa_frames agg)) / secs,
            sr_IngressDropRate = - 1, sr_EgressDropPerS = - 1, sr_CPUUtil = - 1, sr_Goroutines = - 1,
            sr_HeapMB = - 1, sr_SessionsActive = - 1\<rparr> in
      case (s0, s1) of
        (Some s0, Some s1) \<Rightarrow>
          let rec1 = rec0\<lparr>
                sr_SrvFirstP50 := histQ s0 s1 ''voicestream_first_response_seconds'' (50 / 100),
                sr_SrvFirstP99 := histQ s0 s1 ''voicestream_first_response_seconds'' (99 / 100),
                sr_SrvKernelP99 := histQ s0 s1 ''voicestream_kernel_overhead_seconds'' (99 / 100),
                sr_SrvBargeP99 := histQ s0 s1 ''voicestream_barge_in_cancel_seconds'' (99 / 100),
                sr_ServerTurnRate := (scalarDelta s0 s1 ''voicestream_turns_completed_total'' +
                  scalarDelta s0 s1 ''voicestream_turns_cancelled_total'') / secs\<rparr>;
              rec2 = (if wa_frames agg > 0 then rec1\<lparr>sr_IngressDropRate :=
                  scalarDelta s0 s1 ''voicestream_ingress_dropped_frames_total'' / real (unat (wa_frames agg))\<rparr> else rec1);
              rec3 = rec2\<lparr>sr_EgressDropPerS := scalarDelta s0 s1 ''voicestream_egress_dropped_frames_total'' / secs\<rparr>;
              dc = scalarDelta s0 s1 ''voicestream_cpu_capacity_seconds_total'';
              rec4 = (if dc > 0 then rec3\<lparr>sr_CPUUtil := scalarDelta s0 s1 ''voicestream_cpu_busy_seconds_total'' / dc\<rparr>
                else rec3) in
          rec4\<lparr>sr_Goroutines := read_map (sn_scalars s1) ''voicestream_goroutines'',
            sr_HeapMB := read_map (sn_scalars s1) ''voicestream_heap_alloc_bytes'' / (1024 * 1024),
            sr_SessionsActive := read_map (sn_scalars s1) ''voicestream_sessions_active''\<rparr>
      | _ \<Rightarrow> rec0)"

section \<open>The knee\<close>

text \<open>The sentences of the report, as their format and arguments.\<close>

datatype reason =
    NoData
  | ErrorsAt int int
  | CpuAt int real bound bound
  | DropsAt int real
  | SchedulingAt int bound bound real
  | NoKnee int real

record Analysis =
  an_KneeConcurrency :: int
  an_Wall :: string
  an_Reason :: reason

definition max0 :: "real \<Rightarrow> real" where
  "max0 v = (if v < 0 then 0 else v)"

definition lat :: "StepRecord \<Rightarrow> bound" where
  "lat r = (if sr_SrvFirstP99 r \<ge> Fin 0 then sr_SrvFirstP99 r else Fin (sr_E2EFirstP99 r))"

definition degraded :: "bound \<Rightarrow> StepRecord \<Rightarrow> bool" where
  "degraded base r \<longleftrightarrow>
     base \<ge> Fin 0 \<and> lat r \<ge> Fin 0 \<and> lat r > bound_map (\<lambda>b. b * 2 + 20) base \<or>
     sr_IngressDropRate r > 1 / 100 \<or> sr_Errors r > 0"

definition knee_at :: "bound \<Rightarrow> StepRecord \<Rightarrow> Analysis" where
  "knee_at base r =
     (let n = sr_Concurrency r;
          (w, why) =
            (if sr_Errors r > 0 then (''errors'', ErrorsAt n (sr_Errors r))
             else if sr_CPUUtil r \<ge> 85 / 100 then (''cpu'', CpuAt n (sr_CPUUtil r * 100) (lat r) base)
             else if sr_IngressDropRate r > 1 / 100 then (''drops'', DropsAt n (sr_IngressDropRate r * 100))
             else (''scheduling'', SchedulingAt n (lat r) base (max0 (sr_CPUUtil r) * 100))) in
      \<lparr>an_KneeConcurrency = n, an_Wall = w, an_Reason = why\<rparr>)"

fun knee_loop :: "bound \<Rightarrow> StepRecord list \<Rightarrow> Analysis option" where
  "knee_loop base [] = None"
| "knee_loop base (r # rs) =
     (if \<not> degraded base r then knee_loop base rs
      else if (case rs of [] \<Rightarrow> False | r1 # _ \<Rightarrow> \<not> degraded base r1) then knee_loop base rs
      else Some (knee_at base r))"

definition Analyze :: "StepRecord list \<Rightarrow> Analysis" where
  "Analyze recs =
     (if recs = [] then \<lparr>an_KneeConcurrency = 0, an_Wall = ''none'', an_Reason = NoData\<rparr>
      else case knee_loop (lat (hd recs)) recs of
          Some a \<Rightarrow> a
        | None \<Rightarrow> let l = last recs in
            \<lparr>an_KneeConcurrency = 0, an_Wall = ''none'',
             an_Reason = NoKnee (sr_Concurrency l) (max0 (sr_IngressDropRate l) * 100)\<rparr>)"

definition sustained :: "bound \<Rightarrow> StepRecord list \<Rightarrow> nat \<Rightarrow> bool" where
  "sustained base recs i \<longleftrightarrow> i < length recs \<and> degraded base (recs ! i) \<and>
     (i + 1 < length recs \<longrightarrow> degraded base (recs ! (i + 1)))"

lemma sustained_simps [simp]:
  "\<not> sustained base [] i"
  "sustained base (r # rs) 0 \<longleftrightarrow> degraded base r \<and> (rs = [] \<or> degraded base (hd rs))"
  "sustained base (r # rs) (Suc i) \<longleftrightarrow> sustained base rs i"
  by (cases rs; auto simp: sustained_def)+

lemma knee_loop_least:
  "(case knee_loop base recs of
      Some a \<Rightarrow> \<exists>i. sustained base recs i \<and> (\<forall>j < i. \<not> sustained base recs j) \<and> a = knee_at base (recs ! i)
    | None \<Rightarrow> \<forall>j. \<not> sustained base recs j)"
proof (induction recs)
  case (Cons r rs)
  show ?case
  proof (cases "sustained base (r # rs) 0")
    case True
    then have "knee_loop base (r # rs) = Some (knee_at base r)" by (cases rs) auto
    with True show ?thesis by (auto intro!: exI [of _ 0])
  next
    case False
    then have e: "knee_loop base (r # rs) = knee_loop base rs" by (cases rs) auto
    have all: "(\<forall>j. \<not> sustained base (r # rs) j) \<longleftrightarrow> (\<forall>j. \<not> sustained base rs j)"
      using False by (metis not0_implies_Suc sustained_simps(3))
    have least: "(\<forall>j < Suc i. \<not> sustained base (r # rs) j) \<longleftrightarrow> (\<forall>j < i. \<not> sustained base rs j)" for i
      using False by (auto simp: less_Suc_eq_0_disj)
    show ?thesis
    proof (cases "knee_loop base rs")
      case None
      with Cons show ?thesis unfolding e None option.case all by simp
    next
      case (Some a)
      with Cons obtain i where "sustained base rs i" "\<forall>j < i. \<not> sustained base rs j" "a = knee_at base (rs ! i)" by auto
      then show ?thesis unfolding e Some option.case
        by (intro exI [of _ "Suc i"] conjI) (simp_all only: least sustained_simps(3) nth_Cons_Suc)
    qed
  qed
qed simp

lemma base_not_slow: "Fin 0 \<le> b \<Longrightarrow> \<not> bound_map (\<lambda>x. x * 2 + 20) b < b"
  by (cases b) auto

lemma knee_at_wall:
  assumes "degraded base r"
  shows "an_Wall (knee_at base r) \<noteq> ''none''"
    "an_Wall (knee_at base r) = ''scheduling'' \<Longrightarrow> Fin 0 \<le> base \<and> bound_map (\<lambda>x. x * 2 + 20) base < lat r"
  using assms by (auto simp: knee_at_def degraded_def Let_def split: if_splits)

text \<open>
  The knee is where the degradation stays: the analysis of a non-empty run reports the first step that
  is degraded and whose next step, if there is one, is degraded too; then the wall is named, and it is
  the scheduler only when the latency itself left the band of the baseline, which the first step never
  does. Otherwise no such step exists, the last step is clean and the report says so.
\<close>

theorem analyze_knee:
  assumes "recs \<noteq> []"
  shows "(\<exists>i. sustained (lat (hd recs)) recs i \<and> (\<forall>j < i. \<not> sustained (lat (hd recs)) recs j) \<and>
       Analyze recs = knee_at (lat (hd recs)) (recs ! i) \<and> an_Wall (Analyze recs) \<noteq> ''none'' \<and>
       (an_Wall (Analyze recs) = ''scheduling'' \<longrightarrow>
          0 < i \<and> bound_map (\<lambda>x. x * 2 + 20) (lat (hd recs)) < lat (recs ! i))) \<or>
    (\<forall>j. \<not> sustained (lat (hd recs)) recs j) \<and> \<not> degraded (lat (hd recs)) (last recs) \<and>
      an_Wall (Analyze recs) = ''none'' \<and> an_KneeConcurrency (Analyze recs) = 0"
proof -
  let ?b = "lat (hd recs)"
  show ?thesis
  proof (cases "knee_loop ?b recs")
    case None
    then have "\<forall>j. \<not> sustained ?b recs j" using knee_loop_least [of ?b recs] by simp
    moreover from this have "\<not> degraded ?b (last recs)"
      using assms by (auto simp: sustained_def last_conv_nth dest: spec [of _ "length recs - 1"])
    ultimately show ?thesis using None assms by (simp add: Analyze_def Let_def)
  next
    case (Some a)
    then obtain i where i: "sustained ?b recs i" "\<forall>j < i. \<not> sustained ?b recs j" "a = knee_at ?b (recs ! i)"
      using knee_loop_least [of ?b recs] by auto
    have a: "Analyze recs = knee_at ?b (recs ! i)" using Some i(3) assms by (simp add: Analyze_def)
    have d: "degraded ?b (recs ! i)" using i(1) by (simp add: sustained_def)
    have "0 < i \<and> bound_map (\<lambda>x. x * 2 + 20) ?b < lat (recs ! i)" if "an_Wall (Analyze recs) = ''scheduling''"
      using knee_at_wall(2) [OF d] that base_not_slow [of ?b] assms by (auto simp: a hd_conv_nth intro: gr0I)
    with i a knee_at_wall(1) [OF d] show ?thesis by auto
  qed
qed

definition demo_step :: "int \<Rightarrow> int \<Rightarrow> StepRecord" where
  "demo_step n errs = (buildRecord n 1 \<lparr>wa_first = [], wa_barge = [], wa_turns = 1, wa_errs = errs, wa_frames = 1\<rparr> None None n)"

theorem analyze_knee_witness:
  "(\<exists>i. sustained (lat (hd [demo_step 1 0, demo_step 2 3])) [demo_step 1 0, demo_step 2 3] i \<and>
       (\<forall>j < i. \<not> sustained (lat (hd [demo_step 1 0, demo_step 2 3])) [demo_step 1 0, demo_step 2 3] j) \<and>
       Analyze [demo_step 1 0, demo_step 2 3] = knee_at (lat (hd [demo_step 1 0, demo_step 2 3])) ([demo_step 1 0, demo_step 2 3] ! i)) \<or>
    an_Wall (Analyze [demo_step 1 0, demo_step 2 3]) = ''none''"
  using analyze_knee [of "[demo_step 1 0, demo_step 2 3]"] by auto

end
