(* ===== verification/Exposition.thy ===== *)
theory Exposition
  imports Loadreport Manager
begin

text \<open>
  The text exposition of \<open>internal/metrics/metrics.go\<close>: the registry's instruments, the lines a scrape
  receives, and \<open>strconv.FormatFloat\<close> as \<open>formatFloat\<close> uses it. A float is the real number its shortest
  decimal denotes. A response is the list of its lines (each write ends one).
\<close>

section \<open>Decimal text\<close>

definition dig :: "nat \<Rightarrow> char" where
  "dig d = char_of (48 + d)"

fun nat_digits :: "nat \<Rightarrow> string" where
  "nat_digits n = (if n < 10 then [dig n] else nat_digits (n div 10) @ [dig (n mod 10)])"

declare nat_digits.simps [simp del]

definition strip_zeros :: "string \<Rightarrow> string" where
  "strip_zeros ds = rev (dropWhile (\<lambda>c. c = CHR ''0'') (rev ds))"

text \<open>The digits and the position of the point of the shortest decimal of a float (at most 17 digits and
  342 places).\<close>

definition is_whole :: "real \<Rightarrow> bool" where
  "is_whole v \<longleftrightarrow> of_int \<lfloor>v\<rfloor> = v"

definition decimal_places :: "real \<Rightarrow> nat option" where
  "decimal_places v = List.find (\<lambda>k. is_whole (v * 10 ^ k)) [0..<400]"

definition shortest :: "real \<Rightarrow> string \<times> int" where
  "shortest v =
     (let k = (case decimal_places v of Some k \<Rightarrow> k | None \<Rightarrow> 400);
          m = nat \<lfloor>v * 10 ^ k\<rfloor>; ds = nat_digits m in
      if m = 0 then ([], 0) else (strip_zeros ds, int (length ds) - int k))"

definition fmtF :: "string \<Rightarrow> int \<Rightarrow> string" where
  "fmtF ds dp =
     (if dp > 0 then take (nat dp) ds @ replicate (nat dp - length ds) CHR ''0'' else ''0'') @
     (let prec = nat (int (length ds) - dp) in
      if prec > 0 then CHR ''.'' # map (\<lambda>i. let j = dp + int i in
          if 0 \<le> j \<and> j < int (length ds) then ds ! nat j else CHR ''0'') [0..<prec]
      else [])"

definition fmtE :: "string \<Rightarrow> int \<Rightarrow> string" where
  "fmtE ds dp =
     [if ds = [] then CHR ''0'' else hd ds] @
     (if length ds > 1 then CHR ''.'' # tl ds else []) @
     (let e = (if ds = [] then 0 else dp - 1); a = nat \<bar>e\<bar> in
      CHR ''e'' # (if e < 0 then CHR ''-'' else CHR ''+'') # (if a < 10 then CHR ''0'' # nat_digits a else nat_digits a))"

definition formatFloat :: "real \<Rightarrow> string" where
  "formatFloat v =
     (case shortest \<bar>v\<bar> of (ds, dp) \<Rightarrow>
        (if v < 0 then ''-'' else []) @ (if dp - 1 < - 4 \<or> dp - 1 \<ge> 6 then fmtE ds dp else fmtF ds dp))"

lemma of_char_dig [simp]: "d < 10 \<Longrightarrow> (of_char (dig d) :: nat) = 48 + d"
  by (simp add: dig_def)

lemma is_digit_dig [simp]: "d < 10 \<Longrightarrow> is_digit (dig d)"
  by (simp add: is_digit_def)

lemma dig_zero: "dig 0 = CHR ''0''"
  by code_simp

lemma is_digit_zero [simp]: "is_digit CHR ''0''"
  by (simp add: is_digit_def)

lemma digits_foldl: "foldl (\<lambda>n c. 10 * n + (of_char c - 48)) a ds = a * 10 ^ length ds + decimal_value ds"
proof (induction ds arbitrary: a)
  case (Cons d ds)
  have "foldl (\<lambda>n c. 10 * n + (of_char c - 48)) a (d # ds) = (10 * a + (of_char d - 48)) * 10 ^ length ds + decimal_value ds"
    by (simp add: Cons.IH)
  moreover have "decimal_value (d # ds) = (of_char d - 48) * 10 ^ length ds + decimal_value ds"
    using Cons.IH [of "of_char d - 48"] by (simp add: decimal_value_def)
  ultimately show ?case by (simp add: algebra_simps)
qed (simp add: decimal_value_def)

lemma decimal_value_append: "decimal_value (a @ b) = decimal_value a * 10 ^ length b + decimal_value b"
  using digits_foldl [of "decimal_value a" b] unfolding decimal_value_def [of "a @ b"] by (simp add: decimal_value_def [of a])

lemma decimal_value_simps [simp]: "decimal_value [] = 0" "decimal_value [c] = of_char c - 48"
  by (simp_all add: decimal_value_def)

lemma decimal_value_Cons: "decimal_value (c # ds) = (of_char c - 48) * 10 ^ length ds + decimal_value ds"
  using decimal_value_append [of "[c]" ds] by simp

lemma decimal_value_zeros [simp]: "decimal_value (replicate n CHR ''0'') = 0"
  by (induction n) (simp_all add: decimal_value_Cons)

lemma nat_digits_spec: "decimal_value (nat_digits n) = n \<and> list_all is_digit (nat_digits n) \<and> nat_digits n \<noteq> []"
proof (induction n rule: nat_digits.induct)
  case (1 n)
  show ?case
  proof (cases "n < 10")
    case True
    then show ?thesis by (subst (1 2 3) nat_digits.simps) simp
  next
    case False
    with 1 show ?thesis by (subst (1 2 3) nat_digits.simps) (simp add: decimal_value_append)
  qed
qed

lemmas nat_decimal_value [simp] = nat_digits_spec [THEN conjunct1]
lemmas nat_digits_digits [simp] = nat_digits_spec [THEN conjunct2, THEN conjunct1]
lemmas nat_digits_nonempty [simp] = nat_digits_spec [THEN conjunct2, THEN conjunct2]

lemma strip_zeros_split: "\<exists>z. ds = strip_zeros ds @ replicate z CHR ''0''"
proof -
  have "rev ds = takeWhile (\<lambda>c. c = CHR ''0'') (rev ds) @ rev (strip_zeros ds)"
    by (simp add: strip_zeros_def)
  moreover have "takeWhile (\<lambda>c. c = CHR ''0'') (rev ds) = replicate (length (takeWhile (\<lambda>c. c = CHR ''0'') (rev ds))) CHR ''0''"
    by (rule replicate_length_same [symmetric]) (auto dest: set_takeWhileD)
  ultimately obtain z where "rev ds = replicate z CHR ''0'' @ rev (strip_zeros ds)" by metis
  from arg_cong [OF this, of rev] show ?thesis by auto
qed

section \<open>Reading it back\<close>

lemma split_sign_digits: "list_all is_digit ds \<Longrightarrow> ds \<noteq> [] \<Longrightarrow> split_sign (ds @ r) = (False, ds @ r)"
  by (cases ds) (auto simp: split_sign_def is_digit_def)

lemma takeWhile_digits:
  assumes "list_all is_digit ds" "r = [] \<or> \<not> is_digit (hd r)"
  shows "takeWhile is_digit (ds @ r) = ds" "dropWhile is_digit (ds @ r) = r"
  using assms by (auto simp: takeWhile_append2 dropWhile_append2 list_all_iff takeWhile_eq_Nil_iff dropWhile_eq_self_iff)

lemma ParseFloat_text:
  assumes ip: "list_all is_digit ip" "ip \<noteq> []" and fp: "list_all is_digit fp"
    and ex: "parse_exponent ex = Some e"
  shows "ParseFloat ((if neg then ''-'' else []) @ ip @ (if fp = [] then [] else CHR ''.'' # fp) @ ex) =
    (let v = real (decimal_value (ip @ fp)) / 10 ^ length fp * 10 powi e in Some (if neg then - v else v))"
proof -
  let ?t = "ip @ (if fp = [] then [] else CHR ''.'' # fp) @ ex"
  have exd: "ex = [] \<or> \<not> is_digit (hd ex) \<and> hd ex \<noteq> CHR ''.''"
  proof (cases ex)
    case (Cons x xs)
    then have "x = CHR ''e'' \<or> x = CHR ''E''" using ex by (auto simp: parse_exponent_def split: if_splits)
    with Cons show ?thesis by (auto simp: is_digit_def)
  qed simp
  have sgn: "split_sign ((if neg then ''-'' else []) @ ?t) = (neg, ?t)"
  proof (cases neg)
    case False
    then show ?thesis by (simp only: if_False append_Nil split_sign_digits [OF ip])
  qed (simp add: split_sign_def)
  have dot: "\<not> is_digit CHR ''.''" by (simp add: is_digit_def)
  have "(if fp = [] then [] else CHR ''.'' # fp) @ ex = [] \<or> \<not> is_digit (hd ((if fp = [] then [] else CHR ''.'' # fp) @ ex))"
    using exd dot by (cases fp) auto
  note tw = takeWhile_digits [OF ip(1) this]
  have "ex = [] \<or> \<not> is_digit (hd ex)" using exd by blast
  note tf = takeWhile_digits [OF fp this]
  have val: "(if e \<ge> 0 then m * 10 ^ nat e else m / 10 ^ nat (- e)) = m * 10 powi e" for m :: real
    by (simp only: power_int_def divide_inverse power_inverse if_distrib [of "\<lambda>x. m * x"])
  show ?thesis
  proof (cases "fp = []")
    case True
    have "(case ex of c # cs \<Rightarrow> if c = CHR ''.'' then cs else [] | [] \<Rightarrow> []) = []"
      "(case ex of c # cs \<Rightarrow> if c = CHR ''.'' then dropWhile is_digit cs else ex | [] \<Rightarrow> []) = ex"
      using exd by (cases ex; simp)+
    then show ?thesis
      using tw ip(2) unfolding ParseFloat_def sgn prod.case Let_def
      by (simp only: True if_True append_Nil append_Nil2 takeWhile.simps ex val option.map list.size power_0 div_by_1 simp_thms if_False)
  next
    case False
    then show ?thesis
      using tw ip(2) tf unfolding ParseFloat_def sgn prod.case Let_def
      by (simp only: if_False append_Cons list.case if_True ex val option.map simp_thms)
  qed
qed

lemma div_pow10: "(x :: real) / 10 ^ k = x * 10 powi (- int k)"
  by (simp only: power_int_minus power_int_of_nat divide_inverse)

lemma mult_pow10: "(x :: real) * 10 ^ k = x * 10 powi int k"
  by (simp only: power_int_of_nat)

lemma fmtF_read:
  assumes "list_all is_digit ds" "ds \<noteq> [] \<or> dp = 0"
  shows "ParseFloat ((if neg then ''-'' else []) @ fmtF ds dp) =
    (let v = real (decimal_value ds) * 10 powi (dp - int (length ds)) in Some (if neg then - v else v))"
proof -
  let ?n = "length ds"
  define ip where "ip = (if dp > 0 then take (nat dp) ds @ replicate (nat dp - ?n) CHR ''0'' else ''0'')"
  define fp where "fp = map (\<lambda>i. let j = dp + int i in if 0 \<le> j \<and> j < int ?n then ds ! nat j else CHR ''0'') [0..<nat (int ?n - dp)]"
  have idx: "nat (dp + int i) = i - nat (- dp)" if "\<not> 0 \<le> dp" "\<not> i < nat (- dp)" for i
    using that by linarith
  have fp_eq: "fp = (if dp \<ge> 0 then drop (nat dp) ds else replicate (nat (- dp)) CHR ''0'' @ ds)"
    by (rule nth_equalityI) (auto simp: fp_def Let_def nth_append nat_add_distrib nat_diff_distrib idx)
  have tx: "fmtF ds dp = ip @ (if fp = [] then [] else CHR ''.'' # fp) @ []"
    by (auto simp: fmtF_def ip_def fp_def Let_def)
  have ipd: "list_all is_digit ip" "ip \<noteq> []" and fpd: "list_all is_digit fp"
    using assms by (auto simp: ip_def fp_eq list_all_iff dest: in_set_takeD in_set_dropD)
  have "real (decimal_value (ip @ fp)) / 10 ^ length fp = real (decimal_value ds) * 10 powi (dp - int ?n)"
  proof (cases "dp > 0")
    case True
    show ?thesis
    proof (cases "?n \<le> nat dp")
      case le: True
      then have "ip @ fp = ds @ replicate (nat dp - ?n) CHR ''0''" "fp = []" using True by (simp_all add: ip_def fp_eq)
      with le True show ?thesis by (simp add: decimal_value_append mult_pow10 of_nat_diff)
    next
      case False
      then have "ip @ fp = ds" "length fp = nat (int ?n - dp)" using True by (auto simp: ip_def fp_eq nat_diff_distrib)
      moreover have "dp \<le> int ?n" using False True by linarith
      ultimately show ?thesis by (simp add: div_pow10)
    qed
  next
    case False
    then have "decimal_value (ip @ fp) = decimal_value ds" "length fp = nat (int ?n - dp)"
      by (auto simp: ip_def fp_eq decimal_value_append decimal_value_Cons nat_diff_distrib nat_add_distrib)
    with False assms(2) show ?thesis by (simp add: div_pow10)
  qed
  moreover have "parse_exponent [] = Some 0" by (simp add: parse_exponent_def)
  ultimately show ?thesis
    unfolding tx using ParseFloat_text [OF ipd fpd, of "[]" 0 neg] by simp
qed

lemma parse_exponent_signed:
  assumes "list_all is_digit es" "es \<noteq> []"
  shows "parse_exponent (CHR ''e'' # (if neg then CHR ''-'' else CHR ''+'') # es) =
    Some (if neg then - int (decimal_value es) else int (decimal_value es))"
  using assms by (simp add: parse_exponent_def split_sign_def)

lemma fmtE_read:
  assumes "list_all is_digit ds" "ds \<noteq> []"
  shows "ParseFloat ((if neg then ''-'' else []) @ fmtE ds dp) =
    (let v = real (decimal_value ds) * 10 powi (dp - int (length ds)) in Some (if neg then - v else v))"
proof -
  define es where "es = (let a = nat \<bar>dp - 1\<bar> in if a < 10 then CHR ''0'' # nat_digits a else nat_digits a)"
  define ex where "ex = CHR ''e'' # (if dp - 1 < 0 then CHR ''-'' else CHR ''+'') # es"
  have "list_all is_digit es" "es \<noteq> []" "decimal_value es = nat \<bar>dp - 1\<bar>"
    by (auto simp: es_def Let_def decimal_value_Cons)
  then have ex: "parse_exponent ex = Some (dp - 1)"
    unfolding ex_def by (auto simp: parse_exponent_signed)
  have tx: "fmtE ds dp = [hd ds] @ (if tl ds = [] then [] else CHR ''.'' # tl ds) @ ex"
    using assms(2) by (cases ds) (auto simp: fmtE_def ex_def es_def Let_def)
  have "list_all is_digit [hd ds]" "list_all is_digit (tl ds)" using assms by (cases ds; simp)+
  note ParseFloat_text [OF this(1) _ this(2) ex, of neg]
  moreover have "[hd ds] @ tl ds = ds" using assms(2) by simp
  moreover have "real (decimal_value ds) / 10 ^ length (tl ds) * 10 powi (dp - 1) =
      real (decimal_value ds) * 10 powi (dp - int (length ds))"
    using assms(2) by (cases ds) (simp_all add: div_pow10 mult.assoc diff_diff_eq flip: power_int_add)
  ultimately show ?thesis unfolding tx by simp
qed

text \<open>The number that the decimal of a float denotes: itself when it has one, as a float64 does.\<close>

definition printed :: "real \<Rightarrow> real" where
  "printed v =
     (let k = (case decimal_places \<bar>v\<bar> of Some k \<Rightarrow> k | None \<Rightarrow> 400);
          m = real (nat \<lfloor>\<bar>v\<bar> * 10 ^ k\<rfloor>) / 10 ^ k in
      if v < 0 then - m else m)"

lemma printed_exact: "decimal_places \<bar>v\<bar> \<noteq> None \<Longrightarrow> printed v = v"
proof -
  assume "decimal_places \<bar>v\<bar> \<noteq> None"
  then obtain k where k: "decimal_places \<bar>v\<bar> = Some k" by blast
  then have "is_whole (\<bar>v\<bar> * 10 ^ k)" by (auto simp: decimal_places_def find_Some_iff)
  then have "real (nat \<lfloor>\<bar>v\<bar> * 10 ^ k\<rfloor>) = \<bar>v\<bar> * 10 ^ k" unfolding is_whole_def by simp
  then have q: "real (nat \<lfloor>\<bar>v\<bar> * 10 ^ k\<rfloor>) / 10 ^ k = \<bar>v\<bar>" by (simp only:) simp
  show ?thesis unfolding printed_def k option.case Let_def q by simp
qed

lemma floor_nat_bounds: "0 \<le> x \<Longrightarrow> real (nat \<lfloor>x\<rfloor>) \<le> x \<and> x \<le> real (nat \<lfloor>x\<rfloor>) + 1"
proof -
  assume "0 \<le> x"
  then have "real (nat \<lfloor>x\<rfloor>) = of_int \<lfloor>x\<rfloor>" by simp
  then show ?thesis by linarith
qed

lemma printed_signed: "printed v = (if v < 0 then - \<bar>printed v\<bar> else \<bar>printed v\<bar>)"
proof -
  have "0 \<le> m \<Longrightarrow> x = (if v < 0 then - m else m) \<Longrightarrow> x = (if v < 0 then - \<bar>x\<bar> else \<bar>x\<bar>)" for m x :: real by simp
  from this [OF _ printed_def [of v, unfolded Let_def]] show ?thesis by simp
qed

lemma floor_scaled: "0 < p \<Longrightarrow> 0 \<le> v \<Longrightarrow> real (nat \<lfloor>v * p\<rfloor>) / p \<le> v \<and> v \<le> real (nat \<lfloor>v * p\<rfloor>) / p + 1 / p"
  using floor_nat_bounds [of "v * p"] by (simp add: field_simps)

lemma signed_close: "a \<le> \<bar>v\<bar> \<and> \<bar>v\<bar> \<le> a + e \<Longrightarrow> \<bar>(if v < 0 then - a else a) - v\<bar> \<le> e" for a e :: real
  by (cases "v < 0") auto

lemma printed_close: "\<bar>printed v - v\<bar> \<le> 1 / 10 ^ 400"
proof (cases "decimal_places \<bar>v\<bar>")
  case None
  have "(0 :: real) < 10 ^ 400" by simp
  from signed_close [OF floor_scaled [OF this abs_ge_zero [of v]]] show ?thesis
    unfolding printed_def None option.case Let_def .
next
  case (Some k)
  then show ?thesis using printed_exact [of v] by simp
qed

lemma shortest_value:
  assumes "shortest \<bar>v\<bar> = (ds, dp)"
  shows "list_all is_digit ds \<and> (ds \<noteq> [] \<or> dp = 0) \<and> real (decimal_value ds) * 10 powi (dp - int (length ds)) = \<bar>printed v\<bar>"
proof -
  define k where "k = (case decimal_places \<bar>v\<bar> of Some k \<Rightarrow> k | None \<Rightarrow> 400)"
  define M where "M = nat \<lfloor>\<bar>v\<bar> * 10 ^ k\<rfloor>"
  have sh: "shortest \<bar>v\<bar> = (if M = 0 then ([], 0) else (strip_zeros (nat_digits M), int (length (nat_digits M)) - int k))"
    by (simp only: shortest_def Let_def M_def k_def)
  have "printed v = (if v < 0 then - (real M / 10 ^ k) else real M / 10 ^ k)" by (simp only: printed_def Let_def M_def k_def)
  then have p: "\<bar>printed v\<bar> = real M / 10 ^ k" by simp
  show ?thesis
  proof (cases "M = 0")
    case True
    with sh assms show ?thesis by (simp add: p)
  next
    case False
    obtain z where z: "nat_digits M = strip_zeros (nat_digits M) @ replicate z CHR ''0''"
      using strip_zeros_split by blast
    from assms False have ds: "ds = strip_zeros (nat_digits M)" "dp = int (length (nat_digits M)) - int k"
      by (auto simp: sh)
    have v: "decimal_value ds * 10 ^ z = M"
      using arg_cong [OF z, of decimal_value] by (simp add: ds(1) decimal_value_append)
    moreover have "int (length (nat_digits M)) = int (length ds) + int z"
      using arg_cong [OF z, of length] by (simp add: ds(1))
    moreover have "list_all is_digit ds"
      using nat_digits_digits [of M] by (subst (asm) z) (simp add: ds(1))
    moreover have "ds \<noteq> []" using v False by auto
    moreover have "real (decimal_value ds) * 10 ^ z = real M" unfolding v [symmetric] by simp
    ultimately show ?thesis by (simp add: ds(2) p power_int_diff field_simps)
  qed
qed

lemma shortest_spec:
  assumes "0 \<le> v" "decimal_places v \<noteq> None" "shortest v = (ds, dp)"
  shows "list_all is_digit ds \<and> (ds \<noteq> [] \<or> dp = 0) \<and> real (decimal_value ds) * 10 powi (dp - int (length ds)) = v"
  using shortest_value [of v ds dp] printed_exact [of v] assms by simp

lemma formatFloat_read:
  assumes "decimal_places \<bar>v\<bar> \<noteq> None"
  shows "ParseFloat (formatFloat v) = Some v"
proof -
  obtain ds dp where s: "shortest \<bar>v\<bar> = (ds, dp)" by force
  note spec = shortest_spec [OF _ assms s]
  have sgn: "(if v < 0 then - \<bar>v\<bar> else \<bar>v\<bar>) = v" by simp
  show ?thesis
  proof (cases "dp - 1 < - 4 \<or> dp - 1 \<ge> 6")
    case True
    with spec have "ds \<noteq> []" by auto
    with spec True show ?thesis
      using fmtE_read [of ds "v < 0" dp] sgn by (simp add: formatFloat_def s Let_def)
  next
    case False
    with spec show ?thesis
      using fmtF_read [of ds dp "v < 0"] sgn by (simp add: formatFloat_def s Let_def)
  qed
qed

lemma set_fmtF: "set (fmtF ds dp) \<subseteq> set ds \<union> {CHR ''0'', CHR ''.''}"
  by (auto simp: fmtF_def Let_def dest: in_set_takeD split: if_splits)

lemma set_nat_digits: "set (nat_digits n) \<subseteq> Collect is_digit"
  using nat_digits_digits [of n] by (auto simp: list_all_iff)

lemma set_fmtE: "set (fmtE ds dp) \<subseteq> set ds \<union> Collect is_digit \<union> {CHR ''.'', CHR ''e'', CHR ''-'', CHR ''+''}"
  using set_nat_digits [of "nat \<bar>dp - 1\<bar>"] set_nat_digits [of 0] list.set_sel(2) [of ds]
  by (auto simp: fmtE_def Let_def)

lemma formatFloat_chars:
  assumes "decimal_places \<bar>v\<bar> \<noteq> None"
  shows "set (formatFloat v) \<subseteq> Collect is_digit \<union> {CHR ''.'', CHR ''e'', CHR ''-'', CHR ''+''}"
proof -
  obtain ds dp where s: "shortest \<bar>v\<bar> = (ds, dp)" by force
  from shortest_spec [OF _ assms s] have "set ds \<subseteq> Collect is_digit" by (auto simp: list_all_iff)
  then show ?thesis
    using set_fmtF [of ds dp] set_fmtE [of ds dp] by (auto simp: formatFloat_def s)
qed

lemma decimal_nat [simp]: "decimal_places \<bar>real n\<bar> \<noteq> None"
  by (simp add: decimal_places_def find_None_iff is_whole_def) (rule exI [of _ 0], simp)

section \<open>Instruments\<close>

text \<open>An instrument reads the process' state when a scrape renders it.\<close>

datatype 's instrument =
    CounterI string string "'s \<Rightarrow> u64"
  | HistogramI string string "'s \<Rightarrow> Histogram"
  | FuncI string string string "'s \<Rightarrow> real"

type_synonym 's Registry = "'s instrument list"

definition NewRegistry :: "'s Registry" where
  "NewRegistry = []"

definition NewCounter :: "string \<Rightarrow> string \<Rightarrow> ('s \<Rightarrow> u64) \<Rightarrow> 's Registry \<Rightarrow> 's Registry" where
  "NewCounter name hlp v r = r @ [CounterI name hlp v]"

definition NewHistogramR :: "string \<Rightarrow> string \<Rightarrow> ('s \<Rightarrow> Histogram) \<Rightarrow> 's Registry \<Rightarrow> 's Registry" where
  "NewHistogramR name hlp h r = r @ [HistogramI name hlp h]"

definition NewGaugeFunc :: "string \<Rightarrow> string \<Rightarrow> ('s \<Rightarrow> real) \<Rightarrow> 's Registry \<Rightarrow> 's Registry" where
  "NewGaugeFunc name hlp f r = r @ [FuncI name hlp ''gauge'' f]"

definition NewCounterFunc :: "string \<Rightarrow> string \<Rightarrow> ('s \<Rightarrow> real) \<Rightarrow> 's Registry \<Rightarrow> 's Registry" where
  "NewCounterFunc name hlp f r = r @ [FuncI name hlp ''counter'' f]"

section \<open>The response to a scrape\<close>

definition tw_head :: "string \<Rightarrow> string \<Rightarrow> string \<Rightarrow> string list" where
  "tw_head name hlp typ = [''# HELP '' @ name @ '' '' @ hlp, ''# TYPE '' @ name @ '' '' @ typ]"

definition tw_line :: "string \<Rightarrow> string \<Rightarrow> real \<Rightarrow> string" where
  "tw_line name labels v =
     (let labels1 = (if labels \<noteq> [] then ''{'' @ labels @ ''}'' else labels) in
      name @ labels1 @ '' '' @ formatFloat v)"

definition le_label :: "string \<Rightarrow> string" where
  "le_label b = ''le=\"'' @ b @ ''\"''"

fun render :: "'s \<Rightarrow> 's instrument \<Rightarrow> string list" where
  "render s (CounterI name hlp v) = tw_head name hlp ''counter'' @ [tw_line name [] (real (unat (v s)))]"
| "render s (HistogramI name hlp h) =
     (let v = Histogram_render (h s) in
      tw_head name hlp ''histogram'' @
      map (\<lambda>(b, cum). tw_line (name @ ''_bucket'') (le_label (formatFloat b)) (real (unat cum))) (sv_buckets v) @
      [tw_line (name @ ''_bucket'') (le_label ''+Inf'') (real (unat (sv_inf v))),
       tw_line (name @ ''_sum'') [] (sv_sum v),
       tw_line (name @ ''_count'') [] (real (unat (sv_count v)))])"
| "render s (FuncI name hlp typ f) = tw_head name hlp typ @ [tw_line name [] (f s)]"

definition Registry_Handler :: "'s Registry \<Rightarrow> 's \<Rightarrow> string list" where
  "Registry_Handler r s = concat (map (render s) r)"

section \<open>What the load generator finds in it\<close>

definition name_ok :: "string \<Rightarrow> bool" where
  "name_ok name \<longleftrightarrow> name \<noteq> [] \<and> set name \<inter> {CHR '' '', CHR ''#'', CHR ''{''} = {}"

lemma parseLine_comment: "has_prefix ''#'' line \<Longrightarrow> parseLine line snap = Some snap"
  by (simp add: parseLine_def)

lemma scrape_head: "scrape_lines (tw_head name hlp typ) snap = Some snap"
  by (simp add: tw_head_def parseLine_comment has_prefix_def)

lemma parseLine_keyed:
  assumes "key \<noteq> []" "hd key \<noteq> CHR ''#''" "decimal_places \<bar>v\<bar> \<noteq> None"
  shows "parseLine (key @ '' '' @ formatFloat v) snap =
    (case bucketKey key of
       None \<Rightarrow> None
     | Some (Some (name, le)) \<Rightarrow>
         let m = (case map_of (sn_hists snap) name of None \<Rightarrow> [] | Some m \<Rightarrow> m) in
         Some (snap\<lparr>sn_hists := AList.update name (AList.update le v m) (sn_hists snap)\<rparr>)
     | Some None \<Rightarrow> Some (snap\<lparr>sn_scalars := AList.update key v (sn_scalars snap)\<rparr>))"
proof -
  have sp: "CHR '' '' \<notin> set (formatFloat v)"
    using formatFloat_chars [OF assms(3)] by (auto simp: is_digit_def)
  have "\<not> has_prefix ''#'' (key @ '' '' @ formatFloat v)"
    using assms(1,2) by (cases key) (auto simp: has_prefix_def)
  then show ?thesis
    using assms(1) sp by (simp add: parseLine_def formatFloat_read [OF assms(3)])
qed

lemma bucketKey_scalar: "CHR ''{'' \<notin> set key \<Longrightarrow> bucketKey key = Some None"
  using str_index_split [of "''_bucket{le=\"''" key]
  by (cases "str_index ''_bucket{le=\"'' key") (auto simp: bucketKey_def)

lemma str_index_first:
  assumes "c \<notin> set n" "c \<notin> set p1"
  shows "str_index (p1 @ c # p2) (n @ (p1 @ c # p2) @ r) = Some (length n)"
  using assms(1)
proof (induction n)
  case Nil
  then show ?case by (cases p1) (auto simp: has_prefix_def)
next
  case (Cons x n)
  have "\<not> has_prefix (p1 @ c # p2) (x # n @ (p1 @ c # p2) @ r)"
  proof
    assume "has_prefix (p1 @ c # p2) (x # n @ (p1 @ c # p2) @ r)"
    then obtain w where "p1 @ c # p2 @ w = x # n @ p1 @ c # p2 @ r" by (auto simp: has_prefix_iff)
    moreover have tw: "takeWhile (\<lambda>y. y \<noteq> c) (l @ c # z) = l" if "c \<notin> set l" for l z
      using that by (induction l) auto
    ultimately have "p1 = x # n @ p1"
      using tw [of p1 "p2 @ w"] tw [of "x # n @ p1" "p2 @ r"] Cons.prems assms(2) by simp
    from arg_cong [OF this, of length] show False by simp
  qed
  with Cons show ?case by simp
qed

lemma bucketKey_bucket:
  assumes "CHR ''{'' \<notin> set name"
  shows "bucketKey (name @ ''_bucket{'' @ le_label b @ ''}'') =
    Some (if b = ''+Inf'' then Some (name, PInf) else map_option (\<lambda>le. (name, Fin le)) (ParseFloat b))"
proof -
  have "str_index ''_bucket{le=\"'' (name @ ''_bucket{le=\"'' @ b @ ''\"}'') = Some (length name)"
    using str_index_first [OF assms, of "''_bucket''" "''le=\"''" "b @ ''\"}''"] by simp
  moreover have "has_suffix ''\"}'' (name @ ''_bucket{le=\"'' @ b @ ''\"}'')"
    unfolding has_suffix_iff by (rule exI [of _ "name @ ''_bucket{le=\"'' @ b"]) simp
  ultimately show ?thesis by (simp add: bucketKey_def le_label_def Let_def)
qed

definition put_scalar :: "string \<Rightarrow> real \<Rightarrow> snapshot \<Rightarrow> snapshot" where
  "put_scalar k v snap = snap\<lparr>sn_scalars := AList.update k v (sn_scalars snap)\<rparr>"

definition put_bucket :: "string \<Rightarrow> bound \<times> real \<Rightarrow> snapshot \<Rightarrow> snapshot" where
  "put_bucket name b snap =
     snap\<lparr>sn_hists := AList.update name
       (AList.update (fst b) (snd b) (case map_of (sn_hists snap) name of None \<Rightarrow> [] | Some m \<Rightarrow> m)) (sn_hists snap)\<rparr>"

lemma parse_scalar_line:
  assumes "name_ok name" "decimal_places \<bar>v\<bar> \<noteq> None"
  shows "parseLine (tw_line name [] v) snap = Some (put_scalar name v snap)"
proof -
  have "hd name \<noteq> CHR ''#''" "name \<noteq> []" "CHR ''{'' \<notin> set name" using assms(1) by (cases name; auto simp: name_ok_def)+
  then show ?thesis
    using parseLine_keyed [OF _ _ assms(2), of name snap]
    by (simp add: tw_line_def bucketKey_scalar put_scalar_def)
qed

lemma parse_bucket_line:
  assumes "name_ok name" "b = ''+Inf'' \<and> bd = PInf \<or> b \<noteq> ''+Inf'' \<and> ParseFloat b = Some le \<and> bd = Fin le"
  shows "parseLine (tw_line (name @ ''_bucket'') (le_label b) (real n)) snap = Some (put_bucket name (bd, real n) snap)"
proof -
  have n: "hd (name @ ''_bucket{'' @ le_label b @ ''}'') \<noteq> CHR ''#''" "name \<noteq> []" "CHR ''{'' \<notin> set name"
    using assms(1) by (cases name; auto simp: name_ok_def)+
  have "tw_line (name @ ''_bucket'') (le_label b) (real n) = (name @ ''_bucket{'' @ le_label b @ ''}'') @ '' '' @ formatFloat (real n)"
    by (simp add: tw_line_def le_label_def)
  then show ?thesis
    using parseLine_keyed [OF _ n(1) decimal_nat, of n snap, unfolded bucketKey_bucket [OF n(3)]] assms(2)
    by (auto simp: put_bucket_def Let_def simp del: append_Cons append_assoc)
qed

text \<open>The effect of an instrument's lines on what has been read.\<close>

fun collect :: "'s \<Rightarrow> 's instrument \<Rightarrow> snapshot \<Rightarrow> snapshot" where
  "collect s (CounterI name hlp v) snap = put_scalar name (real (unat (v s))) snap"
| "collect s (HistogramI name hlp h) snap =
     (let v = Histogram_render (h s) in
      put_scalar (name @ ''_count'') (real (unat (sv_count v)))
        (put_scalar (name @ ''_sum'') (sv_sum v) (foldl (\<lambda>sn b. put_bucket name b sn) snap (exposed v))))"
| "collect s (FuncI name hlp typ f) snap = put_scalar name (f s) snap"

fun inst_name :: "'s instrument \<Rightarrow> string" where
  "inst_name (CounterI name hlp v) = name"
| "inst_name (HistogramI name hlp h) = name"
| "inst_name (FuncI name hlp typ f) = name"

text \<open>Every number the instrument shows has a decimal.\<close>

fun shows_decimals :: "'s \<Rightarrow> 's instrument \<Rightarrow> bool" where
  "shows_decimals s (CounterI name hlp v) = True"
| "shows_decimals s (HistogramI name hlp h) =
     ((\<forall>b \<in> set (hg_bounds (h s)). decimal_places \<bar>b\<bar> \<noteq> None) \<and> decimal_places \<bar>hg_sum (h s)\<bar> \<noteq> None)"
| "shows_decimals s (FuncI name hlp typ f) = (decimal_places \<bar>f s\<bar> \<noteq> None)"

lemma scrape_append:
  "scrape_lines (ls @ ls') snap = Option.bind (scrape_lines ls snap) (scrape_lines ls')"
  by (induction ls arbitrary: snap) (auto split: bind_split)

lemma name_ok_suffix: "name_ok name \<Longrightarrow> name_ok (name @ ''_sum'') \<and> name_ok (name @ ''_count'')"
  by (simp add: name_ok_def)

lemma scrape_buckets:
  assumes "name_ok name" "\<forall>b \<in> fst ` set bs. decimal_places \<bar>b\<bar> \<noteq> None"
  shows "scrape_lines (map (\<lambda>(b, cum). tw_line (name @ ''_bucket'') (le_label (formatFloat b)) (real (unat (cum :: u64)))) bs) snap =
    Some (foldl (\<lambda>sn b. put_bucket name b sn) snap (map (\<lambda>(b, c). (Fin b, real (unat c))) bs))"
  using assms(2)
proof (induction bs arbitrary: snap)
  case (Cons p bs)
  obtain b c where p: "p = (b, c)" by force
  have "ParseFloat (formatFloat b) = Some b" using Cons.prems by (simp add: p formatFloat_read)
  moreover have "ParseFloat ''+Inf'' = None" by code_simp
  ultimately have "formatFloat b \<noteq> ''+Inf'' \<and> ParseFloat (formatFloat b) = Some b \<and> Fin b = Fin b" by auto
  with parse_bucket_line [OF assms(1) disjI2] have "parseLine (tw_line (name @ ''_bucket'') (le_label (formatFloat b)) (real (unat c))) snap =
      Some (put_bucket name (Fin b, real (unat c)) snap)" by blast
  with Cons show ?case by (simp add: p del: of_nat_unat)
qed simp

lemma scrape_instrument:
  assumes "name_ok (inst_name i)" "shows_decimals s i"
  shows "scrape_lines (render s i) snap = Some (collect s i snap)"
proof (cases i)
  case (HistogramI name hlp h)
  let ?v = "Histogram_render (h s)"
  have n: "name_ok name" "\<forall>b \<in> fst ` set (sv_buckets ?v). decimal_places \<bar>b\<bar> \<noteq> None" "decimal_places \<bar>sv_sum ?v\<bar> \<noteq> None"
    using assms by (auto simp: HistogramI Histogram_render_def Let_def dest: set_zip_leftD)
  note suf = name_ok_suffix [OF n(1)]
  show ?thesis
    using scrape_buckets [OF n(1,2)] parse_bucket_line [OF n(1) disjI1 [OF conjI [OF refl refl]], of "unat (sv_inf ?v)"]
      parse_scalar_line [OF conjunct1 [OF suf] n(3)]
      parse_scalar_line [OF conjunct2 [OF suf] decimal_nat [of "unat (sv_count ?v)"]]
    by (simp add: HistogramI scrape_head scrape_append exposed_def Let_def del: of_nat_unat)
qed (use assms in \<open>simp_all add: scrape_head scrape_append parse_scalar_line [OF _ decimal_nat] parse_scalar_line del: of_nat_unat\<close>)

fun scalars_of :: "'s \<Rightarrow> 's instrument \<Rightarrow> (string \<times> real) list" where
  "scalars_of s (CounterI name hlp v) = [(name, real (unat (v s)))]"
| "scalars_of s (HistogramI name hlp h) =
     (let v = Histogram_render (h s) in [(name @ ''_sum'', sv_sum v), (name @ ''_count'', real (unat (sv_count v)))])"
| "scalars_of s (FuncI name hlp typ f) = [(name, f s)]"

fun hists_of :: "'s \<Rightarrow> 's instrument \<Rightarrow> (string \<times> (bound \<times> real) list) list" where
  "hists_of s (HistogramI name hlp h) = [(name, exposed (Histogram_render (h s)))]"
| "hists_of s _ = []"

lemma update_new: "k \<notin> fst ` set al \<Longrightarrow> AList.update k v al = al @ [(k, v)]"
  by (induction al) auto

lemma put_buckets_old:
  assumes "distinct (map fst (m @ bs))" "name \<notin> fst ` set hs"
  shows "foldl (\<lambda>sn b. put_bucket name b sn) \<lparr>sn_scalars = sc, sn_hists = hs @ [(name, m)]\<rparr> bs =
    \<lparr>sn_scalars = sc, sn_hists = hs @ [(name, m @ bs)]\<rparr>"
  using assms
proof (induction bs arbitrary: m)
  case (Cons b bs)
  have upd: "AList.update name x (hs @ [(name, y)]) = hs @ [(name, x)]" for x and y :: "(bound \<times> real) list"
    using assms(2) by (induction hs) auto
  have "map_of (hs @ [(name, m)]) name = Some m" using assms(2) by (simp add: map_add_Some_iff map_of_eq_None_iff)
  moreover have "AList.update (fst b) (snd b) m = m @ [b]" using Cons.prems(1) by (subst update_new) auto
  ultimately have "put_bucket name b \<lparr>sn_scalars = sc, sn_hists = hs @ [(name, m)]\<rparr> =
      \<lparr>sn_scalars = sc, sn_hists = hs @ [(name, m @ [b])]\<rparr>" by (simp add: put_bucket_def upd)
  with Cons show ?case by simp
qed simp

lemma put_buckets_new:
  assumes "distinct (map fst (b # bs))" "name \<notin> fst ` set hs"
  shows "foldl (\<lambda>sn b. put_bucket name b sn) \<lparr>sn_scalars = sc, sn_hists = hs\<rparr> (b # bs) =
    \<lparr>sn_scalars = sc, sn_hists = hs @ [(name, b # bs)]\<rparr>"
proof -
  have "map_of hs name = None" using assms(2) by (simp add: map_of_eq_None_iff)
  then have "put_bucket name b \<lparr>sn_scalars = sc, sn_hists = hs\<rparr> = \<lparr>sn_scalars = sc, sn_hists = hs @ [(name, [b])]\<rparr>"
    using assms(2) by (simp add: put_bucket_def update_new)
  then show ?thesis using put_buckets_old [of "[b]" bs] assms by simp
qed

lemma collect_new:
  assumes "distinct (map fst (sc @ scalars_of s i))" "distinct (map fst (hs @ hists_of s i))"
    "\<forall>name hlp h. i = HistogramI name hlp h \<longrightarrow> distinct (map fst (exposed (Histogram_render (h s))))"
  shows "collect s i \<lparr>sn_scalars = sc, sn_hists = hs\<rparr> =
    \<lparr>sn_scalars = sc @ scalars_of s i, sn_hists = hs @ hists_of s i\<rparr>"
proof (cases i)
  case (HistogramI name hlp h)
  obtain b bs where e: "exposed (Histogram_render (h s)) = b # bs"
    by (cases "exposed (Histogram_render (h s))") (auto simp: exposed_def)
  have "foldl (\<lambda>sn b. put_bucket name b sn) \<lparr>sn_scalars = sc, sn_hists = hs\<rparr> (b # bs) =
      \<lparr>sn_scalars = sc, sn_hists = hs @ [(name, b # bs)]\<rparr>"
    using assms(2,3) by (intro put_buckets_new) (auto simp: HistogramI e)
  then show ?thesis
    using assms(1) by (simp add: HistogramI e put_scalar_def update_new Let_def del: foldl_Cons of_nat_unat)
qed (use assms(1) in \<open>auto simp: put_scalar_def update_new simp del: of_nat_unat\<close>)

text \<open>The keys of a registry's lines do not depend on the state.\<close>

fun scalar_keys :: "'s instrument \<Rightarrow> string list" where
  "scalar_keys (CounterI name hlp v) = [name]"
| "scalar_keys (HistogramI name hlp h) = [name @ ''_sum'', name @ ''_count'']"
| "scalar_keys (FuncI name hlp typ f) = [name]"

fun hist_keys :: "'s instrument \<Rightarrow> string list" where
  "hist_keys (HistogramI name hlp h) = [name]"
| "hist_keys _ = []"

lemma keys_of [simp]: "map fst (scalars_of s i) = scalar_keys i" "map fst (hists_of s i) = hist_keys i"
  by (cases i; simp add: Let_def)+

definition registry_ok :: "'s Registry \<Rightarrow> bool" where
  "registry_ok r \<longleftrightarrow> list_all (\<lambda>i. name_ok (inst_name i)) r \<and> distinct (concat (map scalar_keys r)) \<and>
     distinct (concat (map hist_keys r))"

fun ascending :: "'s \<Rightarrow> 's instrument \<Rightarrow> bool" where
  "ascending s (HistogramI name hlp h) = distinct (hg_bounds (h s))"
| "ascending s _ = True"

lemma ascending_exposed: "ascending s (HistogramI name hlp h) \<Longrightarrow> distinct (map fst (exposed (Histogram_render (h s))))"
proof -
  have "map fst (exposed (Histogram_render (h s))) = map Fin (map fst (zip (hg_bounds (h s)) (cumulate 0 (hg_counts (h s))))) @ [PInf]"
    by (simp add: exposed_def Histogram_render_def Let_def comp_def case_prod_beta)
  then show "ascending s (HistogramI name hlp h) \<Longrightarrow> ?thesis"
    by (auto simp: distinct_map inj_on_def map_fst_zip_take distinct_take)
qed

lemma collect_all:
  assumes "distinct (map fst sc @ concat (map scalar_keys r))" "distinct (map fst hs @ concat (map hist_keys r))"
    "list_all (ascending s) r"
  shows "foldl (\<lambda>sn i. collect s i sn) \<lparr>sn_scalars = sc, sn_hists = hs\<rparr> r =
    \<lparr>sn_scalars = sc @ concat (map (scalars_of s) r), sn_hists = hs @ concat (map (hists_of s) r)\<rparr>"
  using assms
proof (induction r arbitrary: sc hs)
  case (Cons i r)
  have "collect s i \<lparr>sn_scalars = sc, sn_hists = hs\<rparr> = \<lparr>sn_scalars = sc @ scalars_of s i, sn_hists = hs @ hists_of s i\<rparr>"
    using Cons.prems ascending_exposed [of s] by (intro collect_new) auto
  moreover have "foldl (\<lambda>sn i. collect s i sn) \<lparr>sn_scalars = sc @ scalars_of s i, sn_hists = hs @ hists_of s i\<rparr> r =
      \<lparr>sn_scalars = (sc @ scalars_of s i) @ concat (map (scalars_of s) r),
       sn_hists = (hs @ hists_of s i) @ concat (map (hists_of s) r)\<rparr>"
    using Cons.prems by (intro Cons.IH) (simp_all only: map_append keys_of append_assoc list.map concat.simps list.pred_inject)
  ultimately show ?case by simp
qed simp

lemma scrape_registry:
  assumes "\<forall>i \<in> set r. name_ok (inst_name i) \<and> shows_decimals s i"
  shows "scrape_lines (Registry_Handler r s) snap = Some (foldl (\<lambda>sn i. collect s i sn) snap r)"
  using assms
proof (induction r arbitrary: snap)
  case (Cons i r)
  then show ?case using scrape_instrument [of i s] by (simp add: Registry_Handler_def scrape_append)
qed (simp add: Registry_Handler_def)

lemma registry_read:
  assumes "registry_ok r" "list_all (shows_decimals s) r" "list_all (ascending s) r"
  shows "scrape_lines (Registry_Handler r s) empty_snapshot =
    Some \<lparr>sn_scalars = concat (map (scalars_of s) r), sn_hists = concat (map (hists_of s) r)\<rparr>"
  using scrape_registry [of r s empty_snapshot] collect_all [of "[]" r "[]" s] assms
  by (auto simp: registry_ok_def list_all_iff empty_snapshot_def)

text \<open>
  What the server exposes is what the load generator reads: for every registry of well-formed,
  distinct names whose numbers have decimals, parsing the lines of the response gives exactly the
  instruments' values, the counters, gauges, sums and counts under their names and the cumulative
  buckets of each histogram under its own, in the registry's order, with nothing lost or added.
\<close>

theorem exposition_roundtrip:
  assumes "registry_ok r" "list_all (shows_decimals s) r" "list_all (ascending s) r"
  shows "scrape_lines (Registry_Handler r s) empty_snapshot =
    Some \<lparr>sn_scalars = concat (map (scalars_of s) r), sn_hists = concat (map (hists_of s) r)\<rparr>"
  using assms by (rule registry_read)

definition demo_registry :: "Histogram Registry" where
  "demo_registry = NewGaugeFunc ''up'' ''A gauge.'' (\<lambda>_. 1) (NewHistogramR ''lat'' ''A histogram.'' (\<lambda>h. h)
     (NewCounter ''n_total'' ''A counter.'' hg_count NewRegistry))"

theorem exposition_roundtrip_witness:
  "scrape_lines (Registry_Handler demo_registry (NewHistogram [1 / 2, 2])) empty_snapshot =
    Some \<lparr>sn_scalars = [(''n_total'', 0), (''lat_sum'', 0), (''lat_count'', 0), (''up'', 1)],
          sn_hists = [(''lat'', [(Fin (1 / 2), 0), (Fin 2, 0), (PInf, 0)])]\<rparr>"
proof -
  have "decimal_places \<bar>1 / 2\<bar> \<noteq> None"
    unfolding decimal_places_def find_None_iff by (simp add: is_whole_def) (rule exI [of _ 1], simp)
  then show ?thesis
    using exposition_roundtrip [of demo_registry "NewHistogram [1 / 2, 2]"] decimal_nat [of 0] decimal_nat [of 1] decimal_nat [of 2]
    by (simp add: demo_registry_def NewGaugeFunc_def NewHistogramR_def NewCounter_def NewRegistry_def registry_ok_def name_ok_def
        NewHistogram_def Histogram_render_def exposed_def Let_def)
qed

end
