(* ===== verification/Procmetrics.thy ===== *)
theory Procmetrics
  imports Exposition
begin

text \<open>
  The registry of a server process: the runtime's gauges (\<open>metrics/runtime.go\<close>), the kernel's instruments
  (\<open>metrics/m.go\<close>) and the manager's gauges (\<open>session/manager.go\<close>), in the order they are registered, and
  what the load generator's records make of two scrapes of it.
\<close>

section \<open>The process\<close>

text \<open>What \<open>runtime/metrics\<close> reads: whether both samples are floats, the total and the idle seconds.\<close>

record cpu_samples =
  cs_floats :: bool
  cs_total :: real
  cs_idle :: real

record process =
  pr_goroutines :: nat
  pr_heap :: u64
  pr_cpu :: cpu_samples
  pr_m :: M
  pr_mgr :: Manager

definition cpuSeconds :: "cpu_samples \<Rightarrow> real \<times> real" where
  "cpuSeconds c = (if \<not> cs_floats c then (0, 0) else (cs_total c - cs_idle c, cs_total c))"

definition registerRuntimeGauges :: "process Registry \<Rightarrow> process Registry" where
  "registerRuntimeGauges r =
     (let r1 = NewGaugeFunc ''voicestream_goroutines'' ''Current goroutine count.'' (\<lambda>p. real (pr_goroutines p)) r;
          r2 = NewGaugeFunc ''voicestream_heap_alloc_bytes'' ''Bytes of allocated heap objects.''
                 (\<lambda>p. real (unat (pr_heap p))) r1;
          r3 = NewCounterFunc ''voicestream_cpu_busy_seconds_total''
                 ''Estimated CPU seconds spent non-idle (runtime/metrics: total - idle).''
                 (\<lambda>p. fst (cpuSeconds (pr_cpu p))) r2 in
      NewCounterFunc ''voicestream_cpu_capacity_seconds_total''
        ''CPU seconds available to the process (GOMAXPROCS x wall).'' (\<lambda>p. snd (cpuSeconds (pr_cpu p))) r3)"

text \<open>\<open>New\<close>: the counters and histograms are the fields of \<open>M\<close>.\<close>

definition M_registry :: "process Registry" where
  "M_registry =
     (let r0 = registerRuntimeGauges NewRegistry;
          r1 = NewCounter ''voicestream_turns_completed_total'' ''Turns that ran to natural completion.''
                 (\<lambda>p. m_TurnsCompleted (pr_m p)) r0;
          r2 = NewCounter ''voicestream_turns_cancelled_total'' ''Turns cancelled by barge-in or supersession.''
                 (\<lambda>p. m_TurnsCancelled (pr_m p)) r1;
          r3 = NewHistogramR ''voicestream_first_response_seconds'' ''Utterance end to first downlink audio frame.''
                 (\<lambda>p. m_FirstResponse (pr_m p)) r2;
          r4 = NewHistogramR ''voicestream_kernel_overhead_seconds'' ''First-response latency minus model-inherent spans.''
                 (\<lambda>p. m_KernelOverhead (pr_m p)) r3;
          r5 = NewHistogramR ''voicestream_stage_asr_final_seconds'' ''Utterance end to final transcript.''
                 (\<lambda>p. m_StageASRFinal (pr_m p)) r4;
          r6 = NewHistogramR ''voicestream_stage_queue_wait_seconds''
                 ''Final transcript produced to turn pickup (orchestrator queue).'' (\<lambda>p. m_StageQueueWait (pr_m p)) r5;
          r7 = NewHistogramR ''voicestream_stage_llm_first_token_seconds'' ''LLM stream open to first token.''
                 (\<lambda>p. m_StageLLMFirst (pr_m p)) r6;
          r8 = NewHistogramR ''voicestream_stage_tts_first_frame_seconds''
                 ''First token into TTS to first synthesized frame.'' (\<lambda>p. m_StageTTSFirst (pr_m p)) r7 in
      NewHistogramR ''voicestream_barge_in_cancel_seconds''
        ''Barge-in cancel request to sub-chain torn down and egress flushed.'' (\<lambda>p. m_BargeInCancel (pr_m p)) r8)"

definition mgr_sum :: "(M \<Rightarrow> u64) \<Rightarrow> (Session \<Rightarrow> u64) \<Rightarrow> process \<Rightarrow> real" where
  "mgr_sum acc live p = real (unat (gauge acc live (pr_mgr p)))"

definition registerGauges :: "process Registry \<Rightarrow> process Registry" where
  "registerGauges r =
     (let r1 = NewGaugeFunc ''voicestream_sessions_active'' ''Live sessions.'' (\<lambda>p. real (Count (pr_mgr p))) r;
          r2 = NewGaugeFunc ''voicestream_sessions_created_total'' ''Sessions ever created.''
                 (\<lambda>p. real (unat (mg_sessionsCreated (pr_mgr p)))) r1;
          r3 = NewGaugeFunc ''voicestream_sessions_reclaimed_total'' ''Sessions reclaimed.''
                 (\<lambda>p. real (unat (mg_sessionsReclaimed (pr_mgr p)))) r2;
          r4 = NewGaugeFunc ''voicestream_stale_epoch_claims_total'' ''Rejected stale reconnect claims.''
                 (\<lambda>p. real (unat (mg_staleEpochClaims (pr_mgr p)))) r3;
          r5 = NewGaugeFunc ''voicestream_ingress_dropped_frames_total'' ''Uplink frames shed by the ingress ring.''
                 (mgr_sum m_AccIngressDropped (\<lambda>s. IngressDropped (ss_pipe s))) r4;
          r6 = NewGaugeFunc ''voicestream_egress_dropped_frames_total'' ''Downlink frames shed by the egress ring.''
                 (mgr_sum m_AccEgressDropped (\<lambda>s. EgressDropped (ss_pipe s))) r5;
          r7 = NewGaugeFunc ''voicestream_dup_frames_total'' ''Replayed uplink frames dropped by dedup.''
                 (mgr_sum m_AccDupFrames ss_dupFrames) r6;
          r8 = NewGaugeFunc ''voicestream_stale_frames_total'' ''Frames from superseded attachments dropped.''
                 (mgr_sum m_AccStaleFrames ss_staleFrames) r7;
          r9 = NewGaugeFunc ''voicestream_subtitle_dropped_total'' ''TEXT/CONTROL frames shed under slow clients.''
                 (mgr_sum m_AccSubtitleDrops ss_subtitleDrops) r8 in
      NewGaugeFunc ''voicestream_illegal_transitions_total'' ''State-machine events rejected as illegal.''
        (mgr_sum m_AccIllegalEvents Session_IllegalEvents) r9)"

definition process_registry :: "process Registry" where
  "process_registry = registerGauges M_registry"

lemmas registry_defs = process_registry_def registerGauges_def M_registry_def registerRuntimeGauges_def
  NewRegistry_def NewCounter_def NewHistogramR_def NewGaugeFunc_def NewCounterFunc_def

lemma process_registry_ok: "registry_ok process_registry"
  unfolding registry_ok_def registry_defs Let_def
  by code_simp

section \<open>The numbers it shows have decimals\<close>

lemma decimal_ratio: "k < 400 \<Longrightarrow> decimal_places \<bar>real_of_int z / 10 ^ k\<bar> \<noteq> None"
proof -
  assume k: "k < 400"
  have "\<bar>real_of_int z / 10 ^ k\<bar> * 10 ^ k = real_of_int \<bar>z\<bar>" by (simp add: abs_divide)
  then have "is_whole (\<bar>real_of_int z / 10 ^ k\<bar> * 10 ^ k)" by (simp only: is_whole_def floor_of_int)
  with k show ?thesis by (auto simp: decimal_places_def find_None_iff)
qed

definition nano_sum :: "real list \<Rightarrow> Histogram \<Rightarrow> bool" where
  "nano_sum bs h \<longleftrightarrow> hg_bounds h = bs \<and> (\<exists>z. hg_sum h = real_of_int z / 10 ^ 9)"

lemma nano_sum_New: "nano_sum bs (NewHistogram bs)"
  by (auto simp: nano_sum_def NewHistogram_def intro: exI [of _ 0])

lemma nano_sum_Observe: "nano_sum bs h \<Longrightarrow> nano_sum bs (Histogram_Observe h (Seconds d))"
proof -
  assume "nano_sum bs h"
  then obtain z where h: "hg_bounds h = bs" "hg_sum h = real_of_int z / 10 ^ 9" by (auto simp: nano_sum_def)
  have "real_of_int z / 10 ^ 9 + Seconds d = real_of_int (z + d) / 10 ^ 9" by (simp add: Seconds_def add_divide_distrib)
  with h have "hg_bounds (Histogram_Observe h (Seconds d)) = bs \<and>
      hg_sum (Histogram_Observe h (Seconds d)) = real_of_int (if Seconds d < 0 then z else z + d) / 10 ^ 9"
    by (simp add: Histogram_Observe_def Let_def)
  then show ?thesis unfolding nano_sum_def by blast
qed

text \<open>The instruments of the kernel after some turns have been recorded, whatever the manager has accumulated.\<close>

definition recorded :: "(string \<times> TurnStats) list \<Rightarrow> M \<Rightarrow> bool" where
  "recorded ts m \<longleftrightarrow> (let m0 = record_all ts M_New in
     m_TurnsCompleted m = m_TurnsCompleted m0 \<and> m_TurnsCancelled m = m_TurnsCancelled m0 \<and>
     m_FirstResponse m = m_FirstResponse m0 \<and> m_KernelOverhead m = m_KernelOverhead m0 \<and>
     m_StageASRFinal m = m_StageASRFinal m0 \<and> m_StageQueueWait m = m_StageQueueWait m0 \<and>
     m_StageLLMFirst m = m_StageLLMFirst m0 \<and> m_StageTTSFirst m = m_StageTTSFirst m0 \<and>
     m_BargeInCancel m = m_BargeInCancel m0)"

definition M_nano :: "M \<Rightarrow> bool" where
  "M_nano m \<longleftrightarrow> nano_sum latencyBuckets (m_FirstResponse m) \<and> nano_sum latencyBuckets (m_KernelOverhead m) \<and>
     nano_sum latencyBuckets (m_StageASRFinal m) \<and> nano_sum latencyBuckets (m_StageQueueWait m) \<and>
     nano_sum latencyBuckets (m_StageLLMFirst m) \<and> nano_sum latencyBuckets (m_StageTTSFirst m) \<and>
     nano_sum cancelBuckets (m_BargeInCancel m)"

lemma M_nano_record: "M_nano m \<Longrightarrow> M_nano (RecordTurn sid t m)"
  by (simp add: M_nano_def RecordTurn_def Let_def nano_sum_Observe)

lemma M_nano_record_all: "M_nano (record_all ts M_New)"
proof (induction ts rule: rev_induct)
  case Nil
  then show ?case by (simp add: record_all_def M_nano_def M_New_def nano_sum_New)
next
  case (snoc x ts)
  then show ?case by (cases x) (simp add: record_all_snoc M_nano_record)
qed

lemma recorded_nano: "recorded ts m \<Longrightarrow> M_nano m"
  using M_nano_record_all [of ts] by (simp add: recorded_def M_nano_def Let_def)

lemma bucket_decimals:
  "\<forall>b \<in> set latencyBuckets \<union> set cancelBuckets. decimal_places \<bar>b\<bar> \<noteq> None"
proof
  fix b assume "b \<in> set latencyBuckets \<union> set cancelBuckets"
  then have "b \<in> {real_of_int 5 / 10 ^ 3, real_of_int 10 / 10 ^ 3, real_of_int 25 / 10 ^ 3, real_of_int 50 / 10 ^ 3,
      real_of_int 100 / 10 ^ 3, real_of_int 200 / 10 ^ 3, real_of_int 500 / 10 ^ 3, real_of_int 1000 / 10 ^ 3,
      real_of_int 2000 / 10 ^ 3, real_of_int 5000 / 10 ^ 3, real_of_int 1 / 10 ^ 3, real_of_int 2 / 10 ^ 3}"
    by (auto simp: latencyBuckets_def cancelBuckets_def)
  then obtain z where "b = real_of_int z / 10 ^ 3" by blast
  then show "decimal_places \<bar>b\<bar> \<noteq> None" by (simp only:) (rule decimal_ratio, simp)
qed

lemma nano_shows:
  "nano_sum bs h \<Longrightarrow> bs = latencyBuckets \<or> bs = cancelBuckets \<Longrightarrow>
     (\<forall>b \<in> set (hg_bounds h). decimal_places \<bar>b\<bar> \<noteq> None) \<and> decimal_places \<bar>hg_sum h\<bar> \<noteq> None \<and> distinct (hg_bounds h)"
proof -
  assume n: "nano_sum bs h" and bs: "bs = latencyBuckets \<or> bs = cancelBuckets"
  from n obtain z where "hg_bounds h = bs" and z: "hg_sum h = real_of_int z / 10 ^ 9" by (auto simp: nano_sum_def)
  moreover have "decimal_places \<bar>hg_sum h\<bar> \<noteq> None" unfolding z by (rule decimal_ratio) simp
  moreover have "distinct bs" using bs by (auto simp: latencyBuckets_def cancelBuckets_def)
  ultimately show ?thesis using bucket_decimals bs by auto
qed

definition cpu_decimal :: "cpu_samples \<Rightarrow> bool" where
  "cpu_decimal c \<longleftrightarrow> decimal_places \<bar>fst (cpuSeconds c)\<bar> \<noteq> None \<and> decimal_places \<bar>snd (cpuSeconds c)\<bar> \<noteq> None"

lemma decimal_real_nat: "\<exists>y. decimal_places (real n) = Some y"
  using decimal_nat [of n] by auto

lemma process_shows:
  assumes "M_nano (pr_m p)" "cpu_decimal (pr_cpu p)"
  shows "list_all (shows_decimals p) process_registry" "list_all (ascending p) process_registry"
  using assms unfolding registry_defs M_nano_def cpu_decimal_def Let_def
  by (auto simp: mgr_sum_def decimal_real_nat simp del: of_nat_unat
      dest!: nano_shows [OF _ disjI1 [OF refl]] nano_shows [OF _ disjI2 [OF refl]])

section \<open>A scrape of the process\<close>

definition scraped :: "process \<Rightarrow> snapshot" where
  "scraped p = \<lparr>sn_scalars = concat (map (scalars_of p) process_registry),
     sn_hists = concat (map (hists_of p) process_registry)\<rparr>"

lemma process_scrape:
  assumes "recorded ts (pr_m p)" "cpu_decimal (pr_cpu p)"
  shows "scrape_lines (Registry_Handler process_registry p) empty_snapshot = Some (scraped p)"
  unfolding scraped_def using registry_read [OF process_registry_ok process_shows [OF recorded_nano [OF assms(1)] assms(2)]] .

lemma scalar_lookup:
  assumes "i \<in> set r" "(k, v) \<in> set (scalars_of s i)" "registry_ok r"
  shows "read_map (concat (map (scalars_of s) r)) k = v"
proof -
  have "distinct (map fst (concat (map (scalars_of s) r)))"
    using assms(3) by (simp add: registry_ok_def map_concat comp_def)
  moreover have "(k, v) \<in> set (concat (map (scalars_of s) r))" using assms(1,2) by auto
  ultimately show ?thesis by (simp add: read_map_def)
qed

lemma hist_lookup:
  assumes "HistogramI k hlp h \<in> set r" "registry_ok r"
  shows "map_of (concat (map (hists_of s) r)) k = Some (exposed (Histogram_render (h s)))"
proof -
  have "distinct (map fst (concat (map (hists_of s) r)))"
    using assms(2) by (simp add: registry_ok_def map_concat comp_def)
  moreover have "(k, exposed (Histogram_render (h s))) \<in> set (concat (map (hists_of s) r))" using assms(1) by force
  ultimately show ?thesis by (rule map_of_is_SomeI)
qed

lemma process_members:
  "CounterI ''voicestream_turns_completed_total'' ''Turns that ran to natural completion.'' (\<lambda>p. m_TurnsCompleted (pr_m p))
     \<in> set process_registry"
  "CounterI ''voicestream_turns_cancelled_total'' ''Turns cancelled by barge-in or supersession.''
     (\<lambda>p. m_TurnsCancelled (pr_m p)) \<in> set process_registry"
  "HistogramI ''voicestream_first_response_seconds'' ''Utterance end to first downlink audio frame.''
     (\<lambda>p. m_FirstResponse (pr_m p)) \<in> set process_registry"
  "FuncI ''voicestream_sessions_active'' ''Live sessions.'' ''gauge'' (\<lambda>p. real (Count (pr_mgr p))) \<in> set process_registry"
  "FuncI ''voicestream_ingress_dropped_frames_total'' ''Uplink frames shed by the ingress ring.'' ''gauge''
     (mgr_sum m_AccIngressDropped (\<lambda>s. IngressDropped (ss_pipe s))) \<in> set process_registry"
  "FuncI ''voicestream_egress_dropped_frames_total'' ''Downlink frames shed by the egress ring.'' ''gauge''
     (mgr_sum m_AccEgressDropped (\<lambda>s. EgressDropped (ss_pipe s))) \<in> set process_registry"
  "FuncI ''voicestream_cpu_busy_seconds_total'' ''Estimated CPU seconds spent non-idle (runtime/metrics: total - idle).''
     ''counter'' (\<lambda>p. fst (cpuSeconds (pr_cpu p))) \<in> set process_registry"
  "FuncI ''voicestream_cpu_capacity_seconds_total'' ''CPU seconds available to the process (GOMAXPROCS x wall).''
     ''counter'' (\<lambda>p. snd (cpuSeconds (pr_cpu p))) \<in> set process_registry"
  "FuncI ''voicestream_goroutines'' ''Current goroutine count.'' ''gauge'' (\<lambda>p. real (pr_goroutines p)) \<in> set process_registry"
  "FuncI ''voicestream_heap_alloc_bytes'' ''Bytes of allocated heap objects.'' ''gauge'' (\<lambda>p. real (unat (pr_heap p)))
     \<in> set process_registry"
  unfolding registry_defs Let_def append.simps list.set insert_iff by simp_all

lemma scraped_scalars:
  "read_map (sn_scalars (scraped p)) ''voicestream_turns_completed_total'' = real (unat (m_TurnsCompleted (pr_m p)))"
  "read_map (sn_scalars (scraped p)) ''voicestream_turns_cancelled_total'' = real (unat (m_TurnsCancelled (pr_m p)))"
  "read_map (sn_scalars (scraped p)) ''voicestream_sessions_active'' = real (Count (pr_mgr p))"
  "read_map (sn_scalars (scraped p)) ''voicestream_ingress_dropped_frames_total'' =
     real (unat (gauge m_AccIngressDropped (\<lambda>s. IngressDropped (ss_pipe s)) (pr_mgr p)))"
  "read_map (sn_scalars (scraped p)) ''voicestream_egress_dropped_frames_total'' =
     real (unat (gauge m_AccEgressDropped (\<lambda>s. EgressDropped (ss_pipe s)) (pr_mgr p)))"
  "read_map (sn_scalars (scraped p)) ''voicestream_cpu_busy_seconds_total'' = fst (cpuSeconds (pr_cpu p))"
  "read_map (sn_scalars (scraped p)) ''voicestream_cpu_capacity_seconds_total'' = snd (cpuSeconds (pr_cpu p))"
  "read_map (sn_scalars (scraped p)) ''voicestream_goroutines'' = real (pr_goroutines p)"
  "read_map (sn_scalars (scraped p)) ''voicestream_heap_alloc_bytes'' = real (unat (pr_heap p))"
proof -
  note l = scalar_lookup [OF _ _ process_registry_ok, of _ _ _ p]
  show "read_map (sn_scalars (scraped p)) ''voicestream_turns_completed_total'' = real (unat (m_TurnsCompleted (pr_m p)))"
    unfolding scraped_def snapshot.simps by (rule l [OF process_members(1)], simp del: of_nat_unat)
  show "read_map (sn_scalars (scraped p)) ''voicestream_turns_cancelled_total'' = real (unat (m_TurnsCancelled (pr_m p)))"
    unfolding scraped_def snapshot.simps by (rule l [OF process_members(2)], simp del: of_nat_unat)
  show "read_map (sn_scalars (scraped p)) ''voicestream_sessions_active'' = real (Count (pr_mgr p))"
    unfolding scraped_def snapshot.simps by (rule l [OF process_members(4)], simp)
  show "read_map (sn_scalars (scraped p)) ''voicestream_ingress_dropped_frames_total'' =
      real (unat (gauge m_AccIngressDropped (\<lambda>s. IngressDropped (ss_pipe s)) (pr_mgr p)))"
    unfolding scraped_def snapshot.simps by (rule l [OF process_members(5)], simp add: mgr_sum_def del: of_nat_unat)
  show "read_map (sn_scalars (scraped p)) ''voicestream_egress_dropped_frames_total'' =
      real (unat (gauge m_AccEgressDropped (\<lambda>s. EgressDropped (ss_pipe s)) (pr_mgr p)))"
    unfolding scraped_def snapshot.simps by (rule l [OF process_members(6)], simp add: mgr_sum_def del: of_nat_unat)
  show "read_map (sn_scalars (scraped p)) ''voicestream_cpu_busy_seconds_total'' = fst (cpuSeconds (pr_cpu p))"
    unfolding scraped_def snapshot.simps by (rule l [OF process_members(7)], simp)
  show "read_map (sn_scalars (scraped p)) ''voicestream_cpu_capacity_seconds_total'' = snd (cpuSeconds (pr_cpu p))"
    unfolding scraped_def snapshot.simps by (rule l [OF process_members(8)], simp)
  show "read_map (sn_scalars (scraped p)) ''voicestream_goroutines'' = real (pr_goroutines p)"
    unfolding scraped_def snapshot.simps by (rule l [OF process_members(9)], simp)
  show "read_map (sn_scalars (scraped p)) ''voicestream_heap_alloc_bytes'' = real (unat (pr_heap p))"
    unfolding scraped_def snapshot.simps by (rule l [OF process_members(10)], simp del: of_nat_unat)
qed

lemma scraped_first_response:
  "map_of (sn_hists (scraped p)) ''voicestream_first_response_seconds'' =
    Some (exposed (Histogram_render (m_FirstResponse (pr_m p))))"
  unfolding scraped_def snapshot.simps by (rule hist_lookup [OF process_members(3) process_registry_ok])

section \<open>The record of a window\<close>

definition response_times :: "(string \<times> TurnStats) list \<Rightarrow> real list" where
  "response_times ts =
     map (\<lambda>(_, t). Seconds (FirstResponse t)) (filter (\<lambda>(_, t). ts_TTSFirstFrameAt t \<noteq> zero_time) ts)"

lemma turns_counted:
  assumes "recorded ts m" "length ts < 2 ^ 64"
  shows "real (unat (m_TurnsCompleted m)) + real (unat (m_TurnsCancelled m)) = real (length ts)"
proof -
  have "length (filter (\<lambda>(_, t). \<not> ts_Cancelled t) ts) + length (filter (\<lambda>(_, t). ts_Cancelled t) ts) = length ts"
    by (induction ts) auto
  moreover have "unat (word_of_nat (length (filter P ts)) :: u64) = length (filter P ts)" for P
    using le_less_trans [OF length_filter_le [of P ts] assms(2)] by (simp add: unat_of_nat)
  ultimately show ?thesis
    using assms(1) counters_recorded [of ts] by (simp add: recorded_def Let_def del: of_nat_unat flip: of_nat_add)
qed

lemma first_response_window:
  assumes "recorded ts0 (pr_m p0)" "recorded (ts0 @ ts1) (pr_m p1)" "length (ts0 @ ts1) < 2 ^ 64"
    and q: "0 < q" "q \<le> 1" and some: "filter (\<lambda>x. 0 \<le> x) (response_times ts1) \<noteq> []"
  defines "i \<equiv> SearchFloat64s latencyBuckets (rank_value (filter (\<lambda>x. 0 \<le> x) (response_times ts1)) q)"
  shows "\<exists>x. histQ (scraped p0) (scraped p1) ''voicestream_first_response_seconds'' q = Fin (x * 1000) \<and>
    (if i < length latencyBuckets then (if i = 0 then 0 else latencyBuckets ! (i - 1)) \<le> x \<and> x \<le> latencyBuckets ! i
     else x = 5)"
proof -
  let ?ys = "filter (\<lambda>x. 0 \<le> x) (response_times ts1)"
  have b: "sorted latencyBuckets" "distinct latencyBuckets" "latencyBuckets \<noteq> []" "0 \<le> hd latencyBuckets" "last latencyBuckets = 5"
    by (simp_all add: latencyBuckets_def)
  have nn: "0 \<le> latencyBuckets ! k" if "k < length latencyBuckets" for k
    using sorted_nth_mono [OF b(1) _ that, of 0] b(3,4) by (simp add: hd_conv_nth)
  have "length (response_times ts) \<le> length ts" for ts by (simp add: response_times_def)
  then have len: "length (filter (\<lambda>x. 0 \<le> x) (response_times ts0 @ response_times ts1)) < 2 ^ 64"
    using assms(3) length_filter_le order.strict_trans1 by (metis add_mono length_append)
  have h: "m_FirstResponse (pr_m p0) = observe_all (NewHistogram latencyBuckets) (response_times ts0)"
    "m_FirstResponse (pr_m p1) = observe_all (NewHistogram latencyBuckets) (response_times ts0 @ response_times ts1)"
    using assms(1,2) by (simp_all add: recorded_def Let_def first_response_recorded response_times_def)
  define v where "v = (case histDelta (scraped p0) (scraped p1) ''voicestream_first_response_seconds'' of (bs, cs) \<Rightarrow> histQuantile bs cs q)"
  have v: "(i < length latencyBuckets \<longrightarrow> (\<exists>x. v = Fin x \<and> (if i = 0 then 0 else latencyBuckets ! (i - 1)) \<le> x \<and> x \<le> latencyBuckets ! i)) \<and>
      (i = length latencyBuckets \<longrightarrow> v = Fin (last latencyBuckets)) \<and> i \<le> length latencyBuckets"
    unfolding v_def i_def histDelta_window [OF b(1,2) len scraped_first_response [of p0, unfolded h(1)] scraped_first_response [of p1, unfolded h(2)]] prod.case
    by (rule quantile_of_counts [OF b(1,3,4) q some])
  then obtain x where x: "v = Fin x" "0 \<le> x" and
    br: "if i < length latencyBuckets then (if i = 0 then 0 else latencyBuckets ! (i - 1)) \<le> x \<and> x \<le> latencyBuckets ! i else x = 5"
    using nn [of "i - 1"] b(5) by (cases "i < length latencyBuckets") (force split: if_splits)+
  have "histQ (scraped p0) (scraped p1) ''voicestream_first_response_seconds'' q = Fin (x * 1000)"
    using x unfolding v_def by (simp add: histQ_def case_prod_beta Let_def)
  with br show ?thesis by blast
qed

text \<open>
  C11: The record of a step is true to the server: two scrapes of a process whose kernel recorded the turns
  \<open>ts0\<close> before the window and \<open>ts1\<close> in it are read without loss, and the record built from them reports
  \<open>length ts1\<close> turns over the elapsed seconds, the uplink frames the server dropped in between per frame sent (when any was),
  the downlink frames it dropped per second, the share of the CPU time of the window it was busy (when the clock of the
  CPU has moved), the goroutines, heap and live sessions at its end, and a first-response p99 (in
  milliseconds) within the bucket of the p99 among the window's own response times.
\<close>

theorem record_of_window:
  assumes "recorded ts0 (pr_m p0)" "recorded (ts0 @ ts1) (pr_m p1)" "length (ts0 @ ts1) < 2 ^ 64"
    "cpu_decimal (pr_cpu p0)" "cpu_decimal (pr_cpu p1)" "filter (\<lambda>x. 0 \<le> x) (response_times ts1) \<noteq> []"
  shows "\<exists>s0 s1. scrape_lines (Registry_Handler process_registry p0) empty_snapshot = Some s0 \<and>
    scrape_lines (Registry_Handler process_registry p1) empty_snapshot = Some s1 \<and>
    (let rec = buildRecord n elapsed agg (Some s0) (Some s1) live;
         i = SearchFloat64s latencyBuckets (rank_value (filter (\<lambda>x. 0 \<le> x) (response_times ts1)) (99 / 100));
         dropped = (\<lambda>acc count. real (unat (gauge acc count (pr_mgr p1))) - real (unat (gauge acc count (pr_mgr p0))));
         cpu = (\<lambda>part. part (cpuSeconds (pr_cpu p1)) - part (cpuSeconds (pr_cpu p0))) in
     sr_ServerTurnRate rec = real (length ts1) / seconds_of elapsed \<and>
     sr_IngressDropRate rec = (if wa_frames agg = 0 then - 1
       else dropped m_AccIngressDropped (\<lambda>s. IngressDropped (ss_pipe s)) / real (unat (wa_frames agg))) \<and>
     sr_EgressDropPerS rec = dropped m_AccEgressDropped (\<lambda>s. EgressDropped (ss_pipe s)) / seconds_of elapsed \<and>
     sr_CPUUtil rec = (if cpu snd > 0 then cpu fst / cpu snd else - 1) \<and>
     sr_Goroutines rec = real (pr_goroutines p1) \<and> sr_HeapMB rec = real (unat (pr_heap p1)) / (1024 * 1024) \<and>
     sr_SessionsActive rec = real (Count (pr_mgr p1)) \<and>
     (\<exists>x. sr_SrvFirstP99 rec = Fin (x * 1000) \<and>
        (if i < length latencyBuckets then (if i = 0 then 0 else latencyBuckets ! (i - 1)) \<le> x \<and> x \<le> latencyBuckets ! i
         else x = 5)))"
proof -
  have "length ts0 < 2 ^ 64" using assms(3) by simp
  then have rate: "scalarDelta (scraped p0) (scraped p1) ''voicestream_turns_completed_total'' +
      scalarDelta (scraped p0) (scraped p1) ''voicestream_turns_cancelled_total'' = real (length ts1)"
    using turns_counted [OF assms(1)] turns_counted [OF assms(2,3)]
    by (simp add: scalarDelta_def scraped_scalars del: of_nat_unat)
  note p99 = first_response_window [OF assms(1,2,3) _ _ assms(6), of "99 / 100"]
  have pos: "0 < wa_frames agg \<longleftrightarrow> wa_frames agg \<noteq> 0" by (simp add: word_gt_0)
  show ?thesis
    using process_scrape [OF assms(1,4)] process_scrape [OF assms(2,5)] p99
    by (intro exI [of _ "scraped p0"] exI [of _ "scraped p1"])
      (simp add: buildRecord_def rate pos scraped_scalars scalarDelta_def [of _ _ "''voicestream_ingress_dropped_frames_total''"]
        scalarDelta_def [of _ _ "''voicestream_egress_dropped_frames_total''"]
        scalarDelta_def [of _ _ "''voicestream_cpu_busy_seconds_total''"]
        scalarDelta_def [of _ _ "''voicestream_cpu_capacity_seconds_total''"] Let_def del: of_nat_unat)
qed

definition demo_turn :: TurnStats where
  "demo_turn = \<lparr>ts_Prompt = [], ts_Reply = [], ts_UtteranceEndAt = 0, ts_ASRFinalAt = 0, ts_LLMStartAt = 0,
     ts_LLMFirstTokenAt = 0, ts_LLMLastTokenAt = 0, ts_TTSStartAt = 0, ts_TTSFirstFrameAt = 300000000,
     ts_TTSLastFrameAt = 300000000, ts_EndedAt = 300000000, ts_Cancelled = False, ts_FlushedFrames = 0,
     ts_BargeInLatency = 0\<rparr>"

definition demo_process :: "u64 \<Rightarrow> (string \<times> TurnStats) list \<Rightarrow> process" where
  "demo_process lost ts = \<lparr>pr_goroutines = 9, pr_heap = 4096, pr_cpu = \<lparr>cs_floats = False, cs_total = 0, cs_idle = 0\<rparr>,
     pr_m = record_all ts M_New, pr_mgr = NewManager (Default []) (Some ((record_all ts M_New)\<lparr>m_AccIngressDropped := lost,
       m_AccEgressDropped := 5 * lost\<rparr>))\<rparr>"

lemma demo_response_times: "response_times [(''s'', demo_turn)] = [3 / 10]"
  by (simp add: response_times_def demo_turn_def FirstResponse_def Seconds_def zero_time_def time_sub_def)

text \<open>
  One turn of 300 ms in a window of ten seconds, with two of 50 uplink frames and ten downlink frames dropped: the p99 is
  between 200 and 500 ms.
\<close>

theorem record_of_window_witness:
  "\<exists>s0 s1. scrape_lines (Registry_Handler process_registry (demo_process 1 [])) empty_snapshot = Some s0 \<and>
    scrape_lines (Registry_Handler process_registry (demo_process 3 [(''s'', demo_turn)])) empty_snapshot = Some s1 \<and>
    (let rec = buildRecord 1 10000000000 \<lparr>wa_first = [], wa_barge = [], wa_turns = 1, wa_errs = 0, wa_frames = 50\<rparr>
         (Some s0) (Some s1) 1 in
     sr_ServerTurnRate rec = 1 / 10 \<and> sr_IngressDropRate rec = 2 / 50 \<and> sr_EgressDropPerS rec = 1 \<and> sr_CPUUtil rec = - 1 \<and>
     sr_Goroutines rec = 9 \<and> sr_HeapMB rec = 1 / 256 \<and> sr_SessionsActive rec = 0 \<and> (\<exists>x. sr_SrvFirstP99 rec = Fin (x * 1000) \<and> 2 / 10 \<le> x \<and> x \<le> 5 / 10))"
proof -
  have rank: "rank_value [3 / 10] (99 / 100) = 3 / 10"
  proof -
    have "\<lceil>99 / 100 :: real\<rceil> = 1" by (rule ceiling_unique) simp_all
    then show ?thesis by (simp add: rank_value_def)
  qed
  have "k < SearchFloat64s latencyBuckets (3 / 10) \<longleftrightarrow> latencyBuckets ! k < 3 / 10" if "k < 10" for k
    using SearchFloat64s_spec(2) [OF sorted_latencyBuckets, of k "3 / 10"] that by (simp add: latencyBuckets_def)
  from this [of 5] this [of 6] have i: "SearchFloat64s latencyBuckets (3 / 10) = 6"
    by (simp add: latencyBuckets_def)
  have ok: "recorded [] (pr_m (demo_process 1 []))" "recorded ([] @ [(''s'', demo_turn)]) (pr_m (demo_process 3 [(''s'', demo_turn)]))"
    "cpu_decimal (pr_cpu (demo_process lost ts))" for lost ts
    by (simp_all add: recorded_def demo_process_def cpu_decimal_def cpuSeconds_def decimal_nat [of 0, simplified] Let_def)
  have lost: "gauge m_AccIngressDropped live (pr_mgr (demo_process k ts)) = k"
    "gauge m_AccEgressDropped live (pr_mgr (demo_process k ts)) = 5 * k"
    "cpuSeconds (pr_cpu (demo_process k ts)) = (0, 0)" for live k ts
    by (simp_all add: gauge_def demo_process_def NewManager_def cpuSeconds_def)
  have shown: "pr_goroutines (demo_process k ts) = 9" "pr_heap (demo_process k ts) = 4096" "Count (pr_mgr (demo_process k ts)) = 0" for k ts
    by (simp_all add: demo_process_def NewManager_def Count_def)
  have few: "length ([] @ [(''s'', demo_turn)]) < 2 ^ 64" "filter (\<lambda>x. 0 \<le> x) (response_times [(''s'', demo_turn)]) \<noteq> []"
    by (simp_all add: demo_response_times)
  let ?agg = "\<lparr>wa_first = [], wa_barge = [], wa_turns = 1, wa_errs = 0, wa_frames = 50\<rparr>"
  have weaken: "(\<And>x y. P x y \<Longrightarrow> Q x y) \<Longrightarrow> \<exists>x y. P x y \<Longrightarrow> \<exists>x y. Q x y" for P Q :: "snapshot \<Rightarrow> snapshot \<Rightarrow> bool" by blast
  show ?thesis
    by (rule weaken [OF _ record_of_window [OF ok(1,2) few(1) ok(3) ok(3) few(2), of 1 10000000000 ?agg 1]],
        elim conjE, intro conjI, assumption, assumption)
      (simp add: demo_response_times lost shown rank i seconds_of_def Let_def, simp add: latencyBuckets_def)
qed

end
