(* ===== verification/Loadrun.thy ===== *)
theory Loadrun
  imports Loadpace Loadreport
begin

text \<open>
  A run of the load generator (\<open>internal/loadgen/loadgen.go\<close>): its configuration and the defaults, the
  PCM frames it sends (\<open>pcmFrame\<close> of \<open>worker.go\<close>), the collector its callers report to, and the ramp. The
  logger is left out; a string list stands for nothing but its texts.
\<close>

section \<open>Configuration\<close>

record LoadConfig =
  lc_URL :: string
  lc_MetricsURL :: string
  lc_Steps :: "int list"
  lc_StepDuration :: duration
  lc_Warmup :: duration
  lc_FrameInterval :: duration
  lc_FrameDuration :: duration
  lc_SampleRate :: int
  lc_SpeechFrames :: int
  lc_BargeEvery :: int
  lc_BargeDelay :: duration
  lc_QuietGap :: duration
  lc_TurnTimeout :: duration
  lc_Netem :: Netem
  lc_speechPCM :: "u8 list"
  lc_silencePCM :: "u8 list"

text \<open>\<open>uint16(int16(amplitude * 32767))\<close> drops the fraction.\<close>

definition pcm_word :: "real \<Rightarrow> u16" where
  "pcm_word amplitude =
     (let x = amplitude * 32767 in word_of_int (if x \<ge> 0 then \<lfloor>x\<rfloor> else \<lceil>x\<rceil>))"

text \<open>\<open>None\<close>: \<open>make\<close> panics on a negative size.\<close>

definition pcmFrame :: "int \<Rightarrow> real \<Rightarrow> u8 list option" where
  "pcmFrame samples amplitude =
     (if wrap_int (samples * 2) < 0 then None
      else let v = pcm_word amplitude in
        Some (concat (replicate (nat samples) [ucast v, ucast (drop_bit 8 v)])))"

datatype load_error = NoURL | BadSteps "int list"

fun bad_steps :: "int option \<Rightarrow> int list \<Rightarrow> bool" where
  "bad_steps prev [] = False"
| "bad_steps prev (n # ns) = (n \<le> 0 \<or> (case prev of None \<Rightarrow> False | Some p \<Rightarrow> n < p) \<or> bad_steps (Some n) ns)"

definition dflt :: "duration \<Rightarrow> duration \<Rightarrow> duration" where
  "dflt d v = (if d \<le> 0 then v else d)"

text \<open>\<open>normalize\<close>; the outer \<open>None\<close> is a panic.\<close>

definition normalize :: "LoadConfig \<Rightarrow> (load_error + LoadConfig) option" where
  "normalize c =
     (if lc_URL c = [] then Some (Inl NoURL)
      else let steps = (if lc_Steps c = [] then [1, 5, 10, 20, 40, 80] else lc_Steps c) in
        if bad_steps None steps then Some (Inl (BadSteps steps))
        else let fd = dflt (lc_FrameDuration c) (20 * Millisecond);
                 rate = (if lc_SampleRate c \<le> 0 then 16000 else lc_SampleRate c);
                 samples = wrap_int (rate * fd) sdiv Second in
          case (pcmFrame samples (1 / 2), pcmFrame samples 0) of
            (Some sp, Some sil) \<Rightarrow>
              Some (Inr (c\<lparr>lc_Steps := steps,
                lc_StepDuration := dflt (lc_StepDuration c) (10 * Second),
                lc_Warmup := dflt (lc_Warmup c) (2 * Second),
                lc_FrameInterval := dflt (lc_FrameInterval c) (20 * Millisecond),
                lc_FrameDuration := fd,
                lc_BargeDelay := dflt (lc_BargeDelay c) (150 * Millisecond),
                lc_QuietGap := dflt (lc_QuietGap c) (350 * Millisecond),
                lc_TurnTimeout := dflt (lc_TurnTimeout c) (10 * Second),
                lc_SampleRate := rate,
                lc_SpeechFrames := (if lc_SpeechFrames c \<le> 0 then 30 else lc_SpeechFrames c),
                lc_speechPCM := sp, lc_silencePCM := sil\<rparr>))
          | _ \<Rightarrow> None)"

definition frameNominalUs :: "LoadConfig \<Rightarrow> int" where
  "frameNominalUs c = lc_FrameDuration c sdiv 1000"

definition rampStagger :: "LoadConfig \<Rightarrow> duration" where
  "rampStagger c = (if lc_Warmup c < 100 * Millisecond then lc_Warmup c sdiv 2 + Millisecond else lc_Warmup c)"

section \<open>The collector\<close>

record collector =
  co_framesSent :: u64
  co_live :: int
  co_measuring :: bool
  co_first :: "real list"
  co_barge :: "real list"
  co_turns :: int
  co_errs :: int

definition newCollector :: collector where
  "newCollector = \<lparr>co_framesSent = 0, co_live = 0, co_measuring = False, co_first = [], co_barge = [], co_turns = 0, co_errs = 0\<rparr>"

definition workerSpawn :: "collector \<Rightarrow> collector" where
  "workerSpawn c = c\<lparr>co_live := co_live c + 1\<rparr>"

definition workerExit :: "collector \<Rightarrow> collector" where
  "workerExit c = c\<lparr>co_live := co_live c - 1\<rparr>"

definition frame_sent :: "collector \<Rightarrow> collector" where
  "frame_sent c = c\<lparr>co_framesSent := co_framesSent c + 1\<rparr>"

datatype sampleKind = sampleFirst | sampleBarge

definition sample :: "sampleKind \<Rightarrow> duration \<Rightarrow> collector \<Rightarrow> collector" where
  "sample k d c =
     (if \<not> co_measuring c then c
      else case k of
        sampleFirst \<Rightarrow> c\<lparr>co_first := co_first c @ [seconds_of d]\<rparr>
      | sampleBarge \<Rightarrow> c\<lparr>co_barge := co_barge c @ [seconds_of d]\<rparr>)"

definition turnDone :: "collector \<Rightarrow> collector" where
  "turnDone c = (if co_measuring c then c\<lparr>co_turns := co_turns c + 1\<rparr> else c)"

definition collector_fail :: "collector \<Rightarrow> collector" where
  "collector_fail c = (if co_measuring c then c\<lparr>co_errs := co_errs c + 1\<rparr> else c)"

definition beginWindow :: "collector \<Rightarrow> collector \<times> u64" where
  "beginWindow c =
     (c\<lparr>co_first := [], co_barge := [], co_turns := 0, co_errs := 0, co_measuring := True\<rparr>, co_framesSent c)"

definition endWindow :: "u64 \<Rightarrow> collector \<Rightarrow> collector \<times> windowAgg" where
  "endWindow mark c =
     (c\<lparr>co_measuring := False\<rparr>,
      \<lparr>wa_first = co_first c, wa_barge = co_barge c, wa_turns = co_turns c, wa_errs = co_errs c,
       wa_frames = co_framesSent c - mark\<rparr>)"

section \<open>The ramp\<close>

text \<open>What the callers' goroutines do to the collector.\<close>

datatype coll_event = EvFrame | EvSample sampleKind duration | EvTurn | EvFail | EvExit

fun coll_step :: "coll_event \<Rightarrow> collector \<Rightarrow> collector" where
  "coll_step EvFrame c = frame_sent c"
| "coll_step (EvSample k d) c = sample k d c"
| "coll_step EvTurn c = turnDone c"
| "coll_step EvFail c = collector_fail c"
| "coll_step EvExit c = workerExit c"

definition coll_run :: "coll_event list \<Rightarrow> collector \<Rightarrow> collector" where
  "coll_run es c = foldl (\<lambda>c e. coll_step e c) c es"

datatype scrape_error = ScrapeFailed

text \<open>What happens around \<open>Run\<close> in one step: whether the context is done when the step begins, the callers'
  doings until the window opens, in it and until the record is built, whether the sleeps complete, the
  measured time and the results of the scrapes.\<close>

record step_in =
  si_done :: bool
  si_before :: "coll_event list"
  si_warm :: bool
  si_s0 :: "scrape_error + snapshot"
  si_window :: "coll_event list"
  si_full :: bool
  si_elapsed :: duration
  si_s1 :: "scrape_error + snapshot"
  si_after :: "coll_event list"

datatype run_error = PreScrape scrape_error | PostScrape scrape_error
datatype step_result = StepBreak | StepError run_error | StepRecord_of StepRecord

definition spawn :: "int \<Rightarrow> int \<Rightarrow> collector \<Rightarrow> int \<times> collector" where
  "spawn n spawned c = (max spawned n, (workerSpawn ^^ nat (n - spawned)) c)"

definition run_scrape :: "LoadConfig \<Rightarrow> scrape_error + snapshot \<Rightarrow> scrape_error + snapshot option" where
  "run_scrape cfg r = (if lc_MetricsURL cfg = [] then Inr None else map_sum id Some r)"

definition run_step :: "LoadConfig \<Rightarrow> int \<Rightarrow> step_in \<Rightarrow> int \<Rightarrow> collector \<Rightarrow> int \<times> collector \<times> step_result" where
  "run_step cfg n si spawned col =
     (if si_done si then (spawned, col, StepBreak)
      else case spawn n spawned col of (spawned1, col1) \<Rightarrow>
        let col2 = coll_run (si_before si) col1 in
        if \<not> si_warm si then (spawned1, col2, StepBreak)
        else case run_scrape cfg (si_s0 si) of
          Inl e \<Rightarrow> (spawned1, col2, StepError (PreScrape e))
        | Inr s0 \<Rightarrow>
            case beginWindow col2 of (col3, mark) \<Rightarrow>
            case endWindow mark (coll_run (si_window si) col3) of (col4, agg) \<Rightarrow>
            if \<not> si_full si then (spawned1, col4, StepBreak)
            else case run_scrape cfg (si_s1 si) of
              Inl e \<Rightarrow> (spawned1, col4, StepError (PostScrape e))
            | Inr s1 \<Rightarrow>
                let col5 = coll_run (si_after si) col4 in
                (spawned1, col5, StepRecord_of (buildRecord n (si_elapsed si) agg s0 s1 (co_live col5))))"

fun run_steps :: "LoadConfig \<Rightarrow> (int \<times> step_in) list \<Rightarrow> int \<Rightarrow> collector \<Rightarrow> run_error + StepRecord list" where
  "run_steps cfg [] spawned col = Inr []"
| "run_steps cfg ((n, si) # steps) spawned col =
     (case run_step cfg n si spawned col of
        (_, _, StepBreak) \<Rightarrow> Inr []
      | (_, _, StepError e) \<Rightarrow> Inl e
      | (spawned1, col1, StepRecord_of r) \<Rightarrow> map_sum id (\<lambda>rs. r # rs) (run_steps cfg steps spawned1 col1))"

text \<open>\<open>Run\<close> on a normalised configuration; \<open>sis\<close> has an entry for every step.\<close>

definition Run :: "LoadConfig \<Rightarrow> step_in list \<Rightarrow> run_error + StepRecord list \<times> Analysis" where
  "Run cfg sis = map_sum id (\<lambda>recs. (recs, Analyze recs)) (run_steps cfg (zip (lc_Steps cfg) sis) 0 newCollector)"

section \<open>What the configuration becomes\<close>

lemma dflt_pos: "0 < v \<Longrightarrow> 0 < dflt d v"
  by (simp add: dflt_def)

lemma bad_steps_iff:
  "\<not> bad_steps prev ns \<longleftrightarrow> (\<forall>n \<in> set ns. 0 < n) \<and> sorted (case prev of None \<Rightarrow> ns | Some p \<Rightarrow> p # ns)"
proof (induction ns arbitrary: prev)
  case (Cons n ns)
  from Cons [of "Some n"] show ?case by (cases prev) (auto simp: not_less not_le intro: order_trans)
qed (simp split: option.splits)

lemma length_pcmFrame:
  assumes "pcmFrame samples amp = Some bs" "- (2 ^ 62) \<le> samples" "samples < 2 ^ 62"
  shows "0 \<le> samples \<and> length bs = 2 * nat samples"
proof -
  have w: "wrap_int (samples * 2) = samples * 2" using assms(2,3) by (intro wrap_int_id) auto
  have len: "length (concat (replicate k [x, y])) = 2 * k" for k and x y :: u8 by (induction k) auto
  from assms(1) show ?thesis by (auto simp: pcmFrame_def w Let_def len split: if_splits)
qed

lemma pcmFrame_Some:
  assumes "0 \<le> samples" "samples < 2 ^ 62"
  shows "\<exists>bs. pcmFrame samples amp = Some bs \<and> length bs = 2 * nat samples"
proof -
  have "wrap_int (samples * 2) = samples * 2" using assms by (intro wrap_int_id) auto
  then have "pcmFrame samples amp \<noteq> None" using assms(1) by (simp add: pcmFrame_def Let_def)
  then show ?thesis using length_pcmFrame [of samples amp] assms by auto
qed

definition steps_of :: "LoadConfig \<Rightarrow> int list" where
  "steps_of c = (if lc_Steps c = [] then [1, 5, 10, 20, 40, 80] else lc_Steps c)"

definition rate_of :: "LoadConfig \<Rightarrow> int" where
  "rate_of c = (if lc_SampleRate c \<le> 0 then 16000 else lc_SampleRate c)"

definition samples_of :: "LoadConfig \<Rightarrow> int" where
  "samples_of c = rate_of c * dflt (lc_FrameDuration c) (20 * Millisecond) div Second"

lemma samples_exact:
  assumes "rate_of c * dflt (lc_FrameDuration c) (20 * Millisecond) < 2 ^ 63"
  shows "wrap_int (rate_of c * dflt (lc_FrameDuration c) (20 * Millisecond)) sdiv Second = samples_of c"
    "0 \<le> samples_of c" "samples_of c < 2 ^ 62"
proof -
  let ?x = "rate_of c * dflt (lc_FrameDuration c) (20 * Millisecond)"
  have x: "0 \<le> ?x" by (simp add: rate_of_def dflt_def)
  then have "wrap_int ?x = ?x" using assms by (intro wrap_int_id) simp_all
  then show "wrap_int ?x sdiv Second = samples_of c" using x by (simp add: samples_of_def sdiv_pos_eq)
  show "0 \<le> samples_of c" unfolding samples_of_def using x by (rule pos_imp_zdiv_nonneg_iff [THEN iffD2, rotated]) simp
  have "?x div Second \<le> ?x div 2" using x by (intro zdiv_mono2) simp_all
  moreover have "y < 2 ^ 63 \<Longrightarrow> y div 2 < 2 ^ 62" for y :: int by simp
  from this [OF assms] have "?x div 2 < 2 ^ 62" .
  ultimately show "samples_of c < 2 ^ 62" by (simp add: samples_of_def)
qed

text \<open>
  What a configuration becomes: without a URL, or with steps that are not positive and ascending, it is
  refused, in this order; otherwise, unless sample rate times frame duration overflows, it is accepted
  with every step, duration, rate and count positive, frames of two bytes a sample, and a ramp
  stagger a caller can draw from.
\<close>

theorem normalize_outcome:
  "case normalize c of
     Some (Inl NoURL) \<Rightarrow> lc_URL c = []
   | Some (Inl (BadSteps ns)) \<Rightarrow>
       lc_URL c \<noteq> [] \<and> ns = lc_Steps c \<and> \<not> ((\<forall>n \<in> set ns. 0 < n) \<and> sorted ns)
   | None \<Rightarrow> 2 ^ 63 \<le> rate_of c * dflt (lc_FrameDuration c) (20 * Millisecond)
   | Some (Inr c') \<Rightarrow>
       lc_URL c \<noteq> [] \<and> lc_Steps c' = steps_of c \<and> lc_Steps c' \<noteq> [] \<and> (\<forall>n \<in> set (lc_Steps c'). 0 < n) \<and>
       sorted (lc_Steps c') \<and> 0 < lc_StepDuration c' \<and> 0 < lc_Warmup c' \<and> 0 < lc_FrameInterval c' \<and>
       0 < lc_FrameDuration c' \<and> 0 < lc_BargeDelay c' \<and> 0 < lc_QuietGap c' \<and> 0 < lc_TurnTimeout c' \<and>
       0 < lc_SampleRate c' \<and> 0 < lc_SpeechFrames c' \<and> 0 < rampStagger c' \<and>
       (rate_of c * dflt (lc_FrameDuration c) (20 * Millisecond) < 2 ^ 63 \<longrightarrow>
          length (lc_speechPCM c') = 2 * nat (samples_of c) \<and> length (lc_silencePCM c') = 2 * nat (samples_of c))"
proof -
  let ?x = "rate_of c * dflt (lc_FrameDuration c) (20 * Millisecond)"
  let ?samples = "wrap_int ?x sdiv Second"
  have bad: "bad_steps None (steps_of c) \<longleftrightarrow> lc_Steps c \<noteq> [] \<and> \<not> ((\<forall>n \<in> set (lc_Steps c). 0 < n) \<and> sorted (lc_Steps c))"
    using bad_steps_iff [of None "lc_Steps c"] by (auto simp: steps_of_def)
  have good: "steps_of c \<noteq> []" "\<not> bad_steps None (steps_of c) \<Longrightarrow> (\<forall>n \<in> set (steps_of c). 0 < n) \<and> sorted (steps_of c)"
    using bad_steps_iff [of None "steps_of c"] by (auto simp: steps_of_def)
  have stagger: "0 < rampStagger c'" if "0 < lc_Warmup c'" for c' :: LoadConfig
    using that by (auto simp: rampStagger_def sdiv_pos_eq intro: add_nonneg_pos)
  have fits: "\<exists>bs. pcmFrame ?samples amp = Some bs \<and> length bs = 2 * nat (samples_of c)" if "?x < 2 ^ 63" for amp
    using pcmFrame_Some [OF samples_exact(2,3) [OF that]] unfolding samples_exact(1) [OF that] .
  have norm: "normalize c = (if lc_URL c = [] then Some (Inl NoURL)
      else if bad_steps None (steps_of c) then Some (Inl (BadSteps (steps_of c)))
      else case (pcmFrame ?samples (1 / 2), pcmFrame ?samples 0) of
            (Some sp, Some sil) \<Rightarrow>
              Some (Inr (c\<lparr>lc_Steps := steps_of c,
                lc_StepDuration := dflt (lc_StepDuration c) (10 * Second),
                lc_Warmup := dflt (lc_Warmup c) (2 * Second),
                lc_FrameInterval := dflt (lc_FrameInterval c) (20 * Millisecond),
                lc_FrameDuration := dflt (lc_FrameDuration c) (20 * Millisecond),
                lc_BargeDelay := dflt (lc_BargeDelay c) (150 * Millisecond),
                lc_QuietGap := dflt (lc_QuietGap c) (350 * Millisecond),
                lc_TurnTimeout := dflt (lc_TurnTimeout c) (10 * Second),
                lc_SampleRate := rate_of c,
                lc_SpeechFrames := (if lc_SpeechFrames c \<le> 0 then 30 else lc_SpeechFrames c),
                lc_speechPCM := sp, lc_silencePCM := sil\<rparr>))
          | _ \<Rightarrow> None)"
    by (simp only: normalize_def steps_of_def rate_of_def Let_def)
  have pos: "0 < rate_of c" "0 < (if lc_SpeechFrames c \<le> 0 then 30 else lc_SpeechFrames c)" by (simp_all add: rate_of_def)
  show ?thesis
  proof (cases "lc_URL c = [] \<or> bad_steps None (steps_of c)")
    case True
    then show ?thesis using bad by (auto simp: norm steps_of_def)
  next
    case False
    then have f: "lc_URL c \<noteq> []" "\<not> bad_steps None (steps_of c)" by auto
    show ?thesis
    proof (cases "pcmFrame ?samples (1 / 2) = None \<or> pcmFrame ?samples 0 = None")
      case True
      then have "normalize c = None" using f by (auto simp: norm split: option.splits)
      moreover have "2 ^ 63 \<le> ?x" using True fits [of "1 / 2"] fits [of 0] by (cases "?x < 2 ^ 63") (auto simp: not_less)
      ultimately show ?thesis by simp
    next
      case False
      then obtain sp sil where s: "pcmFrame ?samples (1 / 2) = Some sp" "pcmFrame ?samples 0 = Some sil" by auto
      have len: "?x < 2 ^ 63 \<longrightarrow> length sp = 2 * nat (samples_of c) \<and> length sil = 2 * nat (samples_of c)"
        using fits [of "1 / 2"] fits [of 0] s by auto
      show ?thesis
        unfolding norm s prod.case option.case using f good pos len by (simp add: dflt_pos stagger)
    qed
  qed
qed

definition demo_config :: LoadConfig where
  "demo_config = \<lparr>lc_URL = ''ws://h/ws'', lc_MetricsURL = [], lc_Steps = [1, 2], lc_StepDuration = 0, lc_Warmup = 0,
     lc_FrameInterval = 0, lc_FrameDuration = 0, lc_SampleRate = 8000, lc_SpeechFrames = 0, lc_BargeEvery = 0,
     lc_BargeDelay = 0, lc_QuietGap = 0, lc_TurnTimeout = 0,
     lc_Netem = \<lparr>ne_Delay = 0, ne_Jitter = 0, ne_BurstEvery = 0, ne_BurstHold = 0, ne_Seed = 0\<rparr>,
     lc_speechPCM = [], lc_silencePCM = []\<rparr>"

theorem normalize_outcome_witness:
  "\<exists>c'. normalize demo_config = Some (Inr c') \<and> lc_Steps c' = [1, 2] \<and> 0 < lc_StepDuration c' \<and>
     length (lc_speechPCM c') = 320"
proof -
  have s: "rate_of demo_config * dflt (lc_FrameDuration demo_config) (20 * Millisecond) = 160000000000"
    "steps_of demo_config = [1, 2]" "samples_of demo_config = 160" "lc_URL demo_config \<noteq> []"
    by (simp_all add: demo_config_def rate_of_def dflt_def steps_of_def samples_of_def)
  have "\<not> ((\<forall>n \<in> set (lc_Steps demo_config). 0 < n) \<and> sorted (lc_Steps demo_config)) \<longleftrightarrow> False" by (simp add: demo_config_def)
  with normalize_outcome [of demo_config] show ?thesis
    unfolding s(1-3) by (auto simp: s(4) split: option.splits sum.splits load_error.splits)
qed

section \<open>What a run measures\<close>

text \<open>What happened in a window, read off its events.\<close>

definition window_agg :: "coll_event list \<Rightarrow> windowAgg" where
  "window_agg es =
     \<lparr>wa_first = [seconds_of d. EvSample sampleFirst d \<leftarrow> es], wa_barge = [seconds_of d. EvSample sampleBarge d \<leftarrow> es],
      wa_turns = int (length (filter (\<lambda>e. e = EvTurn) es)), wa_errs = int (length (filter (\<lambda>e. e = EvFail) es)),
      wa_frames = word_of_nat (length (filter (\<lambda>e. e = EvFrame) es))\<rparr>"

definition exits :: "coll_event list \<Rightarrow> int" where
  "exits es = int (length (filter (\<lambda>e. e = EvExit) es))"

lemmas coll_defs = frame_sent_def sample_def turnDone_def collector_fail_def workerExit_def workerSpawn_def

lemma coll_run_snoc: "coll_run (es @ [e]) c = coll_step e (coll_run es c)"
  by (simp add: coll_run_def)

lemma coll_run_always:
  "co_measuring (coll_run es c) = co_measuring c \<and> co_live (coll_run es c) = co_live c - exits es \<and>
   co_framesSent (coll_run es c) = co_framesSent c + word_of_nat (length (filter (\<lambda>e. e = EvFrame) es))"
proof (induction es rule: rev_induct)
  case (snoc e es)
  then show ?case unfolding coll_run_snoc by (cases e) (auto simp: coll_defs exits_def split: sampleKind.splits)
qed (simp add: coll_run_def exits_def)

lemma coll_run_measuring:
  assumes "co_measuring c"
  shows "co_first (coll_run es c) = co_first c @ wa_first (window_agg es) \<and>
    co_barge (coll_run es c) = co_barge c @ wa_barge (window_agg es) \<and>
    co_turns (coll_run es c) = co_turns c + wa_turns (window_agg es) \<and>
    co_errs (coll_run es c) = co_errs c + wa_errs (window_agg es)"
proof (induction es rule: rev_induct)
  case (snoc e es)
  have "co_measuring (coll_run es c)" using coll_run_always [of es c] assms by simp
  with snoc show ?case
    unfolding coll_run_snoc by (cases e) (auto simp: coll_defs window_agg_def split: sampleKind.splits)
qed (simp add: coll_run_def window_agg_def)

lemma spawn_live: "co_live (snd (spawn n spawned c)) = co_live c + max 0 (n - spawned)"
proof -
  have "co_live ((workerSpawn ^^ k) c) = co_live c + int k" for k
    by (induction k) (simp_all add: coll_defs)
  then show ?thesis by (simp add: spawn_def max_def)
qed

text \<open>The records a run should have: each from the events of its own window.\<close>

definition scraped_opt :: "LoadConfig \<Rightarrow> scrape_error + snapshot \<Rightarrow> snapshot option" where
  "scraped_opt cfg r = (if lc_MetricsURL cfg = [] then None else case r of Inl _ \<Rightarrow> None | Inr s \<Rightarrow> Some s)"

fun expected :: "LoadConfig \<Rightarrow> (int \<times> step_in) list \<Rightarrow> int \<Rightarrow> int \<Rightarrow> StepRecord list" where
  "expected cfg [] spawned live = []"
| "expected cfg ((n, si) # steps) spawned live =
     (let live1 = live + max 0 (n - spawned) - exits (si_before si) - exits (si_window si) - exits (si_after si) in
      buildRecord n (si_elapsed si) (window_agg (si_window si)) (scraped_opt cfg (si_s0 si)) (scraped_opt cfg (si_s1 si)) live1 #
      expected cfg steps (max spawned n) live1)"

definition completes :: "int \<times> step_in \<Rightarrow> bool" where
  "completes p \<longleftrightarrow> \<not> si_done (snd p) \<and> si_warm (snd p) \<and> si_full (snd p)"

definition scrapes_ok :: "LoadConfig \<Rightarrow> step_in \<Rightarrow> bool" where
  "scrapes_ok cfg si \<longleftrightarrow> lc_MetricsURL cfg = [] \<or> \<not> isl (si_s0 si) \<and> \<not> isl (si_s1 si)"

lemma run_scrape_ok:
  "lc_MetricsURL cfg = [] \<or> \<not> isl r \<Longrightarrow> run_scrape cfg r = Inr (scraped_opt cfg r)"
  by (cases r) (auto simp: run_scrape_def scraped_opt_def)

lemma run_step_record:
  assumes "completes (n, si)" "scrapes_ok cfg si"
  shows "\<exists>col1. run_step cfg n si spawned col =
      (max spawned n, col1, StepRecord_of (buildRecord n (si_elapsed si) (window_agg (si_window si))
         (scraped_opt cfg (si_s0 si)) (scraped_opt cfg (si_s1 si)) (co_live col1))) \<and>
    co_live col1 = co_live col + max 0 (n - spawned) - exits (si_before si) - exits (si_window si) - exits (si_after si)"
proof -
  obtain sp c1 where sp: "spawn n spawned col = (sp, c1)" by force
  have sp1: "sp = max spawned n" "co_live c1 = co_live col + max 0 (n - spawned)"
    using sp spawn_live [of n spawned col] by (auto simp: spawn_def)
  define c2 where "c2 = coll_run (si_before si) c1"
  obtain c3 mark where b: "beginWindow c2 = (c3, mark)" by force
  then have c3: "co_measuring c3" "co_first c3 = []" "co_barge c3 = []" "co_turns c3 = 0" "co_errs c3 = 0"
    "co_framesSent c3 = mark" "co_live c3 = co_live c2" by (auto simp: beginWindow_def)
  define c4 where "c4 = coll_run (si_window si) c3"
  have agg: "snd (endWindow mark c4) = window_agg (si_window si)"
    using coll_run_measuring [OF c3(1), of "si_window si"] coll_run_always [of "si_window si" c3] c3
    by (simp add: endWindow_def c4_def window_agg_def)
  then obtain d where e: "endWindow mark c4 = (d, window_agg (si_window si))" by (cases "endWindow mark c4") simp
  then have d: "co_live d = co_live c4" by (auto simp: endWindow_def)
  define c5 where "c5 = coll_run (si_after si) d"
  have "run_scrape cfg (si_s0 si) = Inr (scraped_opt cfg (si_s0 si))" "run_scrape cfg (si_s1 si) = Inr (scraped_opt cfg (si_s1 si))"
    using assms(2) by (auto simp: scrapes_ok_def intro!: run_scrape_ok)
  then have "run_step cfg n si spawned col = (sp, c5, StepRecord_of (buildRecord n (si_elapsed si) (window_agg (si_window si))
      (scraped_opt cfg (si_s0 si)) (scraped_opt cfg (si_s1 si)) (co_live c5)))"
    using assms(1) by (simp add: run_step_def completes_def sp c2_def [symmetric] b c4_def [symmetric] e c5_def Let_def)
  moreover have "co_live c5 = co_live c1 - exits (si_before si) - exits (si_window si) - exits (si_after si)"
    using coll_run_always [of "si_after si" d] coll_run_always [of "si_window si" c3]
      coll_run_always [of "si_before si" c1]
    by (simp add: c5_def d c4_def c3(7) c2_def)
  ultimately show ?thesis using sp1 by auto
qed

lemma run_steps_expected:
  assumes "list_all (\<lambda>p. scrapes_ok cfg (snd p)) steps"
  shows "run_steps cfg steps spawned col = Inr (expected cfg (takeWhile completes steps) spawned (co_live col))"
  using assms
proof (induction steps arbitrary: spawned col)
  case (Cons p steps)
  obtain n si where p: "p = (n, si)" by force
  show ?case
  proof (cases "completes p")
    case True
    with run_step_record [of n si cfg spawned col] Cons.prems obtain col1 where r:
      "run_step cfg n si spawned col = (max spawned n, col1, StepRecord_of (buildRecord n (si_elapsed si) (window_agg (si_window si))
         (scraped_opt cfg (si_s0 si)) (scraped_opt cfg (si_s1 si)) (co_live col1)))"
      "co_live col1 = co_live col + max 0 (n - spawned) - exits (si_before si) - exits (si_window si) - exits (si_after si)"
      by (auto simp: p)
    show ?thesis using True Cons by (simp add: p r(1)) (simp add: r(2) Let_def)
  next
    case False
    then have "\<exists>s c. run_step cfg n si spawned col = (s, c, StepBreak)"
      using run_scrape_ok [of cfg "si_s0 si"] Cons.prems
      by (auto simp: p completes_def run_step_def scrapes_ok_def Let_def split: prod.splits)
    with False show ?thesis by (auto simp: p)
  qed
qed simp

text \<open>
  C26: A run measures what happened: when no scrape fails, the records are those of the steps before the
  first that the context cuts short, in order; each is built from the samples, turns, failures and
  frames of its own measurement window alone, whatever the callers report before and after it, and
  from the callers spawned so far that have not left; the analysis is that of these records.
\<close>

theorem run_measures:
  assumes "list_all (scrapes_ok cfg) sis"
  shows "Run cfg sis =
    (let recs = expected cfg (takeWhile completes (zip (lc_Steps cfg) sis)) 0 0 in Inr (recs, Analyze recs))"
proof -
  have "list_all (\<lambda>p. scrapes_ok cfg (snd p)) (zip (lc_Steps cfg) sis)"
    using assms by (auto simp: list_all_iff dest: set_zip_rightD)
  from run_steps_expected [OF this, of 0 newCollector] show ?thesis by (simp add: Run_def newCollector_def Let_def)
qed

definition demo_input :: "coll_event list \<Rightarrow> bool \<Rightarrow> step_in" where
  "demo_input es full = \<lparr>si_done = False, si_before = [EvTurn, EvFail], si_warm = True, si_s0 = Inl ScrapeFailed, si_window = es,
     si_full = full, si_elapsed = Second, si_s1 = Inl ScrapeFailed, si_after = [EvTurn]\<rparr>"

text \<open>The second step is cut short; what came before the window of the first does not count.\<close>

theorem run_measures_witness:
  "\<exists>r. Run demo_config [demo_input [EvTurn, EvTurn] True, demo_input [EvFail] False] = Inr ([r], Analyze [r]) \<and>
     sr_Turns r = 2 \<and> sr_Errors r = 0 \<and> sr_LiveWorkers r = 1 \<and> sr_Concurrency r = 1"
proof -
  have "list_all (scrapes_ok demo_config) [demo_input [EvTurn, EvTurn] True, demo_input [EvFail] False]"
    by (simp add: scrapes_ok_def demo_config_def)
  from run_measures [OF this] show ?thesis
    by (simp add: demo_config_def demo_input_def completes_def window_agg_def exits_def scraped_opt_def buildRecord_def Let_def)
qed

end
