(* ===== verification/Loadworker.thy ===== *)
theory Loadworker
  imports Loadrun Session
begin

text \<open>
  A virtual caller of the load generator (\<open>internal/loadgen/worker.go\<close>): the handshake, the paced uplink,
  the reader of the downlink and the loop of dialogue turns. The clock's readings, the messages that
  arrive, the draws of the shaper and the choices of \<open>select\<close> are inputs; what the reader does between
  two steps of the turn loop happens at the next frame sent.
\<close>

section \<open>The downlink\<close>

datatype dl_error = DlRead | DlDecode frame_error | DlServer string

record downlink =
  dn_lastAudioNs :: int
  dn_audioC :: "instant list"
  dn_bargeC :: "instant list"
  dn_errC :: "dl_error list"
  dn_reading :: bool

definition newDownlink :: downlink where
  "newDownlink = \<lparr>dn_lastAudioNs = 0, dn_audioC = [], dn_bargeC = [], dn_errC = [], dn_reading = True\<rparr>"

definition downlink_fail :: "dl_error \<Rightarrow> downlink \<Rightarrow> downlink" where
  "downlink_fail e d = d\<lparr>dn_errC := fst (chan_offer 1 e (dn_errC d))\<rparr>"

text \<open>A read of the connection: its type and bytes, or an error.\<close>

datatype dl_input = InMessage bool "u8 list" | InError

text \<open>One turn of \<open>readLoop\<close>; \<open>dn_reading\<close> is false when it has returned.\<close>

definition readLoop_input :: "codec \<Rightarrow> instant \<Rightarrow> dl_input \<Rightarrow> downlink \<Rightarrow> downlink" where
  "readLoop_input cd now inp d =
     (if \<not> dn_reading d then d
      else case inp of
        InError \<Rightarrow> (downlink_fail DlRead d)\<lparr>dn_reading := False\<rparr>
      | InMessage binary bs \<Rightarrow>
          if \<not> binary then d
          else case Decode bs of
            Inl e \<Rightarrow> (downlink_fail (DlDecode e) d)\<lparr>dn_reading := False\<rparr>
          | Inr f \<Rightarrow>
              if frame_type f = FRAME_TYPE_AUDIO then
                d\<lparr>dn_lastAudioNs := wrap_int now, dn_audioC := fst (chan_offer 8 now (dn_audioC d))\<rparr>
              else if frame_type f = FRAME_TYPE_CONTROL then
                (case cd_uncontrol cd (frame_payload f) of
                   None \<Rightarrow> d
                 | Some cp \<Rightarrow>
                     case cp_Kind cp of
                       KIND_BARGE_IN \<Rightarrow> d\<lparr>dn_bargeC := fst (chan_offer 4 now (dn_bargeC d))\<rparr>
                     | KIND_ERROR \<Rightarrow> (downlink_fail (DlServer (cp_Detail cp)) d)\<lparr>dn_reading := False\<rparr>
                     | _ \<Rightarrow> d)
              else d)"

definition readLoop_inputs :: "codec \<Rightarrow> (instant \<times> dl_input) list \<Rightarrow> downlink \<Rightarrow> downlink" where
  "readLoop_inputs cd ms d = foldl (\<lambda>d (now, i). readLoop_input cd now i d) d ms"

section \<open>The caller\<close>

record worker =
  wk_id :: nat
  wk_cfg :: LoadConfig
  wk_col :: collector
  wk_dl :: downlink
  wk_clk :: clock
  wk_seq :: u64
  wk_tsUs :: int
  wk_out :: "u8 list list"

text \<open>\<open>WCtx\<close> is the context's error; \<open>WTimeout\<close> carries the phase.\<close>

datatype werr = WCtx | WFrame frame_error | WConn | WDl dl_error | WTimeout string

text \<open>What one step of the turn loop sees: the messages the reader has handled since the step before, the
  clock and the draw when a frame is sent, whether the wait and the write succeed, which ready channel
  \<open>select\<close> takes, and the readings of the clock that follow. A step uses the fields it needs.\<close>

record obs =
  ob_msgs :: "(instant \<times> dl_input) list"
  ob_send :: instant
  ob_draw :: duration
  ob_wait :: bool
  ob_write :: bool
  ob_pick_err :: bool
  ob_now :: instant
  ob_now2 :: instant

definition netemFor :: "nat \<Rightarrow> Netem \<Rightarrow> Netem" where
  "netemFor i n = n\<lparr>ne_Seed := ne_Seed n * 31 + of_nat i + 1\<rparr>"

definition worker_writeFrame :: "Frame \<Rightarrow> bool \<Rightarrow> worker \<Rightarrow> worker \<times> werr option" where
  "worker_writeFrame f ok w =
     (case MarshalBinary f of
        Inl e \<Rightarrow> (w, Some (WFrame e))
      | Inr bs \<Rightarrow> if ok then (w\<lparr>wk_out := wk_out w @ [bs]\<rparr>, None) else (w, Some WConn))"

definition sendAudio :: "codec \<Rightarrow> u8 list \<Rightarrow> obs \<Rightarrow> worker \<Rightarrow> worker \<times> werr option" where
  "sendAudio cd pcm ob w0 =
     (let w = w0\<lparr>wk_dl := readLoop_inputs cd (ob_msgs ob) (wk_dl w0),
                 wk_clk := fst (clock_wait (ob_send ob) (ob_draw ob) (wk_clk w0))\<rparr> in
      if \<not> ob_wait ob then (w, Some WCtx)
      else let sq = wk_seq w + 1;
               f = \<lparr>frame_type = FRAME_TYPE_AUDIO, frame_seq = sq, frame_ts = word_of_int (wk_tsUs w), frame_payload = pcm\<rparr>;
               w1 = w\<lparr>wk_seq := sq, wk_tsUs := wrap_int (wk_tsUs w + frameNominalUs (wk_cfg w))\<rparr> in
        case worker_writeFrame f (ob_write ob) w1 of
          (w2, Some e) \<Rightarrow> (w2, Some e)
        | (w2, None) \<Rightarrow> (w2\<lparr>wk_col := frame_sent (wk_col w2)\<rparr>, None))"

section \<open>The phases of a turn\<close>

text \<open>A phase consumes an observation at its start and one in each iteration of its loop, and returns a value
  or an error; \<open>None\<close> when the observations end before it does.\<close>

type_synonym 'a phase = "obs list \<Rightarrow> worker \<Rightarrow> (worker \<times> (werr + 'a) \<times> obs list) option"

text \<open>\<open>select\<close> over a channel of arrivals and the errors.\<close>

datatype selected = SelAt instant | SelErr dl_error | SelNone

definition select_dl :: "bool \<Rightarrow> instant list \<Rightarrow> dl_error list \<Rightarrow> selected" where
  "select_dl pick_err c errs =
     (case (c, errs) of
        ([], []) \<Rightarrow> SelNone
      | (a # _, []) \<Rightarrow> SelAt a
      | ([], e # _) \<Rightarrow> SelErr e
      | (a # _, e # _) \<Rightarrow> if pick_err then SelErr e else SelAt a)"

definition take_err :: "worker \<Rightarrow> worker" where
  "take_err w = w\<lparr>wk_dl := (wk_dl w)\<lparr>dn_errC := tl (dn_errC (wk_dl w))\<rparr>\<rparr>"

definition take_audio :: "worker \<Rightarrow> worker" where
  "take_audio w = w\<lparr>wk_dl := (wk_dl w)\<lparr>dn_audioC := tl (dn_audioC (wk_dl w))\<rparr>\<rparr>"

definition take_barge :: "worker \<Rightarrow> worker" where
  "take_barge w = w\<lparr>wk_dl := (wk_dl w)\<lparr>dn_bargeC := tl (dn_bargeC (wk_dl w))\<rparr>\<rparr>"

definition drain_audio :: "worker \<Rightarrow> worker" where
  "drain_audio w = w\<lparr>wk_dl := (wk_dl w)\<lparr>dn_audioC := []\<rparr>\<rparr>"

definition drain_barge :: "worker \<Rightarrow> worker" where
  "drain_barge w = w\<lparr>wk_dl := (wk_dl w)\<lparr>dn_bargeC := []\<rparr>\<rparr>"

text \<open>\<open>SpeechFrames\<close> frames of speech.\<close>

fun speak :: "codec \<Rightarrow> nat \<Rightarrow> unit phase" where
  "speak cd 0 obs w = Some (w, Inr (), obs)"
| "speak cd (Suc n) [] w = None"
| "speak cd (Suc n) (ob # obs) w =
     (case sendAudio cd (lc_speechPCM (wk_cfg w)) ob w of
        (w1, Some e) \<Rightarrow> Some (w1, Inl e, obs)
      | (w1, None) \<Rightarrow> speak cd n obs w1)"

fun audio_loop :: "codec \<Rightarrow> instant \<Rightarrow> instant \<Rightarrow> instant phase" where
  "audio_loop cd aft deadline [] w = None"
| "audio_loop cd aft deadline (ob # obs) w =
     (case sendAudio cd (lc_silencePCM (wk_cfg w)) ob w of
        (w1, Some err) \<Rightarrow> Some (w1, Inl err, obs)
      | (w1, None) \<Rightarrow>
          let tick = (\<lambda>w2. if ob_now ob > deadline then Some (w2, Inl (WTimeout ''first-response''), obs)
                          else audio_loop cd aft deadline obs w2) in
          case select_dl (ob_pick_err ob) (dn_audioC (wk_dl w1)) (dn_errC (wk_dl w1)) of
            SelErr err \<Rightarrow> Some (take_err w1, Inl (WDl err), obs)
          | SelAt rel \<Rightarrow> if \<not> rel < aft then Some (take_audio w1, Inr rel, obs) else tick (take_audio w1)
          | SelNone \<Rightarrow> tick w1)"

fun silenceUntilAudioAfter :: "codec \<Rightarrow> instant \<Rightarrow> instant phase" where
  "silenceUntilAudioAfter cd aft [] w = None"
| "silenceUntilAudioAfter cd aft (ob # obs) w = audio_loop cd aft (ob_now ob + lc_TurnTimeout (wk_cfg w)) obs w"

fun silence_loop :: "codec \<Rightarrow> instant \<Rightarrow> unit phase" where
  "silence_loop cd til [] w = None"
| "silence_loop cd til (ob # obs) w =
     (if \<not> ob_now ob < til then Some (w, Inr (), obs)
      else case sendAudio cd (lc_silencePCM (wk_cfg w)) ob w of
        (w1, Some e) \<Rightarrow> Some (w1, Inl e, obs)
      | (w1, None) \<Rightarrow> silence_loop cd til obs w1)"

fun silenceFor :: "codec \<Rightarrow> duration \<Rightarrow> unit phase" where
  "silenceFor cd d [] w = None"
| "silenceFor cd d (ob # obs) w = silence_loop cd (ob_now ob + d) obs w"

fun barge_loop :: "codec \<Rightarrow> instant \<Rightarrow> instant \<Rightarrow> instant phase" where
  "barge_loop cd aft deadline [] w = None"
| "barge_loop cd aft deadline (ob # obs) w =
     (let go_on = (\<lambda>w1. if ob_now ob > deadline then Some (w1, Inl (WTimeout ''barge-in''), obs)
                       else case sendAudio cd (lc_silencePCM (wk_cfg w1)) ob w1 of
                           (w2, Some e) \<Rightarrow> Some (w2, Inl e, obs)
                         | (w2, None) \<Rightarrow> barge_loop cd aft deadline obs w2) in
      case select_dl (ob_pick_err ob) (dn_bargeC (wk_dl w)) (dn_errC (wk_dl w)) of
        SelErr err \<Rightarrow> Some (take_err w, Inl (WDl err), obs)
      | SelAt rel \<Rightarrow> if \<not> rel < aft then Some (take_barge w, Inr rel, obs) else go_on (take_barge w)
      | SelNone \<Rightarrow> go_on w)"

fun awaitBarge :: "codec \<Rightarrow> instant \<Rightarrow> instant phase" where
  "awaitBarge cd aft [] w = None"
| "awaitBarge cd aft (ob # obs) w = barge_loop cd aft (ob_now ob + lc_TurnTimeout (wk_cfg w)) obs w"

fun quiet_loop :: "codec \<Rightarrow> instant \<Rightarrow> unit phase" where
  "quiet_loop cd deadline [] w = None"
| "quiet_loop cd deadline (ob # obs) w =
     (case sendAudio cd (lc_silencePCM (wk_cfg w)) ob w of
        (w1, Some e) \<Rightarrow> Some (w1, Inl e, obs)
      | (w1, None) \<Rightarrow>
          if time_sub (ob_now ob) (dn_lastAudioNs (wk_dl w1)) \<ge> lc_QuietGap (wk_cfg w1) then Some (drain_audio w1, Inr (), obs)
          else if ob_now2 ob > deadline then Some (w1, Inl (WTimeout ''quiesce''), obs)
          else quiet_loop cd deadline obs w1)"

fun silenceUntilQuiet :: "codec \<Rightarrow> unit phase" where
  "silenceUntilQuiet cd [] w = None"
| "silenceUntilQuiet cd (ob # obs) w = quiet_loop cd (ob_now ob + lc_TurnTimeout (wk_cfg w)) obs w"

section \<open>A turn\<close>

text \<open>Sequencing: an error ends the turn.\<close>

definition phase_bind :: "'a phase \<Rightarrow> ('a \<Rightarrow> 'b phase) \<Rightarrow> 'b phase" where
  "phase_bind p q obs w =
     (case p obs w of
        None \<Rightarrow> None
      | Some (w1, Inl e, obs1) \<Rightarrow> Some (w1, Inl e, obs1)
      | Some (w1, Inr x, obs1) \<Rightarrow> q x obs1 w1)"

definition phase_do :: "(worker \<Rightarrow> worker) \<Rightarrow> unit phase" where
  "phase_do g obs w = Some (g w, Inr (), obs)"

definition phase_get :: "(worker \<Rightarrow> 'a) \<Rightarrow> 'a phase" where
  "phase_get g obs w = Some (w, Inr (g w), obs)"

definition add_sample :: "sampleKind \<Rightarrow> duration \<Rightarrow> worker \<Rightarrow> worker" where
  "add_sample k d w = w\<lparr>wk_col := sample k d (wk_col w)\<rparr>"

fun open_mouth :: "instant phase" where
  "open_mouth [] w = None"
| "open_mouth (ob # obs) w = Some (w, Inr (peekIdeal (ob_now ob) (wk_clk w)), obs)"

definition speech_frames :: "worker \<Rightarrow> nat" where
  "speech_frames w = nat (lc_SpeechFrames (wk_cfg w))"

text \<open>The utterance and the first response.\<close>

definition ask :: "codec \<Rightarrow> unit phase" where
  "ask cd =
     phase_bind (phase_get speech_frames) (\<lambda>n.
     phase_bind (speak cd n) (\<lambda>_.
     phase_bind (phase_get (\<lambda>w. ck_lastIdeal (wk_clk w))) (\<lambda>spokeAt.
     phase_bind (silenceUntilAudioAfter cd spokeAt) (\<lambda>firstAt.
     phase_do (add_sample sampleFirst (time_sub firstAt spokeAt))))))"

text \<open>Speaking over the response.\<close>

definition interrupt :: "codec \<Rightarrow> unit phase" where
  "interrupt cd =
     phase_bind (phase_get (\<lambda>w. lc_BargeDelay (wk_cfg w))) (\<lambda>d.
     phase_bind (silenceFor cd d) (\<lambda>_.
     phase_bind (phase_do drain_barge) (\<lambda>_.
     phase_bind open_mouth (\<lambda>bargeStart.
     phase_bind (phase_get speech_frames) (\<lambda>n.
     phase_bind (speak cd n) (\<lambda>_.
     phase_bind (phase_get (\<lambda>w. ck_lastIdeal (wk_clk w))) (\<lambda>spokeAt.
     phase_bind (awaitBarge cd bargeStart) (\<lambda>bargeAt.
     phase_bind (phase_do (add_sample sampleBarge (time_sub bargeAt bargeStart))) (\<lambda>_.
     phase_bind (silenceUntilAudioAfter cd bargeAt) (\<lambda>firstAt.
     phase_do (add_sample sampleFirst (time_sub firstAt spokeAt))))))))))))"

definition worker_turn :: "codec \<Rightarrow> bool \<Rightarrow> unit phase" where
  "worker_turn cd barge =
     phase_bind (ask cd) (\<lambda>_.
     phase_bind (if barge then interrupt cd else phase_do (\<lambda>w. w)) (\<lambda>_.
     silenceUntilQuiet cd))"

section \<open>The caller's life\<close>

datatype conn_error = DialFailed | StartUnmarshalled | StartFrame frame_error | StartWrite | HandshakeRead
  | HandshakeDecode frame_error | HandshakePayload | HandshakeRejected ControlKind string

text \<open>The replies to the handshake; \<open>None\<close> while it waits.\<close>

fun await_start :: "codec \<Rightarrow> dl_input list \<Rightarrow> (conn_error option) option" where
  "await_start cd [] = None"
| "await_start cd (InError # is) = Some (Some HandshakeRead)"
| "await_start cd (InMessage binary bs # is) =
     (if \<not> binary then await_start cd is
      else case Decode bs of
        Inl e \<Rightarrow> Some (Some (HandshakeDecode e))
      | Inr f \<Rightarrow>
          if frame_type f \<noteq> FRAME_TYPE_CONTROL then await_start cd is
          else case cd_uncontrol cd (frame_payload f) of
            None \<Rightarrow> Some (Some HandshakePayload)
          | Some cp \<Rightarrow> Some (if cp_Kind cp \<noteq> KIND_START then Some (HandshakeRejected (cp_Kind cp) (cp_Detail cp)) else None))"

definition start_frame :: "codec \<Rightarrow> Frame option" where
  "start_frame cd =
     map_option (\<lambda>payload. \<lparr>frame_type = FRAME_TYPE_CONTROL, frame_seq = 0, frame_ts = 0, frame_payload = payload\<rparr>)
       (cd_control cd ((control_of KIND_START)\<lparr>cp_Epoch := 1\<rparr>))"

definition connect :: "codec \<Rightarrow> bool \<Rightarrow> bool \<Rightarrow> dl_input list \<Rightarrow> worker \<Rightarrow> (worker \<times> conn_error option) option" where
  "connect cd dial_ok write_ok replies w0 =
     (if \<not> dial_ok then Some (w0, Some DialFailed)
      else let w = w0\<lparr>wk_dl := newDownlink\<rparr> in
        case start_frame cd of
          None \<Rightarrow> Some (w, Some StartUnmarshalled)
        | Some f \<Rightarrow>
            (case worker_writeFrame f write_ok w of
               (w1, Some (WFrame e)) \<Rightarrow> Some (w1, Some (StartFrame e))
             | (w1, Some _) \<Rightarrow> Some (w1, Some StartWrite)
             | (w1, None) \<Rightarrow> map_option (\<lambda>r. (w1, r)) (await_start cd replies)))"

text \<open>An iteration of \<open>run\<close>: its turn, whether the context is done when that fails, and the waiting for
  silence that follows a timeout.\<close>

record iteration =
  it_obs :: "obs list"
  it_done :: bool
  it_quiet :: "obs list"

definition barge_turn :: "LoadConfig \<Rightarrow> int \<Rightarrow> bool" where
  "barge_turn cfg n \<longleftrightarrow> lc_BargeEvery cfg > 0 \<and> n smod lc_BargeEvery cfg = 0"

definition col_map :: "(collector \<Rightarrow> collector) \<Rightarrow> worker \<Rightarrow> worker" where
  "col_map g w = w\<lparr>wk_col := g (wk_col w)\<rparr>"

fun worker_turns :: "codec \<Rightarrow> iteration list \<Rightarrow> int \<Rightarrow> worker \<Rightarrow> worker option" where
  "worker_turns cd [] n w = Some w"
| "worker_turns cd (it # its) n w =
     (case worker_turn cd (barge_turn (wk_cfg w) (n + 1)) (it_obs it) w of
        None \<Rightarrow> None
      | Some (w1, Inr _, _) \<Rightarrow> worker_turns cd its (n + 1) (col_map turnDone w1)
      | Some (w1, Inl e, _) \<Rightarrow>
          if it_done it then Some w1
          else case e of
            WTimeout phase \<Rightarrow>
              (case silenceUntilQuiet cd (it_quiet it) (col_map collector_fail w1) of
                 None \<Rightarrow> None
               | Some (w2, _, _) \<Rightarrow> worker_turns cd its (n + 1) (drain_barge w2))
          | _ \<Rightarrow> Some (col_map collector_fail w1))"

text \<open>\<open>run\<close>: the phase offset (whether its sleep completes), the connection, the turns; the caller leaves the
  collector's count at the end.\<close>

definition newWorker :: "nat \<Rightarrow> LoadConfig \<Rightarrow> collector \<Rightarrow> worker" where
  "newWorker i cfg col = \<lparr>wk_id = i, wk_cfg = cfg, wk_col = col, wk_dl = newDownlink,
     wk_clk = newClock (lc_FrameInterval cfg) (lc_Netem cfg), wk_seq = 0, wk_tsUs = 0, wk_out = []\<rparr>"

definition worker_run :: "codec \<Rightarrow> bool \<Rightarrow> bool \<Rightarrow> bool \<Rightarrow> bool \<Rightarrow> dl_input list \<Rightarrow> iteration list \<Rightarrow> worker \<Rightarrow> worker option" where
  "worker_run cd slept dial_ok write_ok ctx_done replies its w =
     map_option (col_map workerExit)
       (if \<not> slept then Some w
        else case connect cd dial_ok write_ok replies w of
          None \<Rightarrow> None
        | Some (w1, Some e) \<Rightarrow> Some (if ctx_done then w1 else col_map collector_fail w1)
        | Some (w1, None) \<Rightarrow>
            worker_turns cd its 0
              (w1\<lparr>wk_clk := newClock (lc_FrameInterval (wk_cfg w1)) (netemFor (wk_id w1) (lc_Netem (wk_cfg w1)))\<rparr>))"

section \<open>Invariants of a caller\<close>

definition keeps :: "(worker \<Rightarrow> bool) \<Rightarrow> 'a phase \<Rightarrow> bool" where
  "keeps I p \<longleftrightarrow> (\<forall>obs w w' r obs'. I w \<longrightarrow> p obs w = Some (w', r, obs') \<longrightarrow> I w')"

lemma keepsI: "(\<And>obs w w' r obs'. I w \<Longrightarrow> p obs w = Some (w', r, obs') \<Longrightarrow> I w') \<Longrightarrow> keeps I p"
  unfolding keeps_def by blast

lemma keepsD: "keeps I p \<Longrightarrow> I w \<Longrightarrow> p obs w = Some (w', r, obs') \<Longrightarrow> I w'"
  unfolding keeps_def by blast

lemma keeps_bind: "keeps I p \<Longrightarrow> (\<And>x. keeps I (q x)) \<Longrightarrow> keeps I (phase_bind p q)"
proof (rule keepsI)
  fix obs w w' r obs'
  assume p: "keeps I p" and q: "\<And>x. keeps I (q x)" and I: "I w" and b: "phase_bind p q obs w = Some (w', r, obs')"
  then obtain w1 s obs1 where 1: "p obs w = Some (w1, s, obs1)" by (auto simp: phase_bind_def split: option.splits)
  with keepsD [OF p I 1] keepsD [OF q] b show "I w'" by (cases s) (auto simp: phase_bind_def)
qed

lemma keeps_get: "keeps I (phase_get g)"
  by (rule keepsI) (auto simp: phase_get_def)

lemma keeps_do: "(\<And>w. I w \<Longrightarrow> I (g w)) \<Longrightarrow> keeps I (phase_do g)"
  by (rule keepsI) (auto simp: phase_do_def)

lemma keeps_head:
  assumes "\<And>w. p [] w = None" "\<And>ob obs w. \<exists>q. keeps I q \<and> p (ob # obs) w = q obs w"
  shows "keeps I p"
proof (rule keepsI)
  fix obs w w' r obs'
  assume I: "I w" and r: "p obs w = Some (w', r, obs')"
  show "I w'"
  proof (cases obs)
    case Nil
    then show ?thesis using r assms(1) by simp
  next
    case (Cons ob os)
    obtain q where "keeps I q" "p (ob # os) w = q os w" using assms(2) by blast
    with I r Cons show ?thesis by (auto dest: keepsD)
  qed
qed

text \<open>An invariant of the phases: whatever comes of sending a frame of speech or of silence keeps it, and so
  does what touches only the downlink's channels.\<close>

locale sender_invariant =
  fixes I :: "worker \<Rightarrow> bool"
  assumes send: "I w \<Longrightarrow> pcm \<in> {lc_speechPCM (wk_cfg w), lc_silencePCM (wk_cfg w)} \<Longrightarrow>
      sendAudio cd pcm ob w = (w', e) \<Longrightarrow> I w'"
    and channels: "I w \<Longrightarrow> I (take_err w)" "I w \<Longrightarrow> I (take_audio w)" "I w \<Longrightarrow> I (take_barge w)"
      "I w \<Longrightarrow> I (drain_audio w)" "I w \<Longrightarrow> I (drain_barge w)"
begin

lemma keeps_speak: "keeps I (speak cd n)"
proof (rule keepsI)
  fix obs w w' r obs'
  show "I w \<Longrightarrow> speak cd n obs w = Some (w', r, obs') \<Longrightarrow> I w'"
  proof (induction cd n obs w rule: speak.induct)
    case (3 cd n ob obs w)
    then show ?case by (auto split: prod.splits option.splits intro: send)
  qed auto
qed

lemma keeps_audio_loop: "keeps I (audio_loop cd aft deadline)"
proof (rule keepsI)
  fix obs w w' r obs'
  show "I w \<Longrightarrow> audio_loop cd aft deadline obs w = Some (w', r, obs') \<Longrightarrow> I w'"
  proof (induction obs arbitrary: w)
    case (Cons ob obs)
    obtain w1 e where s: "sendAudio cd (lc_silencePCM (wk_cfg w)) ob w = (w1, e)" by force
    have "I w1" using s Cons.prems(1) by (auto intro: send)
    with Cons s show ?case
      by (auto simp: Let_def channels split: option.splits selected.splits if_splits dest: Cons.IH [OF channels(2)])
  qed simp
qed

lemma keeps_barge_loop: "keeps I (barge_loop cd aft deadline)"
proof (rule keepsI)
  fix obs w w' r obs'
  show "I w \<Longrightarrow> barge_loop cd aft deadline obs w = Some (w', r, obs') \<Longrightarrow> I w'"
  proof (induction obs arbitrary: w)
    case (Cons ob obs)
    define go_on where "go_on = (\<lambda>w1. if ob_now ob > deadline then Some (w1, Inl (WTimeout ''barge-in''), obs)
       else case sendAudio cd (lc_silencePCM (wk_cfg w1)) ob w1 of
           (w2, Some e) \<Rightarrow> Some (w2, Inl e, obs)
         | (w2, None) \<Rightarrow> barge_loop cd aft deadline obs w2)"
    have go: "I w1 \<Longrightarrow> go_on w1 = Some (w', r, obs') \<Longrightarrow> I w'" for w1
      by (auto simp: go_on_def split: if_splits prod.splits option.splits intro: send dest: Cons.IH [OF send, rotated 2])
    from Cons.prems go [OF channels(3)] go show ?case
      by (auto simp: go_on_def [symmetric] Let_def channels split: selected.splits if_splits)
  qed simp
qed

lemma keeps_silence_loop: "keeps I (silence_loop cd til)"
proof (rule keepsI)
  fix obs w w' r obs'
  show "I w \<Longrightarrow> silence_loop cd til obs w = Some (w', r, obs') \<Longrightarrow> I w'"
  proof (induction obs arbitrary: w)
    case (Cons ob obs)
    then show ?case by (auto split: if_splits prod.splits option.splits intro: send dest: Cons.IH [OF send, rotated 2])
  qed simp
qed

lemma keeps_quiet_loop: "keeps I (quiet_loop cd deadline)"
proof (rule keepsI)
  fix obs w w' r obs'
  show "I w \<Longrightarrow> quiet_loop cd deadline obs w = Some (w', r, obs') \<Longrightarrow> I w'"
  proof (induction obs arbitrary: w)
    case (Cons ob obs)
    obtain w1 e where s: "sendAudio cd (lc_silencePCM (wk_cfg w)) ob w = (w1, e)" by force
    have "I w1" using s Cons.prems(1) by (auto intro: send)
    with Cons s show ?case by (auto simp: channels split: option.splits if_splits)
  qed simp
qed

lemma keeps_phases:
  "keeps I (silenceUntilAudioAfter cd aft)" "keeps I (silenceFor cd d)" "keeps I (awaitBarge cd aft)"
  "keeps I (silenceUntilQuiet cd)" "keeps I open_mouth"
proof -
  show "keeps I (silenceUntilAudioAfter cd aft)" by (rule keeps_head) (auto intro: keeps_audio_loop)
  show "keeps I (silenceFor cd d)" by (rule keeps_head) (auto intro: keeps_silence_loop)
  show "keeps I (awaitBarge cd aft)" by (rule keeps_head) (auto intro: keeps_barge_loop)
  show "keeps I (silenceUntilQuiet cd)" by (rule keeps_head) (auto intro: keeps_quiet_loop)
  show "keeps I open_mouth" by (rule keepsI) (auto elim: open_mouth.elims)
qed

end

text \<open>One that the reports to the collector keep, too, holds over a caller's whole life.\<close>

locale caller_invariant = sender_invariant +
  assumes samples: "I w \<Longrightarrow> I (add_sample k d w)" "I w \<Longrightarrow> I (col_map turnDone w)" "I w \<Longrightarrow> I (col_map collector_fail w)"
begin

lemma keeps_turn: "keeps I (worker_turn cd barge)"
  unfolding worker_turn_def ask_def interrupt_def
  by (auto intro!: keeps_bind keeps_get keeps_do keeps_speak keeps_phases channels samples)

lemma turns_keep: "I w \<Longrightarrow> worker_turns cd its n w = Some w' \<Longrightarrow> I w'"
proof (induction its arbitrary: n w)
  case (Cons it its)
  obtain w1 r obs where t: "worker_turn cd (barge_turn (wk_cfg w) (n + 1)) (it_obs it) w = Some (w1, r, obs)"
    using Cons.prems(2) by (auto split: option.splits)
  have I1: "I w1" using keepsD [OF keeps_turn Cons.prems(1) t] .
  show ?case
  proof (cases r)
    case (Inr u)
    then show ?thesis using Cons.prems(2) Cons.IH [OF samples(2) [OF I1]] t by auto
  next
    case (Inl e)
    show ?thesis
    proof (cases "it_done it \<or> (\<forall>phase. e \<noteq> WTimeout phase)")
      case True
      then have "w' = w1 \<or> w' = col_map collector_fail w1" using Cons.prems(2) t Inl by (auto split: werr.splits if_splits)
      then show ?thesis using I1 samples by auto
    next
      case False
      then obtain phase where e: "e = WTimeout phase" by auto
      from Cons.prems(2) t Inl e False obtain w2 r2 obs2 where
        q: "silenceUntilQuiet cd (it_quiet it) (col_map collector_fail w1) = Some (w2, r2, obs2)"
        "worker_turns cd its (n + 1) (drain_barge w2) = Some w'" by (auto split: option.splits)
      have "I w2" using keepsD [OF keeps_phases(4) samples(3) [OF I1] q(1)] .
      then show ?thesis using Cons.IH [OF channels(5) q(2)] by blast
    qed
  qed
qed simp

end

section \<open>The uplink of a caller\<close>

definition uplink_frame :: "LoadConfig \<Rightarrow> nat \<Rightarrow> u8 list \<Rightarrow> Frame" where
  "uplink_frame cfg k pcm = \<lparr>frame_type = FRAME_TYPE_AUDIO, frame_seq = word_of_nat (Suc k),
     frame_ts = word_of_int (int k * frameNominalUs cfg), frame_payload = pcm\<rparr>"

definition encoded :: "Frame \<Rightarrow> u8 list" where
  "encoded f = (case MarshalBinary f of Inl _ \<Rightarrow> [] | Inr bs \<Rightarrow> bs)"

text \<open>After the messages \<open>out0\<close> the caller has written frames whose numbers ascend, stamped by their number.\<close>

definition uplink_ok :: "u8 list list \<Rightarrow> u64 \<Rightarrow> LoadConfig \<Rightarrow> worker \<Rightarrow> bool" where
  "uplink_ok out0 n0 cfg w \<longleftrightarrow> wk_cfg w = cfg \<and>
     (\<exists>kps K. wk_out w = out0 @ map (\<lambda>(k, pcm). encoded (uplink_frame cfg k pcm)) kps \<and>
        sorted_wrt (<) (map fst kps) \<and>
        (\<forall>(k, pcm) \<in> set kps. k < K \<and> pcm \<in> {lc_speechPCM cfg, lc_silencePCM cfg}) \<and>
        wk_seq w = word_of_nat K \<and> (word_of_int (wk_tsUs w) :: u64) = word_of_int (int K * frameNominalUs cfg) \<and>
        co_framesSent (wk_col w) = n0 + word_of_nat (length kps))"

lemma word_wrap_int: "(word_of_int (wrap_int n) :: u64) = word_of_int n"
  unfolding wrap_int_def word_of_int_eq_iff take_bit_eq_mod by (simp add: mod_diff_left_eq)

lemma uplink_ok_fields:
  "wk_cfg w' = wk_cfg w \<Longrightarrow> wk_out w' = wk_out w \<Longrightarrow> wk_seq w' = wk_seq w \<Longrightarrow> wk_tsUs w' = wk_tsUs w \<Longrightarrow>
   co_framesSent (wk_col w') = co_framesSent (wk_col w) \<Longrightarrow> uplink_ok out0 n0 cfg w \<Longrightarrow> uplink_ok out0 n0 cfg w'"
  unfolding uplink_ok_def by simp

lemma sendAudio_fields:
  assumes "sendAudio cd pcm ob w = (w', e)"
  defines "F \<equiv> \<lparr>frame_type = FRAME_TYPE_AUDIO, frame_seq = wk_seq w + 1, frame_ts = word_of_int (wk_tsUs w), frame_payload = pcm\<rparr>"
  shows "wk_cfg w' = wk_cfg w \<and> wk_dl w' = readLoop_inputs cd (ob_msgs ob) (wk_dl w) \<and>
    wk_clk w' = fst (clock_wait (ob_send ob) (ob_draw ob) (wk_clk w)) \<and>
    (if \<not> ob_wait ob then e = Some WCtx \<and> wk_seq w' = wk_seq w \<and> wk_tsUs w' = wk_tsUs w \<and> wk_out w' = wk_out w \<and> wk_col w' = wk_col w
     else wk_seq w' = wk_seq w + 1 \<and> wk_tsUs w' = wrap_int (wk_tsUs w + frameNominalUs (wk_cfg w)) \<and>
       (case MarshalBinary F of
          Inl er \<Rightarrow> e = Some (WFrame er) \<and> wk_out w' = wk_out w \<and> wk_col w' = wk_col w
        | Inr bs \<Rightarrow>
            if ob_write ob then e = None \<and> wk_out w' = wk_out w @ [bs] \<and> wk_col w' = frame_sent (wk_col w)
            else e = Some WConn \<and> wk_out w' = wk_out w \<and> wk_col w' = wk_col w))"
  using assms(1) unfolding F_def
  by (cases "ob_wait ob"; cases "ob_write ob"; cases "MarshalBinary F")
    (auto simp: sendAudio_def worker_writeFrame_def Let_def F_def)

lemma uplink_send:
  assumes "uplink_ok out0 n0 cfg w" "pcm \<in> {lc_speechPCM (wk_cfg w), lc_silencePCM (wk_cfg w)}"
    "sendAudio cd pcm ob w = (w', e)"
  shows "uplink_ok out0 n0 cfg w'"
proof -
  from assms(1) obtain kps K where cfg: "wk_cfg w = cfg" and u:
    "wk_out w = out0 @ map (\<lambda>(k, pcm). encoded (uplink_frame cfg k pcm)) kps" "sorted_wrt (<) (map fst kps)"
    "\<forall>(k, pcm) \<in> set kps. k < K \<and> pcm \<in> {lc_speechPCM cfg, lc_silencePCM cfg}" "wk_seq w = word_of_nat K"
    "(word_of_int (wk_tsUs w) :: u64) = word_of_int (int K * frameNominalUs cfg)"
    "co_framesSent (wk_col w) = n0 + word_of_nat (length kps)"
    unfolding uplink_ok_def by blast
  have f: "\<lparr>frame_type = FRAME_TYPE_AUDIO, frame_seq = wk_seq w + 1, frame_ts = word_of_int (wk_tsUs w), frame_payload = pcm\<rparr> =
      uplink_frame cfg K pcm" by (simp add: uplink_frame_def u(4,5))
  have ts: "(word_of_int (wrap_int (wk_tsUs w + frameNominalUs cfg)) :: u64) = word_of_int (int (Suc K) * frameNominalUs cfg)"
    using u(5) by (simp add: word_wrap_int algebra_simps)
  have sq: "wk_seq w + 1 = word_of_nat (Suc K)" by (simp add: u(4))
  have lt: "\<forall>(k, pcm) \<in> set kps. k < Suc K \<and> pcm \<in> {lc_speechPCM cfg, lc_silencePCM cfg}"
    using u(3) by (auto simp: less_Suc_eq)
  consider (wait) "\<not> ob_wait ob" | (frame) "ob_wait ob" "isl (MarshalBinary (uplink_frame cfg K pcm)) \<or> \<not> ob_write ob"
    | (sent) bs where "ob_wait ob" "MarshalBinary (uplink_frame cfg K pcm) = Inr bs" "ob_write ob"
    by (cases "MarshalBinary (uplink_frame cfg K pcm)") auto
  then show ?thesis
  proof cases
    case wait
    then show ?thesis using sendAudio_fields [OF assms(3)] by (intro uplink_ok_fields [OF _ _ _ _ _ assms(1)]) simp_all
  next
    case frame
    then have "wk_out w' = wk_out w \<and> wk_seq w' = word_of_nat (Suc K) \<and> wk_cfg w' = cfg \<and> wk_col w' = wk_col w \<and>
        wk_tsUs w' = wrap_int (wk_tsUs w + frameNominalUs cfg)"
      using sendAudio_fields [OF assms(3)] unfolding f unfolding cfg sq by (auto split: sum.splits)
    then show ?thesis unfolding uplink_ok_def using u(1,2,6) lt ts by (intro conjI exI [of _ kps] exI [of _ "Suc K"]) simp_all
  next
    case sent
    then have w': "wk_out w' = wk_out w @ [bs]" "wk_seq w' = word_of_nat (Suc K)" "wk_cfg w' = cfg"
        "wk_tsUs w' = wrap_int (wk_tsUs w + frameNominalUs cfg)" "co_framesSent (wk_col w') = co_framesSent (wk_col w) + 1"
      using sendAudio_fields [OF assms(3)] unfolding f unfolding cfg sq by (auto simp: frame_sent_def)
    have srt: "sorted_wrt (<) (map fst (kps @ [(K, pcm)]))" using u(2,3) by (auto simp: sorted_wrt_append)
    have all: "\<forall>(k, pcm) \<in> set (kps @ [(K, pcm)]). k < Suc K \<and> pcm \<in> {lc_speechPCM cfg, lc_silencePCM cfg}"
      using lt assms(2) cfg by auto
    show ?thesis unfolding uplink_ok_def using u(1,6) srt all w' ts sent(2)
      by (intro conjI exI [of _ "kps @ [(K, pcm)]"] exI [of _ "Suc K"]) (simp_all add: encoded_def)
  qed
qed

lemmas channel_defs = take_err_def take_audio_def take_barge_def drain_audio_def drain_barge_def
lemmas sample_defs = add_sample_def col_map_def sample_def turnDone_def collector_fail_def

interpretation uplink: caller_invariant "uplink_ok out0 n0 cfg" for out0 n0 cfg
proof unfold_locales
  fix w pcm cd ob w' e
  show "uplink_ok out0 n0 cfg w \<Longrightarrow> pcm \<in> {lc_speechPCM (wk_cfg w), lc_silencePCM (wk_cfg w)} \<Longrightarrow>
    sendAudio cd pcm ob w = (w', e) \<Longrightarrow> uplink_ok out0 n0 cfg w'" by (rule uplink_send)
qed (auto elim!: uplink_ok_fields [rotated 5] simp: channel_defs sample_defs split: sampleKind.splits)

text \<open>The channels stay within their capacities.\<close>

definition channels_ok :: "worker \<Rightarrow> bool" where
  "channels_ok w \<longleftrightarrow> length (dn_audioC (wk_dl w)) \<le> 8 \<and> length (dn_bargeC (wk_dl w)) \<le> 4 \<and> length (dn_errC (wk_dl w)) \<le> 1"

lemma readLoop_bounds:
  "length (dn_audioC d) \<le> 8 \<and> length (dn_bargeC d) \<le> 4 \<and> length (dn_errC d) \<le> 1 \<Longrightarrow>
   length (dn_audioC (readLoop_inputs cd ms d)) \<le> 8 \<and> length (dn_bargeC (readLoop_inputs cd ms d)) \<le> 4 \<and>
   length (dn_errC (readLoop_inputs cd ms d)) \<le> 1"
proof (induction ms rule: rev_induct)
  case (snoc m ms)
  obtain now i where m: "m = (now, i)" by force
  have "length (dn_audioC d) \<le> 8 \<and> length (dn_bargeC d) \<le> 4 \<and> length (dn_errC d) \<le> 1 \<Longrightarrow>
      length (dn_audioC (readLoop_input cd now i d)) \<le> 8 \<and> length (dn_bargeC (readLoop_input cd now i d)) \<le> 4 \<and>
      length (dn_errC (readLoop_input cd now i d)) \<le> 1" for d
    by (auto simp: readLoop_input_def downlink_fail_def chan_offer_length
        split: dl_input.splits sum.splits option.splits ControlKind.splits)
  with snoc show ?case by (simp add: readLoop_inputs_def m)
qed (simp add: readLoop_inputs_def)

interpretation chans: caller_invariant channels_ok
proof unfold_locales
  fix w pcm cd ob w' e
  assume "channels_ok w" "sendAudio cd pcm ob w = (w', e)"
  then show "channels_ok w'"
    using sendAudio_fields [of cd pcm ob w w' e] readLoop_bounds [of "wk_dl w" cd "ob_msgs ob"] by (simp add: channels_ok_def)
qed (auto simp: channels_ok_def channel_defs sample_defs split: sampleKind.splits)

lemma connect_fields:
  assumes "connect cd dial_ok write_ok replies (newWorker i cfg col) = Some (w, r)"
  shows "wk_cfg w = cfg \<and> wk_dl w = newDownlink \<and> wk_col w = col \<and> wk_seq w = 0 \<and> wk_tsUs w = 0 \<and>
    wk_out w = (case start_frame cd of Some f \<Rightarrow> if dial_ok \<and> write_ok \<and> \<not> isl (MarshalBinary f) then [encoded f] else [] | None \<Rightarrow> [])"
  using assms
  by (auto simp: connect_def newWorker_def worker_writeFrame_def encoded_def split: option.splits sum.splits werr.splits if_splits)

text \<open>
  The uplink of a caller: whatever arrives, however late it runs and whichever waits and writes fail,
  a caller's life writes at most its START and then audio frames only, of speech or of silence, whose
  numbers ascend and whose time stamp is the frame's number times the nominal duration; the
  collector counts exactly these, and once the caller has left; no channel exceeds its capacity.
\<close>

theorem caller_stream:
  assumes "worker_run cd slept dial_ok write_ok ctx_done replies its (newWorker i cfg col) = Some w"
  shows "\<exists>start kps. length start \<le> 1 \<and>
    wk_out w = start @ map (\<lambda>(k, pcm). encoded (uplink_frame cfg k pcm)) kps \<and>
    sorted_wrt (<) (map fst kps) \<and> snd ` set kps \<subseteq> {lc_speechPCM cfg, lc_silencePCM cfg} \<and>
    co_framesSent (wk_col w) = co_framesSent col + word_of_nat (length kps) \<and> channels_ok w"
proof -
  let ?w0 = "newWorker i cfg col"
  have base: "uplink_ok (wk_out w1) (co_framesSent col) cfg w1 \<and> channels_ok w1"
    if "wk_cfg w1 = cfg" "wk_dl w1 = newDownlink" "co_framesSent (wk_col w1) = co_framesSent col" "wk_seq w1 = 0" "wk_tsUs w1 = 0" for w1
    using that unfolding uplink_ok_def
    by (auto simp: channels_ok_def newDownlink_def intro!: exI [of _ "[]"] exI [of _ 0])
  obtain v where v: "w = col_map workerExit v"
    "\<exists>start. length start \<le> 1 \<and> uplink_ok start (co_framesSent col) cfg v \<and> channels_ok v"
  proof (cases slept)
    case False
    then have "w = col_map workerExit ?w0" using assms by (simp add: worker_run_def)
    moreover have "uplink_ok (wk_out ?w0) (co_framesSent col) cfg ?w0 \<and> channels_ok ?w0"
      by (rule base) (simp_all add: newWorker_def)
    moreover have "length (wk_out ?w0) \<le> 1" by (simp add: newWorker_def)
    ultimately show ?thesis using that by blast
  next
    case True
    obtain w1 r where c: "connect cd dial_ok write_ok replies ?w0 = Some (w1, r)"
      using assms True by (auto simp: worker_run_def split: option.splits)
    note f = connect_fields [OF c]
    have len: "length (wk_out w1) \<le> 1" using f by (auto split: option.splits)
    let ?w2 = "w1\<lparr>wk_clk := newClock (lc_FrameInterval (wk_cfg w1)) (netemFor (wk_id w1) (lc_Netem (wk_cfg w1)))\<rparr>"
    have b: "uplink_ok (wk_out w1) (co_framesSent col) cfg ?w2 \<and> channels_ok ?w2" using base [of ?w2] f by simp
    have b1: "uplink_ok (wk_out w1) (co_framesSent col) cfg w1 \<and> channels_ok w1" using base [of w1] f by simp
    show ?thesis
    proof (cases r)
      case (Some e)
      then have "w = col_map workerExit (if ctx_done then w1 else col_map collector_fail w1)"
        using assms True c by (simp add: worker_run_def)
      then show ?thesis using that b1 len uplink.samples(3) chans.samples(3) by (metis (full_types))
    next
      case None
      then obtain v where "worker_turns cd its 0 ?w2 = Some v" "w = col_map workerExit v"
        using assms True c by (auto simp: worker_run_def)
      then show ?thesis using that [of v] b len uplink.turns_keep chans.turns_keep by blast
    qed
  qed
  have "channels_ok w" "wk_out w = wk_out v" "co_framesSent (wk_col w) = co_framesSent (wk_col v)"
    using v by (auto simp: channels_ok_def col_map_def workerExit_def)
  with v(2) show ?thesis unfolding uplink_ok_def by fastforce
qed

section \<open>What a turn measures\<close>

text \<open>The phases themselves report nothing.\<close>

definition same_reports :: "worker \<Rightarrow> worker \<Rightarrow> bool" where
  "same_reports w0 w \<longleftrightarrow> wk_cfg w = wk_cfg w0 \<and> co_measuring (wk_col w) = co_measuring (wk_col w0) \<and>
     co_first (wk_col w) = co_first (wk_col w0) \<and> co_barge (wk_col w) = co_barge (wk_col w0)"

interpretation silent: sender_invariant "same_reports w0" for w0
proof unfold_locales
  fix w pcm cd ob w' e
  assume "same_reports w0 w" "sendAudio cd pcm ob w = (w', e)"
  then show "same_reports w0 w'"
    using sendAudio_fields [of cd pcm ob w w' e]
    by (auto simp: same_reports_def frame_sent_def split: if_splits sum.splits)
qed (auto simp: same_reports_def channel_defs)

lemma same_reports_refl: "same_reports w w"
  by (simp add: same_reports_def)

lemma phase_bind_Inr:
  assumes "phase_bind p q obs w = Some (w', Inr x, obs')"
  obtains w1 y obs1 where "p obs w = Some (w1, Inr y, obs1)" "q y obs1 w1 = Some (w', Inr x, obs')"
  using assms by (auto simp: phase_bind_def split: option.splits sum.splits)

lemma audio_loop_after: "audio_loop cd aft deadline obs w = Some (w', Inr rel, obs') \<Longrightarrow> aft \<le> rel"
proof (induction obs arbitrary: w)
  case (Cons ob obs)
  from Cons.prems show ?case
    by (auto simp: Let_def split: prod.splits option.splits selected.splits if_splits dest: Cons.IH)
qed simp

lemma audio_after: "silenceUntilAudioAfter cd aft obs w = Some (w', Inr rel, obs') \<Longrightarrow> aft \<le> rel"
  by (cases obs) (auto dest: audio_loop_after)

lemma barge_loop_after: "barge_loop cd aft deadline obs w = Some (w', Inr rel, obs') \<Longrightarrow> aft \<le> rel"
proof (induction obs arbitrary: w)
  case (Cons ob obs)
  from Cons.prems show ?case
    by (auto simp: Let_def split: prod.splits option.splits selected.splits if_splits dest: Cons.IH)
qed simp

lemma barge_after: "awaitBarge cd aft obs w = Some (w', Inr rel, obs') \<Longrightarrow> aft \<le> rel"
  by (cases obs) (auto dest: barge_loop_after)

lemma ask_result:
  assumes "ask cd obs w = Some (w', Inr (), obs')"
  shows "\<exists>w1 spoke resp. same_reports w w1 \<and> spoke \<le> resp \<and> w' = add_sample sampleFirst (time_sub resp spoke) w1"
proof -
  from assms obtain w1 obs1 w2 resp obs2 where s: "speak cd (speech_frames w) obs w = Some (w1, Inr (), obs1)"
    and a: "silenceUntilAudioAfter cd (ck_lastIdeal (wk_clk w1)) obs1 w1 = Some (w2, Inr resp, obs2)"
    and w': "w' = add_sample sampleFirst (time_sub resp (ck_lastIdeal (wk_clk w1))) w2"
    unfolding ask_def by (auto simp: phase_get_def phase_do_def elim!: phase_bind_Inr)
  have "same_reports w w2"
    using keepsD [OF silent.keeps_phases(1) keepsD [OF silent.keeps_speak same_reports_refl s] a] .
  with audio_after [OF a] w' show ?thesis by blast
qed

lemma interrupt_result:
  assumes "interrupt cd obs w = Some (w', Inr (), obs')"
  shows "\<exists>w1 w2 start stopped spoke resp. same_reports w w1 \<and> start \<le> stopped \<and> stopped \<le> resp \<and>
    same_reports (add_sample sampleBarge (time_sub stopped start) w1) w2 \<and> w' = add_sample sampleFirst (time_sub resp spoke) w2"
proof -
  from assms obtain w1 obs1 w2 start obs2 w3 obs3 w4 stopped obs4 w5 resp obs5 where
    a: "silenceFor cd (lc_BargeDelay (wk_cfg w)) obs w = Some (w1, Inr (), obs1)"
    and b: "open_mouth obs1 (drain_barge w1) = Some (w2, Inr start, obs2)"
    and c: "speak cd (speech_frames w2) obs2 w2 = Some (w3, Inr (), obs3)"
    and d: "awaitBarge cd start obs3 w3 = Some (w4, Inr stopped, obs4)"
    and e: "silenceUntilAudioAfter cd stopped obs4 (add_sample sampleBarge (time_sub stopped start) w4) = Some (w5, Inr resp, obs5)"
    and w': "w' = add_sample sampleFirst (time_sub resp (ck_lastIdeal (wk_clk w3))) w5"
    unfolding interrupt_def by (auto simp: phase_get_def phase_do_def elim!: phase_bind_Inr)
  have "same_reports w w1" using keepsD [OF silent.keeps_phases(2) same_reports_refl a] .
  then have "same_reports w w2" using keepsD [OF silent.keeps_phases(5) silent.channels(5) b] by blast
  then have "same_reports w w4" using keepsD [OF silent.keeps_phases(3) keepsD [OF silent.keeps_speak _ c] d] by blast
  moreover have "same_reports (add_sample sampleBarge (time_sub stopped start) w4) w5"
    using keepsD [OF silent.keeps_phases(1) same_reports_refl e] .
  ultimately show ?thesis using barge_after [OF d] audio_after [OF e] w' by blast
qed


text \<open>A caller of three-frame utterances, 20 ns apart, and a codec that knows BARGE_IN.\<close>

definition quick_config :: LoadConfig where
  "quick_config = demo_config\<lparr>lc_SpeechFrames := 3, lc_FrameInterval := 20, lc_FrameDuration := 20000, lc_BargeEvery := 1,
     lc_QuietGap := 100, lc_TurnTimeout := 1000\<rparr>"

definition barge_codec :: codec where
  "barge_codec = demo_codec\<lparr>cd_uncontrol := (\<lambda>bs. if bs = [3] then Some (control_of KIND_BARGE_IN) else None)\<rparr>"

definition wire :: "u32 \<Rightarrow> u8 list \<Rightarrow> dl_input" where
  "wire typ payload = InMessage True (encoded \<lparr>frame_type = typ, frame_seq = 1, frame_ts = 0, frame_payload = payload\<rparr>)"

definition seen :: "(instant \<times> dl_input) list \<Rightarrow> instant \<Rightarrow> obs" where
  "seen ms now = \<lparr>ob_msgs = ms, ob_send = 1000, ob_draw = 0, ob_wait = True, ob_write = True, ob_pick_err = False,
     ob_now = now, ob_now2 = now\<rparr>"

text \<open>The caller by what its turns depend on; \<open>rest\<close> is the rest: sequence number, time stamp, output, frames sent.\<close>

definition quick :: "downlink \<Rightarrow> instant \<Rightarrow> instant \<Rightarrow> real list \<Rightarrow> real list \<Rightarrow> u64 \<times> int \<times> u8 list list \<times> u64 \<Rightarrow> worker" where
  "quick d nxt lst fs bs rest =
     \<lparr>wk_id = 0, wk_cfg = quick_config,
      wk_col = newCollector\<lparr>co_measuring := True, co_first := fs, co_barge := bs, co_framesSent := snd (snd (snd rest))\<rparr>,
      wk_dl = d, wk_clk = \<lparr>ck_interval = 20, ck_next = nxt, ck_lastIdeal = lst, ck_sh = None\<rparr>,
      wk_seq = fst rest, wk_tsUs = fst (snd rest), wk_out = fst (snd (snd rest))\<rparr>"

definition bump :: "u64 \<times> int \<times> u8 list list \<times> u64 \<Rightarrow> u64 \<times> int \<times> u8 list list \<times> u64" where
  "bump r = (case r of (sq, ts, out, n) \<Rightarrow> (sq + 1, wrap_int (ts + frameNominalUs quick_config),
     out @ [encoded \<lparr>frame_type = FRAME_TYPE_AUDIO, frame_seq = sq + 1, frame_ts = word_of_int ts, frame_payload = []\<rparr>], n + 1))"

lemma decode_encoded:
  assumes "length (frame_payload f) \<le> MaxPayload \<and> unat (frame_type f) < 256"
  shows "Decode (encoded f) = Inr f"
  using frame_decodes [of f] assms by (auto simp: encoded_def)

lemma payload_fits:
  "length (frame_payload \<lparr>frame_type = FRAME_TYPE_AUDIO, frame_seq = 1, frame_ts = 0, frame_payload = []\<rparr>) \<le> MaxPayload \<and>
   unat (frame_type \<lparr>frame_type = FRAME_TYPE_AUDIO, frame_seq = 1, frame_ts = 0, frame_payload = []\<rparr>) < 256"
  "length (frame_payload \<lparr>frame_type = FRAME_TYPE_CONTROL, frame_seq = 1, frame_ts = 0, frame_payload = [3]\<rparr>) \<le> MaxPayload \<and>
   unat (frame_type \<lparr>frame_type = FRAME_TYPE_CONTROL, frame_seq = 1, frame_ts = 0, frame_payload = [3]\<rparr>) < 256"
  by (simp_all add: MaxPayload_def)

lemma decode_wire:
  "readLoop_input barge_codec now (wire FRAME_TYPE_AUDIO []) d =
     (if dn_reading d then d\<lparr>dn_lastAudioNs := wrap_int now, dn_audioC := fst (chan_offer 8 now (dn_audioC d))\<rparr> else d)"
  "readLoop_input barge_codec now (wire FRAME_TYPE_CONTROL [3]) d =
     (if dn_reading d then d\<lparr>dn_bargeC := fst (chan_offer 4 now (dn_bargeC d))\<rparr> else d)"
  by (simp_all add: wire_def readLoop_input_def decode_encoded [OF payload_fits(1)] decode_encoded [OF payload_fits(2)]
      barge_codec_def control_of_def)

lemma send_quick [simp]:
  "0 < nxt \<or> nxt = zero_time \<Longrightarrow> sendAudio cd [] (seen ms now) (quick d nxt lst fs bs r) =
     (let t = (if nxt = zero_time then 1000 else nxt) in
      (quick (readLoop_inputs cd ms d) (t + 20) t fs bs (bump r), None))"
  by (cases r) (auto simp: sendAudio_def quick_def bump_def seen_def worker_writeFrame_def MarshalBinary_def AppendBinary_def encoded_def
      clock_wait_def frame_sent_def zero_time_def Let_def)

lemma seen_fields [simp]: "ob_now (seen ms now) = now" "ob_now2 (seen ms now) = now" "ob_pick_err (seen ms now) = False"
  by (simp_all add: seen_def)

lemma quick_fields [simp]: "wk_dl (quick d nxt lst fs bs r) = d" "wk_cfg (quick d nxt lst fs bs r) = quick_config"
  "ck_lastIdeal (wk_clk (quick d nxt lst fs bs r)) = lst"
  "peekIdeal now (wk_clk (quick d nxt lst fs bs r)) = (if nxt = zero_time then now else nxt)"
  "take_audio (quick d nxt lst fs bs r) = quick (d\<lparr>dn_audioC := tl (dn_audioC d)\<rparr>) nxt lst fs bs r"
  "take_barge (quick d nxt lst fs bs r) = quick (d\<lparr>dn_bargeC := tl (dn_bargeC d)\<rparr>) nxt lst fs bs r"
  "drain_audio (quick d nxt lst fs bs r) = quick (d\<lparr>dn_audioC := []\<rparr>) nxt lst fs bs r"
  "drain_barge (quick d nxt lst fs bs r) = quick (d\<lparr>dn_bargeC := []\<rparr>) nxt lst fs bs r"
  "add_sample sampleFirst s (quick d nxt lst fs bs r) = quick d nxt lst (fs @ [seconds_of s]) bs r"
  "add_sample sampleBarge s (quick d nxt lst fs bs r) = quick d nxt lst fs (bs @ [seconds_of s]) r"
  by (simp_all add: quick_def channel_defs sample_defs peekIdeal_def newCollector_def)

lemma quick_config_fields [simp]: "lc_speechPCM quick_config = []" "lc_silencePCM quick_config = []"
  "lc_TurnTimeout quick_config = 1000" "lc_QuietGap quick_config = 100" "lc_BargeDelay quick_config = 0"
  "speech_frames (quick d nxt lst fs bs r) = Suc (Suc (Suc 0))"
  by (simp_all add: quick_config_def demo_config_def speech_frames_def quick_def eval_nat_numeral)

definition quiet_dl :: "int \<Rightarrow> instant list \<Rightarrow> instant list \<Rightarrow> downlink" where
  "quiet_dl t as bs = \<lparr>dn_lastAudioNs = t, dn_audioC = as, dn_bargeC = bs, dn_errC = [], dn_reading = True\<rparr>"

lemma quiet_dl_simps [simp]:
  "dn_audioC (quiet_dl t as bs) = as" "dn_bargeC (quiet_dl t as bs) = bs" "dn_errC (quiet_dl t as bs) = []"
  "dn_lastAudioNs (quiet_dl t as bs) = t"
  "(quiet_dl t as bs)\<lparr>dn_audioC := as'\<rparr> = quiet_dl t as' bs" "(quiet_dl t as bs)\<lparr>dn_bargeC := bs'\<rparr> = quiet_dl t as bs'"
  "readLoop_inputs cd [] d = d"
  "readLoop_inputs barge_codec ((now, wire FRAME_TYPE_AUDIO []) # ms) (quiet_dl t as bs) =
     readLoop_inputs barge_codec ms (quiet_dl (wrap_int now) (fst (chan_offer 8 now as)) bs)"
  "readLoop_inputs barge_codec ((now, wire FRAME_TYPE_CONTROL [3]) # ms) (quiet_dl t as bs) =
     readLoop_inputs barge_codec ms (quiet_dl t as (fst (chan_offer 4 now bs)))"
  by (simp_all add: quiet_dl_def readLoop_inputs_def decode_wire)

definition ask_story :: "obs list" where
  "ask_story = [seen [] 0, seen [] 0, seen [] 0, seen [] 1041, seen [(1070, wire FRAME_TYPE_AUDIO [])] 1071]"

lemma ask_quick:
  "ask barge_codec (ask_story @ obs) (quick (quiet_dl 0 [] []) zero_time zero_time [] [] r) =
     Some (quick (quiet_dl 1070 [] []) 1080 1060 [seconds_of 30] [] (bump (bump (bump (bump r)))), Inr (), obs)"
  by (simp add: ask_def ask_story_def phase_bind_def phase_get_def phase_do_def chan_offer_def select_dl_def time_sub_def
      wrap_int_def zero_time_def)

definition interrupt_story :: "obs list" where
  "interrupt_story = [seen [] 1072, seen [] 1072, seen [] 1073,
     seen [] 0, seen [(1105, wire FRAME_TYPE_CONTROL [3]), (1106, wire FRAME_TYPE_AUDIO [])] 0, seen [] 0,
     seen [] 1121, seen [] 1122, seen [] 1123, seen [] 1141]"

lemma interrupt_quick:
  "interrupt barge_codec (interrupt_story @ obs) (quick (quiet_dl 1070 [] []) 1080 1060 fs [] r) =
     Some (quick (quiet_dl 1106 [] []) 1160 1140 (fs @ [seconds_of (- 14)]) [seconds_of 25] (bump (bump (bump (bump r)))), Inr (), obs)"
  by (simp add: interrupt_def interrupt_story_def phase_bind_def phase_get_def phase_do_def chan_offer_def select_dl_def time_sub_def
      wrap_int_def zero_time_def)

definition quick_start :: worker where
  "quick_start = quick (quiet_dl 0 [] []) zero_time zero_time [] [] (0, 0, [], 0)"

definition barge_story :: "obs list" where
  "barge_story = ask_story @ interrupt_story @ [seen [] 1142, seen [] 2000]"

lemma quick_turn:
  "\<exists>w'. worker_turn barge_codec True barge_story quick_start = Some (w', Inr (), []) \<and>
     co_first (wk_col w') = [seconds_of 30, seconds_of (- 14)] \<and> co_barge (wk_col w') = [seconds_of 25]"
proof -
  have "worker_turn barge_codec True barge_story quick_start =
      silenceUntilQuiet barge_codec [seen [] 1142, seen [] 2000]
        (quick (quiet_dl 1106 [] []) 1160 1140 [seconds_of 30, seconds_of (- 14)] [seconds_of 25] ((bump ^^ 8) (0, 0, [], 0)))"
    unfolding worker_turn_def barge_story_def quick_start_def
    by (simp add: phase_bind_def ask_quick interrupt_quick eval_nat_numeral)
  also have "\<dots> = Some (quick (quiet_dl 1106 [] []) 1180 1160 [seconds_of 30, seconds_of (- 14)] [seconds_of 25]
      (bump ((bump ^^ 8) (0, 0, [], 0))), Inr (), [])"
    by (simp add: time_sub_def zero_time_def)
  finally show ?thesis by (auto simp: quick_def newCollector_def)
qed


text \<open>A caller that is refused writes its START only; it has left.\<close>

theorem caller_stream_witness:
  "\<exists>w start. worker_run barge_codec True True True False [wire FRAME_TYPE_CONTROL [3]] [] (newWorker 7 quick_config newCollector) = Some w \<and>
     wk_out w = start \<and> length start \<le> 1 \<and> channels_ok w \<and> co_live (wk_col w) = - 1"
proof -
  have start: "start_frame barge_codec = Some \<lparr>frame_type = FRAME_TYPE_CONTROL, frame_seq = 0, frame_ts = 0, frame_payload = []\<rparr>"
    by (simp add: start_frame_def barge_codec_def demo_codec_def)
  have "Decode (encoded \<lparr>frame_type = FRAME_TYPE_CONTROL, frame_seq = 1, frame_ts = 0, frame_payload = [3]\<rparr>) =
      Inr \<lparr>frame_type = FRAME_TYPE_CONTROL, frame_seq = 1, frame_ts = 0, frame_payload = [3]\<rparr>"
    by (rule decode_encoded [OF payload_fits(2)])
  then have reply: "await_start barge_codec [wire FRAME_TYPE_CONTROL [3]] = Some (Some (HandshakeRejected KIND_BARGE_IN []))"
    by (simp add: wire_def barge_codec_def control_of_def)
  obtain w where w: "worker_run barge_codec True True True False [wire FRAME_TYPE_CONTROL [3]] [] (newWorker 7 quick_config newCollector) = Some w"
    "co_framesSent (wk_col w) = 0" "co_live (wk_col w) = - 1" "length (wk_out w) = 1"
    by (simp add: worker_run_def connect_def start worker_writeFrame_def MarshalBinary_def AppendBinary_def reply newWorker_def
        newCollector_def col_map_def workerExit_def collector_fail_def)
  from caller_stream [OF w(1)] w show ?thesis by auto
qed

end
