(* ===== verification/Json.thy ===== *)
theory Json
  imports Adapter
begin

text \<open>
  What the program uses of \<open>encoding/json\<close>: values as \<open>Marshal\<close> prints them (compact, HTML characters
  escaped) and as \<open>Unmarshal\<close> reads them before it stores them in a struct. Text is the list of its
  code points (\<open>Adapter\<close>); the decoding of UTF-8, which \<open>Marshal\<close> applies to Go strings, is here too. A
  number is kept as its literal.
\<close>

section \<open>UTF-8\<close>

definition cont_byte :: "nat \<Rightarrow> bool" where
  "cont_byte b \<longleftrightarrow> 0x80 \<le> b \<and> b \<le> 0xBF"

text \<open>The second byte of a sequence, by its first byte: the range that excludes overlong forms, surrogates and
  values above \<open>0x10FFFF\<close>.\<close>

definition second_byte :: "nat \<Rightarrow> nat \<Rightarrow> bool" where
  "second_byte b0 b1 \<longleftrightarrow>
     (if b0 = 0xE0 then 0xA0 else if b0 = 0xF0 then 0x90 else 0x80) \<le> b1 \<and>
     b1 \<le> (if b0 = 0xED then 0x9F else if b0 = 0xF4 then 0x8F else 0xBF)"

fun utf8_runes :: "nat list \<Rightarrow> runes" where
  "utf8_runes [] = []"
| "utf8_runes (b0 # bs) =
     (if b0 < 0x80 then b0 # utf8_runes bs
      else if 0xC2 \<le> b0 \<and> b0 \<le> 0xDF then
        (case bs of
           b1 # rest \<Rightarrow> if cont_byte b1 then ((b0 - 0xC0) * 64 + (b1 - 0x80)) # utf8_runes rest else 0xFFFD # utf8_runes bs
         | _ \<Rightarrow> 0xFFFD # utf8_runes bs)
      else if 0xE0 \<le> b0 \<and> b0 \<le> 0xEF then
        (case bs of
           b1 # b2 # rest \<Rightarrow>
             if second_byte b0 b1 \<and> cont_byte b2
             then ((b0 - 0xE0) * 4096 + (b1 - 0x80) * 64 + (b2 - 0x80)) # utf8_runes rest else 0xFFFD # utf8_runes bs
         | _ \<Rightarrow> 0xFFFD # utf8_runes bs)
      else if 0xF0 \<le> b0 \<and> b0 \<le> 0xF4 then
        (case bs of
           b1 # b2 # b3 # rest \<Rightarrow>
             if second_byte b0 b1 \<and> cont_byte b2 \<and> cont_byte b3
             then ((b0 - 0xF0) * 262144 + (b1 - 0x80) * 4096 + (b2 - 0x80) * 64 + (b3 - 0x80)) # utf8_runes rest
             else 0xFFFD # utf8_runes bs
         | _ \<Rightarrow> 0xFFFD # utf8_runes bs)
      else 0xFFFD # utf8_runes bs)"

definition text_of :: "string \<Rightarrow> runes" where
  "text_of s = utf8_runes (map of_char s)"

section \<open>Values\<close>

datatype json =
    JNull
  | JBool bool
  | JNum runes
  | JStr runes
  | JArr "json list"
  | JObj "(runes \<times> json) list"

section \<open>Printing\<close>

definition hex_digit :: "nat \<Rightarrow> nat" where
  "hex_digit n = (if n < 10 then 48 + n else 87 + n)"

definition u_escape :: "nat \<Rightarrow> runes" where
  "u_escape c = [92, 117, hex_digit (c div 4096), hex_digit (c div 256 mod 16), hex_digit (c div 16 mod 16), hex_digit (c mod 16)]"

definition quote_rune :: "nat \<Rightarrow> runes" where
  "quote_rune c =
     (if c = 34 then [92, 34] else if c = 92 then [92, 92]
      else if c = 8 then [92, 98] else if c = 12 then [92, 102] else if c = 10 then [92, 110]
      else if c = 13 then [92, 114] else if c = 9 then [92, 116]
      else if c < 32 \<or> c = 60 \<or> c = 62 \<or> c = 38 \<or> c = 0x2028 \<or> c = 0x2029 then u_escape c
      else [c])"

definition quote_text :: "runes \<Rightarrow> runes" where
  "quote_text s = 34 # concat (map quote_rune s) @ [34]"

fun Marshal :: "json \<Rightarrow> runes" where
  "Marshal JNull = runes_of ''null''"
| "Marshal (JBool b) = runes_of (if b then ''true'' else ''false'')"
| "Marshal (JNum s) = s"
| "Marshal (JStr s) = quote_text s"
| "Marshal (JArr vs) = 91 # Join (map Marshal vs) [44] @ [93]"
| "Marshal (JObj ms) = 123 # Join (map (\<lambda>(k, v). quote_text k @ 58 # Marshal v) ms) [44] @ [125]"

section \<open>Reading\<close>

definition json_space :: "nat \<Rightarrow> bool" where
  "json_space r \<longleftrightarrow> r = 32 \<or> r = 9 \<or> r = 13 \<or> r = 10"

definition skip :: "runes \<Rightarrow> runes" where
  "skip s = dropWhile json_space s"

definition hex_value :: "nat \<Rightarrow> nat option" where
  "hex_value c =
     (if 48 \<le> c \<and> c \<le> 57 then Some (c - 48)
      else if 97 \<le> c \<and> c \<le> 102 then Some (c - 87)
      else if 65 \<le> c \<and> c \<le> 70 then Some (c - 55) else None)"

fun hex4 :: "runes \<Rightarrow> (nat \<times> runes) option" where
  "hex4 (a # b # c # d # rest) =
     (case (hex_value a, hex_value b, hex_value c, hex_value d) of
        (Some x, Some y, Some z, Some w) \<Rightarrow> Some (x * 4096 + y * 256 + z * 16 + w, rest)
      | _ \<Rightarrow> None)"
| "hex4 _ = None"

text \<open>The rune of \<open>\u\<close> escapes: a surrogate pair takes two, an unpaired surrogate is U+FFFD.\<close>

definition u_rune :: "nat \<Rightarrow> runes \<Rightarrow> nat \<times> runes" where
  "u_rune v rest =
     (if 0xD800 \<le> v \<and> v < 0xE000 then
        (case rest of
           b # u # hs \<Rightarrow>
             (case (if b = 92 \<and> u = 117 then hex4 hs else None) of
                Some (v2, rest2) \<Rightarrow>
                  if v < 0xDC00 \<and> 0xDC00 \<le> v2 \<and> v2 < 0xE000
                  then ((v - 0xD800) * 1024 + (v2 - 0xDC00) + 0x10000, rest2) else (0xFFFD, rest)
              | None \<Rightarrow> (0xFFFD, rest))
         | _ \<Rightarrow> (0xFFFD, rest))
      else (v, rest))"

definition escape_rune :: "nat \<Rightarrow> nat option" where
  "escape_rune e =
     (if e = 34 \<or> e = 92 \<or> e = 47 then Some e else if e = 98 then Some 8 else if e = 102 then Some 12
      else if e = 110 then Some 10 else if e = 114 then Some 13 else if e = 116 then Some 9 else None)"

lemma hex4_shorter: "hex4 s = Some (v, rest) \<Longrightarrow> length rest < length s"
  by (induction s rule: hex4.induct) (auto split: option.splits)

lemma u_rune_le: "length (snd (u_rune v rest)) \<le> length rest"
proof -
  have "hex4 hs = Some (v2, rest2) \<Longrightarrow> length rest2 \<le> Suc (Suc (length hs))" for hs v2 rest2
    using hex4_shorter [of hs v2 rest2] by simp
  then show ?thesis by (auto simp: u_rune_def split: list.splits option.splits if_splits)
qed

text \<open>The characters of a string literal after its opening quote, and what follows the closing one.\<close>

function lex_text :: "runes \<Rightarrow> (runes \<times> runes) option" where
  "lex_text s = (case s of
     [] \<Rightarrow> None
   | c # cs \<Rightarrow>
       if c = 34 then Some ([], cs)
       else if c = 92 then
         (case cs of
            [] \<Rightarrow> None
          | e # es \<Rightarrow>
              if e = 117 then
                (case hex4 es of
                   None \<Rightarrow> None
                 | Some (v, rest) \<Rightarrow> map_option (apfst ((#) (fst (u_rune v rest)))) (lex_text (snd (u_rune v rest))))
              else (case escape_rune e of
                      None \<Rightarrow> None
                    | Some r \<Rightarrow> map_option (apfst ((#) r)) (lex_text es)))
       else if c < 32 then None
       else map_option (apfst ((#) c)) (lex_text cs))"
  by auto

termination
  by (relation "measure length", simp_all) (metis hex4_shorter le_less_trans less_SucI u_rune_le)

declare lex_text.simps [simp del]

definition is_num :: "nat \<Rightarrow> bool" where
  "is_num c \<longleftrightarrow> 48 \<le> c \<and> c \<le> 57"

text \<open>Digits, at least one; and none.\<close>

definition digits1 :: "runes \<Rightarrow> (runes \<times> runes) option" where
  "digits1 s = (if takeWhile is_num s = [] then None else Some (takeWhile is_num s, dropWhile is_num s))"

definition lex_int :: "runes \<Rightarrow> (runes \<times> runes) option" where
  "lex_int s = (case s of
     [] \<Rightarrow> None
   | c # cs \<Rightarrow> if c = 48 then Some ([48], cs) else digits1 s)"

definition lex_frac :: "runes \<Rightarrow> (runes \<times> runes) option" where
  "lex_frac s = (case s of
     [] \<Rightarrow> Some ([], [])
   | c # cs \<Rightarrow> if c = 46 then map_option (apfst ((#) 46)) (digits1 cs) else Some ([], s))"

definition lex_exp :: "runes \<Rightarrow> (runes \<times> runes) option" where
  "lex_exp s = (case s of
     [] \<Rightarrow> Some ([], [])
   | c # cs \<Rightarrow>
       if c = 101 \<or> c = 69 then
         (case cs of
            [] \<Rightarrow> None
          | d # ds \<Rightarrow> if d = 43 \<or> d = 45 then map_option (apfst (\<lambda>t. c # d # t)) (digits1 ds)
                     else map_option (apfst ((#) c)) (digits1 cs))
       else Some ([], s))"

definition lex_sign :: "runes \<Rightarrow> runes \<times> runes" where
  "lex_sign s = (case s of [] \<Rightarrow> ([], []) | c # cs \<Rightarrow> if c = 45 then ([45], cs) else ([], s))"

definition lex_number :: "runes \<Rightarrow> (runes \<times> runes) option" where
  "lex_number s =
     (case lex_sign s of (sg, s0) \<Rightarrow>
        Option.bind (lex_int s0) (\<lambda>(i, s1).
        Option.bind (lex_frac s1) (\<lambda>(f, s2).
        Option.bind (lex_exp s2) (\<lambda>(e, s3). Some (sg @ i @ f @ e, s3)))))"

text \<open>A literal name.\<close>

definition lex_name :: "string \<Rightarrow> json \<Rightarrow> runes \<Rightarrow> (json \<times> runes) option" where
  "lex_name n v s = (if take (length n) s = runes_of n then Some (v, drop (length n) s) else None)"

definition parse_scalar :: "runes \<Rightarrow> (json \<times> runes) option" where
  "parse_scalar s = (case s of
     [] \<Rightarrow> None
   | c # cs \<Rightarrow>
       if c = 34 then map_option (apfst JStr) (lex_text cs)
       else if c = 110 then lex_name ''null'' JNull s
       else if c = 116 then lex_name ''true'' (JBool True) s
       else if c = 102 then lex_name ''false'' (JBool False) s
       else map_option (apfst JNum) (lex_number s))"

text \<open>
  Recursive descent. The fuel is a number of nested or successive values and members; one more than the
  length of the input is enough (\<open>parse_fuel\<close> below).
\<close>

fun parse_value :: "nat \<Rightarrow> runes \<Rightarrow> (json \<times> runes) option"
and parse_elems :: "nat \<Rightarrow> runes \<Rightarrow> (json list \<times> runes) option"
and parse_members :: "nat \<Rightarrow> runes \<Rightarrow> ((runes \<times> json) list \<times> runes) option" where
  "parse_value 0 s = None"
| "parse_value (Suc n) s = (case skip s of
     [] \<Rightarrow> None
   | c # cs \<Rightarrow>
       if c = 91 then
         (case skip cs of
            [] \<Rightarrow> None
          | d # ds \<Rightarrow> if d = 93 then Some (JArr [], ds) else map_option (apfst JArr) (parse_elems n cs))
       else if c = 123 then
         (case skip cs of
            [] \<Rightarrow> None
          | d # ds \<Rightarrow> if d = 125 then Some (JObj [], ds) else map_option (apfst JObj) (parse_members n cs))
       else parse_scalar (c # cs))"
| "parse_elems 0 s = None"
| "parse_elems (Suc n) s =
     Option.bind (parse_value n s) (\<lambda>(v, s1).
       case skip s1 of
         [] \<Rightarrow> None
       | c # cs \<Rightarrow>
           if c = 44 then map_option (apfst ((#) v)) (parse_elems n cs)
           else if c = 93 then Some ([v], cs) else None)"
| "parse_members 0 s = None"
| "parse_members (Suc n) s = (case skip s of
     [] \<Rightarrow> None
   | q # qs \<Rightarrow>
       if q \<noteq> 34 then None
       else Option.bind (lex_text qs) (\<lambda>(k, s1).
         case skip s1 of
           [] \<Rightarrow> None
         | c # cs \<Rightarrow>
             if c \<noteq> 58 then None
             else Option.bind (parse_value n cs) (\<lambda>(v, s2).
               case skip s2 of
                 [] \<Rightarrow> None
               | d # ds \<Rightarrow>
                   if d = 44 then map_option (apfst ((#) (k, v))) (parse_members n ds)
                   else if d = 125 then Some ([(k, v)], ds) else None)))"

text \<open>The nesting the decoder accepts.\<close>

fun json_depth :: "json \<Rightarrow> nat" where
  "json_depth (JArr vs) = Suc (fold max (map json_depth vs) 0)"
| "json_depth (JObj ms) = Suc (fold max (map (\<lambda>(k, v). json_depth v) ms) 0)"
| "json_depth _ = 0"

text \<open>A whole document; \<open>None\<close> is a syntax error.\<close>

definition Unmarshal :: "runes \<Rightarrow> json option" where
  "Unmarshal s =
     (case parse_value (Suc (length s)) s of
        None \<Rightarrow> None
      | Some (v, rest) \<Rightarrow> if skip rest = [] \<and> json_depth v \<le> 10000 then Some v else None)"

section \<open>The remainder of a parse is shorter\<close>

named_theorems shorter

lemma skip_le: "length (skip s) \<le> length s"
  by (simp add: skip_def length_dropWhile_le)

lemma lex_text_simps:
  "lex_text [] = None"
  "lex_text (34 # cs) = Some ([], cs)"
  "c \<noteq> 34 \<Longrightarrow> c \<noteq> 92 \<Longrightarrow> lex_text (c # cs) = (if c < 32 then None else map_option (apfst ((#) c)) (lex_text cs))"
  "lex_text [92] = None"
  "lex_text (92 # 117 # es) = (case hex4 es of None \<Rightarrow> None
     | Some (v, rest) \<Rightarrow> map_option (apfst ((#) (fst (u_rune v rest)))) (lex_text (snd (u_rune v rest))))"
  "e \<noteq> 117 \<Longrightarrow> lex_text (92 # e # es) = (case escape_rune e of None \<Rightarrow> None
     | Some r \<Rightarrow> map_option (apfst ((#) r)) (lex_text es))"
  by (subst lex_text.simps, simp)+

lemma lex_text_shorter [shorter]: "lex_text s = Some (t, rest) \<Longrightarrow> length rest < length s"
proof (induction "length s" arbitrary: s t rest rule: less_induct)
  case less
  note IH = less.hyps and s = less.prems
  consider "s = []" | cs where "s = 34 # cs" | c cs where "s = c # cs" "c \<noteq> 34" "c \<noteq> 92" | "s = [92]"
    | es where "s = 92 # 117 # es" | e es where "s = 92 # e # es" "e \<noteq> 117"
    by (metis list.exhaust)
  then show ?case
  proof cases
    case 3
    with s obtain t1 where "lex_text cs = Some (t1, rest)" by (auto simp: lex_text_simps split: if_splits)
    from IH [OF _ this] 3 show ?thesis by simp
  next
    case 5
    with s obtain v r1 t1 where h: "hex4 es = Some (v, r1)" "lex_text (snd (u_rune v r1)) = Some (t1, rest)"
      by (auto simp: lex_text_simps split: option.splits)
    from hex4_shorter [OF h(1)] u_rune_le [of v r1] have l: "length (snd (u_rune v r1)) < length s" by (simp add: 5)
    from IH [OF l h(2)] l show ?thesis by simp
  next
    case 6
    with s obtain t1 where "lex_text es = Some (t1, rest)" by (auto simp: lex_text_simps split: option.splits)
    from IH [OF _ this] 6 show ?thesis by simp
  qed (use s in \<open>auto simp: lex_text_simps\<close>)
qed

lemma digits1_shorter: "digits1 s = Some (t, rest) \<Longrightarrow> length rest < length s \<and> t \<noteq> []"
proof -
  assume "digits1 s = Some (t, rest)"
  then have "takeWhile is_num s \<noteq> []" "t = takeWhile is_num s" "rest = dropWhile is_num s"
    by (auto simp: digits1_def split: if_splits)
  moreover from this have "length s = length t + length rest"
    by (metis length_append takeWhile_dropWhile_id)
  ultimately show ?thesis by simp
qed

lemma lex_int_shorter: "lex_int s = Some (t, rest) \<Longrightarrow> length rest < length s"
  by (auto simp: lex_int_def dest: digits1_shorter split: list.splits if_splits)

lemma lex_frac_le: "lex_frac s = Some (t, rest) \<Longrightarrow> length rest \<le> length s"
  by (fastforce simp: lex_frac_def dest: digits1_shorter split: list.splits if_splits)

lemma lex_exp_le: "lex_exp s = Some (t, rest) \<Longrightarrow> length rest \<le> length s"
  by (fastforce simp: lex_exp_def dest: digits1_shorter split: list.splits if_splits)

lemma lex_number_shorter [shorter]: "lex_number s = Some (t, rest) \<Longrightarrow> length rest < length s"
  by (fastforce simp: lex_number_def lex_sign_def bind_eq_Some_conv
      dest: lex_int_shorter lex_frac_le lex_exp_le split: list.splits if_splits)

lemma lex_name_shorter [shorter]: "lex_name n v s = Some (w, rest) \<Longrightarrow> n \<noteq> [] \<Longrightarrow> length rest < length s"
  by (cases s; cases n) (auto simp: lex_name_def runes_of_def split: if_splits)

lemma parse_scalar_shorter [shorter]: "parse_scalar s = Some (v, rest) \<Longrightarrow> length rest < length s"
  by (auto simp: parse_scalar_def dest: shorter split: list.splits if_splits)

section \<open>Fuel\<close>

text \<open>A parser needs as much fuel as it consumes characters, and more does not matter.\<close>

definition fueled :: "(nat \<Rightarrow> runes \<Rightarrow> ('a \<times> runes) option) \<Rightarrow> nat \<Rightarrow> runes \<Rightarrow> bool" where
  "fueled p n s \<longleftrightarrow> (\<forall>v r. p n s = Some (v, r) \<longrightarrow>
     length r < length s \<and> (\<forall>m \<ge> length s - length r. p m s = Some (v, r)))"

lemma fueledD:
  assumes "fueled p n s" "p n s = Some (v, r)"
  shows "length r < length s" "length s - length r \<le> m \<Longrightarrow> p m s = Some (v, r)"
  using assms by (auto simp: fueled_def)

lemma fueledI:
  assumes "\<And>v r. p n s = Some (v, r) \<Longrightarrow> length r < length s \<and> (\<forall>k \<ge> length s - Suc (length r). p (Suc k) s = Some (v, r))"
  shows "fueled p n s"
  unfolding fueled_def
proof (intro allI impI conjI)
  fix v r m assume p: "p n s = Some (v, r)" 
  show "length r < length s" using assms [OF p] by blast
  assume "length s - length r \<le> m"
  then obtain k where "m = Suc k" "length s - Suc (length r) \<le> k" using assms [OF p] by (cases m) auto
  with assms [OF p] show "p m s = Some (v, r)" by blast
qed

lemma skip_Cons_le: "skip s = c # cs \<Longrightarrow> length cs < length s"
  using skip_le [of s] by simp

lemma fueled_value:
  assumes "\<And>cs. fueled parse_elems n cs" "\<And>cs. fueled parse_members n cs"
  shows "fueled parse_value (Suc n) s"
proof (rule fueledI)
  fix v r assume v: "parse_value (Suc n) s = Some (v, r)"
  then obtain c cs where s: "skip s = c # cs" by (auto split: list.splits)
  note l = skip_Cons_le [OF s] skip_le [of s, unfolded s]
  consider "c = 91" | "c = 123" | "c \<noteq> 91" "c \<noteq> 123" by blast
  then show "length r < length s \<and> (\<forall>k \<ge> length s - Suc (length r). parse_value (Suc k) s = Some (v, r))"
  proof cases
    case 1
    with v s obtain d ds where d: "skip cs = d # ds" by (auto split: list.splits)
    show ?thesis
    proof (cases "d = 93")
      case True
      with v s 1 d l skip_Cons_le [OF d] show ?thesis by auto
    next
      case False
      with v s 1 d obtain vs where vs: "parse_elems n cs = Some (vs, r)" "v = JArr vs" by auto
      note f = fueledD [OF assms(1) vs(1)]
      with l s 1 d False vs(2) show ?thesis by auto
    qed
  next
    case 2
    with v s obtain d ds where d: "skip cs = d # ds" by (auto split: list.splits)
    show ?thesis
    proof (cases "d = 125")
      case True
      with v s 2 d l skip_Cons_le [OF d] show ?thesis by auto
    next
      case False
      with v s 2 d obtain vs where vs: "parse_members n cs = Some (vs, r)" "v = JObj vs" by auto
      note f = fueledD [OF assms(2) vs(1)]
      with l s 2 d False vs(2) show ?thesis by auto
    qed
  next
    case 3
    with v s have "parse_scalar (c # cs) = Some (v, r)" by simp
    with parse_scalar_shorter [OF this] s 3 l show ?thesis by auto
  qed
qed

lemma fueled_elems:
  assumes "\<And>cs. fueled parse_value n cs" "\<And>cs. fueled parse_elems n cs"
  shows "fueled parse_elems (Suc n) s"
proof (rule fueledI)
  fix v r assume v: "parse_elems (Suc n) s = Some (v, r)"
  then obtain x s1 where x0: "parse_value n s = Some (x, s1)" by (auto simp: bind_eq_Some_conv)
  moreover obtain c cs where "skip s1 = c # cs" using v x0 by (cases "skip s1") auto
  ultimately have x: "parse_value n s = Some (x, s1)" "skip s1 = c # cs" by blast+
  note f = fueledD [OF assms(1) x(1)] and l = skip_Cons_le [OF x(2)]
  show "length r < length s \<and> (\<forall>k \<ge> length s - Suc (length r). parse_elems (Suc k) s = Some (v, r))"
  proof (cases "c = 44")
    case True
    with v x obtain xs where xs: "parse_elems n cs = Some (xs, r)" "v = x # xs" by auto
    note g = fueledD [OF assms(2) xs(1)]
    show ?thesis using f g l x(2) True xs(2) by auto
  next
    case False
    with v x have "c = 93" "v = [x]" "cs = r" by (auto split: if_splits)
    with f l x(2) show ?thesis by auto
  qed
qed

lemma fueled_members:
  assumes "\<And>cs. fueled parse_value n cs" "\<And>cs. fueled parse_members n cs"
  shows "fueled parse_members (Suc n) s"
proof (rule fueledI)
  fix v r assume v: "parse_members (Suc n) s = Some (v, r)"
  obtain qs where x1: "skip s = 34 # qs" using v by (auto split: list.splits if_splits)
  with v obtain key s1 where x2: "lex_text qs = Some (key, s1)" by (auto simp: bind_eq_Some_conv)
  with v x1 obtain cs where x3: "skip s1 = 58 # cs" by (auto split: list.splits if_splits)
  with v x1 x2 obtain x s2 where x4: "parse_value n cs = Some (x, s2)" by (auto simp: bind_eq_Some_conv)
  moreover obtain d ds where "skip s2 = d # ds" using v x1 x2 x3 x4 by (cases "skip s2") auto
  ultimately have x: "skip s = 34 # qs" "lex_text qs = Some (key, s1)" "skip s1 = 58 # cs"
    "parse_value n cs = Some (x, s2)" "skip s2 = d # ds" using x1 x2 x3 by blast+
  note f = fueledD [OF assms(1) x(4)]
    and l = skip_Cons_le [OF x(1)] lex_text_shorter [OF x(2)] skip_Cons_le [OF x(3)] skip_Cons_le [OF x(5)]
  show "length r < length s \<and> (\<forall>k \<ge> length s - Suc (length r). parse_members (Suc k) s = Some (v, r))"
  proof (cases "d = 44")
    case True
    with v x obtain xs where xs: "parse_members n ds = Some (xs, r)" "v = (key, x) # xs" by auto
    note g = fueledD [OF assms(2) xs(1)]
    show ?thesis using f g l x True xs(2) by auto
  next
    case False
    with v x have "d = 125" "v = [(key, x)]" "ds = r" by (auto split: if_splits)
    with f l x show ?thesis by auto
  qed
qed

lemma fueled_all: "fueled parse_value n s \<and> fueled parse_elems n s \<and> fueled parse_members n s"
proof (induction n arbitrary: s)
  case 0
  show ?case by (simp add: fueled_def)
next
  case (Suc n)
  then show ?case by (simp add: fueled_value fueled_elems fueled_members)
qed

text \<open>So the fuel \<open>Unmarshal\<close> starts with is enough: no other amount reads more.\<close>

lemma parse_fuel:
  assumes "length s \<le> n"
  shows "parse_value n s = parse_value (Suc (length s)) s"
proof (cases "parse_value n s")
  case None
  show ?thesis
  proof (cases "parse_value (Suc (length s)) s")
    case (Some p)
    then have "parse_value (Suc (length s)) s = Some (fst p, snd p)" by simp
    moreover have "length s - length (snd p) \<le> n" using assms by simp
    ultimately show ?thesis using fueledD(2) [of parse_value, of "Suc (length s)" s "fst p" "snd p" n] fueled_all None by simp
  qed (use None in simp)
next
  case (Some p)
  then have e: "parse_value n s = Some (fst p, snd p)" by simp
  from fueledD(2) [of parse_value, OF _ e, of "Suc (length s)"] fueled_all e assms show ?thesis by simp
qed

section \<open>Round trip\<close>

text \<open>What may follow a value inside a document.\<close>

definition stops :: "runes \<Rightarrow> bool" where
  "stops rest \<longleftrightarrow> rest = [] \<or> hd rest = 44 \<or> hd rest = 93 \<or> hd rest = 125"

lemma stops_simps [simp]: "stops []" "stops (44 # r)" "stops (93 # r)" "stops (125 # r)"
  by (simp_all add: stops_def)

lemma digits1_append:
  assumes "digits1 s = Some (t, r)" "stops rest"
  shows "digits1 (s @ rest) = Some (t, r @ rest)"
proof -
  have s: "s = t @ r" "t = takeWhile is_num s" "r = dropWhile is_num s" "t \<noteq> []"
    using assms(1) by (auto simp: digits1_def split: if_splits)
  have n: "takeWhile is_num rest = []" using assms(2) by (cases rest) (auto simp: stops_def is_num_def)
  have "takeWhile is_num (s @ rest) = t"
  proof (cases r)
    case Nil
    then have a: "\<forall>x \<in> set s. is_num x" using s(3) by (metis dropWhile_eq_Nil_conv)
    have "t = s" using s(1) Nil by (metis append_Nil2)
    with n takeWhile_append2 [of s is_num rest] a show ?thesis by simp
  next
    case (Cons x xs)
    then have "\<not> is_num x" using s(3) by (metis hd_dropWhile list.distinct(1) list.sel(1))
    with s Cons show ?thesis by (metis in_set_conv_decomp takeWhile_append1)
  qed
  moreover from this have "dropWhile is_num (s @ rest) = r @ rest"
    using s(1) by (metis append.assoc append_same_eq same_append_eq takeWhile_dropWhile_id)
  ultimately show ?thesis using s(4) by (simp add: digits1_def)
qed

lemma lex_int_append: "lex_int s = Some (t, r) \<Longrightarrow> stops rest \<Longrightarrow> lex_int (s @ rest) = Some (t, r @ rest)"
  using digits1_append [of s t r rest] by (auto simp: lex_int_def split: list.splits if_splits)

lemma lex_frac_append: "lex_frac s = Some (t, r) \<Longrightarrow> stops rest \<Longrightarrow> lex_frac (s @ rest) = Some (t, r @ rest)"
proof -
  assume s: "lex_frac s = Some (t, r)" "stops rest"
  show ?thesis
  proof (cases s)
    case Nil
    with s show ?thesis by (cases rest) (auto simp: lex_frac_def stops_def)
  next
    case (Cons c cs)
    with s digits1_append [of cs _ r rest] show ?thesis by (fastforce simp: lex_frac_def split: if_splits)
  qed
qed

lemma lex_exp_append: "lex_exp s = Some (t, r) \<Longrightarrow> stops rest \<Longrightarrow> lex_exp (s @ rest) = Some (t, r @ rest)"
proof -
  assume s: "lex_exp s = Some (t, r)" "stops rest"
  consider "s = []" | c where "s = [c]" | c d ds where "s = c # d # ds" by (cases s rule: remdups_adj.cases) auto
  then show ?thesis
  proof cases
    case 1
    with s show ?thesis by (cases rest) (auto simp: lex_exp_def stops_def)
  next
    case 2
    with s show ?thesis by (auto simp: lex_exp_def split: if_splits)
  next
    case 3
    show ?thesis
    proof (cases "d = 43 \<or> d = 45")
      case True
      with s 3 digits1_append [of ds _ r rest] show ?thesis by (fastforce simp: lex_exp_def split: if_splits)
    next
      case False
      with s 3 digits1_append [of "d # ds" _ r rest] show ?thesis by (fastforce simp: lex_exp_def split: if_splits)
    qed
  qed
qed

lemma lex_number_append:
  assumes "lex_number s = Some (s, [])" "stops rest"
  shows "lex_number (s @ rest) = Some (s, rest)"
proof -
  obtain sg s0 where h: "lex_sign s = (sg, s0)" by force
  from assms(1) h obtain i s1 f s2 e where l: "lex_int s0 = Some (i, s1)" "lex_frac s1 = Some (f, s2)" "lex_exp s2 = Some (e, [])"
    "s = sg @ i @ f @ e" by (auto simp: lex_number_def bind_eq_Some_conv)
  then have "s \<noteq> []" using h by (auto simp: lex_int_def lex_sign_def split: list.splits)
  with h have "lex_sign (s @ rest) = (sg, s0 @ rest)"
    by (cases s) (auto simp: lex_sign_def split: if_splits)
  with lex_int_append [OF l(1) assms(2)] lex_frac_append [OF l(2) assms(2)] lex_exp_append [OF l(3) assms(2)]
  show ?thesis unfolding l(4) by (simp add: lex_number_def)
qed

lemma lex_number_hd: "lex_number (c # cs) = Some x \<Longrightarrow> c = 45 \<or> is_num c"
  by (cases "c = 45") (auto simp: lex_number_def lex_sign_def lex_int_def digits1_def bind_eq_Some_conv is_num_def split: if_splits)

text \<open>Text survives quoting, whatever it holds.\<close>

lemma hex_value_digit [simp]: "n < 16 \<Longrightarrow> hex_value (hex_digit n) = Some n"
  by (auto simp: hex_value_def hex_digit_def)

lemma hex4_u_escape:
  assumes "c < 65536"
  shows "hex4 (drop 2 (u_escape c) @ rest) = Some (c, rest)"
proof -
  have d: "c div 4096 < 16" using assms by (simp add: div_less_iff_less_mult)
  have q: "c div 256 = c div 16 div 16" "c div 4096 = c div 16 div 16 div 16"
    by (simp_all flip: div_mult2_eq)
  have "c div 4096 * 4096 + c div 256 mod 16 * 256 + c div 16 mod 16 * 16 + c mod 16 = c"
    using div_mult_mod_eq [of c 16] div_mult_mod_eq [of "c div 16" 16] div_mult_mod_eq [of "c div 16 div 16" 16]
    unfolding q by linarith
  then show ?thesis using d by (simp add: u_escape_def)
qed

lemma lex_text_quote_rune: "lex_text (quote_rune c @ rest) = map_option (apfst ((#) c)) (lex_text rest)"
proof (cases "c < 32 \<or> c = 60 \<or> c = 62 \<or> c = 38 \<or> c = 0x2028 \<or> c = 0x2029")
  case True
  show ?thesis
  proof (cases "c = 8 \<or> c = 12 \<or> c = 10 \<or> c = 13 \<or> c = 9")
    case True
    then show ?thesis by (auto simp: quote_rune_def lex_text_simps escape_rune_def)
  next
    case False
    with True have "quote_rune c = 92 # 117 # drop 2 (u_escape c)" by (auto simp: quote_rune_def u_escape_def)
    moreover have "c < 65536" "u_rune c rest = (c, rest)" using True by (auto simp: u_rune_def)
    ultimately show ?thesis by (simp add: lex_text_simps hex4_u_escape)
  qed
next
  case False
  then show ?thesis by (auto simp: quote_rune_def lex_text_simps escape_rune_def)
qed

lemma lex_text_quote: "lex_text (concat (map quote_rune s) @ 34 # rest) = Some (s, rest)"
  by (induction s) (simp_all add: lex_text_quote_rune lex_text_simps)

fun json_ok :: "json \<Rightarrow> bool" where
  "json_ok (JNum s) \<longleftrightarrow> lex_number s = Some (s, [])"
| "json_ok (JArr vs) \<longleftrightarrow> list_all json_ok vs"
| "json_ok (JObj ms) \<longleftrightarrow> list_all (\<lambda>(k, v). json_ok v) ms"
| "json_ok _ \<longleftrightarrow> True"

lemma parse_at:
  assumes "parse_value (length s) s = Some (v, r)" "length s - length r \<le> m"
  shows "parse_value m s = Some (v, r)"
  using fueledD(2) [of parse_value "length s" s v r m] fueled_all assms by blast

lemma skip_same: "s \<noteq> [] \<Longrightarrow> \<not> json_space (hd s) \<Longrightarrow> skip s = s"
  by (cases s) (simp_all add: skip_def)

lemma skip_Cons [simp]: "\<not> json_space c \<Longrightarrow> skip (c # cs) = c # cs"
  by (simp add: skip_def)

lemma json_space_simps [simp]: "\<not> json_space 34" "\<not> json_space 91" "\<not> json_space 123" "\<not> json_space 93"
  "\<not> json_space 125" "\<not> json_space 44" "\<not> json_space 58" "\<not> json_space 110" "\<not> json_space 116" "\<not> json_space 102"
  by (simp_all add: json_space_def)

text \<open>A value read with the fuel its text asks for, whatever follows.\<close>

definition reads :: "json \<Rightarrow> bool" where
  "reads v \<longleftrightarrow> (\<forall>rest. stops rest \<longrightarrow> parse_value (length (Marshal v @ rest)) (Marshal v @ rest) = Some (v, rest))"

lemma readsD: "reads v \<Longrightarrow> stops rest \<Longrightarrow> length (Marshal v) \<le> n \<Longrightarrow> parse_value n (Marshal v @ rest) = Some (v, rest)"
  by (rule parse_at) (auto simp: reads_def)

lemma reads_scalar:
  assumes "Marshal v = c # cs" "\<not> json_space c" "c \<noteq> 91" "c \<noteq> 123"
    "\<And>rest. stops rest \<Longrightarrow> parse_scalar (c # cs @ rest) = Some (v, rest)"
  shows "reads v"
  using assms by (simp add: reads_def)

lemma length_Join_Cons: "length x \<le> length (Join (x # xs) sep)"
  by (cases xs) simp_all

lemma Marshal_hd: "json_ok v \<Longrightarrow> \<exists>c cs. Marshal v = c # cs \<and> \<not> json_space c \<and> c \<noteq> 93 \<and> c \<noteq> 125"
proof (cases v)
  case (JNum s)
  assume "json_ok v"
  with JNum have s: "lex_number s = Some (s, [])" by simp
  then obtain c cs where c: "s = c # cs" by (cases s) (auto simp: lex_number_def lex_sign_def lex_int_def bind_eq_Some_conv)
  with lex_number_hd [of c cs] s have "c = 45 \<or> is_num c" by blast
  then show ?thesis using JNum c by (auto simp: is_num_def json_space_def)
qed (auto simp: runes_of_def quote_text_def)

lemma parse_elems_Join:
  assumes "list_all reads vs" "list_all json_ok vs" "vs \<noteq> []" "length (Join (map Marshal vs) [44]) < n"
  shows "parse_elems n (Join (map Marshal vs) [44] @ 93 # rest) = Some (vs, rest)"
  using assms
proof (induction vs arbitrary: n)
  case (Cons v vs)
  then obtain k where n: "n = Suc k" by (cases n) auto
  show ?case
  proof (cases vs)
    case Nil
    have "length (Marshal v) \<le> k" using Cons.prems(4) n Nil by simp
    with readsD [of v "93 # rest" k] Cons.prems(1) n Nil show ?thesis by simp
  next
    case (Cons w ws)
    let ?r = "44 # Join (map Marshal vs) [44] @ 93 # rest"
    have l: "length (Marshal v) \<le> k" "length (Join (map Marshal vs) [44]) < k"
      using Cons.prems(4) n Cons by simp_all
    have v: "parse_value k (Marshal v @ ?r) = Some (v, ?r)"
      using readsD [of v ?r k] Cons.prems(1) l(1) by simp
    have "parse_elems k (Join (map Marshal vs) [44] @ 93 # rest) = Some (vs, rest)"
      using Cons.IH [OF _ _ _ l(2)] Cons.prems(1,2) Cons by simp
    with v n Cons show ?thesis by simp
  qed
qed simp

lemma parse_members_Join:
  assumes "list_all (\<lambda>(k, v). reads v) ms" "ms \<noteq> []"
    "length (Join (map (\<lambda>(k, v). quote_text k @ 58 # Marshal v) ms) [44]) < n"
  shows "parse_members n (Join (map (\<lambda>(k, v). quote_text k @ 58 # Marshal v) ms) [44] @ 125 # rest) = Some (ms, rest)"
  using assms
proof (induction ms arbitrary: n)
  case (Cons m ms)
  obtain key v where m: "m = (key, v)" by force
  from Cons.prems obtain k where n: "n = Suc k" by (cases n) auto
  let ?J = "Join (map (\<lambda>(k, v). quote_text k @ 58 # Marshal v) ms) [44]"
  show ?case
  proof (cases ms)
    case Nil
    have "length (Marshal v) \<le> k" using Cons.prems(3) n Nil m by simp
    with readsD [of v "125 # rest" k] Cons.prems(1) n Nil m show ?thesis
      by (simp add: quote_text_def lex_text_quote)
  next
    case (Cons w ws)
    let ?r = "44 # ?J @ 125 # rest"
    have l: "length (Marshal v) \<le> k" "length ?J < k"
      using Cons.prems(3) n Cons m by simp_all
    have v: "parse_value k (Marshal v @ ?r) = Some (v, ?r)"
      using readsD [of v ?r k] Cons.prems(1) l(1) m by simp
    have "parse_members k (?J @ 125 # rest) = Some (ms, rest)"
      using Cons.IH [OF _ _ l(2)] Cons.prems(1) Cons by simp
    with v n Cons m show ?thesis by (simp add: quote_text_def lex_text_quote)
  qed
qed simp

lemma read_array:
  assumes "parse_elems n s = Some (vs, r)" "s = c # cs" "\<not> json_space c" "c \<noteq> 93"
  shows "parse_value (Suc n) (91 # s) = Some (JArr vs, r)"
  using assms(1) assms(2-4) by (simp del: parse_elems.simps)

lemma read_object:
  assumes "parse_members n s = Some (ms, r)" "s = 34 # cs"
  shows "parse_value (Suc n) (123 # s) = Some (JObj ms, r)"
  using assms by (simp del: parse_members.simps)

lemma Marshal_reads: "json_ok v \<Longrightarrow> reads v"
proof (induction v)
  case JNull
  show ?case by (rule reads_scalar) (auto simp: runes_of_def parse_scalar_def lex_name_def)
next
  case (JBool b)
  show ?case by (cases b; rule reads_scalar) (auto simp: runes_of_def parse_scalar_def lex_name_def)
next
  case (JNum s)
  then have s: "lex_number s = Some (s, [])" by simp
  obtain c cs where c: "s = c # cs" using Marshal_hd [OF JNum.prems] by auto
  with lex_number_hd [of c cs] s have d: "c = 45 \<or> is_num c" by blast
  show ?case
  proof (rule reads_scalar)
    show "Marshal (JNum s) = c # cs" by (simp add: c)
    fix rest assume "stops rest"
    then show "parse_scalar (c # cs @ rest) = Some (JNum s, rest)"
      using lex_number_append [OF s] d by (auto simp: parse_scalar_def c is_num_def)
  qed (use d in \<open>auto simp: is_num_def json_space_def\<close>)
next
  case (JStr s)
  show ?case
    by (rule reads_scalar [of _ 34 "concat (map quote_rune s) @ [34]"])
      (simp_all add: quote_text_def parse_scalar_def lex_text_quote)
next
  case (JArr vs)
  show ?case unfolding reads_def
  proof (intro allI impI)
    fix rest assume "stops rest"
    show "parse_value (length (Marshal (JArr vs) @ rest)) (Marshal (JArr vs) @ rest) = Some (JArr vs, rest)"
    proof (cases vs)
      case (Cons w ws)
      have "list_all reads vs" "list_all json_ok vs" using JArr by (simp_all add: list_all_iff)
      note e = parse_elems_Join [OF this _ less_add_Suc1, of "length rest" rest]
      obtain c cs where c: "Marshal w = c # cs" "\<not> json_space c" "c \<noteq> 93" using Marshal_hd [of w] JArr.prems Cons by auto
      then obtain ds where d: "Join (map Marshal vs) [44] = c # ds" using Cons by (cases ws) auto
      show ?thesis using read_array [OF e, of c "ds @ 93 # rest"] Cons c d by (simp del: parse_value.simps)
    qed simp
  qed
next
  case (JObj ms)
  show ?case unfolding reads_def
  proof (intro allI impI)
    fix rest assume "stops rest"
    let ?J = "Join (map (\<lambda>(k, v). quote_text k @ 58 # Marshal v) ms) [44]"
    show "parse_value (length (Marshal (JObj ms) @ rest)) (Marshal (JObj ms) @ rest) = Some (JObj ms, rest)"
    proof (cases ms)
      case (Cons w ws)
      have "reads v" if "(k, v) \<in> set ms" for k v
        using JObj.IH [of "(k, v)" v] JObj.prems that by (auto simp: list_all_iff)
      then have "list_all (\<lambda>(k, v). reads v) ms" by (auto simp: list_all_iff)
      note e = parse_members_Join [OF this _ less_add_Suc1, of "length rest" rest]
      obtain ds where d: "?J = 34 # ds" using Cons by (cases w; cases ws) (auto simp: quote_text_def)
      show ?thesis using read_object [OF e, of "ds @ 125 # rest"] Cons d by (simp del: parse_value.simps)
    qed simp
  qed
qed

theorem json_roundtrip:
  assumes "json_ok v" "json_depth v \<le> 10000"
  shows "Unmarshal (Marshal v) = Some v"
  using readsD [OF Marshal_reads [OF assms(1)], of "[]" "Suc (length (Marshal v))"] assms(2)
  by (simp add: Unmarshal_def skip_def del: parse_value.simps)

end
