(* ===== verification/Openaicompat.thy ===== *)
theory Openaicompat
  imports Json "HOL-Library.Sublist"
begin

text \<open>
  The streaming chat client of \<open>internal/adapter/openaicompat/openaicompat.go\<close>: the factory, the request it
  posts and the reader of the server-sent events it gets back. The HTTP library is a parameter: a
  function from the request to what comes back, the lines of the body included; JSON is in \<open>Json\<close>.
\<close>

section \<open>Storing a value in a struct\<close>

text \<open>Field names are matched without regard to case, over the case orbits of ASCII letters.\<close>

definition fold_rune :: "nat \<Rightarrow> nat" where
  "fold_rune c = (if 97 \<le> c \<and> c \<le> 122 then c - 32 else if c = 0x17F then 83 else if c = 0x212A then 75 else c)"

definition field :: "string \<Rightarrow> runes \<Rightarrow> bool" where
  "field name k \<longleftrightarrow> map fold_rune k = map fold_rune (runes_of name)"

text \<open>A struct takes the members of an object in turn and is left alone by \<open>null\<close>; any other value is a type error.\<close>

definition decode_struct :: "(runes \<Rightarrow> json \<Rightarrow> 'a \<Rightarrow> 'a option) \<Rightarrow> json \<Rightarrow> 'a \<Rightarrow> 'a option" where
  "decode_struct f v a =
     (case v of
        JNull \<Rightarrow> Some a
      | JObj ms \<Rightarrow> foldl (\<lambda>r (k, w). Option.bind r (f k w)) (Some a) ms
      | _ \<Rightarrow> None)"

definition decode_string :: "json \<Rightarrow> runes \<Rightarrow> runes option" where
  "decode_string v s = (case v of JNull \<Rightarrow> Some s | JStr t \<Rightarrow> Some t | _ \<Rightarrow> None)"

text \<open>A slice: elements are stored over those it already has.\<close>

fun decode_elems :: "(json \<Rightarrow> 'a \<Rightarrow> 'a option) \<Rightarrow> 'a \<Rightarrow> json list \<Rightarrow> 'a list \<Rightarrow> 'a list option" where
  "decode_elems f zero [] prev = Some []"
| "decode_elems f zero (v # vs) prev =
     Option.bind (f v (case prev of [] \<Rightarrow> zero | p # _ \<Rightarrow> p)) (\<lambda>x.
       map_option ((#) x) (decode_elems f zero vs (tl prev)))"

definition decode_slice :: "(json \<Rightarrow> 'a \<Rightarrow> 'a option) \<Rightarrow> 'a \<Rightarrow> json \<Rightarrow> 'a list \<Rightarrow> 'a list option" where
  "decode_slice f zero v prev =
     (case v of JNull \<Rightarrow> Some [] | JArr vs \<Rightarrow> decode_elems f zero vs prev | _ \<Rightarrow> None)"

section \<open>Chunks\<close>

text \<open>\<open>chatChunk\<close>: of each choice only the content is used; the finish reason must be a string or null.\<close>

definition decode_delta :: "json \<Rightarrow> runes \<Rightarrow> runes option" where
  "decode_delta = decode_struct (\<lambda>k v s. if field ''content'' k then decode_string v s else Some s)"

definition decode_choice :: "json \<Rightarrow> runes \<Rightarrow> runes option" where
  "decode_choice = decode_struct (\<lambda>k v s.
     if field ''delta'' k then decode_delta v s
     else if field ''finish_reason'' k then map_option (\<lambda>_. s) (decode_string v [])
     else Some s)"

definition decode_chunk :: "json \<Rightarrow> runes list option" where
  "decode_chunk v = decode_struct (\<lambda>k w cs. if field ''choices'' k then decode_slice decode_choice [] w cs else Some cs) v []"

section \<open>The request\<close>

record LLM =
  llm_baseURL :: runes
  llm_model :: runes
  llm_apiKey :: runes
  llm_systemPrompt :: runes

definition TrimRight :: "nat \<Rightarrow> runes \<Rightarrow> runes" where
  "TrimRight c s = rev (dropWhile (\<lambda>r. r = c) (rev s))"

definition LLM_New :: "runes \<Rightarrow> runes \<Rightarrow> runes \<Rightarrow> LLM" where
  "LLM_New baseURL model apiKey = \<lparr>llm_baseURL = TrimRight 47 baseURL, llm_model = model, llm_apiKey = apiKey, llm_systemPrompt = []\<rparr>"

definition LLM_factory :: "env \<Rightarrow> LLM factory" where
  "LLM_factory e cfg =
     (let c = ad_CloudLLM (cf_Adapters cfg) in
      if cl_BaseURL c = [] \<or> cl_Model c = [] then Inl (FactoryFailed ''openaicompat: base_url and model'')
      else let key = Getenv e (cl_APIKeyEnv c) in
        if key = [] then Inl (FactoryFailed ''openaicompat: API key'')
        else Inr ((LLM_New (text_of (cl_BaseURL c)) (text_of (cl_Model c)) (text_of key))
               \<lparr>llm_systemPrompt := text_of (cl_SystemPrompt c)\<rparr>))"

definition role_text :: "Role \<Rightarrow> runes" where
  "role_text r = runes_of (case r of System \<Rightarrow> ''system'' | User \<Rightarrow> ''user'' | Assistant \<Rightarrow> ''assistant'')"

definition chat_messages :: "LLM \<Rightarrow> Turn \<Rightarrow> Message list" where
  "chat_messages l turn =
     (if llm_systemPrompt l = [] then [] else [\<lparr>ms_Role = System, ms_Text = llm_systemPrompt l\<rparr>]) @
     tn_History turn @ [\<lparr>ms_Role = User, ms_Text = tn_Prompt turn\<rparr>]"

definition chatMessage :: "Message \<Rightarrow> json" where
  "chatMessage m = JObj [(runes_of ''role'', JStr (role_text (ms_Role m))), (runes_of ''content'', JStr (ms_Text m))]"

definition chatRequest :: "LLM \<Rightarrow> Turn \<Rightarrow> json" where
  "chatRequest l turn =
     JObj [(runes_of ''model'', JStr (llm_model l)), (runes_of ''stream'', JBool True),
           (runes_of ''messages'', JArr (map chatMessage (chat_messages l turn)))]"

record http_request =
  hr_URL :: runes
  hr_Headers :: "(runes \<times> runes) list"
  hr_Body :: runes

definition llm_request :: "LLM \<Rightarrow> Turn \<Rightarrow> http_request" where
  "llm_request l turn =
     \<lparr>hr_URL = llm_baseURL l @ runes_of ''/chat/completions'',
      hr_Headers = [(runes_of ''Content-Type'', runes_of ''application/json''), (runes_of ''Accept'', runes_of ''text/event-stream''),
        (runes_of ''Authorization'', runes_of ''Bearer '' @ llm_apiKey l)],
      hr_Body = Marshal (chatRequest l turn)\<rparr>"

section \<open>The stream\<close>

text \<open>What the HTTP library does with a request: no request could be built, none was answered, or an
  answer with its status, the start of its body when the status is not 200, and otherwise the lines the scanner
  yields and how it stopped. \<open>ScanFailed True\<close> and \<open>DoFailed True\<close> are failures after the context was cancelled.\<close>

datatype scan_end = ScanEOF | ScanFailed bool
datatype http_reply = BuildFailed | DoFailed bool | Reply nat runes "runes list" scan_end

datatype stream_end = StreamOK | StreamCancelled | StreamBuild | StreamRequest | StreamStatus nat runes | StreamBadChunk | StreamRead

definition TrimSpace_runes :: "runes \<Rightarrow> runes" where
  "TrimSpace_runes s = rev (dropWhile IsSpace (rev (dropWhile IsSpace s)))"

definition CutPrefix :: "runes \<Rightarrow> runes \<Rightarrow> runes option" where
  "CutPrefix p s = (if prefix p s then Some (drop (length p) s) else None)"

fun sse_loop :: "budget \<Rightarrow> runes list \<Rightarrow> scan_end \<Rightarrow> Token list \<times> stream_end" where
  "sse_loop b [] e = ([], case e of ScanEOF \<Rightarrow> StreamOK | ScanFailed c \<Rightarrow> if c then StreamCancelled else StreamRead)"
| "sse_loop b (line # lines) e =
     (case CutPrefix (runes_of ''data:'') line of
        None \<Rightarrow> sse_loop b lines e
      | Some d \<Rightarrow>
          let data = TrimSpace_runes d in
          if data = runes_of ''[DONE]'' then ([], StreamOK)
          else case Option.bind (Unmarshal data) decode_chunk of
            None \<Rightarrow> ([], StreamBadChunk)
          | Some [] \<Rightarrow> sse_loop b lines e
          | Some (content # _) \<Rightarrow>
              if content = [] then sse_loop b lines e
              else case spend b of
                None \<Rightarrow> ([], StreamCancelled)
              | Some b1 \<Rightarrow> apfst ((#) \<lparr>tok_Text = content\<rparr>) (sse_loop b1 lines e))"

definition LLM_Stream :: "(http_request \<Rightarrow> http_reply) \<Rightarrow> LLM \<Rightarrow> budget \<Rightarrow> Turn \<Rightarrow> Token list \<times> stream_end" where
  "LLM_Stream http l b turn =
     (case http (llm_request l turn) of
        BuildFailed \<Rightarrow> ([], StreamBuild)
      | DoFailed _ \<Rightarrow> ([], StreamRequest)
      | Reply status detail lines e \<Rightarrow>
          if status \<noteq> 200 then ([], StreamStatus status (TrimSpace_runes detail)) else sse_loop b lines e)"

section \<open>What the server reads\<close>

text \<open>The endpoint's view of a request body: the texts under \<open>messages\<close> with their roles.\<close>

definition member :: "string \<Rightarrow> json \<Rightarrow> json option" where
  "member k v = (case v of JObj ms \<Rightarrow> map_of ms (runes_of k) | _ \<Rightarrow> None)"

definition text_member :: "string \<Rightarrow> json \<Rightarrow> runes option" where
  "text_member k v = (case member k v of Some (JStr s) \<Rightarrow> Some s | _ \<Rightarrow> None)"

definition message_pair :: "json \<Rightarrow> (runes \<times> runes) option" where
  "message_pair v = Option.bind (text_member ''role'' v) (\<lambda>r. map_option (Pair r) (text_member ''content'' v))"

definition read_request :: "runes \<Rightarrow> (runes \<times> (runes \<times> runes) list) option" where
  "read_request body =
     Option.bind (Unmarshal body) (\<lambda>v. Option.bind (text_member ''model'' v) (\<lambda>model.
       case member ''messages'' v of
         Some (JArr ms) \<Rightarrow> map_option (Pair model) (those (map message_pair ms))
       | _ \<Rightarrow> None))"

lemma those_map_Some: "(\<And>x. x \<in> set xs \<Longrightarrow> f x = Some (g x)) \<Longrightarrow> those (map f xs) = Some (map g xs)"
  by (induction xs) auto

lemma runes_of_inject [simp]: "runes_of s = runes_of t \<longleftrightarrow> s = t"
proof -
  have "inj (of_char :: char \<Rightarrow> nat)" by (simp add: inj_def)
  then show ?thesis by (simp add: runes_of_def inj_map_eq_map)
qed

lemma message_pair_chatMessage: "message_pair (chatMessage m) = Some (role_text (ms_Role m), ms_Text m)"
  by (simp add: message_pair_def chatMessage_def text_member_def member_def)

lemma fold_max_const: "list_all (\<lambda>x. x \<le> (a :: nat)) xs \<Longrightarrow> b \<le> a \<Longrightarrow> fold max xs b \<le> a"
  by (induction xs arbitrary: b) auto

text \<open>
  C32: Whatever the conversation holds, quotes, braces or control characters included, the endpoint that reads
  the request finds the model and exactly the messages of the turn with their roles, in order: the
  system prompt if there is one, the history, the prompt as the last user message.
\<close>

theorem llm_request_roundtrip:
  "read_request (hr_Body (llm_request l turn)) =
     Some (llm_model l,
       (if llm_systemPrompt l = [] then [] else [(runes_of ''system'', llm_systemPrompt l)]) @
       map (\<lambda>m. (role_text (ms_Role m), ms_Text m)) (tn_History turn) @ [(runes_of ''user'', tn_Prompt turn)])"
proof -
  have ok: "json_ok (chatRequest l turn)"
    by (simp add: chatRequest_def chatMessage_def list_all_iff)
  have "fold max (map json_depth (map chatMessage ms)) 0 \<le> 1" for ms
    by (rule fold_max_const) (simp_all add: list_all_iff chatMessage_def)
  then have "json_depth (chatRequest l turn) \<le> 10000"
    using le_trans [of "fold max (map json_depth (map chatMessage (chat_messages l turn))) 0" 1 9998]
    by (simp add: chatRequest_def)
  note u = json_roundtrip [OF ok this]
  have "those (map message_pair (map chatMessage ms)) = Some (map (\<lambda>m. (role_text (ms_Role m), ms_Text m)) ms)" for ms
    by (simp add: comp_def those_map_Some message_pair_chatMessage)
  then have "read_request (hr_Body (llm_request l turn)) =
      Some (llm_model l, map (\<lambda>m. (role_text (ms_Role m), ms_Text m)) (chat_messages l turn))"
    unfolding read_request_def llm_request_def http_request.simps u
    by (simp add: chatRequest_def text_member_def member_def del: map_map)
  then show ?thesis by (simp add: chat_messages_def role_text_def)
qed

section \<open>What the server sends\<close>

text \<open>A stream as a server writes it: the deltas of its answer among comments, events of other kinds, empty
  lines, and chunks without a choice.\<close>

datatype sse_event = Delta runes | Idle runes | Choiceless

definition choice_of :: "runes \<Rightarrow> json" where
  "choice_of c = JObj [(runes_of ''delta'', JObj [(runes_of ''content'', JStr c)]), (runes_of ''finish_reason'', JNull)]"

definition chunk_of :: "runes list \<Rightarrow> json" where
  "chunk_of cs = JObj [(runes_of ''choices'', JArr (map choice_of cs))]"

fun event_line :: "sse_event \<Rightarrow> runes" where
  "event_line (Delta c) = runes_of ''data: '' @ Marshal (chunk_of [c])"
| "event_line (Idle s) = s"
| "event_line Choiceless = runes_of ''data:'' @ Marshal (chunk_of [])"

fun event_ok :: "sse_event \<Rightarrow> bool" where
  "event_ok (Idle s) \<longleftrightarrow> \<not> prefix (runes_of ''data:'') s"
| "event_ok _ \<longleftrightarrow> True"

fun deltas :: "sse_event list \<Rightarrow> runes list" where
  "deltas [] = []"
| "deltas (Delta c # es) = (if c = [] then deltas es else c # deltas es)"
| "deltas (_ # es) = deltas es"

lemma TrimSpace_object:
  assumes "dropWhile IsSpace pre = []"
  shows "TrimSpace_runes (pre @ Marshal (JObj ms)) = Marshal (JObj ms)"
proof -
  have "IsSpace r" if "r \<in> set pre" for r using assms that by (metis dropWhile_eq_Nil_conv)
  then have "dropWhile IsSpace (pre @ Marshal (JObj ms)) = Marshal (JObj ms)"
    by (simp add: dropWhile_append2 IsSpace_def)
  then show ?thesis by (simp add: TrimSpace_runes_def IsSpace_def)
qed

lemma Unmarshal_chunk: "Unmarshal (Marshal (chunk_of cs)) = Some (chunk_of cs)"
proof (rule json_roundtrip)
  show "json_ok (chunk_of cs)" by (simp add: chunk_of_def choice_of_def list_all_iff)
  have "fold max (map json_depth (map choice_of cs)) 0 \<le> 2"
    by (rule fold_max_const) (simp_all add: list_all_iff choice_of_def)
  then show "json_depth (chunk_of cs) \<le> 10000" by (simp add: chunk_of_def comp_def)
qed

lemma field_names [simp]: "field ''choices'' (runes_of ''choices'')" "field ''delta'' (runes_of ''delta'')"
  "field ''content'' (runes_of ''content'')" "field ''finish_reason'' (runes_of ''finish_reason'')"
  "\<not> field ''delta'' (runes_of ''finish_reason'')"
  by (simp_all add: field_def) (simp add: runes_of_def)

lemma decode_chunk_of: "decode_chunk (chunk_of cs) = Some cs"
proof -
  have "decode_choice (choice_of c) [] = Some c" for c
    by (simp add: choice_of_def decode_choice_def decode_delta_def decode_struct_def decode_string_def)
  then have "decode_elems decode_choice [] (map choice_of cs) [] = Some cs"
    by (induction cs) simp_all
  then show ?thesis by (simp add: decode_chunk_def chunk_of_def decode_struct_def decode_slice_def)
qed

lemma sse_step:
  "sse_loop b (event_line (Delta c) # lines) e =
     (if c = [] then sse_loop b lines e
      else case spend b of None \<Rightarrow> ([], StreamCancelled)
           | Some b1 \<Rightarrow> apfst ((#) \<lparr>tok_Text = c\<rparr>) (sse_loop b1 lines e))"
  "sse_loop b (event_line Choiceless # lines) e = sse_loop b lines e"
proof -
  have d: "TrimSpace_runes (32 # Marshal (chunk_of cs)) = Marshal (chunk_of cs)"
    "TrimSpace_runes (Marshal (chunk_of cs)) = Marshal (chunk_of cs)" for cs
    using TrimSpace_object [of "[32]"] TrimSpace_object [of "[]"] by (simp_all add: chunk_of_def IsSpace_def del: Marshal.simps)
  have n: "Marshal (chunk_of cs) \<noteq> runes_of ''[DONE]''" for cs
    by (simp add: chunk_of_def runes_of_def)
  have p: "CutPrefix (runes_of ''data:'') (runes_of ''data: '' @ s) = Some (32 # s)"
    "CutPrefix (runes_of ''data:'') (runes_of ''data:'' @ s) = Some s" for s
    by (simp_all add: CutPrefix_def runes_of_def)
  show "sse_loop b (event_line (Delta c) # lines) e =
     (if c = [] then sse_loop b lines e
      else case spend b of None \<Rightarrow> ([], StreamCancelled)
           | Some b1 \<Rightarrow> apfst ((#) \<lparr>tok_Text = c\<rparr>) (sse_loop b1 lines e))"
    using d(1) n by (simp add: p Unmarshal_chunk decode_chunk_of del: Marshal.simps)
  show "sse_loop b (event_line Choiceless # lines) e = sse_loop b lines e"
    using d(2) n by (simp add: p Unmarshal_chunk decode_chunk_of del: Marshal.simps)
qed

definition affords :: "budget \<Rightarrow> nat \<Rightarrow> bool" where
  "affords b n \<longleftrightarrow> (case b of None \<Rightarrow> True | Some k \<Rightarrow> n \<le> k)"

definition cut :: "budget \<Rightarrow> 'a list \<Rightarrow> 'a list" where
  "cut b xs = (case b of None \<Rightarrow> xs | Some k \<Rightarrow> take k xs)"

lemma sse_loop_delivers:
  assumes "list_all event_ok evs"
  shows "sse_loop b (map event_line evs @ runes_of ''data: [DONE]'' # lines) e =
    (map (\<lambda>c. \<lparr>tok_Text = c\<rparr>) (cut b (deltas evs)), if affords b (length (deltas evs)) then StreamOK else StreamCancelled)"
  using assms
proof (induction evs arbitrary: b)
  case Nil
  have "CutPrefix (runes_of ''data:'') (runes_of ''data: [DONE]'') = Some (32 # runes_of ''[DONE]'')"
    "TrimSpace_runes (32 # runes_of ''[DONE]'') = runes_of ''[DONE]''"
    by (simp_all add: CutPrefix_def runes_of_def TrimSpace_runes_def IsSpace_def)
  then show ?case by (cases b) (simp_all add: cut_def affords_def)
next
  case (Cons ev evs)
  show ?case
  proof (cases ev)
    case (Delta c)
    with Cons show ?thesis
      by (cases b rule: spend.cases) (simp_all add: sse_step cut_def affords_def del: sse_loop.simps event_line.simps)
  next
    case (Idle s)
    with Cons show ?thesis by (simp add: CutPrefix_def)
  next
    case Choiceless
    with Cons show ?thesis by (simp add: sse_step del: sse_loop.simps event_line.simps)
  qed
qed

text \<open>
  C16: A stream of server-sent events delivers the answer: the tokens sent are the non-empty deltas in order,
  whatever comments, other events and empty chunks stand between them, and nothing after \<open>[DONE]\<close>; a
  context cancelled after \<open>k\<close> sends leaves the first \<open>k\<close> tokens and reports the cancellation exactly when
  one more was due.
\<close>

theorem llm_stream_delivers:
  assumes "list_all event_ok evs"
    and "http (llm_request l turn) = Reply 200 detail (map event_line evs @ runes_of ''data: [DONE]'' # lines) e"
  shows "LLM_Stream http l b turn =
    (map (\<lambda>c. \<lparr>tok_Text = c\<rparr>) (cut b (deltas evs)), if affords b (length (deltas evs)) then StreamOK else StreamCancelled)"
  using sse_loop_delivers [OF assms(1)] assms(2) by (simp add: LLM_Stream_def)

definition demo_llm :: LLM where
  "demo_llm = LLM_New (runes_of ''http://h/v1/'') (runes_of ''m'') (runes_of ''k'')"

definition demo_http :: "http_request \<Rightarrow> http_reply" where
  "demo_http r = (if hr_URL r = runes_of ''http://h/v1/chat/completions''
     then Reply 200 [] (map event_line [Idle (runes_of '': ping''), Delta (runes_of ''a\"''), Choiceless, Delta [], Delta [98]] @
       [runes_of ''data: [DONE]'', [1]]) (ScanFailed False)
     else BuildFailed)"

text \<open>Two tokens of an answer, with the budget for both and for one.\<close>

theorem llm_stream_delivers_witness:
  "map (\<lambda>b. apfst (map tok_Text) (LLM_Stream demo_http demo_llm b \<lparr>tn_Prompt = [], tn_History = []\<rparr>)) [None, Some 1] =
     [([[97, 34], [98]], StreamOK), ([[97, 34]], StreamCancelled)]"
proof -
  let ?evs = "[Idle (runes_of '': ping''), Delta (runes_of ''a\"''), Choiceless, Delta [], Delta [98]]"
  have ok: "list_all event_ok ?evs" by (simp add: runes_of_def)
  have "demo_http (llm_request demo_llm \<lparr>tn_Prompt = [], tn_History = []\<rparr>) =
      Reply 200 [] (map event_line ?evs @ runes_of ''data: [DONE]'' # [[1]]) (ScanFailed False)"
    by (simp add: demo_http_def llm_request_def demo_llm_def LLM_New_def TrimRight_def runes_of_def del: event_line.simps)
  from llm_stream_delivers [OF ok, of demo_http demo_llm "\<lparr>tn_Prompt = [], tn_History = []\<rparr>" "[]" "[[1]]" "ScanFailed False", OF this]
  show ?thesis
    by (simp add: cut_def affords_def runes_of_def)
qed

end
