(* ===== verification/Speech.thy ===== *)
theory Speech
  imports Synth Openaicompat
begin

text \<open>
  What the two remote synthesisers share (\<open>internal/adapter/openaitts\<close>, \<open>internal/adapter/sherpa/tts.go\<close>): the
  loop that gathers tokens to sentences, has each spoken by the service and cuts the answer into
  frames with one \<open>PCMFramer\<close>. The service is a parameter of the loop, and the contract it has to keep is
  the locale \<open>speech_service\<close>. A receive of a token spends of the budget, too.
\<close>

section \<open>One stream's state\<close>

text \<open>The framer, the number of clock readings so far and the budget.\<close>

record speech =
  sp_framer :: PCMFramer
  sp_reads :: nat
  sp_budget :: budget

datatype tts_end = TtsOK | TtsCancelled | TtsPanicked | TtsConfig | TtsDial | TtsBuild | TtsRequest | TtsStatus nat runes | TtsRead | TtsWrite

fun tts_end_of :: "emit_status \<Rightarrow> tts_end" where
  "tts_end_of Emitted = TtsOK"
| "tts_end_of Cancelled = TtsCancelled"
| "tts_end_of Panicked = TtsPanicked"

type_synonym 'a tts_result = "('a \<times> AudioFrame list \<times> tts_end) option"

text \<open>Steps in sequence: the first end that is not \<open>TtsOK\<close> is the end.\<close>

definition tts_then :: "'a tts_result \<Rightarrow> ('a \<Rightarrow> 'b tts_result) \<Rightarrow> ('a \<Rightarrow> 'b) \<Rightarrow> 'b tts_result" where
  "tts_then r k back = Option.bind r (\<lambda>(s, outs, e).
     if e = TtsOK then map_option (apsnd (apfst ((@) outs))) (k s) else Some (back s, outs, e))"

definition speech_emit :: "(nat \<Rightarrow> instant) \<Rightarrow> u8 list \<Rightarrow> speech \<Rightarrow> speech tts_result" where
  "speech_emit clock pcm s =
     map_option (\<lambda>(f, i, b, outs, st). (\<lparr>sp_framer = f, sp_reads = i, sp_budget = b\<rparr>, outs, tts_end_of st))
       (PCMFramer_Emit clock (sp_framer s) (sp_reads s) (sp_budget s) pcm)"

definition speech_flush :: "speech \<Rightarrow> speech tts_result" where
  "speech_flush s =
     (case PCMFramer_Flush (sp_framer s) (sp_budget s) of (f, outs, st) \<Rightarrow>
        Some (s\<lparr>sp_framer := f\<rparr>, outs, tts_end_of st))"

definition new_speech :: "int \<Rightarrow> duration \<Rightarrow> budget \<Rightarrow> speech" where
  "new_speech rate dur b =
     \<lparr>sp_framer = \<lparr>fr_SampleRate = rate, fr_FrameDuration = dur, fr_Lead = 0, fr_carry = [], fr_total = 0, fr_start = None\<rparr>,
      sp_reads = 0, sp_budget = b\<rparr>"

section \<open>Sentences\<close>

text \<open>\<open>synth\<close> has the service speak a text; \<open>'w\<close> is the state of the service.\<close>

type_synonym 'w synth = "runes \<Rightarrow> 'w \<times> speech \<Rightarrow> ('w \<times> speech) tts_result"

definition speak_text :: "'w synth \<Rightarrow> 'w synth" where
  "speak_text synth text st = (if TrimSpace_runes text = [] then Some (st, [], TtsOK) else synth text st)"

definition receive :: "'w \<times> speech \<Rightarrow> ('w \<times> speech) tts_result" where
  "receive st =
     (case spend (sp_budget (snd st)) of
        None \<Rightarrow> Some (st, [], TtsCancelled)
      | Some b \<Rightarrow> Some ((fst st, (snd st)\<lparr>sp_budget := b\<rparr>), [], TtsOK))"

fun sentence_loop :: "'w synth \<Rightarrow> Token list \<Rightarrow> runes \<Rightarrow> 'w \<times> speech \<Rightarrow> ('w \<times> speech) tts_result" where
  "sentence_loop synth [] buf st =
     tts_then (receive st) (\<lambda>st1. tts_then (speak_text synth buf st1) (\<lambda>st2.
       map_option (apfst (Pair (fst st2))) (speech_flush (snd st2))) id) id"
| "sentence_loop synth (tok # toks) buf st =
     tts_then (receive st) (\<lambda>st1.
       let buf1 = buf @ tok_Text tok in
       if EndsSentence buf1 then tts_then (speak_text synth buf1 st1) (sentence_loop synth toks []) id
       else sentence_loop synth toks buf1 st1) id"

text \<open>The texts the loop has spoken, one after the other, and those a service hears of.\<close>

fun sentences :: "runes list \<Rightarrow> runes \<Rightarrow> runes list" where
  "sentences [] buf = [buf]"
| "sentences (t # ts) buf =
     (if EndsSentence (buf @ t) then (buf @ t) # sentences ts [] else sentences ts (buf @ t))"

definition spoken :: "runes list \<Rightarrow> runes list" where
  "spoken ss = filter (\<lambda>s. TrimSpace_runes s \<noteq> []) ss"

lemma concat_sentences: "concat (sentences ts buf) = buf @ concat ts"
  by (induction ts arbitrary: buf) simp_all

section \<open>Frames of a stretch of audio\<close>

text \<open>A framer that takes in \<open>bytes\<close> and sends \<open>outs\<close>.\<close>

definition framer_span :: "nat \<Rightarrow> u8 list \<Rightarrow> PCMFramer \<Rightarrow> PCMFramer \<Rightarrow> AudioFrame list \<Rightarrow> bool" where
  "framer_span n bytes f f' outs \<longleftrightarrow>
     framer_step_ok n (f\<lparr>fr_carry := fr_carry f @ bytes\<rparr>) f' outs \<and> length (fr_carry f') < n"

definition framed :: "nat \<Rightarrow> speech \<Rightarrow> bool" where
  "framed n s \<longleftrightarrow> 0 < n \<and> bytesPerFrame (sp_framer s) = int n \<and> length (fr_carry (sp_framer s)) < n \<and> sp_budget s = None"

definition spans :: "nat \<Rightarrow> u8 list \<Rightarrow> speech \<Rightarrow> speech \<Rightarrow> AudioFrame list \<Rightarrow> bool" where
  "spans n bytes s s' outs \<longleftrightarrow> framer_span n bytes (sp_framer s) (sp_framer s') outs \<and> framed n s'"

lemma framer_step_spf:
  assumes "framer_step_ok n f f' outs"
  shows "framer_spf f' = framer_spf f"
  using assms by (simp add: framer_step_ok_def framer_spf_def)

lemma spans_refl: "framed n s \<Longrightarrow> spans n [] s s []"
  by (simp add: spans_def framer_span_def framer_step_ok_def framed_def)

lemma spans_trans:
  assumes "spans n b1 s s1 o1" "spans n b2 s1 s2 o2"
  shows "spans n (b1 @ b2) s s2 (o1 @ o2)"
proof -
  let ?f = "sp_framer s" and ?f1 = "sp_framer s1" and ?f2 = "sp_framer s2"
  have a: "framer_step_ok n (?f\<lparr>fr_carry := fr_carry ?f @ b1\<rparr>) ?f1 o1"
    and b: "framer_step_ok n (?f1\<lparr>fr_carry := fr_carry ?f1 @ b2\<rparr>) ?f2 o2"
    using assms by (simp_all add: spans_def framer_span_def)
  have spf: "framer_spf ?f1 = framer_spf ?f"
    using a by (simp add: framer_step_ok_def framer_spf_def)
  let ?g = "\<lambda>k. ptsUs (fr_total ?f + int k * framer_spf ?f) (fr_SampleRate ?f)"
  have "map af_TsUs o2 = map ?g (map (\<lambda>k. k + length o1) [0..<length o2])"
    using a b spf by (simp add: framer_step_ok_def framer_spf_def algebra_simps comp_def)
  also have "map (\<lambda>k. k + length o1) [0..<length o2] = [length o1..<length o1 + length o2]"
    by (simp add: map_add_upt add.commute)
  finally have "map af_TsUs (o1 @ o2) = map ?g ([0..<length o1] @ [length o1..<length o1 + length o2])"
    using a by (simp add: framer_step_ok_def framer_spf_def)
  then have ts: "map af_TsUs (o1 @ o2) = map ?g [0..<length (o1 @ o2)]"
    using upt_add_eq_append [of 0 "length o1" "length o2"] by simp
  have "concat (map frame_bytes o1) @ fr_carry ?f1 = fr_carry ?f @ b1"
    "concat (map frame_bytes o2) @ fr_carry ?f2 = fr_carry ?f1 @ b2"
    using a b by (simp_all add: framer_step_ok_def)
  then have c: "concat (map frame_bytes (o1 @ o2)) @ fr_carry ?f2 = fr_carry ?f @ b1 @ b2"
    by (metis append.assoc concat_append map_append)
  have "framer_step_ok n (?f\<lparr>fr_carry := fr_carry ?f @ b1 @ b2\<rparr>) ?f2 (o1 @ o2)"
    using a b c ts spf by (simp add: framer_step_ok_def framer_spf_def algebra_simps)
  then show ?thesis using assms(2) by (simp add: spans_def framer_span_def)
qed

lemma framed_reads [simp]: "framed n (s\<lparr>sp_reads := i\<rparr>) = framed n s"
  by (simp add: framed_def)

lemma speech_emit_ok:
  assumes "framed n s"
  shows "\<exists>s' outs. speech_emit clock pcm s = Some (s', outs, TtsOK) \<and> spans n pcm s s' outs"
proof -
  let ?f = "sp_framer s"
  let ?lead = "if fr_Lead ?f \<le> 0 then 200 * Millisecond else fr_Lead ?f"
  have "bytesPerFrame (?f\<lparr>fr_carry := fr_carry ?f @ pcm\<rparr>) = int n" "0 < n"
    using assms by (simp_all add: framed_def bytesPerFrame_def framer_spf_def)
  from framer_loop_ok [OF this, of clock ?lead "sp_reads s"] obtain f' j outs where
    r: "framer_loop clock ?lead (?f\<lparr>fr_carry := fr_carry ?f @ pcm\<rparr>) (sp_reads s) None = Some (f', j, None, outs, Emitted)"
    "framer_step_ok n (?f\<lparr>fr_carry := fr_carry ?f @ pcm\<rparr>) f' outs" "length (fr_carry f') < n" by blast
  have "bytesPerFrame f' = int n"
    using framer_step_spf [OF r(2)] assms by (simp add: bytesPerFrame_def framer_spf_def framed_def)
  with r assms show ?thesis
    by (simp add: speech_emit_def PCMFramer_Emit_def framed_def spans_def framer_span_def Let_def)
qed

section \<open>The contract of a service\<close>

text \<open>
  \<open>says w ts bytes\<close>: from the state \<open>w\<close> the service speaks the texts \<open>ts\<close>, one call each, and the audio of all of
  them is \<open>bytes\<close>. The provider promises that a call gives the audio of its text to the framer.
\<close>

locale speech_service =
  fixes synth :: "'w synth"
    and says :: "'w \<Rightarrow> runes list \<Rightarrow> u8 list \<Rightarrow> bool"
  assumes says_nil: "says w [] bytes \<Longrightarrow> bytes = []"
    and says_cons: "says w (t # ts) bytes \<Longrightarrow> framed n s \<Longrightarrow>
      \<exists>w' s' outs b1 b2. synth t (w, s) = Some ((w', s'), outs, TtsOK) \<and> spans n b1 s s' outs \<and>
        says w' ts b2 \<and> bytes = b1 @ b2"
begin

lemma speak_text_ok:
  assumes "says w (spoken (t # ts)) bytes" "framed n s"
  shows "\<exists>w' s' outs b1 b2. speak_text synth t (w, s) = Some ((w', s'), outs, TtsOK) \<and> spans n b1 s s' outs \<and>
    says w' (spoken ts) b2 \<and> bytes = b1 @ b2"
proof (cases "TrimSpace_runes t = []")
  case True
  with assms spans_refl [OF assms(2)] show ?thesis
    by (intro exI [of _ w] exI [of _ s] exI [of _ "[]"] exI [of _ "[]"] exI [of _ bytes]) (simp add: speak_text_def spoken_def)
next
  case False
  with assms says_cons [of w t "spoken ts" bytes n s] show ?thesis
    by (simp add: speak_text_def spoken_def)
qed

lemma receive_ok: "framed n s \<Longrightarrow> receive (w, s) = Some ((w, s), [], TtsOK)"
  by (simp add: receive_def framed_def)

lemma sentence_loop_ok:
  assumes "says w (spoken (sentences (map tok_Text toks) buf)) bytes" "framed n s"
  shows "\<exists>w' s1 s' outs pad. sentence_loop synth toks buf (w, s) = Some ((w', s'), outs @ pad, TtsOK) \<and>
    spans n bytes s s1 outs \<and> speech_flush s1 = Some (s', pad, TtsOK)"
  using assms
proof (induction toks arbitrary: buf w s bytes)
  case Nil
  then obtain w' s1 outs b1 b2 where r: "speak_text synth buf (w, s) = Some ((w', s1), outs, TtsOK)" "spans n b1 s s1 outs"
    "says w' [] b2" "bytes = b1 @ b2"
    using speak_text_ok [of w buf "[]" bytes n s] by (auto simp: spoken_def)
  have f: "framed n s1" using r(2) by (simp add: spans_def)
  then obtain f2 pad where p: "speech_flush s1 = Some (s1\<lparr>sp_framer := f2\<rparr>, pad, TtsOK)"
    by (cases "PCMFramer_Flush (sp_framer s1) None")
      (auto simp: speech_flush_def PCMFramer_Flush_def framed_def Let_def split: if_splits)
  show ?case
    using r p says_nil [OF r(3)] receive_ok [OF Nil.prems(2), of w]
    by (intro exI [of _ w'] exI [of _ s1] exI [of _ "s1\<lparr>sp_framer := f2\<rparr>"] exI [of _ outs] exI [of _ pad])
      (simp add: tts_then_def)
next
  case (Cons tok toks)
  let ?buf1 = "buf @ tok_Text tok"
  show ?case
  proof (cases "EndsSentence ?buf1")
    case True
    with Cons.prems speak_text_ok [of w ?buf1 "sentences (map tok_Text toks) []" bytes n s] obtain w1 s1 outs b1 b2 where
      r: "speak_text synth ?buf1 (w, s) = Some ((w1, s1), outs, TtsOK)" "spans n b1 s s1 outs"
      "says w1 (spoken (sentences (map tok_Text toks) [])) b2" "bytes = b1 @ b2" by auto
    have f: "framed n s1" using r(2) by (simp add: spans_def)
    from Cons.IH [OF r(3) f] obtain w' s2 s' outs2 pad where
      IH: "sentence_loop synth toks [] (w1, s1) = Some ((w', s'), outs2 @ pad, TtsOK)"
      "spans n b2 s1 s2 outs2" "speech_flush s2 = Some (s', pad, TtsOK)" by blast
    show ?thesis
      using r IH True spans_trans [OF r(2) IH(2)] receive_ok [OF Cons.prems(2), of w]
      by (intro exI [of _ w'] exI [of _ s2] exI [of _ s'] exI [of _ "outs @ outs2"] exI [of _ pad])
        (simp add: tts_then_def)
  next
    case False
    with Cons.prems Cons.IH [of w ?buf1 bytes s] obtain w' s1 s' outs pad where
      "sentence_loop synth toks ?buf1 (w, s) = Some ((w', s'), outs @ pad, TtsOK)" "spans n bytes s s1 outs"
      "speech_flush s1 = Some (s', pad, TtsOK)" by auto
    with False receive_ok [OF Cons.prems(2), of w] show ?thesis
      by (intro exI [of _ w'] exI [of _ s1] exI [of _ s'] exI [of _ outs] exI [of _ pad]) (simp add: tts_then_def)
  qed
qed

end

section \<open>The frames of a whole stream\<close>

text \<open>What a stream sends for the audio \<open>bytes\<close>: whole frames, the last one filled up with zeros, stamped with their
  positions.\<close>

fun frame_chunks :: "nat \<Rightarrow> u8 list \<Rightarrow> u8 list list" where
  "frame_chunks 0 bs = []"
| "frame_chunks (Suc k) bs = (if bs = [] then [] else
     take (Suc k) (bs @ replicate (Suc k - length bs) 0) # frame_chunks (Suc k) (drop (Suc k) bs))"

definition frames_of :: "PCMFramer \<Rightarrow> u8 list \<Rightarrow> (u8 list \<times> int) list" where
  "frames_of f bs =
     (let cs = frame_chunks (nat (bytesPerFrame f)) bs in
      zip cs (map (\<lambda>k. ptsUs (fr_total f + int k * framer_spf f) (fr_SampleRate f)) [0..<length cs]))"

definition heard :: "AudioFrame list \<Rightarrow> (u8 list \<times> int) list" where
  "heard outs = map (\<lambda>x. (frame_bytes x, af_TsUs x)) outs"

lemma heard_zip: "heard outs = zip (map frame_bytes outs) (map af_TsUs outs)"
  by (induction outs) (simp_all add: heard_def)

lemma frame_chunks_Cons:
  assumes "length x = n" "0 < n"
  shows "frame_chunks n (x @ bs) = x # frame_chunks n bs"
proof -
  obtain k where "n = Suc k" using assms(2) by (cases n) auto
  with assms show ?thesis by auto
qed

lemma frame_chunks_append:
  assumes "0 < n" "list_all (\<lambda>x. length x = n) xs" "length c < n"
  shows "frame_chunks n (concat xs @ c) = xs @ (if c = [] then [] else [c @ replicate (n - length c) 0])"
  using assms(2)
proof (induction xs)
  case Nil
  with assms show ?case by (cases n) simp_all
next
  case (Cons x xs)
  with assms(1) show ?case by (simp add: frame_chunks_Cons)
qed

lemma stream_frames:
  assumes "spans n bytes s s1 outs" "framed n s" "fr_carry (sp_framer s) = []" "speech_flush s1 = Some (s', pad, TtsOK)"
  shows "heard (outs @ pad) = frames_of (sp_framer s) bytes"
proof -
  let ?f = "sp_framer s" and ?f1 = "sp_framer s1"
  have a: "framer_step_ok n (?f\<lparr>fr_carry := bytes\<rparr>) ?f1 outs" and l: "length (fr_carry ?f1) < n" "framed n s1"
    using assms(1,3) by (simp_all add: spans_def framer_span_def)
  have n: "0 < n" "bytesPerFrame ?f = int n" using assms(2) by (simp_all add: framed_def)
  have spf: "framer_spf ?f1 = framer_spf ?f" "fr_SampleRate ?f1 = fr_SampleRate ?f" "bytesPerFrame ?f1 = int n"
    using a l by (simp_all add: framer_step_ok_def framer_spf_def framed_def)
  let ?c = "fr_carry ?f1"
  have p: "map frame_bytes pad = (if ?c = [] then [] else [?c @ replicate (n - length ?c) 0])"
    "map af_TsUs pad = (if ?c = [] then [] else [ptsUs (fr_total ?f1) (fr_SampleRate ?f)])"
    using assms(4) l spf by (auto simp: speech_flush_def PCMFramer_Flush_def framed_def Let_def split: if_splits)
  have "frame_chunks n (concat (map frame_bytes outs) @ ?c) = map frame_bytes outs @ map frame_bytes pad"
    unfolding p using a l(1) n(1) by (intro frame_chunks_append) (simp_all add: framer_step_ok_def list_all_iff)
  then have c: "frame_chunks n bytes = map frame_bytes (outs @ pad)"
    using a by (simp add: framer_step_ok_def)
  let ?g = "\<lambda>k. ptsUs (fr_total ?f + int k * framer_spf ?f) (fr_SampleRate ?f)"
  have "map af_TsUs outs = map ?g [0..<length outs]"
    using a by (simp add: framer_step_ok_def framer_spf_def)
  moreover have "length pad = (if ?c = [] then 0 else 1)" using arg_cong [OF p(1), of length] by simp
  moreover have "fr_total ?f1 = fr_total ?f + int (length outs) * framer_spf ?f"
    using a by (simp add: framer_step_ok_def framer_spf_def)
  ultimately have "map af_TsUs (outs @ pad) = map ?g [0..<length (outs @ pad)]"
    using p(2) by simp
  then show ?thesis
    using c n(2) by (simp add: frames_of_def heard_zip Let_def del: map_append)
qed

lemma framed_new:
  assumes "0 < samplesPerFrame rate dur"
  shows "framed (nat (2 * samplesPerFrame rate dur)) (new_speech rate dur None)"
  using assms by (simp add: framed_def new_speech_def bytesPerFrame_def framer_spf_def)

context speech_service
begin

text \<open>A stream left to run sends the frames of the service's audio of its sentences, and nothing else.\<close>

lemma stream_speaks:
  assumes "says w (spoken (sentences (map tok_Text toks) [])) bytes" "0 < samplesPerFrame rate dur"
  shows "\<exists>st outs. sentence_loop synth toks [] (w, new_speech rate dur None) = Some (st, outs, TtsOK) \<and>
    heard outs = frames_of (sp_framer (new_speech rate dur None)) bytes"
proof -
  note f = framed_new [OF assms(2)]
  from sentence_loop_ok [OF assms(1) f] obtain w' s1 s' outs pad where
    "sentence_loop synth toks [] (w, new_speech rate dur None) = Some ((w', s'), outs @ pad, TtsOK)"
    "spans (nat (2 * samplesPerFrame rate dur)) bytes (new_speech rate dur None) s1 outs" "speech_flush s1 = Some (s', pad, TtsOK)"
    by blast
  with stream_frames [OF this(2) f _ this(3)] show ?thesis by (auto simp: new_speech_def)
qed

end

text \<open>The bytes of those frames are the audio, filled up to a whole frame.\<close>

lemma concat_frame_chunks:
  assumes "0 < n"
  shows "\<exists>pad < n. concat (frame_chunks n bs) = bs @ replicate pad 0"
  using assms
proof (induction n bs rule: frame_chunks.induct)
  case (2 k bs)
  show ?case
  proof (cases "bs = []")
    case False
    show ?thesis
    proof (cases "length bs \<le> Suc k")
      case True
      with False show ?thesis by (intro exI [of _ "Suc k - length bs"]) (auto simp: neq_Nil_conv)
    next
      case l: False
      with 2 False obtain pad where "pad < Suc k" "concat (frame_chunks (Suc k) (drop (Suc k) bs)) = drop (Suc k) bs @ replicate pad 0"
        by blast
      with False l show ?thesis by (intro exI [of _ pad]) simp
    qed
  qed (auto intro: exI [of _ 0])
qed simp

lemma frame_chunks_lengths: "list_all (\<lambda>x. length x = n) (frame_chunks n bs)"
  by (induction n bs rule: frame_chunks.induct) auto

section \<open>Cancellation\<close>

text \<open>The same step with a budget and without: the two agree, or the first was cancelled after a part of what the
  second sends.\<close>

definition curtailed :: "('a \<Rightarrow> 'a \<Rightarrow> bool) \<Rightarrow> 'a tts_result \<Rightarrow> 'a tts_result \<Rightarrow> bool" where
  "curtailed eq r r0 \<longleftrightarrow> (\<exists>s outs e s0 outs0 e0. r = Some (s, outs, e) \<and> r0 = Some (s0, outs0, e0) \<and> eq s0 s0 \<and>
     (eq s s0 \<and> outs = outs0 \<and> e = e0 \<or> e = TtsCancelled \<and> prefix outs outs0))"

lemma curtailed_done: "eq s s0 \<Longrightarrow> eq s0 s0 \<Longrightarrow> curtailed eq (Some (s, outs, e)) (Some (s0, outs, e))"
  by (auto simp: curtailed_def)

lemma curtailed_map:
  assumes "curtailed eq r r0" "\<And>s s0. eq s s0 \<Longrightarrow> eq' (f s) (f s0)"
  shows "curtailed eq' (map_option (apfst f) r) (map_option (apfst f) r0)"
  using assms unfolding curtailed_def by fastforce

lemma curtailed_then:
  assumes "curtailed eq r r0" "\<And>s s0. eq s s0 \<Longrightarrow> curtailed eq' (k s) (k s0)" "\<And>s s0. eq s s0 \<Longrightarrow> eq' (back s) (back s0)"
  shows "curtailed eq' (tts_then r k back) (tts_then r0 k back)"
proof -
  obtain s outs e s0 outs0 e0 where r: "r = Some (s, outs, e)" "r0 = Some (s0, outs0, e0)" "eq s0 s0"
    "eq s s0 \<and> outs = outs0 \<and> e = e0 \<or> e = TtsCancelled \<and> prefix outs outs0"
    using assms(1) by (auto simp: curtailed_def)
  obtain s2 o2 e2 where k0: "k s0 = Some (s2, o2, e2)" "eq' s2 s2"
    using assms(2) [OF r(3)] by (auto simp: curtailed_def)
  note b0 = assms(3) [OF r(3)]
  show ?thesis
  proof (cases "eq s s0 \<and> outs = outs0 \<and> e = e0")
    case True
    show ?thesis
    proof (cases "e0 = TtsOK")
      case ok: True
      from assms(2) [of s s0] True show ?thesis
        by (auto simp: curtailed_def tts_then_def r(1,2) ok)
    next
      case False
      with True assms(3) [of s s0] b0 show ?thesis by (auto simp: curtailed_def tts_then_def r(1,2))
    qed
  next
    case False
    with r(4) have "e = TtsCancelled" "prefix outs outs0" by auto
    then show ?thesis
      by (cases "e0 = TtsOK") (auto simp: curtailed_def tts_then_def r(1,2) k0 b0)
  qed
qed

text \<open>States that differ in their budget only.\<close>

definition tracks :: "nat \<Rightarrow> speech \<Rightarrow> speech \<Rightarrow> bool" where
  "tracks n s s0 \<longleftrightarrow> 0 < n \<and> bytesPerFrame (sp_framer s0) = int n \<and> sp_budget s0 = None \<and>
     sp_framer s = sp_framer s0 \<and> sp_reads s = sp_reads s0"

definition tracks2 :: "nat \<Rightarrow> 'w \<times> speech \<Rightarrow> 'w \<times> speech \<Rightarrow> bool" where
  "tracks2 n st st0 \<longleftrightarrow> fst st = fst st0 \<and> tracks n (snd st) (snd st0)"

lemma tracks2_refl: "tracks2 n st st0 \<Longrightarrow> tracks2 n st0 st0"
  by (simp add: tracks2_def tracks_def)

lemma framer_loop_curtailed:
  assumes "bytesPerFrame f = int n" "0 < n"
  shows "\<exists>f1 j b1 outs st f0 j0 outs0. framer_loop clock lead f i b = Some (f1, j, b1, outs, st) \<and>
    framer_loop clock lead f i None = Some (f0, j0, None, outs0, Emitted) \<and> bytesPerFrame f0 = int n \<and>
    (f1 = f0 \<and> j = j0 \<and> outs = outs0 \<and> st = Emitted \<or> st = Cancelled \<and> prefix outs outs0)"
  using assms(1)
proof (induction "length (fr_carry f)" arbitrary: f i b rule: less_induct)
  case less
  show ?case
  proof (cases "length (fr_carry f) < n")
    case True
    then show ?thesis
      using less.prems by (subst (1 2) framer_loop.simps) simp
  next
    case False
    obtain start d j where pace: "framer_pace clock lead f i = (start, d, j)" by (metis prod_cases3)
    let ?g = "f\<lparr>fr_carry := drop n (fr_carry f), fr_start := Some start, fr_total := fr_total f + framer_spf f\<rparr>"
    let ?out = "\<lparr>af_PCM = bytes_buf (take n (fr_carry f)), af_TsUs = ptsUs (fr_total f) (fr_SampleRate f)\<rparr>"
    have "bytesPerFrame ?g = int n" using less.prems by (simp add: bytesPerFrame_def framer_spf_def)
    moreover have "length (fr_carry ?g) < length (fr_carry f)" using False assms(2) by simp
    ultimately have IH: "\<And>b. \<exists>f1 k b1 outs st f0 j0 outs0. framer_loop clock lead ?g j b = Some (f1, k, b1, outs, st) \<and>
        framer_loop clock lead ?g j None = Some (f0, j0, None, outs0, Emitted) \<and> bytesPerFrame f0 = int n \<and>
        (f1 = f0 \<and> k = j0 \<and> outs = outs0 \<and> st = Emitted \<or> st = Cancelled \<and> prefix outs outs0)"
      using less.hyps [of ?g j] by blast
    from IH [of None] obtain f0 j0 outs0 where
      n0: "framer_loop clock lead ?g j None = Some (f0, j0, None, outs0, Emitted)" "bytesPerFrame f0 = int n" by blast
    have run: "framer_loop clock lead f i b =
      (let f1 = f\<lparr>fr_carry := drop n (fr_carry f), fr_start := Some start\<rparr> in
       case (if d > 0 then spend b else Some b) of
         None \<Rightarrow> Some (f1, j, b, [], Cancelled)
       | Some b1 \<Rightarrow> (case spend b1 of
            None \<Rightarrow> Some (f1, j, b1, [], Cancelled)
          | Some b2 \<Rightarrow> Option.bind (framer_loop clock lead ?g j b2) (\<lambda>(f2, k, b3, outs, st). Some (f2, k, b3, ?out # outs, st))))" for b
      using False less.prems pace by (subst framer_loop.simps) (simp add: Let_def)
    have r0: "framer_loop clock lead f i None = Some (f0, j0, None, ?out # outs0, Emitted)"
      unfolding run using n0(1) by (cases "d > 0") simp_all
    have stop: ?thesis if "framer_loop clock lead f i b = Some (f1, j, b1, [], Cancelled)" for f1 b1
      using that r0 n0(2) by auto
    have go: ?thesis if c: "framer_loop clock lead f i b =
        Option.bind (framer_loop clock lead ?g j b2) (\<lambda>(f2, k, b3, outs, st). Some (f2, k, b3, ?out # outs, st))" for b2
    proof -
      from IH [of b2] n0 obtain f1 k b1 outs st where
        "framer_loop clock lead ?g j b2 = Some (f1, k, b1, outs, st)"
        "f1 = f0 \<and> k = j0 \<and> outs = outs0 \<and> st = Emitted \<or> st = Cancelled \<and> prefix outs outs0" by auto
      with c r0 n0(2) show ?thesis by auto
    qed
    show ?thesis
    proof (cases "if d > 0 then spend b else Some b")
      case None
      then show ?thesis using run [of b] by (intro stop) (simp add: Let_def)
    next
      case b1: (Some b1)
      then show ?thesis
      proof (cases "spend b1")
        case None
        then show ?thesis using run [of b] b1 by (intro stop) (simp add: Let_def)
      next
        case (Some b2)
        then show ?thesis using run [of b] b1 by (intro go) (simp add: Let_def)
      qed
    qed
  qed
qed

lemma speech_emit_curtailed:
  assumes "tracks n s s0"
  shows "curtailed (tracks n) (speech_emit clock pcm s) (speech_emit clock pcm s0)"
proof -
  let ?f = "(sp_framer s0)\<lparr>fr_carry := fr_carry (sp_framer s0) @ pcm\<rparr>"
  have "bytesPerFrame ?f = int n" "0 < n"
    using assms by (simp_all add: tracks_def bytesPerFrame_def framer_spf_def)
  from framer_loop_curtailed [OF this, of clock "if fr_Lead (sp_framer s0) \<le> 0 then 200 * Millisecond else fr_Lead (sp_framer s0)"
      "sp_reads s0" "sp_budget s"] assms show ?thesis
    by (fastforce simp: curtailed_def speech_emit_def PCMFramer_Emit_def Let_def tracks_def)
qed

lemma speech_flush_curtailed:
  assumes "tracks n s s0"
  shows "curtailed (tracks n) (speech_flush s) (speech_flush s0)"
proof -
  have f: "sp_framer s = sp_framer s0" "sp_budget s0 = None" "0 < n" "bytesPerFrame (sp_framer s0) = int n"
    using assms by (simp_all add: tracks_def)
  then show ?thesis using assms
    by (cases "spend (sp_budget s)")
      (auto simp: curtailed_def speech_flush_def PCMFramer_Flush_def Let_def tracks_def bytesPerFrame_def framer_spf_def)
qed

locale curtailing_service =
  fixes synth :: "'w synth"
  assumes synth_curtailed: "tracks2 n st st0 \<Longrightarrow> curtailed (tracks2 n) (synth t st) (synth t st0)"
begin

lemma receive_curtailed: "tracks2 n st st0 \<Longrightarrow> curtailed (tracks2 n) (receive st) (receive st0)"
  by (cases "spend (sp_budget (snd st))") (auto simp: curtailed_def receive_def tracks2_def tracks_def)

lemma speak_text_curtailed: "tracks2 n st st0 \<Longrightarrow> curtailed (tracks2 n) (speak_text synth t st) (speak_text synth t st0)"
  using synth_curtailed [of n st st0 t] curtailed_done [of "tracks2 n" st st0 "[]" TtsOK]
  by (auto simp: speak_text_def tracks2_refl)

lemma sentence_loop_curtailed:
  "tracks2 n st st0 \<Longrightarrow> curtailed (tracks2 n) (sentence_loop synth toks buf st) (sentence_loop synth toks buf st0)"
proof (induction toks arbitrary: buf st st0)
  case Nil
  show ?case unfolding sentence_loop.simps
  proof (intro curtailed_then [OF receive_curtailed [OF Nil]] curtailed_then [OF speak_text_curtailed])
    fix s s0 :: "'w \<times> speech" assume t: "tracks2 n s s0"
    then have "curtailed (tracks n) (speech_flush (snd s)) (speech_flush (snd s0))" "fst s = fst s0"
      using speech_flush_curtailed by (auto simp: tracks2_def)
    then show "curtailed (tracks2 n) (map_option (apfst (Pair (fst s))) (speech_flush (snd s)))
        (map_option (apfst (Pair (fst s0))) (speech_flush (snd s0)))"
      using curtailed_map [of "tracks n" _ _ "tracks2 n" "Pair (fst s0)"] by (simp add: tracks2_def)
  qed simp_all
next
  case (Cons tok toks)
  show ?case unfolding sentence_loop.simps
  proof (intro curtailed_then [OF receive_curtailed [OF Cons.prems]])
    fix s s0 :: "'w \<times> speech" assume t: "tracks2 n s s0"
    show "curtailed (tracks2 n)
        (let buf1 = buf @ tok_Text tok in
         if EndsSentence buf1 then tts_then (speak_text synth buf1 s) (sentence_loop synth toks []) id else sentence_loop synth toks buf1 s)
        (let buf1 = buf @ tok_Text tok in
         if EndsSentence buf1 then tts_then (speak_text synth buf1 s0) (sentence_loop synth toks []) id else sentence_loop synth toks buf1 s0)"
      using Cons.IH [OF t] curtailed_then [OF speak_text_curtailed [OF t] Cons.IH] by (simp add: Let_def)
  qed simp_all
qed

text \<open>A cancelled stream has sent the first frames of the one that is left to run.\<close>

lemma stream_curtailed:
  assumes "0 < samplesPerFrame rate dur"
  shows "\<exists>st outs e st0 outs0 e0. sentence_loop synth toks [] (w, new_speech rate dur b) = Some (st, outs, e) \<and>
    sentence_loop synth toks [] (w, new_speech rate dur None) = Some (st0, outs0, e0) \<and>
    (outs = outs0 \<and> e = e0 \<or> e = TtsCancelled \<and> prefix outs outs0)"
proof -
  have "tracks2 (nat (2 * samplesPerFrame rate dur)) (w, new_speech rate dur b) (w, new_speech rate dur None)"
    using assms by (simp add: tracks2_def tracks_def new_speech_def bytesPerFrame_def framer_spf_def)
  from sentence_loop_curtailed [OF this, of toks "[]"] show ?thesis by (fastforce simp: curtailed_def)
qed

end

end
