(* ===== verification/Openaitts.thy ===== *)
theory Openaitts
  imports Speech Exposition
begin

text \<open>
  The synthesiser over HTTP of \<open>internal/adapter/openaitts/openaitts.go\<close>: the factory with its defaults, the
  request for a sentence, the reading of the answer into the framer, and the stream. The HTTP library is a
  parameter: a function from the number of the request and the request to what comes back.
\<close>

section \<open>Numbers in JSON\<close>

text \<open>The form of a float in JSON: no exponent between \<open>10^-6\<close> and \<open>10^21\<close>, and one digit in a small one.\<close>

definition clean_exponent :: "string \<Rightarrow> string" where
  "clean_exponent s =
     (let n = length s in
      if n \<ge> 4 \<and> s ! (n - 4) = CHR ''e'' \<and> s ! (n - 3) = CHR ''-'' \<and> s ! (n - 2) = CHR ''0''
      then take (n - 2) s @ [s ! (n - 1)] else s)"

definition json_float :: "real \<Rightarrow> json" where
  "json_float v = JNum (runes_of ((if v < 0 then ''-'' else []) @
     (case shortest \<bar>v\<bar> of (ds, dp) \<Rightarrow>
        if v \<noteq> 0 \<and> (\<bar>v\<bar> < 1 / 10 ^ 6 \<or> \<bar>v\<bar> \<ge> 10 ^ 21) then clean_exponent (fmtE ds dp) else fmtF ds dp)))"

definition json_int :: "int \<Rightarrow> json" where
  "json_int n = JNum (runes_of ((if n < 0 then ''-'' else []) @ nat_digits (nat \<bar>n\<bar>)))"

section \<open>The adapter\<close>

record OpenAITTS =
  oa_baseURL :: runes
  oa_model :: runes
  oa_voice :: runes
  oa_format :: runes
  oa_apiKey :: runes
  oa_speed :: real
  oa_sampleRate :: int
  oa_frameDuration :: duration

definition OpenAITTS_New :: "runes \<Rightarrow> runes \<Rightarrow> runes \<Rightarrow> runes \<Rightarrow> runes \<Rightarrow> real \<Rightarrow> int \<Rightarrow> duration \<Rightarrow> OpenAITTS" where
  "OpenAITTS_New baseURL model voice format apiKey speed sampleRate frameDuration =
     \<lparr>oa_baseURL = TrimRight 47 baseURL, oa_model = model, oa_voice = voice, oa_format = format, oa_apiKey = apiKey,
      oa_speed = speed, oa_sampleRate = sampleRate, oa_frameDuration = frameDuration\<rparr>"

definition OpenAITTS_factory :: "env \<Rightarrow> OpenAITTS factory" where
  "OpenAITTS_factory e cfg =
     (let c = ad_OpenAITTS (cf_Adapters cfg) in
      if ot_BaseURL c = [] \<or> ot_Model c = [] then Inl (FactoryFailed ''openaitts: base_url and model'')
      else let sr = (if ot_SampleRate c \<le> 0 then au_SampleRate (cf_Audio cfg) else ot_SampleRate c);
               speed = (if ot_Speed c \<le> 0 then 1 else ot_Speed c);
               format = (if ot_Format c = [] then ''pcm'' else ot_Format c);
               voice = (if ot_Voice c = [] then ''alloy'' else ot_Voice c);
               key = (if ot_APIKeyEnv c \<noteq> [] then Getenv e (ot_APIKeyEnv c) else []) in
        Inr (OpenAITTS_New (text_of (ot_BaseURL c)) (text_of (ot_Model c)) (text_of voice) (text_of format) (text_of key)
               speed sr (au_FrameDuration (cf_Audio cfg))))"

definition speechRequest :: "OpenAITTS \<Rightarrow> runes \<Rightarrow> json" where
  "speechRequest t text =
     JObj ([(runes_of ''model'', JStr (oa_model t)), (runes_of ''input'', JStr text), (runes_of ''voice'', JStr (oa_voice t)),
            (runes_of ''response_format'', JStr (oa_format t))] @
           (if oa_speed t = 0 then [] else [(runes_of ''speed'', json_float (oa_speed t))]) @
           (if oa_sampleRate t = 0 then [] else [(runes_of ''sample_rate'', json_int (oa_sampleRate t))]))"

definition speech_request :: "OpenAITTS \<Rightarrow> runes \<Rightarrow> http_request" where
  "speech_request t text =
     \<lparr>hr_URL = oa_baseURL t @ runes_of ''/audio/speech'',
      hr_Headers = (runes_of ''Content-Type'', runes_of ''application/json'') #
        (if oa_apiKey t = [] then [] else [(runes_of ''Authorization'', runes_of ''Bearer '' @ oa_apiKey t)]),
      hr_Body = Marshal (speechRequest t text)\<rparr>"

section \<open>Synthesis\<close>

text \<open>The answer: its status, the start of its body when the status is not 200, and otherwise what each \<open>Read\<close> gives
  and how the body ends; the booleans tell whether the context was cancelled by then.\<close>

datatype body_end = BodyEOF | BodyFailed bool
datatype speech_reply = SpBuildFailed | SpDoFailed bool | SpReply nat runes "u8 list list" body_end

fun emit_chunks :: "(nat \<Rightarrow> instant) \<Rightarrow> u8 list list \<Rightarrow> speech \<Rightarrow> speech tts_result" where
  "emit_chunks clock [] s = Some (s, [], TtsOK)"
| "emit_chunks clock (c # cs) s =
     (if c = [] then emit_chunks clock cs s else tts_then (speech_emit clock c s) (emit_chunks clock cs) id)"

fun body_result :: "body_end \<Rightarrow> tts_end" where
  "body_result BodyEOF = TtsOK"
| "body_result (BodyFailed c) = (if c then TtsCancelled else TtsRead)"

definition OpenAITTS_synth :: "(nat \<Rightarrow> instant) \<Rightarrow> (nat \<Rightarrow> http_request \<Rightarrow> speech_reply) \<Rightarrow> OpenAITTS \<Rightarrow> nat synth" where
  "OpenAITTS_synth clock http t text st =
     (case st of (k, s) \<Rightarrow>
        case http k (speech_request t text) of
          SpBuildFailed \<Rightarrow> Some ((Suc k, s), [], TtsBuild)
        | SpDoFailed c \<Rightarrow> Some ((Suc k, s), [], if c then TtsCancelled else TtsRequest)
        | SpReply status detail chunks e \<Rightarrow>
            if status \<noteq> 200 then Some ((Suc k, s), [], TtsStatus status (TrimSpace_runes detail))
            else tts_then (emit_chunks clock chunks s) (\<lambda>s1. Some ((Suc k, s1), [], body_result e)) (Pair (Suc k)))"

definition OpenAITTS_Stream :: "(nat \<Rightarrow> instant) \<Rightarrow> (nat \<Rightarrow> http_request \<Rightarrow> speech_reply) \<Rightarrow> OpenAITTS \<Rightarrow> budget \<Rightarrow>
    Token list \<Rightarrow> (AudioFrame list \<times> tts_end) option" where
  "OpenAITTS_Stream clock http t b toks =
     (if oa_sampleRate t \<le> 0 \<or> oa_frameDuration t \<le> 0 then Some ([], TtsConfig)
      else map_option snd (sentence_loop (OpenAITTS_synth clock http t) toks []
             (0, new_speech (oa_sampleRate t) (oa_frameDuration t) b)))"

section \<open>What is heard\<close>

text \<open>The audio the service has for some texts, from its \<open>k\<close>-th request on.\<close>

fun served_audio :: "(nat \<Rightarrow> http_request \<Rightarrow> speech_reply) \<Rightarrow> OpenAITTS \<Rightarrow> nat \<Rightarrow> runes list \<Rightarrow> u8 list option" where
  "served_audio http t k [] = Some []"
| "served_audio http t k (x # xs) =
     (case http k (speech_request t x) of
        SpReply status _ chunks BodyEOF \<Rightarrow>
          if status = 200 then map_option ((@) (concat chunks)) (served_audio http t (Suc k) xs) else None
      | _ \<Rightarrow> None)"

lemma emit_chunks_ok:
  assumes "framed n s"
  shows "\<exists>s' outs. emit_chunks clock cs s = Some (s', outs, TtsOK) \<and> spans n (concat cs) s s' outs"
  using assms
proof (induction cs arbitrary: s)
  case Nil
  then show ?case by (simp add: spans_refl)
next
  case (Cons c cs)
  show ?case
  proof (cases "c = []")
    case True
    with Cons show ?thesis by simp
  next
    case False
    from speech_emit_ok [OF Cons.prems, of clock c] obtain s1 o1 where
      e: "speech_emit clock c s = Some (s1, o1, TtsOK)" "spans n c s s1 o1" by blast
    then have "framed n s1" by (simp add: spans_def)
    from Cons.IH [OF this] obtain s2 o2 where
      "emit_chunks clock cs s1 = Some (s2, o2, TtsOK)" "spans n (concat cs) s1 s2 o2" by blast
    with e False spans_trans [OF e(2) this(2)] show ?thesis by (auto simp: tts_then_def)
  qed
qed

interpretation openai: speech_service "OpenAITTS_synth clock http t" "\<lambda>k ts bytes. served_audio http t k ts = Some bytes"
  for clock http t
proof
  fix k x ts bytes n s
  assume a: "served_audio http t k (x # ts) = Some bytes" and f: "framed n s"
  from a obtain detail chunks b2 where h: "http k (speech_request t x) = SpReply 200 detail chunks BodyEOF"
    "served_audio http t (Suc k) ts = Some b2" "bytes = concat chunks @ b2"
    by (auto split: speech_reply.splits body_end.splits if_splits)
  from emit_chunks_ok [OF f, of clock chunks] obtain s' outs where
    "emit_chunks clock chunks s = Some (s', outs, TtsOK)" "spans n (concat chunks) s s' outs" by blast
  with h show "\<exists>k' s' outs b1 b2. OpenAITTS_synth clock http t x (k, s) = Some ((k', s'), outs, TtsOK) \<and>
      spans n b1 s s' outs \<and> served_audio http t k' ts = Some b2 \<and> bytes = b1 @ b2"
    by (intro exI [of _ "Suc k"] exI [of _ s'] exI [of _ outs] exI [of _ "concat chunks"] exI [of _ b2])
      (simp add: OpenAITTS_synth_def tts_then_def)
qed simp

lemma emit_chunks_curtailed: "tracks n s s0 \<Longrightarrow> curtailed (tracks n) (emit_chunks clock cs s) (emit_chunks clock cs s0)"
proof (induction cs arbitrary: s s0)
  case Nil
  then show ?case by (auto intro!: curtailed_done simp: tracks_def)
next
  case (Cons c cs)
  have "curtailed (tracks n) (tts_then (speech_emit clock c s) (emit_chunks clock cs) id)
      (tts_then (speech_emit clock c s0) (emit_chunks clock cs) id)"
    by (rule curtailed_then [OF speech_emit_curtailed [OF Cons.prems] Cons.IH]) simp_all
  with Cons show ?case by simp
qed

interpretation openai_cancel: curtailing_service "OpenAITTS_synth clock http t" for clock http t
proof
  fix n and st st0 :: "nat \<times> speech" and x
  assume t: "tracks2 n st st0"
  then obtain k s s0 where st: "st = (k, s)" "st0 = (k, s0)" "tracks n s s0" by (cases st; cases st0) (auto simp: tracks2_def)
  have done': "curtailed (tracks2 n) (Some ((Suc k, s), [], e)) (Some ((Suc k, s0), [], e))" for e
    using st(3) by (intro curtailed_done) (auto simp: tracks2_def tracks_def)
  have "curtailed (tracks2 n) (tts_then (emit_chunks clock cs s) (\<lambda>s1. Some ((Suc k, s1), [], e)) (Pair (Suc k)))
      (tts_then (emit_chunks clock cs s0) (\<lambda>s1. Some ((Suc k, s1), [], e)) (Pair (Suc k)))" for cs e
    by (rule curtailed_then [OF emit_chunks_curtailed [OF st(3)]])
      (auto intro!: curtailed_done simp: tracks2_def tracks_def)
  with done' show "curtailed (tracks2 n) (OpenAITTS_synth clock http t x st) (OpenAITTS_synth clock http t x st0)"
    by (simp add: OpenAITTS_synth_def st split: speech_reply.split)
qed

lemma openai_stream_speaks:
  assumes "served_audio http t 0 (spoken (sentences (map tok_Text toks) [])) = Some bytes"
    and "0 < oa_sampleRate t" "0 < oa_frameDuration t" "0 < samplesPerFrame (oa_sampleRate t) (oa_frameDuration t)"
  shows "\<exists>outs. OpenAITTS_Stream clock http t None toks = Some (outs, TtsOK) \<and>
    heard outs = frames_of (sp_framer (new_speech (oa_sampleRate t) (oa_frameDuration t) None)) bytes"
  using openai.stream_speaks [OF assms(1,4), of clock] assms(2,3) by (auto simp: OpenAITTS_Stream_def not_le)

lemma openai_stream_frames:
  assumes "served_audio http t 0 (spoken (sentences (map tok_Text toks) [])) = Some bytes"
    and "0 < oa_sampleRate t" "0 < oa_frameDuration t" "samplesPerFrame (oa_sampleRate t) (oa_frameDuration t) = int m" "0 < m"
  shows "\<exists>outs pad. OpenAITTS_Stream clock http t None toks = Some (outs, TtsOK) \<and> pad < 2 * m \<and>
      concat (map frame_bytes outs) = bytes @ replicate pad 0 \<and> list_all (\<lambda>x. length (frame_bytes x) = 2 * m) outs \<and>
      map af_TsUs outs = map (\<lambda>k. ptsUs (int k * int m) (oa_sampleRate t)) [0..<length outs]"
proof -
  let ?f = "sp_framer (new_speech (oa_sampleRate t) (oa_frameDuration t) None)"
  have m: "nat (bytesPerFrame ?f) = 2 * m" "framer_spf ?f = int m" "fr_total ?f = 0" "fr_SampleRate ?f = oa_sampleRate t"
    using assms(4) by (simp_all add: bytesPerFrame_def framer_spf_def new_speech_def)
  obtain outs where o: "OpenAITTS_Stream clock http t None toks = Some (outs, TtsOK)" "heard outs = frames_of ?f bytes"
    using openai_stream_speaks [OF assms(1-3), of clock] assms(4,5) by auto
  let ?cs = "frame_chunks (2 * m) bytes"
  have h: "map frame_bytes outs = ?cs" "map af_TsUs outs = map (\<lambda>k. ptsUs (int k * int m) (oa_sampleRate t)) [0..<length ?cs]"
    using arg_cong [OF o(2), of "map fst"] arg_cong [OF o(2), of "map snd"]
    by (simp_all add: frames_of_def m Let_def heard_def comp_def)
  obtain pad where p: "pad < 2 * m" "concat ?cs = bytes @ replicate pad 0"
    using concat_frame_chunks [of "2 * m" bytes] assms(5) by auto
  have "list_all (\<lambda>x. length x = 2 * m) ?cs"
    by (rule frame_chunks_lengths)
  then have l: "list_all (\<lambda>x. length (frame_bytes x) = 2 * m) outs"
    unfolding h(1) [symmetric] by (simp add: list_all_iff)
  have "length outs = length ?cs" using arg_cong [OF h(1), of length] by simp
  with o(1) p h l show ?thesis by (intro exI [of _ outs] exI [of _ pad]) simp
qed

text \<open>
  The synthesiser speaks the whole answer: the sentences it posts, joined, are the text of the tokens;
  when the service has audio for each of them the stream ends without error, and its frames are whole,
  stamped with their positions on the sample clock, and joined are the audio of the sentences in order with
  less than a frame of silence after it, whatever pieces the audio arrives in and whatever the clock shows.
\<close>

theorem openai_tts_speaks:
  assumes "served_audio http t 0 (spoken (sentences (map tok_Text toks) [])) = Some bytes"
    and "0 < oa_sampleRate t" "0 < oa_frameDuration t" "samplesPerFrame (oa_sampleRate t) (oa_frameDuration t) = int m" "0 < m"
  shows "concat (sentences (map tok_Text toks) []) = concat (map tok_Text toks) \<and>
    (\<exists>outs pad. OpenAITTS_Stream clock http t None toks = Some (outs, TtsOK) \<and> pad < 2 * m \<and>
      concat (map frame_bytes outs) = bytes @ replicate pad 0 \<and> list_all (\<lambda>x. length (frame_bytes x) = 2 * m) outs \<and>
      map af_TsUs outs = map (\<lambda>k. ptsUs (int k * int m) (oa_sampleRate t)) [0..<length outs])"
  using openai_stream_frames [OF assms] by (simp add: concat_sentences)

definition demo_tts :: OpenAITTS where
  "demo_tts = OpenAITTS_New (runes_of ''http://h'') [] [] [] [] 1 1000 (2 * Millisecond)"

definition demo_service :: "nat \<Rightarrow> http_request \<Rightarrow> speech_reply" where
  "demo_service k r = SpReply 200 [] (if k = 0 then [[1, 2, 3], [4, 5]] else [[6]]) BodyEOF"

definition demo_tokens :: "Token list" where
  "demo_tokens = [\<lparr>tok_Text = [72]\<rparr>, \<lparr>tok_Text = [46]\<rparr>, \<lparr>tok_Text = [72]\<rparr>]"

lemma demo_sentences: "spoken (sentences (map tok_Text demo_tokens) []) = [[72, 46], [72]]"
  by (simp add: demo_tokens_def EndsSentence_def TrimRightBlank_def spoken_def TrimSpace_runes_def IsSpace_def)

lemma demo_served: "served_audio demo_service demo_tts 0 [[72, 46], [72]] = Some [1, 2, 3, 4, 5, 6]"
  by (simp add: demo_service_def)

lemma demo_rate: "0 < oa_sampleRate demo_tts" "0 < oa_frameDuration demo_tts"
  "samplesPerFrame (oa_sampleRate demo_tts) (oa_frameDuration demo_tts) = int 2"
  by (simp_all add: demo_tts_def OpenAITTS_New_def samplesPerFrame_def signed_divide_int_def)

theorem openai_tts_speaks_witness:
  "\<exists>outs pad. OpenAITTS_Stream (\<lambda>_. 0) demo_service demo_tts None demo_tokens = Some (outs, TtsOK) \<and> pad < 4 \<and>
     concat (map frame_bytes outs) = [1, 2, 3, 4, 5, 6] @ replicate pad 0"
  using openai_tts_speaks [of demo_service demo_tts demo_tokens, unfolded demo_sentences, OF demo_served demo_rate, of "\<lambda>_. 0"]
  by auto

text \<open>
  A cancelled synthesis sends only what the uncancelled one sends: with any budget the stream returns, and either
  the same frames with the same end, or a cancellation after an initial part of those frames.
\<close>

theorem openai_tts_cancel:
  assumes "0 < samplesPerFrame (oa_sampleRate t) (oa_frameDuration t)"
  shows "\<exists>outs e outs0 e0. OpenAITTS_Stream clock http t b toks = Some (outs, e) \<and>
    OpenAITTS_Stream clock http t None toks = Some (outs0, e0) \<and>
    (outs = outs0 \<and> e = e0 \<or> e = TtsCancelled \<and> prefix outs outs0)"
  using openai_cancel.stream_curtailed [OF assms, of clock http t toks 0 b]
  by (fastforce simp: OpenAITTS_Stream_def)

theorem openai_tts_cancel_witness:
  "\<exists>outs e outs0 e0. OpenAITTS_Stream (\<lambda>_. 0) demo_service demo_tts (Some 4) demo_tokens = Some (outs, e) \<and>
     OpenAITTS_Stream (\<lambda>_. 0) demo_service demo_tts None demo_tokens = Some (outs0, e0) \<and> prefix outs outs0"
proof -
  have "0 < samplesPerFrame (oa_sampleRate demo_tts) (oa_frameDuration demo_tts)" by (simp add: demo_rate(3))
  from openai_tts_cancel [OF this, of "\<lambda>_. 0" demo_service "Some 4" demo_tokens] show ?thesis by auto
qed

text \<open>The factory's adapter takes the rate of the configuration, so a configuration that passes \<open>Validate\<close> and has a
  positive frame duration never makes a stream end with \<open>TtsConfig\<close>.\<close>

lemma openai_factory_rate:
  assumes "OpenAITTS_factory e cfg = Inr t" "Validate cfg = None"
  shows "0 < oa_sampleRate t" "oa_frameDuration t = au_FrameDuration (cf_Audio cfg)" "0 < oa_speed t"
  using assms Validate_D(12) [OF assms(2)]
  by (auto simp: OpenAITTS_factory_def OpenAITTS_New_def Let_def split: if_splits)

end
