(* ===== verification/Sherpatts.thy ===== *)
theory Sherpatts
  imports Openaitts
begin

text \<open>
  The synthesiser over WebSocket of \<open>internal/adapter/sherpa\<close> (\<open>sherpa.go\<close>, \<open>tts.go\<close>): the factory, the query of the
  connection, one text written and its audio read back, and the stream. The WebSocket library and the sidecar are a
  parameter: the messages a connection has in flight, what the peer sends for the texts it has been sent so far, how many
  writes the connection takes, and whether the failure after that is the cancellation of the context.
\<close>

section \<open>Connections\<close>

datatype ws_msg = WsText runes | WsBinary "u8 list"

record ws_conn =
  ws_in :: "ws_msg list"
  ws_sent :: "runes list"
  ws_reply :: "runes list \<Rightarrow> ws_msg list"
  ws_writes :: budget
  ws_cancelled :: bool

type_synonym ws_dial = "runes \<Rightarrow> (runes \<times> runes) list \<Rightarrow> ws_conn option"

text \<open>A write of a text message: the peer has it and answers it.\<close>

definition ws_write :: "runes \<Rightarrow> ws_conn \<Rightarrow> ws_conn option" where
  "ws_write text c = map_option (\<lambda>w. c\<lparr>ws_writes := w, ws_sent := ws_sent c @ [text],
     ws_in := ws_in c @ ws_reply c (ws_sent c @ [text])\<rparr>) (spend (ws_writes c))"

text \<open>\<open>wsErr\<close>: a failure while the context is cancelled is the cancellation.\<close>

definition wsErr :: "ws_conn \<Rightarrow> tts_end \<Rightarrow> tts_end" where
  "wsErr c e = (if ws_cancelled c then TtsCancelled else e)"

section \<open>The adapter\<close>

record SherpaTTS =
  st_url :: runes
  st_sampleRate :: int
  st_frameDuration :: duration
  st_speakerID :: int
  st_speed :: real

definition SherpaTTS_factory :: "SherpaTTS factory" where
  "SherpaTTS_factory cfg =
     (let s = ad_Sherpa (cf_Adapters cfg) in
      if sh_TTSURL s = [] then Inl (FactoryFailed ''sherpa: tts_url'')
      else Inr \<lparr>st_url = text_of (sh_TTSURL s), st_sampleRate = au_SampleRate (cf_Audio cfg),
        st_frameDuration = au_FrameDuration (cf_Audio cfg), st_speakerID = sh_TTSSpeakerID s,
        st_speed = (if sh_TTSSpeed s \<le> 0 then 1 else sh_TTSSpeed s)\<rparr>)"

definition Itoa :: "int \<Rightarrow> runes" where
  "Itoa n = runes_of ((if n < 0 then ''-'' else []) @ nat_digits (nat \<bar>n\<bar>))"

definition tts_query :: "SherpaTTS \<Rightarrow> (runes \<times> runes) list" where
  "tts_query t =
     [(runes_of ''samplerate'', Itoa (st_sampleRate t)), (runes_of ''sid'', Itoa (st_speakerID t)),
      (runes_of ''speed'', runes_of ((if st_speed t < 0 then ''-'' else []) @ (case shortest \<bar>st_speed t\<bar> of (ds, dp) \<Rightarrow> fmtF ds dp))),
      (runes_of ''interrupt'', runes_of ''false''), (runes_of ''split'', runes_of ''false'')]"

text \<open>Reading the audio of a text, up to the text message that ends it.\<close>

fun sherpa_read :: "(nat \<Rightarrow> instant) \<Rightarrow> ws_conn \<Rightarrow> ws_msg list \<Rightarrow> speech \<Rightarrow> (ws_conn \<times> speech) tts_result" where
  "sherpa_read clock c [] s = Some ((c\<lparr>ws_in := []\<rparr>, s), [], wsErr c TtsRead)"
| "sherpa_read clock c (WsBinary d # ms) s =
     tts_then (speech_emit clock d s) (sherpa_read clock c ms) (Pair (c\<lparr>ws_in := ms\<rparr>))"
| "sherpa_read clock c (WsText _ # ms) s = Some ((c\<lparr>ws_in := ms\<rparr>, s), [], TtsOK)"

definition SherpaTTS_synth :: "(nat \<Rightarrow> instant) \<Rightarrow> ws_conn synth" where
  "SherpaTTS_synth clock text st =
     (case st of (c, s) \<Rightarrow>
        case ws_write text c of
          None \<Rightarrow> Some ((c, s), [], wsErr c TtsWrite)
        | Some c1 \<Rightarrow> sherpa_read clock c1 (ws_in c1) s)"

definition SherpaTTS_Stream :: "(nat \<Rightarrow> instant) \<Rightarrow> ws_dial \<Rightarrow> SherpaTTS \<Rightarrow> budget \<Rightarrow> Token list \<Rightarrow>
    (AudioFrame list \<times> tts_end) option" where
  "SherpaTTS_Stream clock dial t b toks =
     (if st_sampleRate t \<le> 0 \<or> st_frameDuration t \<le> 0 then Some ([], TtsConfig)
      else case dial (st_url t) (tts_query t) of
        None \<Rightarrow> Some ([], TtsDial)
      | Some c \<Rightarrow> map_option snd (sentence_loop (SherpaTTS_synth clock) toks []
             (c, new_speech (st_sampleRate t) (st_frameDuration t) b)))"

section \<open>What is heard\<close>

text \<open>
  The audio of the texts a peer is sent, after \<open>sent\<close>: it answers each with binary messages and one text message that ends
  them, and nothing else.
\<close>

fun take_audio_msgs :: "ws_msg list \<Rightarrow> (u8 list \<times> ws_msg list) option" where
  "take_audio_msgs [] = None"
| "take_audio_msgs (WsText _ # ms) = Some ([], ms)"
| "take_audio_msgs (WsBinary d # ms) = map_option (apfst ((@) d)) (take_audio_msgs ms)"

fun sidecar_audio :: "(runes list \<Rightarrow> ws_msg list) \<Rightarrow> runes list \<Rightarrow> runes list \<Rightarrow> u8 list option" where
  "sidecar_audio reply sent [] = Some []"
| "sidecar_audio reply sent (t # ts) =
     (case take_audio_msgs (reply (sent @ [t])) of
        Some (b, []) \<Rightarrow> map_option ((@) b) (sidecar_audio reply (sent @ [t]) ts)
      | _ \<Rightarrow> None)"

definition sidecar_says :: "ws_conn \<Rightarrow> runes list \<Rightarrow> u8 list \<Rightarrow> bool" where
  "sidecar_says c ts bytes \<longleftrightarrow> ws_writes c = None \<and> ws_in c = [] \<and> sidecar_audio (ws_reply c) (ws_sent c) ts = Some bytes"

lemma sherpa_read_ok:
  assumes "framed n s" "take_audio_msgs ms = Some (b, rest)"
  shows "\<exists>s' outs. sherpa_read clock c ms s = Some ((c\<lparr>ws_in := rest\<rparr>, s'), outs, TtsOK) \<and> spans n b s s' outs"
  using assms
proof (induction ms arbitrary: s b rule: take_audio_msgs.induct)
  case (2 u ms)
  then show ?case by (auto simp: spans_refl)
next
  case (3 d ms)
  then obtain b2 where b: "take_audio_msgs ms = Some (b2, rest)" "b = d @ b2" by auto
  from speech_emit_ok [OF 3(2), of clock d] obtain s1 o1 where
    e: "speech_emit clock d s = Some (s1, o1, TtsOK)" "spans n d s s1 o1" by blast
  then have "framed n s1" by (simp add: spans_def)
  from 3(1) [OF this b(1)] obtain s2 o2 where
    "sherpa_read clock c ms s1 = Some ((c\<lparr>ws_in := rest\<rparr>, s2), o2, TtsOK)" "spans n b2 s1 s2 o2" by blast
  with e b spans_trans [OF e(2) this(2)] show ?case by (auto simp: tts_then_def)
qed simp

interpretation sherpa: speech_service "SherpaTTS_synth clock" sidecar_says for clock
proof
  fix c t ts bytes n s
  assume a: "sidecar_says c (t # ts) bytes" and f: "framed n s"
  let ?ms = "ws_reply c (ws_sent c @ [t])"
  from a obtain b1 b2 where h: "take_audio_msgs ?ms = Some (b1, [])" "sidecar_audio (ws_reply c) (ws_sent c @ [t]) ts = Some b2"
    "bytes = b1 @ b2" "ws_writes c = None" "ws_in c = []"
    by (auto simp: sidecar_says_def split: option.splits prod.splits list.splits)
  let ?c = "c\<lparr>ws_sent := ws_sent c @ [t], ws_in := ?ms\<rparr>"
  from sherpa_read_ok [OF f h(1), of clock ?c] obtain s' outs where
    "sherpa_read clock ?c ?ms s = Some ((?c\<lparr>ws_in := []\<rparr>, s'), outs, TtsOK)" "spans n b1 s s' outs" by blast
  moreover have "ws_write t c = Some ?c" using h(4,5) by (cases c) (simp add: ws_write_def)
  ultimately have "SherpaTTS_synth clock t (c, s) = Some ((?c\<lparr>ws_in := []\<rparr>, s'), outs, TtsOK)"
    "spans n b1 s s' outs" "sidecar_says (?c\<lparr>ws_in := []\<rparr>) ts b2"
    using h by (simp_all add: SherpaTTS_synth_def sidecar_says_def)
  with h(3) show "\<exists>c' s' outs b1 b2. SherpaTTS_synth clock t (c, s) = Some ((c', s'), outs, TtsOK) \<and>
      spans n b1 s s' outs \<and> sidecar_says c' ts b2 \<and> bytes = b1 @ b2" by blast
qed (simp add: sidecar_says_def)

lemma sherpa_read_curtailed:
  "tracks n s s0 \<Longrightarrow> curtailed (tracks2 n) (sherpa_read clock c ms s) (sherpa_read clock c ms s0)"
proof (induction ms arbitrary: s s0)
  case Nil
  then show ?case by (auto intro!: curtailed_done simp: tracks2_def tracks_def)
next
  case (Cons m ms)
  show ?case
  proof (cases m)
    case (WsBinary d)
    have "curtailed (tracks2 n) (tts_then (speech_emit clock d s) (sherpa_read clock c ms) (Pair (c\<lparr>ws_in := ms\<rparr>)))
        (tts_then (speech_emit clock d s0) (sherpa_read clock c ms) (Pair (c\<lparr>ws_in := ms\<rparr>)))"
      by (rule curtailed_then [OF speech_emit_curtailed [OF Cons.prems] Cons.IH]) (simp_all add: tracks2_def)
    with WsBinary show ?thesis by simp
  next
    case WsText
    with Cons.prems show ?thesis by (auto intro!: curtailed_done simp: tracks2_def tracks_def)
  qed
qed

interpretation sherpa_cancel: curtailing_service "SherpaTTS_synth clock" for clock
proof
  fix n and st st0 :: "ws_conn \<times> speech" and x
  assume t: "tracks2 n st st0"
  then obtain c s s0 where st: "st = (c, s)" "st0 = (c, s0)" "tracks n s s0" by (cases st; cases st0) (auto simp: tracks2_def)
  have "curtailed (tracks2 n) (Some ((c, s), [], e)) (Some ((c, s0), [], e))" for e
    using st(3) by (intro curtailed_done) (auto simp: tracks2_def tracks_def)
  then show "curtailed (tracks2 n) (SherpaTTS_synth clock x st) (SherpaTTS_synth clock x st0)"
    using sherpa_read_curtailed [OF st(3)] by (simp add: SherpaTTS_synth_def st split: option.split)
qed

text \<open>
  C27: The two synthesisers are interchangeable: given the same tokens, sample rate and frame duration, a sidecar that answers
  the sentences it is sent, one after another, and an HTTP service that answers the requests for them with the same audio
  make the streams send the same frames with the same stamps, however each cuts its audio into messages or reads and
  whatever each clock shows.
\<close>

theorem tts_vendors_agree:
  assumes "dial (st_url t) (tts_query t) = Some c" "sidecar_says c (spoken (sentences (map tok_Text toks) [])) bytes"
    and "served_audio http o' 0 (spoken (sentences (map tok_Text toks) [])) = Some bytes"
    and "st_sampleRate t = oa_sampleRate o'" "st_frameDuration t = oa_frameDuration o'"
    and "0 < oa_sampleRate o'" "0 < oa_frameDuration o'" "0 < samplesPerFrame (oa_sampleRate o') (oa_frameDuration o')"
  shows "\<exists>outs1 outs2. SherpaTTS_Stream clock1 dial t None toks = Some (outs1, TtsOK) \<and>
    OpenAITTS_Stream clock2 http o' None toks = Some (outs2, TtsOK) \<and> heard outs1 = heard outs2"
proof -
  obtain outs2 where "OpenAITTS_Stream clock2 http o' None toks = Some (outs2, TtsOK)"
    "heard outs2 = frames_of (sp_framer (new_speech (oa_sampleRate o') (oa_frameDuration o') None)) bytes"
    using openai_stream_speaks [OF assms(3,6-8)] by blast
  with sherpa.stream_speaks [OF assms(2,8), of clock1] assms(1,4-7) show ?thesis
    by (auto simp: SherpaTTS_Stream_def not_le)
qed

text \<open>A sidecar that knows the two texts of the demonstration and speaks each.\<close>

definition demo_reply :: "runes list \<Rightarrow> ws_msg list" where
  "demo_reply sent =
     (if sent = take 1 (spoken (sentences (map tok_Text demo_tokens) [])) then [WsBinary [1, 2], WsBinary [3, 4, 5], WsText []]
      else if sent = spoken (sentences (map tok_Text demo_tokens) []) then [WsBinary [6], WsText []] else [])"

definition demo_sidecar :: "runes \<Rightarrow> (runes \<times> runes) list \<Rightarrow> ws_conn option" where
  "demo_sidecar url q = Some \<lparr>ws_in = [], ws_sent = [], ws_reply = demo_reply, ws_writes = None, ws_cancelled = False\<rparr>"

definition demo_sherpa :: SherpaTTS where
  "demo_sherpa = \<lparr>st_url = [], st_sampleRate = 1000, st_frameDuration = 2 * Millisecond, st_speakerID = 0, st_speed = 1\<rparr>"

theorem tts_vendors_agree_witness:
  "\<exists>outs1 outs2. SherpaTTS_Stream (\<lambda>_. 0) demo_sidecar demo_sherpa None demo_tokens = Some (outs1, TtsOK) \<and>
     OpenAITTS_Stream (\<lambda>k. int k) demo_service demo_tts None demo_tokens = Some (outs2, TtsOK) \<and> heard outs1 = heard outs2"
proof (rule tts_vendors_agree)
  show "demo_sidecar (st_url demo_sherpa) (tts_query demo_sherpa) =
      Some \<lparr>ws_in = [], ws_sent = [], ws_reply = demo_reply, ws_writes = None, ws_cancelled = False\<rparr>"
    by (simp add: demo_sidecar_def)
  show "served_audio demo_service demo_tts 0 (spoken (sentences (map tok_Text demo_tokens) [])) = Some [1, 2, 3, 4, 5, 6]"
    unfolding demo_sentences by (rule demo_served)
  show "0 < samplesPerFrame (oa_sampleRate demo_tts) (oa_frameDuration demo_tts)" by (simp add: demo_rate(3))
qed (simp_all add: demo_rate demo_sentences demo_reply_def sidecar_says_def, simp_all add: demo_sherpa_def demo_tts_def OpenAITTS_New_def)

end
