(* ===== verification/Sherpaasr.thy ===== *)
theory Sherpaasr
  imports Sherpatts
begin

text \<open>
  The recogniser over WebSocket of \<open>internal/adapter/sherpa\<close> (\<open>sherpa.go\<close>, \<open>asr.go\<close>). A stream is two goroutines: the
  reader, which takes the sidecar's messages, and the writer, which sends audio, then silence, and then
  waits for the final text. Their steps interleave as a list of events; each event carries what the
  environment decides (the message, whether a write succeeds), and an event that cannot happen in a state
  has no successor. A message's text is the list of its code points.
\<close>

section \<open>The adapter\<close>

record SherpaASR =
  sa_url :: runes
  sa_sampleRate :: int
  sa_silenceTailMs :: int
  sa_finalWait :: duration

definition SherpaASR_factory :: "SherpaASR factory" where
  "SherpaASR_factory cfg =
     (let s = ad_Sherpa (cf_Adapters cfg) in
      if sh_ASRURL s = [] then Inl (FactoryFailed ''sherpa: asr_url'')
      else let tailMs = (if sh_ASRSilenceTailMs s \<le> 0 then 1500 else sh_ASRSilenceTailMs s);
               wait = wrap_int (sh_ASRFinalWaitMs s * Millisecond);
               finalWait = (if wait \<le> 0 then 4 * Second else wait) in
        Inr \<lparr>sa_url = text_of (sh_ASRURL s), sa_sampleRate = au_SampleRate (cf_Audio cfg), sa_silenceTailMs = tailMs,
          sa_finalWait = finalWait\<rparr>)"

definition asr_query :: "SherpaASR \<Rightarrow> (runes \<times> runes) list" where
  "asr_query a = [(runes_of ''samplerate'', Itoa (sa_sampleRate a))]"

abbreviation silenceStepMs :: int where "silenceStepMs \<equiv> 100"

definition silence_step :: "SherpaASR \<Rightarrow> u8 list" where
  "silence_step a = replicate (nat (sa_sampleRate a sdiv 1000 * silenceStepMs * 2)) 0"

text \<open>\<open>asrResult\<close>: the text and whether the segment is finished.\<close>

definition decode_bool :: "json \<Rightarrow> bool \<Rightarrow> bool option" where
  "decode_bool v b = (case v of JNull \<Rightarrow> Some b | JBool c \<Rightarrow> Some c | _ \<Rightarrow> None)"

definition asrResult :: "runes \<Rightarrow> (runes \<times> bool) option" where
  "asrResult data = Option.bind (Unmarshal data) (\<lambda>v.
     decode_struct (\<lambda>k w (t, f).
       if field ''text'' k then map_option (\<lambda>t1. (t1, f)) (decode_string w t)
       else if field ''finished'' k then map_option (Pair t) (decode_bool w f)
       else Some (t, f)) v ([], False))"

section \<open>State\<close>

text \<open>How a stream returns. A failed read or write is reported with the error of the connection, or, as \<open>wsErr\<close> has it, with
  the context's once the context is cancelled; the flag tells which.\<close>

datatype asr_result = AsrOK | AsrCancelled | AsrRead bool | AsrWrite bool | AsrSilence bool

text \<open>Where the writer is: in the write loop, after some milliseconds of silence, waiting, joining the reader with the
  final text it has, sending the final, returned.\<close>

datatype asr_phase = Writing | Silent int | Waiting | Joining runes | Sending runes | Returned asr_result

text \<open>The reader: running, exited with its error still in \<open>readDone\<close>, or joined.\<close>

datatype asr_reader = Running | Exited | Joined

record asr_state =
  as_lastTs :: int
  as_lastText :: runes
  as_finalCh :: "runes list"
  as_reader :: asr_reader
  as_phase :: asr_phase
  as_done :: bool
  as_out :: "Transcript list"
  as_wire :: "u8 list list"
  as_closed :: bool
  as_panicked :: bool

text \<open>The pipeline closes \<open>out\<close> once the stream has returned; a send on a closed channel panics.\<close>

definition asr_init :: asr_state where
  "asr_init = \<lparr>as_lastTs = 0, as_lastText = [], as_finalCh = [], as_reader = Running, as_phase = Writing, as_done = False,
     as_out = [], as_wire = [], as_closed = False, as_panicked = False\<rparr>"

text \<open>The context the reader works with is cancelled with the stream's, and once the writer stops waiting.\<close>

fun stops_reader :: "asr_phase \<Rightarrow> bool" where
  "stops_reader (Joining _) = True"
| "stops_reader (Sending _) = True"
| "stops_reader (Returned _) = True"
| "stops_reader _ = False"

definition read_cancelled :: "asr_state \<Rightarrow> bool" where
  "read_cancelled s \<longleftrightarrow> as_done s \<or> stops_reader (as_phase s)"

section \<open>Steps\<close>

datatype asr_event =
    CtxDone
  | RdMessage ws_msg bool
  | RdFailed
  | WrCancelled
  | WrReaderGone
  | WrFrame AudioFrame bool
  | WrClosed
  | WrSilence bool
  | WrFinal
  | WrDeadline
  | WrJoin
  | WrSend bool
  | OutClosed

text \<open>The reader takes a message; the flag tells whether a partial was sent, which fails only when the reader's
  context is cancelled.\<close>

definition reader_message :: "ws_msg \<Rightarrow> bool \<Rightarrow> asr_state \<Rightarrow> asr_state option" where
  "reader_message m sent s =
     (case m of
        WsBinary _ \<Rightarrow> Some s
      | WsText data \<Rightarrow>
          (case asrResult data of
             None \<Rightarrow> Some s
           | Some (txt, finished) \<Rightarrow>
               if txt = [] then Some s
               else if finished then Some (s\<lparr>as_finalCh := fst (chan_offer 1 txt (as_finalCh s))\<rparr>)
               else let s1 = s\<lparr>as_lastText := txt\<rparr> in
                 if sent \<and> as_closed s then Some (s1\<lparr>as_panicked := True\<rparr>)
                 else if sent then Some (s1\<lparr>as_out := as_out s @ [\<lparr>tr_Text = txt, tr_Final = False, tr_TsUs = as_lastTs s\<rparr>]\<rparr>)
                 else if read_cancelled s then Some (s1\<lparr>as_reader := Exited\<rparr>)
                 else None))"

text \<open>The write loop leaves with the reader's error only when there is no text yet.\<close>

definition reader_gone :: "asr_state \<Rightarrow> asr_state" where
  "reader_gone s = s\<lparr>as_reader := Joined,
     as_phase := (if as_lastText s = [] then Returned (AsrRead (as_done s)) else Joining [])\<rparr>"

definition write_frame :: "AudioFrame \<Rightarrow> bool \<Rightarrow> asr_state \<Rightarrow> asr_state" where
  "write_frame f ok s =
     (let s1 = s\<lparr>as_lastTs := af_TsUs f\<rparr> in
      if ok then s1\<lparr>as_wire := as_wire s @ [buf_data (af_PCM f)]\<rparr> else s1\<lparr>as_phase := Returned (AsrWrite (as_done s))\<rparr>)"

text \<open>One turn of the loop of \<open>feedSilence\<close>.\<close>

definition feed_silence :: "SherpaASR \<Rightarrow> int \<Rightarrow> bool \<Rightarrow> asr_state \<Rightarrow> asr_state" where
  "feed_silence a sent ok s =
     (if sent \<ge> sa_silenceTailMs a then s\<lparr>as_phase := Waiting\<rparr>
      else if ok then s\<lparr>as_wire := as_wire s @ [silence_step a], as_phase := Silent (sent + silenceStepMs)\<rparr>
      else s\<lparr>as_phase := Returned (AsrSilence (as_done s))\<rparr>)"

text \<open>After the reader has been joined: the last chance for a final, else the last partial.\<close>

definition choose_final :: "runes \<Rightarrow> asr_state \<Rightarrow> asr_state" where
  "choose_final t s =
     (let (t1, ch) = (if t = [] then (case as_finalCh s of [] \<Rightarrow> ([], []) | u # us \<Rightarrow> (u, us)) else (t, as_finalCh s)) in
      s\<lparr>as_finalCh := ch, as_reader := Joined, as_phase := Sending (if t1 = [] then as_lastText s else t1)\<rparr>)"

definition send_final :: "runes \<Rightarrow> bool \<Rightarrow> asr_state \<Rightarrow> asr_state" where
  "send_final t ok s =
     (if ok then s\<lparr>as_out := as_out s @ [\<lparr>tr_Text = t, tr_Final = True, tr_TsUs = as_lastTs s\<rparr>], as_phase := Returned AsrOK\<rparr>
      else s\<lparr>as_phase := Returned AsrCancelled\<rparr>)"

fun is_returned :: "asr_phase \<Rightarrow> bool" where
  "is_returned (Returned _) = True"
| "is_returned _ = False"

fun asr_step :: "SherpaASR \<Rightarrow> asr_event \<Rightarrow> asr_state \<Rightarrow> asr_state option" where
  "asr_step a CtxDone s = Some (s\<lparr>as_done := True\<rparr>)"
| "asr_step a (RdMessage m sent) s = (if as_reader s = Running then reader_message m sent s else None)"
| "asr_step a RdFailed s = (if as_reader s = Running then Some (s\<lparr>as_reader := Exited\<rparr>) else None)"
| "asr_step a WrCancelled s =
     (if as_done s \<and> as_phase s \<in> {Writing, Waiting} then Some (s\<lparr>as_phase := Returned AsrCancelled\<rparr>) else None)"
| "asr_step a WrReaderGone s =
     (if as_reader s \<noteq> Exited then None
      else if as_phase s = Writing then Some (reader_gone s)
      else if as_phase s = Waiting then Some (s\<lparr>as_reader := Joined, as_phase := Joining []\<rparr>) else None)"
| "asr_step a (WrFrame f ok) s = (if as_phase s = Writing then Some (write_frame f ok s) else None)"
| "asr_step a WrClosed s = (if as_phase s = Writing then Some (s\<lparr>as_phase := Silent 0\<rparr>) else None)"
| "asr_step a (WrSilence ok) s = (case as_phase s of Silent sent \<Rightarrow> Some (feed_silence a sent ok s) | _ \<Rightarrow> None)"
| "asr_step a WrFinal s =
     (if as_phase s = Waiting then
        (case as_finalCh s of [] \<Rightarrow> None | t # ts \<Rightarrow> Some (s\<lparr>as_finalCh := ts, as_phase := Joining t\<rparr>)) else None)"
| "asr_step a WrDeadline s = (if as_phase s = Waiting then Some (s\<lparr>as_phase := Joining []\<rparr>) else None)"
| "asr_step a WrJoin s =
     (case as_phase s of
        Joining t \<Rightarrow> if as_reader s = Running then None else Some (choose_final t s)
      | _ \<Rightarrow> None)"
| "asr_step a (WrSend ok) s =
     (case as_phase s of Sending t \<Rightarrow> if ok \<or> as_done s then Some (send_final t ok s) else None | _ \<Rightarrow> None)"
| "asr_step a OutClosed s = (if is_returned (as_phase s) then Some (s\<lparr>as_closed := True\<rparr>) else None)"

fun asr_run :: "SherpaASR \<Rightarrow> asr_event list \<Rightarrow> asr_state \<Rightarrow> asr_state option" where
  "asr_run a [] s = Some s"
| "asr_run a (e # es) s = (if as_panicked s then None else Option.bind (asr_step a e s) (asr_run a es))"

text \<open>The stream: the connection is dialled first.\<close>

definition SherpaASR_Stream :: "ws_dial \<Rightarrow> SherpaASR \<Rightarrow> asr_event list \<Rightarrow> asr_state option option" where
  "SherpaASR_Stream dial a es =
     map_option (\<lambda>_. asr_run a es asr_init) (dial (sa_url a) (asr_query a))"

section \<open>What a run has seen\<close>

fun results :: "asr_event list \<Rightarrow> (runes \<times> bool) list" where
  "results [] = []"
| "results (RdMessage (WsText data) sent # es) =
     (case asrResult data of Some (txt, fin) \<Rightarrow> if txt = [] then results es else (txt, fin) # results es | None \<Rightarrow> results es)"
| "results (_ # es) = results es"

definition segments :: "asr_event list \<Rightarrow> runes list" where
  "segments es = map fst (filter snd (results es))"

definition partials :: "asr_event list \<Rightarrow> runes list" where
  "partials es = map fst (filter (\<lambda>r. \<not> snd r) (results es))"

definition frames_in :: "asr_event list \<Rightarrow> (AudioFrame \<times> bool) list" where
  "frames_in es = [(f, ok). WrFrame f ok \<leftarrow> es]"

definition last_or :: "'a \<Rightarrow> 'a list \<Rightarrow> 'a" where
  "last_or d xs = (if xs = [] then d else last xs)"

text \<open>The text a stream should end with: the first segment the sidecar finished, or else its last partial.\<close>

definition final_text :: "runes list \<Rightarrow> runes list \<Rightarrow> runes" where
  "final_text segs parts = (case segs of t # _ \<Rightarrow> t | [] \<Rightarrow> last_or [] parts)"

lemma results_append: "results (es @ fs) = results es @ results fs"
  by (induction es rule: results.induct) (auto split: option.splits)

lemma seen_append [simp]: "segments (es @ fs) = segments es @ segments fs" "partials (es @ fs) = partials es @ partials fs"
  "frames_in (es @ fs) = frames_in es @ frames_in fs"
  by (simp_all add: segments_def partials_def results_append frames_in_def)

lemma asr_run_append: "asr_run a (es @ fs) s = Option.bind (asr_run a es s) (asr_run a fs)"
  by (induction es arbitrary: s) (auto split: bind_splits)

section \<open>The invariant of a stream\<close>

definition audio_in :: "(AudioFrame \<times> bool) list \<Rightarrow> u8 list list" where
  "audio_in frs = map (\<lambda>p. buf_data (af_PCM (fst p))) (filter snd frs)"

text \<open>What the writer has written, and what it holds of the finished segments, by its phase.\<close>

definition wire_ok :: "SherpaASR \<Rightarrow> asr_phase \<Rightarrow> u8 list list \<Rightarrow> (AudioFrame \<times> bool) list \<Rightarrow> bool" where
  "wire_ok a p wire frs \<longleftrightarrow> (\<exists>k. wire = audio_in frs @ replicate k (silence_step a) \<and> (p = Writing \<longrightarrow> k = 0) \<and>
     (\<forall>sent. p = Silent sent \<longrightarrow> sent = silenceStepMs * int k) \<and>
     (k = 0 \<or> silenceStepMs * (int k - 1) < sa_silenceTailMs a))"

fun holds_final :: "asr_phase \<Rightarrow> runes list \<Rightarrow> runes list \<Rightarrow> runes list \<Rightarrow> bool" where
  "holds_final (Joining t) ch segs parts \<longleftrightarrow> (if t = [] then ch = take 1 segs else take 1 segs = [t])"
| "holds_final (Sending t) ch segs parts \<longleftrightarrow> t = final_text segs parts"
| "holds_final (Returned _) ch segs parts \<longleftrightarrow> True"
| "holds_final _ ch segs parts \<longleftrightarrow> ch = take 1 segs"

definition out_ok :: "asr_state \<Rightarrow> runes list \<Rightarrow> runes list \<Rightarrow> bool" where
  "out_ok s segs parts \<longleftrightarrow> (\<exists>ps. as_out s = ps @
       (if as_phase s = Returned AsrOK then [\<lparr>tr_Text = final_text segs parts, tr_Final = True, tr_TsUs = as_lastTs s\<rparr>] else []) \<and>
     list_all (\<lambda>x. \<not> tr_Final x) ps \<and> prefix (map tr_Text ps) parts \<and> (as_reader s = Running \<longrightarrow> map tr_Text ps = parts))"

definition past_join :: "asr_phase \<Rightarrow> bool" where
  "past_join p \<longleftrightarrow> p = Returned AsrOK \<or> (\<exists>t. p = Sending t)"

definition asr_inv :: "SherpaASR \<Rightarrow> runes list \<Rightarrow> runes list \<Rightarrow> (AudioFrame \<times> bool) list \<Rightarrow> asr_state \<Rightarrow> bool" where
  "asr_inv a segs parts frs s \<longleftrightarrow>
     as_lastTs s = last_or 0 (map (\<lambda>p. af_TsUs (fst p)) frs) \<and> as_lastText s = last_or [] parts \<and>
     holds_final (as_phase s) (as_finalCh s) segs parts \<and> [] \<notin> set segs \<and> wire_ok a (as_phase s) (as_wire s) frs \<and>
     out_ok s segs parts \<and> (past_join (as_phase s) \<longrightarrow> as_reader s = Joined) \<and>
     (as_closed s \<longrightarrow> is_returned (as_phase s))"

lemma last_or_snoc [simp]: "last_or d (xs @ [x]) = x" "last_or d [] = d"
  by (simp_all add: last_or_def)

lemma results_other: "\<forall>d b. e \<noteq> RdMessage (WsText d) b \<Longrightarrow> results [e] = []"
proof (cases e)
  case (RdMessage m b)
  assume "\<forall>d b. e \<noteq> RdMessage (WsText d) b"
  with RdMessage show ?thesis by (cases m) auto
qed auto

lemma seen_other:
  "\<forall>d b. e \<noteq> RdMessage (WsText d) b \<Longrightarrow> segments [e] = [] \<and> partials [e] = []"
  by (simp add: segments_def partials_def results_other)

lemma frames_in_other [simp]:
  "frames_in [CtxDone] = []" "frames_in [RdMessage m b] = []" "frames_in [RdFailed] = []" "frames_in [WrCancelled] = []"
  "frames_in [WrReaderGone] = []" "frames_in [WrClosed] = []" "frames_in [WrSilence b] = []" "frames_in [WrFinal] = []"
  "frames_in [WrDeadline] = []" "frames_in [WrJoin] = []" "frames_in [WrSend b] = []" "frames_in [OutClosed] = []"
  "frames_in [WrFrame f b] = [(f, b)]"
  by (simp_all add: frames_in_def)

lemma seen_simps [simp]:
  "segments [CtxDone] = []" "segments [RdFailed] = []" "segments [WrCancelled] = []" "segments [WrReaderGone] = []"
  "segments [WrClosed] = []" "segments [WrSilence b] = []" "segments [WrFinal] = []" "segments [WrDeadline] = []"
  "segments [WrJoin] = []" "segments [WrSend b] = []" "segments [OutClosed] = []" "segments [WrFrame f b] = []"
  "partials [CtxDone] = []" "partials [RdFailed] = []" "partials [WrCancelled] = []" "partials [WrReaderGone] = []"
  "partials [WrClosed] = []" "partials [WrSilence b] = []" "partials [WrFinal] = []" "partials [WrDeadline] = []"
  "partials [WrJoin] = []" "partials [WrSend b] = []" "partials [OutClosed] = []" "partials [WrFrame f b] = []"
  by (simp_all add: segments_def partials_def)

lemma past_join_simps [simp]: "past_join (Sending t)" "past_join (Returned AsrOK)" "\<not> past_join Writing" "\<not> past_join Waiting"
  "\<not> past_join (Silent k)" "\<not> past_join (Joining t)" "past_join (Returned r) \<longleftrightarrow> r = AsrOK"
  by (auto simp: past_join_def)

lemma asr_inv_init: "asr_inv a [] [] [] asr_init"
  by (simp add: asr_inv_def asr_init_def out_ok_def wire_ok_def audio_in_def)

text \<open>Steps of the writer that leave its output alone.\<close>

lemma asr_inv_phase:
  assumes "asr_inv a segs parts frs s" "\<not> past_join (as_phase s)" "\<not> past_join p" "as_closed s \<longrightarrow> is_returned p"
    and "wire_ok a p (as_wire s) frs" "holds_final p ch segs parts"
  shows "asr_inv a segs parts frs (s\<lparr>as_phase := p, as_finalCh := ch\<rparr>)"
  using assms by (auto simp: asr_inv_def out_ok_def past_join_def)

lemma asr_inv_reader:
  assumes "asr_inv a segs parts frs s" "r \<noteq> Running" "as_reader s \<noteq> Joined \<or> r = Joined"
  shows "asr_inv a segs parts frs (s\<lparr>as_reader := r\<rparr>)"
  using assms by (auto simp: asr_inv_def out_ok_def past_join_def)

lemma asr_inv_segment:
  assumes "asr_inv a segs parts frs s" "as_reader s = Running" "txt \<noteq> []"
  shows "asr_inv a (segs @ [txt]) parts frs (s\<lparr>as_finalCh := fst (chan_offer 1 txt (as_finalCh s))\<rparr>)"
proof -
  have np: "\<not> past_join (as_phase s)" using assms(1,2) by (auto simp: asr_inv_def)
  have "holds_final (as_phase s) (fst (chan_offer 1 txt (as_finalCh s))) (segs @ [txt]) parts"
    using assms(1) np by (cases "as_phase s"; cases segs) (auto simp: asr_inv_def chan_offer_def split: if_splits)
  with assms np show ?thesis by (auto simp: asr_inv_def out_ok_def past_join_def)
qed

lemma asr_inv_partial:
  assumes "asr_inv a segs parts frs s" "as_reader s = Running"
  shows "asr_inv a segs (parts @ [txt]) frs
      (s\<lparr>as_lastText := txt, as_out := as_out s @ [\<lparr>tr_Text = txt, tr_Final = False, tr_TsUs = as_lastTs s\<rparr>]\<rparr>)"
    "asr_inv a segs (parts @ [txt]) frs (s\<lparr>as_lastText := txt, as_reader := Exited\<rparr>)"
proof -
  have np: "\<not> past_join (as_phase s)" using assms by (auto simp: asr_inv_def)
  then have h: "holds_final (as_phase s) ch segs (parts @ [txt]) = holds_final (as_phase s) ch segs parts" for ch
    by (cases "as_phase s") auto
  obtain ps where ps: "as_out s = ps" "list_all (\<lambda>x. \<not> tr_Final x) ps" "map tr_Text ps = parts"
    using assms np by (auto simp: asr_inv_def out_ok_def past_join_def)
  show "asr_inv a segs (parts @ [txt]) frs
      (s\<lparr>as_lastText := txt, as_out := as_out s @ [\<lparr>tr_Text = txt, tr_Final = False, tr_TsUs = as_lastTs s\<rparr>]\<rparr>)"
    using assms np h ps by (auto simp: asr_inv_def out_ok_def past_join_def)
  show "asr_inv a segs (parts @ [txt]) frs (s\<lparr>as_lastText := txt, as_reader := Exited\<rparr>)"
    using assms np h ps by (auto simp: asr_inv_def out_ok_def past_join_def)
qed

lemma asr_inv_message:
  assumes "asr_inv a (segments es) (partials es) (frames_in es) s" "as_reader s = Running" "\<not> as_panicked s"
    "reader_message m sent s = Some s'" "\<not> as_panicked s'"
  shows "asr_inv a (segments (es @ [RdMessage m sent])) (partials (es @ [RdMessage m sent])) (frames_in es) s'"
proof -
  consider "s' = s" "results [RdMessage m sent] = []"
    | u where "results [RdMessage m sent] = [(u, True)]" "u \<noteq> []" "s' = s\<lparr>as_finalCh := fst (chan_offer 1 u (as_finalCh s))\<rparr>"
    | u where "results [RdMessage m sent] = [(u, False)]"
        "s' = s\<lparr>as_lastText := u, as_out := as_out s @ [\<lparr>tr_Text = u, tr_Final = False, tr_TsUs = as_lastTs s\<rparr>]\<rparr>"
    | u where "results [RdMessage m sent] = [(u, False)]" "s' = s\<lparr>as_lastText := u, as_reader := Exited\<rparr>"
    using assms(4,5) by (fastforce simp: reader_message_def Let_def split: ws_msg.splits option.splits if_splits)
  then show ?thesis
  proof cases
    case 1
    then have "segments [RdMessage m sent] = []" "partials [RdMessage m sent] = []" by (simp_all add: segments_def partials_def)
    with assms(1) 1 show ?thesis by simp
  next
    case (2 u)
    then have "segments [RdMessage m sent] = [u]" "partials [RdMessage m sent] = []" by (simp_all add: segments_def partials_def)
    with asr_inv_segment [OF assms(1,2) 2(2)] 2 show ?thesis by simp
  next
    case (3 u)
    then have "segments [RdMessage m sent] = []" "partials [RdMessage m sent] = [u]" by (simp_all add: segments_def partials_def)
    with asr_inv_partial(1) [OF assms(1,2)] 3 show ?thesis by simp
  next
    case (4 u)
    then have "segments [RdMessage m sent] = []" "partials [RdMessage m sent] = [u]" by (simp_all add: segments_def partials_def)
    with asr_inv_partial(2) [OF assms(1,2)] 4 show ?thesis by simp
  qed
qed

lemma wire_ok_phase: "wire_ok a p w frs \<Longrightarrow> q \<noteq> Writing \<and> (\<forall>k. q \<noteq> Silent k) \<Longrightarrow> wire_ok a q w frs"
  by (auto simp: wire_ok_def)

lemma asr_inv_frame:
  assumes "asr_inv a segs parts frs s" "as_phase s = Writing"
  shows "asr_inv a segs parts (frs @ [(f, ok)]) (write_frame f ok s)"
proof -
  have w: "as_wire s = audio_in frs" using assms by (auto simp: asr_inv_def wire_ok_def)
  have "wire_ok a (as_phase (write_frame f ok s)) (as_wire (write_frame f ok s)) (frs @ [(f, ok)])"
    using assms(2) w by (auto simp: wire_ok_def write_frame_def Let_def audio_in_def)
  with assms show ?thesis by (auto simp: asr_inv_def write_frame_def Let_def out_ok_def)
qed

lemma asr_inv_silence:
  assumes "asr_inv a segs parts frs s" "as_phase s = Silent sent"
  shows "asr_inv a segs parts frs (feed_silence a sent ok s)"
proof -
  obtain k where k: "as_wire s = audio_in frs @ replicate k (silence_step a)" "sent = silenceStepMs * int k"
      "k = 0 \<or> silenceStepMs * (int k - 1) < sa_silenceTailMs a"
    using assms by (auto simp: asr_inv_def wire_ok_def)
  have "wire_ok a (as_phase (feed_silence a sent ok s)) (as_wire (feed_silence a sent ok s)) frs"
  proof (cases "sent < sa_silenceTailMs a \<and> ok")
    case True
    then have "as_wire (feed_silence a sent ok s) = audio_in frs @ replicate (Suc k) (silence_step a)"
      "as_phase (feed_silence a sent ok s) = Silent (silenceStepMs * int (Suc k))"
      using k by (simp_all add: feed_silence_def flip: replicate_append_same)
    with True k(2) show ?thesis unfolding wire_ok_def by (intro exI [of _ "Suc k"]) simp
  next
    case False
    then show ?thesis using k by (auto simp: feed_silence_def wire_ok_def)
  qed
  with assms show ?thesis by (auto simp: asr_inv_def feed_silence_def out_ok_def)
qed

lemma asr_inv_join:
  assumes "asr_inv a segs parts frs s" "as_phase s = Joining t"
  shows "asr_inv a segs parts frs (choose_final t s)"
proof -
  have "holds_final (as_phase (choose_final t s)) (as_finalCh (choose_final t s)) segs parts"
    using assms by (cases segs) (auto simp: asr_inv_def choose_final_def final_text_def split: if_splits)
  moreover have "wire_ok a (as_phase (choose_final t s)) (as_wire (choose_final t s)) frs"
    using assms by (auto simp: asr_inv_def choose_final_def case_prod_beta Let_def intro: wire_ok_phase)
  ultimately show ?thesis
    using assms by (auto simp: asr_inv_def choose_final_def case_prod_beta Let_def out_ok_def)
qed

lemma asr_inv_send:
  assumes "asr_inv a segs parts frs s" "as_phase s = Sending t"
  shows "asr_inv a segs parts frs (send_final t ok s)"
proof -
  have "wire_ok a (as_phase (send_final t ok s)) (as_wire (send_final t ok s)) frs"
    using assms by (auto simp: asr_inv_def send_final_def intro: wire_ok_phase)
  with assms show ?thesis by (auto simp: asr_inv_def send_final_def out_ok_def)
qed

lemma asr_inv_step:
  assumes "asr_inv a (segments es) (partials es) (frames_in es) s" "\<not> as_panicked s" "asr_step a e s = Some s'" "\<not> as_panicked s'"
  shows "asr_inv a (segments (es @ [e])) (partials (es @ [e])) (frames_in (es @ [e])) s'"
proof -
  note i = assms(1)
  have ph: "asr_inv a (segments es) (partials es) (frames_in es) (s\<lparr>as_phase := p\<rparr>)"
    if "\<not> past_join (as_phase s)" "\<not> past_join p" "as_closed s \<longrightarrow> is_returned p" "wire_ok a p (as_wire s) (frames_in es)"
      "holds_final p (as_finalCh s) (segments es) (partials es)" for p
    using asr_inv_phase [OF i that] by simp
  have wk [simp]: "wire_ok a p (as_wire s) (frames_in es)" if "p \<noteq> Writing" "\<forall>k. p \<noteq> Silent k" for p
    using i that by (auto simp: asr_inv_def intro: wire_ok_phase)
  have ch: "as_finalCh s = take 1 (segments es)" "\<not> as_closed s" if "as_phase s = Writing \<or> as_phase s = Waiting"
    using i that by (auto simp: asr_inv_def)
  show ?thesis
  proof (cases e)
    case CtxDone
    with i assms(3) show ?thesis by (auto simp: asr_inv_def out_ok_def)
  next
    case (RdMessage m sent)
    with asr_inv_message [OF i _ assms(2) _ assms(4)] assms(3) show ?thesis by (auto split: if_splits)
  next
    case RdFailed
    with asr_inv_reader [OF i, of Exited] assms(3) show ?thesis by (auto split: if_splits)
  next
    case WrCancelled
    with ph [of "Returned AsrCancelled"] assms(3) show ?thesis by (auto split: if_splits)
  next
    case WrReaderGone
    consider "as_phase s = Writing" "s' = reader_gone s" | "as_phase s = Waiting" "s' = s\<lparr>as_reader := Joined, as_phase := Joining []\<rparr>"
      using WrReaderGone assms(3) by (auto split: if_splits)
    then show ?thesis
    proof cases
      case 1
      then have "s' = s\<lparr>as_phase := (if as_lastText s = [] then Returned (AsrRead (as_done s)) else Joining [])\<rparr>\<lparr>as_reader := Joined\<rparr>"
        by (simp add: reader_gone_def)
      moreover have "asr_inv a (segments es) (partials es) (frames_in es)
          (s\<lparr>as_phase := (if as_lastText s = [] then Returned (AsrRead (as_done s)) else Joining [])\<rparr>)"
        using 1 ch by (intro ph) auto
      ultimately show ?thesis using asr_inv_reader [of a _ _ _ _ Joined] WrReaderGone by simp
    next
      case 2
      then have "s' = s\<lparr>as_phase := Joining []\<rparr>\<lparr>as_reader := Joined\<rparr>" by simp
      moreover have "asr_inv a (segments es) (partials es) (frames_in es) (s\<lparr>as_phase := Joining []\<rparr>)"
        using 2 ch by (intro ph) auto
      ultimately show ?thesis using asr_inv_reader [of a _ _ _ _ Joined] WrReaderGone by simp
    qed
  next
    case (WrFrame f ok)
    with asr_inv_frame [OF i] assms(3) show ?thesis by (auto split: if_splits)
  next
    case WrClosed
    with assms(3) have "as_phase s = Writing" "s' = s\<lparr>as_phase := Silent 0\<rparr>" by (auto split: if_splits)
    moreover from this have "wire_ok a (Silent 0) (as_wire s) (frames_in es)" using i by (auto simp: asr_inv_def wire_ok_def)
    ultimately show ?thesis using ph [of "Silent 0"] ch WrClosed by simp
  next
    case (WrSilence ok)
    with asr_inv_silence [OF i] assms(3) show ?thesis by (auto split: asr_phase.splits)
  next
    case WrFinal
    then obtain t ts where t: "as_phase s = Waiting" "as_finalCh s = t # ts" "s' = s\<lparr>as_finalCh := ts, as_phase := Joining t\<rparr>"
      using assms(3) by (auto split: if_splits list.splits)
    then have "take 1 (segments es) = [t]" "t \<noteq> []" "ts = []"
      using ch i by (cases "segments es"; auto simp: asr_inv_def)+
    then have "asr_inv a (segments es) (partials es) (frames_in es) (s\<lparr>as_phase := Joining t, as_finalCh := ts\<rparr>)"
      using t ch by (intro asr_inv_phase [OF i]) auto
    moreover have "s\<lparr>as_phase := Joining t, as_finalCh := ts\<rparr> = s'" unfolding t(3) by simp
    ultimately have "asr_inv a (segments es) (partials es) (frames_in es) s'" by (rule back_subst)
    then show ?thesis using WrFinal by simp
  next
    case WrDeadline
    with ph [of "Joining []"] ch assms(3) show ?thesis by (auto split: if_splits)
  next
    case WrJoin
    with asr_inv_join [OF i] assms(3) show ?thesis by (auto split: asr_phase.splits if_splits)
  next
    case (WrSend ok)
    with asr_inv_send [OF i] assms(3) show ?thesis by (auto split: asr_phase.splits if_splits)
  next
    case OutClosed
    with i assms(3) show ?thesis by (auto simp: asr_inv_def out_ok_def split: if_splits)
  qed
qed


lemma asr_run_snoc:
  assumes "asr_run a (es @ [e]) s0 = Some s'"
  obtains s where "asr_run a es s0 = Some s" "\<not> as_panicked s" "asr_step a e s = Some s'"
  using assms by (auto simp: asr_run_append bind_eq_Some_conv split: if_splits)

lemma asr_init_inv: "asr_inv a [] [] [] asr_init"
  by (simp add: asr_inv_def asr_init_def wire_ok_def audio_in_def out_ok_def past_join_def last_or_def)

lemma asr_run_inv:
  assumes "asr_run a es asr_init = Some s" "\<not> as_panicked s"
  shows "asr_inv a (segments es) (partials es) (frames_in es) s"
  using assms
proof (induction es arbitrary: s rule: rev_induct)
  case Nil
  then show ?case using asr_init_inv by (simp add: segments_def partials_def frames_in_def)
next
  case (snoc e es)
  from snoc.prems(1) obtain s1 where s1: "asr_run a es asr_init = Some s1" "\<not> as_panicked s1" "asr_step a e s1 = Some s"
    by (rule asr_run_snoc)
  show ?case by (rule asr_inv_step [OF snoc.IH [OF s1(1,2)] s1(2,3) snoc.prems(2)])
qed

text \<open>A panic needs a reader that outlives its stream.\<close>

lemma asr_step_panics:
  assumes "asr_step a e s = Some s'" "\<not> as_panicked s" "as_panicked s'"
  shows "as_reader s = Running \<and> as_closed s \<and> as_phase s' = as_phase s"
  using assms
  by (cases "(a, e, s)" rule: asr_step.cases)
    (auto simp: reader_message_def reader_gone_def write_frame_def feed_silence_def choose_final_def send_final_def Let_def case_prod_beta
      split: if_splits ws_msg.splits option.splits asr_phase.splits list.splits)

lemma asr_run_panics:
  assumes "asr_run a es asr_init = Some s" "as_panicked s"
  shows "\<exists>r. as_phase s = Returned r \<and> r \<noteq> AsrOK"
proof (cases es rule: rev_cases)
  case Nil
  with assms show ?thesis by (auto simp: asr_init_def)
next
  case (snoc fs e)
  with assms(1) obtain s1 where s1: "asr_run a fs asr_init = Some s1" "\<not> as_panicked s1" "asr_step a e s1 = Some s"
    using asr_run_snoc by blast
  note i = asr_run_inv [OF s1(1,2)]
  have "as_reader s1 = Running" "as_closed s1" "as_phase s = as_phase s1"
    using asr_step_panics [OF s1(3,2) assms(2)] by simp_all
  with i show ?thesis by (cases "as_phase s1") (auto simp: asr_inv_def past_join_def)
qed

section \<open>Properties\<close>

definition asr_sample :: SherpaASR where
  "asr_sample = \<lparr>sa_url = [], sa_sampleRate = 1000, sa_silenceTailMs = 100, sa_finalWait = 4 * Second\<rparr>"

definition pcm_frame :: "u8 list \<Rightarrow> int \<Rightarrow> AudioFrame" where
  "pcm_frame d ts = \<lparr>af_PCM = \<lparr>buf_arr = d, buf_len = length d\<rparr>, af_TsUs = ts\<rparr>"

definition result_json :: "runes \<Rightarrow> bool \<Rightarrow> json" where
  "result_json t fin = JObj [(runes_of ''text'', JStr t), (runes_of ''finished'', JBool fin)]"

text \<open>A result as the sidecar prints it.\<close>

definition said :: "string \<Rightarrow> bool \<Rightarrow> asr_event" where
  "said t fin = RdMessage (WsText (Marshal (result_json (runes_of t) fin))) (\<not> fin)"

lemma asrResult_json: "asrResult (Marshal (result_json t fin)) = Some (t, fin)"
proof -
  have "Unmarshal (Marshal (result_json t fin)) = Some (result_json t fin)"
    by (intro json_roundtrip) (simp_all add: result_json_def)
  then show ?thesis
    by (simp add: asrResult_def result_json_def decode_struct_def decode_string_def decode_bool_def field_def fold_rune_def runes_of_def)
qed

text \<open>
  C12: In every run of a stream that ends without an error, the transcripts are partials, an unbroken run of the sidecar's
  from the first one on, and then exactly one final; its text is the first segment the sidecar finished, or, when there
  was none, the last partial; the audio sent is the caller's frames in order and then silence, at most one chunk past
  the configured tail; and the reader has been joined before the final is sent.
\<close>

theorem sherpa_final:
  assumes "asr_run a es asr_init = Some s" "as_phase s = Returned AsrOK"
  shows "(\<exists>ps. as_out s = ps @ [\<lparr>tr_Text = final_text (segments es) (partials es), tr_Final = True, tr_TsUs = as_lastTs s\<rparr>] \<and>
       list_all (\<lambda>x. \<not> tr_Final x) ps \<and> prefix (map tr_Text ps) (partials es)) \<and>
     (\<exists>k. as_wire s = audio_in (frames_in es) @ replicate k (silence_step a) \<and>
       (k = 0 \<or> silenceStepMs * (int k - 1) < sa_silenceTailMs a)) \<and> as_reader s = Joined"
proof -
  have "\<not> as_panicked s" using asr_run_panics [OF assms(1)] assms(2) by auto
  from asr_run_inv [OF assms(1) this] assms(2) show ?thesis
    by (auto simp: asr_inv_def out_ok_def wire_ok_def past_join_def)
qed

text \<open>Of two finished segments only the first is kept: the rest of the utterance is lost.\<close>

definition two_segments :: "asr_event list" where
  "two_segments = [WrFrame (pcm_frame [1, 2] 7) True, said ''a'' False, said ''ab'' True, said ''c'' False, said ''cd'' True,
     WrClosed, WrSilence True, WrSilence True, WrFinal, RdFailed, WrJoin, WrSend True]"

lemma two_segments_seen:
  "segments two_segments = [runes_of ''ab'', runes_of ''cd'']" "partials two_segments = [runes_of ''a'', runes_of ''c'']"
  by (simp_all add: two_segments_def segments_def partials_def said_def asrResult_json runes_of_def)

lemma two_segments_run:
  "\<exists>s. asr_run asr_sample two_segments asr_init = Some s \<and> as_phase s = Returned AsrOK"
  by (simp add: two_segments_def said_def asr_init_def reader_message_def asrResult_json write_frame_def feed_silence_def choose_final_def
      send_final_def chan_offer_def asr_sample_def runes_of_def)

theorem sherpa_final_witness:
  "\<exists>s ps. asr_run asr_sample two_segments asr_init = Some s \<and> as_phase s = Returned AsrOK \<and>
     as_out s = ps @ [\<lparr>tr_Text = runes_of ''ab'', tr_Final = True, tr_TsUs = as_lastTs s\<rparr>] \<and>
     segments two_segments = [runes_of ''ab'', runes_of ''cd'']"
proof -
  obtain s where s: "asr_run asr_sample two_segments asr_init = Some s" "as_phase s = Returned AsrOK"
    using two_segments_run by blast
  from sherpa_final [OF s] s show ?thesis by (auto simp: two_segments_seen final_text_def)
qed

text \<open>
  C17: When the reader outlives its stream. The caller closes the channel of transcripts once the stream has returned, and a
  partial that arrives then is sent on a closed channel, which panics, exactly when the stream has returned early, with
  any result but success, and its reader is still running; a stream that returns without an error has joined it.
\<close>

theorem sherpa_early_return:
  assumes "asr_run a es asr_init = Some s" "\<not> as_panicked s" "asrResult data = Some (t, False)" "t \<noteq> []"
  shows "(\<exists>s'. asr_run a (es @ [OutClosed, RdMessage (WsText data) True]) asr_init = Some s' \<and> as_panicked s') \<longleftrightarrow>
    (\<exists>r. as_phase s = Returned r \<and> r \<noteq> AsrOK) \<and> as_reader s = Running"
proof -
  have "as_reader s = Joined" if "as_phase s = Returned AsrOK"
    using asr_run_inv [OF assms(1,2)] that by (auto simp: asr_inv_def past_join_def)
  with assms show ?thesis
    by (cases "as_phase s") (auto simp: asr_run_append reader_message_def)
qed

text \<open>A write fails, the stream returns, and the reader takes one more partial.\<close>

theorem sherpa_early_return_witness:
  "\<exists>s'. asr_run asr_sample ([WrFrame (pcm_frame [1, 2] 7) False] @ [OutClosed, said ''a'' False]) asr_init = Some s' \<and> as_panicked s'"
proof -
  have "asr_run asr_sample [WrFrame (pcm_frame [1, 2] 7) False] asr_init =
      Some (write_frame (pcm_frame [1, 2] 7) False asr_init)" by (simp add: asr_init_def)
  moreover have "as_phase (write_frame (pcm_frame [1, 2] 7) False asr_init) = Returned (AsrWrite False)"
    "as_reader (write_frame (pcm_frame [1, 2] 7) False asr_init) = Running"
    "\<not> as_panicked (write_frame (pcm_frame [1, 2] 7) False asr_init)"
    by (simp_all add: write_frame_def asr_init_def)
  moreover have "asrResult (Marshal (result_json (runes_of ''a'') False)) = Some (runes_of ''a'', False)" "runes_of ''a'' \<noteq> []"
    by (simp_all add: asrResult_json runes_of_def)
  ultimately show ?thesis
    using sherpa_early_return [of asr_sample "[WrFrame (pcm_frame [1, 2] 7) False]" _ "Marshal (result_json (runes_of ''a'') False)"]
    by (simp add: said_def)
qed

end
