(* ===== verification/Server.thy ===== *)
theory Server
  imports Frame Config "HOL-Library.AList" "HOL-Library.Sublist"
begin

text \<open>
  The server of \<open>internal/transport/server.go\<close>: the table of HTTP routes, with the matching of
  \<open>http.ServeMux\<close> for the patterns it is given (plain paths, and subtrees ending in a slash), and the echo handler, two
  goroutines around a channel of frames. A string is the list of its bytes; a request's path is one that is already
  clean, as the mux redirects every other. Listening, accepting and logging have no model.
\<close>

section \<open>Routes\<close>

type_synonym StatusCode = "16 word"

definition StatusNormalClosure :: StatusCode where "StatusNormalClosure = 1000"
definition StatusGoingAway :: StatusCode where "StatusGoingAway = 1001"
definition StatusProtocolError :: StatusCode where "StatusProtocolError = 1002"
definition StatusMessageTooBig :: StatusCode where "StatusMessageTooBig = 1009"
definition StatusInternalError :: StatusCode where "StatusInternalError = 1011"

text \<open>A server: its configuration, the handler run on each connection, and the extra routes.\<close>

record ('h, 'r) Server =
  sv_cfg :: ServerConfig
  sv_handler :: 'h
  sv_routes :: "(string \<times> 'r) list"

definition NewServerWithHandler :: "ServerConfig \<Rightarrow> 'h \<Rightarrow> ('h, 'r) Server" where
  "NewServerWithHandler cfg h = \<lparr>sv_cfg = cfg, sv_handler = h, sv_routes = []\<rparr>"

definition RegisterRoute :: "string \<Rightarrow> 'r \<Rightarrow> ('h, 'r) Server \<Rightarrow> ('h, 'r) Server" where
  "RegisterRoute pattern h s = s\<lparr>sv_routes := AList.update pattern h (sv_routes s)\<rparr>"

text \<open>What a path is served by.\<close>

datatype 'r endpoint = WebSocketRoute | StaticRoute string | ExtraRoute 'r

text \<open>Registering a pattern twice panics.\<close>

definition mux_handle :: "string \<Rightarrow> 'e \<Rightarrow> (string \<times> 'e) list \<Rightarrow> (string \<times> 'e) list option" where
  "mux_handle pattern h mux = (if map_of mux pattern \<noteq> None then None else Some ((pattern, h) # mux))"

fun mux_handle_all :: "(string \<times> 'e) list \<Rightarrow> (string \<times> 'e) list \<Rightarrow> (string \<times> 'e) list option" where
  "mux_handle_all [] mux = Some mux"
| "mux_handle_all ((p, h) # rs) mux = Option.bind (mux_handle p h mux) (mux_handle_all rs)"

definition HTTPHandler :: "('h, 'r) Server \<Rightarrow> (string \<times> 'r endpoint) list option" where
  "HTTPHandler s =
     Option.bind (mux_handle ''/ws'' WebSocketRoute []) (\<lambda>m1.
     Option.bind (mux_handle_all (map (apsnd ExtraRoute) (sv_routes s)) m1) (\<lambda>m2.
     let dir = sc_StaticDir (sv_cfg s) in
     if dir \<noteq> [] then mux_handle ''/'' (StaticRoute dir) m2 else Some m2))"

text \<open>Matching: the path itself; else a redirect to the subtree of that name; else the longest subtree around the path.\<close>

datatype 'e mux_result = Served 'e | Redirect string | NotFound

definition subtrees :: "(string \<times> 'e) list \<Rightarrow> string \<Rightarrow> (string \<times> 'e) list" where
  "subtrees mux path = filter (\<lambda>(p, _). p \<noteq> [] \<and> last p = CHR ''/'' \<and> prefix p path) mux"

fun longest :: "(string \<times> 'e) list \<Rightarrow> (string \<times> 'e) option" where
  "longest [] = None"
| "longest (r # rs) = (case longest rs of None \<Rightarrow> Some r | Some q \<Rightarrow> Some (if length (fst r) < length (fst q) then q else r))"

definition mux_serve :: "(string \<times> 'e) list \<Rightarrow> string \<Rightarrow> 'e mux_result" where
  "mux_serve mux path =
     (case map_of mux path of
        Some h \<Rightarrow> Served h
      | None \<Rightarrow>
          if (path = [] \<or> last path \<noteq> CHR ''/'') \<and> map_of mux (path @ ''/'') \<noteq> None then Redirect (path @ ''/'')
          else (case longest (subtrees mux path) of Some (_, h) \<Rightarrow> Served h | None \<Rightarrow> NotFound))"

subsection \<open>Properties\<close>

lemma mux_handle_all_Some:
  "mux_handle_all rs mux = Some m \<longleftrightarrow>
     distinct (map fst rs) \<and> set (map fst rs) \<inter> set (map fst mux) = {} \<and> m = rev rs @ mux"
proof (induction rs arbitrary: mux)
  case Nil
  then show ?case by auto
next
  case (Cons r rs)
  obtain p h where r: "r = (p, h)" by force
  have n: "map_of mux p = None \<longleftrightarrow> p \<notin> set (map fst mux)" by (simp add: map_of_eq_None_iff)
  show ?case
    by (cases "map_of mux p = None") (use Cons.IH [of "(p, h) # mux"] n in \<open>auto simp: r mux_handle_def\<close>)
qed

lemma register_keys: "distinct (map fst (sv_routes s)) \<Longrightarrow> distinct (map fst (sv_routes (RegisterRoute p h s)))"
  by (simp add: RegisterRoute_def distinct_update)


lemma longest_single: "longest [r] = Some r"
  by simp

section \<open>Echo\<close>

definition echo_period :: "duration \<Rightarrow> duration" where
  "echo_period heartbeat = (if heartbeat \<le> 0 then 10 * Second else heartbeat)"

datatype echo_error = ConnFailed string | ContextDone

text \<open>The reader: in \<open>ReadFrame\<close>, about to hand a frame on, about to report an error, gone; a frame it gives up on stays
  with it. The writer: in its select, writing a frame, pinging, about to report, gone.\<close>

datatype echo_reader = Reading | Handing Frame | RReport echo_error "Frame list" | RDone "Frame list"
datatype echo_writer = Selecting | WritingFrame Frame | Pinging | WReport echo_error "Frame list" | WDone "Frame list"

record echo_state =
  ec_reader :: echo_reader
  ec_writer :: echo_writer
  ec_egress :: "Frame list"
  ec_errc :: "echo_error list"
  ec_cancelled :: bool
  ec_result :: "echo_error option"
  ec_read :: "Frame list"
  ec_written :: "Frame list"

definition echo_init :: echo_state where
  "echo_init = \<lparr>ec_reader = Reading, ec_writer = Selecting, ec_egress = [], ec_errc = [], ec_cancelled = False,
     ec_result = None, ec_read = [], ec_written = []\<rparr>"

text \<open>One step of one goroutine, or of the world around them.\<close>

inductive echo_step :: "echo_state \<Rightarrow> echo_state \<Rightarrow> bool" where
  parent_done: "echo_step s (s\<lparr>ec_cancelled := True\<rparr>)"
| read_frame: "ec_reader s = Reading \<Longrightarrow> echo_step s (s\<lparr>ec_reader := Handing f, ec_read := ec_read s @ [f]\<rparr>)"
| read_fails: "ec_reader s = Reading \<Longrightarrow> echo_step s (s\<lparr>ec_reader := RReport e []\<rparr>)"
| hand_on: "ec_reader s = Handing f \<Longrightarrow> length (ec_egress s) < 16 \<Longrightarrow>
    echo_step s (s\<lparr>ec_reader := Reading, ec_egress := ec_egress s @ [f]\<rparr>)"
| hand_cancelled: "ec_reader s = Handing f \<Longrightarrow> ec_cancelled s \<Longrightarrow> echo_step s (s\<lparr>ec_reader := RReport ContextDone [f]\<rparr>)"
| reader_reports: "ec_reader s = RReport e held \<Longrightarrow> length (ec_errc s) < 2 \<Longrightarrow>
    echo_step s (s\<lparr>ec_reader := RDone held, ec_errc := ec_errc s @ [e]\<rparr>)"
| take_frame: "ec_writer s = Selecting \<Longrightarrow> ec_egress s = f # fs \<Longrightarrow> echo_step s (s\<lparr>ec_writer := WritingFrame f, ec_egress := fs\<rparr>)"
| write_ok: "ec_writer s = WritingFrame f \<Longrightarrow> echo_step s (s\<lparr>ec_writer := Selecting, ec_written := ec_written s @ [f]\<rparr>)"
| write_fails: "ec_writer s = WritingFrame f \<Longrightarrow> echo_step s (s\<lparr>ec_writer := WReport e [f]\<rparr>)"
| tick: "ec_writer s = Selecting \<Longrightarrow> echo_step s (s\<lparr>ec_writer := Pinging\<rparr>)"
| pong: "ec_writer s = Pinging \<Longrightarrow> echo_step s (s\<lparr>ec_writer := Selecting\<rparr>)"
| ping_fails: "ec_writer s = Pinging \<Longrightarrow> echo_step s (s\<lparr>ec_writer := WReport e []\<rparr>)"
| writer_cancelled: "ec_writer s = Selecting \<Longrightarrow> ec_cancelled s \<Longrightarrow> echo_step s (s\<lparr>ec_writer := WReport ContextDone []\<rparr>)"
| writer_reports: "ec_writer s = WReport e held \<Longrightarrow> length (ec_errc s) < 2 \<Longrightarrow>
    echo_step s (s\<lparr>ec_writer := WDone held, ec_errc := ec_errc s @ [e]\<rparr>)"
| returns: "ec_result s = None \<Longrightarrow> ec_errc s = e # es \<Longrightarrow>
    echo_step s (s\<lparr>ec_result := Some e, ec_errc := es, ec_cancelled := True\<rparr>)"

inductive_cases echo_stepE: "echo_step s s'"

definition echo_reaches :: "echo_state \<Rightarrow> bool" where
  "echo_reaches s \<longleftrightarrow> echo_step\<^sup>*\<^sup>* echo_init s"

lemma echo_reaches_step: "echo_reaches s \<Longrightarrow> echo_step s s' \<Longrightarrow> echo_reaches s'"
  unfolding echo_reaches_def by (rule rtranclp.rtrancl_into_rtrancl)

fun reader_holds :: "echo_reader \<Rightarrow> Frame list" where
  "reader_holds Reading = []"
| "reader_holds (Handing f) = [f]"
| "reader_holds (RReport _ fs) = fs"
| "reader_holds (RDone fs) = fs"

fun writer_holds :: "echo_writer \<Rightarrow> Frame list" where
  "writer_holds Selecting = []"
| "writer_holds Pinging = []"
| "writer_holds (WritingFrame f) = [f]"
| "writer_holds (WReport _ fs) = fs"
| "writer_holds (WDone fs) = fs"

fun reported :: "echo_state \<Rightarrow> nat" where
  "reported s = (case ec_reader s of RDone _ \<Rightarrow> 1 | _ \<Rightarrow> 0) + (case ec_writer s of WDone _ \<Rightarrow> 1 | _ \<Rightarrow> 0)"

definition echo_inv :: "echo_state \<Rightarrow> bool" where
  "echo_inv s \<longleftrightarrow> ec_read s = ec_written s @ writer_holds (ec_writer s) @ ec_egress s @ reader_holds (ec_reader s) \<and>
     length (ec_egress s) \<le> 16 \<and> length (writer_holds (ec_writer s)) \<le> 1 \<and> length (reader_holds (ec_reader s)) \<le> 1 \<and>
     length (ec_errc s) + (case ec_result s of None \<Rightarrow> 0 | Some _ \<Rightarrow> 1) = reported s \<and>
     (ec_result s \<noteq> None \<longrightarrow> ec_cancelled s)"

lemma echo_inv_step: "echo_step s s' \<Longrightarrow> echo_inv s \<Longrightarrow> echo_inv s'"
  by (induction rule: echo_step.induct) (auto simp: echo_inv_def split: option.splits)

lemma echo_init_inv: "echo_inv echo_init"
  by (simp add: echo_inv_def echo_init_def)

lemma echo_steps_inv: "echo_step\<^sup>*\<^sup>* s s' \<Longrightarrow> echo_inv s \<Longrightarrow> echo_inv s'"
  by (induction rule: rtranclp_induct) (auto intro: echo_inv_step)

lemma echo_reaches_inv: "echo_reaches s \<Longrightarrow> echo_inv s"
  using echo_steps_inv [OF _ echo_init_inv] by (simp add: echo_reaches_def)

text \<open>
  The echo handler sends back what it receives: in every interleaving of its reader and its writer, with any failures,
  the frames written are the frames read, in order, up to one the writer holds, at most sixteen queued and one the
  reader holds; a frame held by a goroutine that has failed is the only one that can be lost on its side.
\<close>

theorem echo_in_order:
  assumes "echo_reaches s"
  shows "ec_read s = ec_written s @ writer_holds (ec_writer s) @ ec_egress s @ reader_holds (ec_reader s) \<and>
    length (ec_egress s) \<le> 16 \<and> length (ec_read s) \<le> length (ec_written s) + 18"
  using echo_reaches_inv [OF assms] by (auto simp: echo_inv_def)

text \<open>One frame echoed and a second one read.\<close>

theorem echo_in_order_witness:
  "\<exists>s. echo_reaches s \<and> ec_written s = [\<lparr>frame_type = 1, frame_seq = 1, frame_ts = 0, frame_payload = [7]\<rparr>] \<and>
     length (ec_read s) = 2 \<and> length (ec_read s) \<le> length (ec_written s) + 18"
proof -
  let ?f = "\<lparr>frame_type = 1, frame_seq = 1, frame_ts = 0, frame_payload = [7]\<rparr> :: Frame"
  let ?s1 = "echo_init\<lparr>ec_reader := Handing ?f, ec_read := [?f]\<rparr>"
  let ?s2 = "?s1\<lparr>ec_reader := Reading, ec_egress := [?f]\<rparr>"
  let ?s3 = "?s2\<lparr>ec_writer := WritingFrame ?f, ec_egress := []\<rparr>"
  let ?s4 = "?s3\<lparr>ec_writer := Selecting, ec_written := [?f]\<rparr>"
  let ?s5 = "?s4\<lparr>ec_reader := Handing ?f, ec_read := [?f, ?f]\<rparr>"
  have "echo_reaches echo_init" by (simp add: echo_reaches_def)
  then have "echo_reaches ?s1" by (rule echo_reaches_step) (use read_frame [of echo_init ?f] in \<open>simp add: echo_init_def\<close>)
  then have "echo_reaches ?s2" by (rule echo_reaches_step) (use hand_on [of ?s1 ?f] in \<open>simp add: echo_init_def\<close>)
  then have "echo_reaches ?s3" by (rule echo_reaches_step) (use take_frame [of ?s2 ?f] in \<open>simp add: echo_init_def\<close>)
  then have "echo_reaches ?s4" by (rule echo_reaches_step) (use write_ok [of ?s3 ?f] in \<open>simp add: echo_init_def\<close>)
  then have r: "echo_reaches ?s5" by (rule echo_reaches_step) (use read_frame [of ?s4 ?f] in \<open>simp add: echo_init_def\<close>)
  from echo_in_order [OF r] r show ?thesis by (intro exI [of _ ?s5]) simp
qed

text \<open>Each goroutine can always finish, without another frame: the channel of errors has room for both reports.\<close>

definition unwinds_to :: "echo_state \<Rightarrow> echo_state \<Rightarrow> bool" where
  "unwinds_to s s' \<longleftrightarrow> echo_step\<^sup>*\<^sup>* s s' \<and> ec_read s' = ec_read s \<and> ec_cancelled s'"

lemma unwinds_refl: "ec_cancelled s \<Longrightarrow> unwinds_to s s"
  by (simp add: unwinds_to_def)

lemma unwinds_step: "unwinds_to s s1 \<Longrightarrow> echo_step s1 s' \<Longrightarrow> ec_read s' = ec_read s1 \<Longrightarrow> ec_cancelled s' \<Longrightarrow> unwinds_to s s'"
  by (auto simp: unwinds_to_def)

lemma unwinds_trans: "unwinds_to s s1 \<Longrightarrow> unwinds_to s1 s' \<Longrightarrow> unwinds_to s s'"
  by (auto simp: unwinds_to_def)

lemma unwinds_inv: "unwinds_to s s' \<Longrightarrow> echo_inv s \<Longrightarrow> echo_inv s' \<and> ec_cancelled s'"
  using echo_steps_inv by (auto simp: unwinds_to_def)

lemma errc_room:
  assumes "echo_inv s" "reported s < 2"
  shows "length (ec_errc s) < 2"
  using assms by (auto simp: echo_inv_def split: option.splits)

lemma reader_finishes:
  assumes "echo_inv s" "ec_cancelled s"
  shows "\<exists>s' fs. unwinds_to s s' \<and> ec_reader s' = RDone fs \<and> ec_writer s' = ec_writer s"
proof -
  have fin: "\<exists>s' fs. unwinds_to s s' \<and> ec_reader s' = RDone fs \<and> ec_writer s' = ec_writer s"
    if "unwinds_to s s1" "ec_reader s1 = RReport e fs" "ec_writer s1 = ec_writer s" for s1 e fs
  proof -
    have i: "echo_inv s1" "ec_cancelled s1" using unwinds_inv [OF that(1) assms(1)] by auto
    have "length (ec_errc s1) < 2" using that(2) by (intro errc_room [OF i(1)]) (auto split: echo_writer.splits)
    from unwinds_step [OF that(1) reader_reports [OF that(2) this]] that i show ?thesis by force
  qed
  show ?thesis
  proof (cases "ec_reader s")
    case Reading
    from fin [OF unwinds_step [OF unwinds_refl [OF assms(2)] read_fails [OF Reading]]] assms(2) show ?thesis by simp
  next
    case (Handing f)
    from fin [OF unwinds_step [OF unwinds_refl [OF assms(2)] hand_cancelled [OF Handing assms(2)]]] assms(2) show ?thesis by simp
  next
    case (RReport e fs)
    from fin [OF unwinds_refl [OF assms(2)] RReport] show ?thesis by simp
  next
    case (RDone fs)
    with unwinds_refl [OF assms(2)] show ?thesis by blast
  qed
qed

lemma writer_finishes:
  assumes "echo_inv s" "ec_cancelled s"
  shows "\<exists>s' fs. unwinds_to s s' \<and> ec_writer s' = WDone fs \<and> ec_reader s' = ec_reader s"
proof -
  have fin: "\<exists>s' fs. unwinds_to s s' \<and> ec_writer s' = WDone fs \<and> ec_reader s' = ec_reader s"
    if "unwinds_to s s1" "ec_writer s1 = WReport e fs" "ec_reader s1 = ec_reader s" for s1 e fs
  proof -
    have i: "echo_inv s1" "ec_cancelled s1" using unwinds_inv [OF that(1) assms(1)] by auto
    have "length (ec_errc s1) < 2" using that(2) by (intro errc_room [OF i(1)]) (auto split: echo_reader.splits)
    from unwinds_step [OF that(1) writer_reports [OF that(2) this]] that i show ?thesis by force
  qed
  show ?thesis
  proof (cases "ec_writer s")
    case Selecting
    from fin [OF unwinds_step [OF unwinds_refl [OF assms(2)] writer_cancelled [OF Selecting assms(2)]]] assms(2) show ?thesis by simp
  next
    case (WritingFrame f)
    from fin [OF unwinds_step [OF unwinds_refl [OF assms(2)] write_fails [OF WritingFrame]]] assms(2) show ?thesis by simp
  next
    case Pinging
    from fin [OF unwinds_step [OF unwinds_refl [OF assms(2)] ping_fails [OF Pinging]]] assms(2) show ?thesis by simp
  next
    case (WReport e fs)
    from fin [OF unwinds_refl [OF assms(2)] WReport] show ?thesis by simp
  next
    case (WDone fs)
    with unwinds_refl [OF assms(2)] show ?thesis by blast
  qed
qed

text \<open>
  The echo handler leaks nothing: from every reachable state in which the context is cancelled, whatever its goroutines
  are in the middle of, they can both finish without another frame being read, neither waiting for room to report its
  error, and the handler has then returned one of the two errors or can return it.
\<close>

theorem echo_unwinds:
  assumes "echo_reaches s" "ec_cancelled s"
  shows "\<exists>s'. echo_step\<^sup>*\<^sup>* s s' \<and> (\<exists>a b. ec_reader s' = RDone a \<and> ec_writer s' = WDone b) \<and> ec_read s' = ec_read s \<and>
    (ec_result s' \<noteq> None \<or> ec_errc s' \<noteq> [])"
proof -
  have i: "echo_inv s" by (rule echo_reaches_inv [OF assms(1)])
  obtain s1 a where s1: "unwinds_to s s1" "ec_reader s1 = RDone a" using reader_finishes [OF i assms(2)] by blast
  obtain s2 b where s2: "unwinds_to s1 s2" "ec_writer s2 = WDone b" "ec_reader s2 = RDone a"
    using writer_finishes [of s1] unwinds_inv [OF s1(1) i] s1(2) by metis
  have u: "unwinds_to s s2" by (rule unwinds_trans [OF s1(1) s2(1)])
  then have "echo_inv s2" using unwinds_inv i by blast
  with s2(2,3) have "ec_result s2 \<noteq> None \<or> ec_errc s2 \<noteq> []" by (auto simp: echo_inv_def)
  with u s2 show ?thesis by (auto simp: unwinds_to_def)
qed

theorem echo_unwinds_witness:
  "\<exists>s'. echo_step\<^sup>*\<^sup>* (echo_init\<lparr>ec_cancelled := True\<rparr>) s' \<and> (\<exists>a b. ec_reader s' = RDone a \<and> ec_writer s' = WDone b)"
proof -
  have "echo_reaches (echo_init\<lparr>ec_cancelled := True\<rparr>)"
    using echo_reaches_step [OF _ parent_done] by (simp add: echo_reaches_def)
  from echo_unwinds [OF this] show ?thesis by auto
qed

end
