(* ===== verification/Assembly.thy ===== *)
theory Assembly
  imports Pipeline Dotenv Sherpaasr Server
begin

text \<open>
  The server of \<open>cmd/server/main.go\<close>: the registry that the imported adapter packages fill, the start from the
  environment, the configuration file and the adapters' factories, and the routes it serves. A value of one of
  the adapter interfaces is one of its implementations. Logging, signals and the listener have no model.
\<close>

section \<open>The registry\<close>

datatype asr_adapter = AsrMock MockASR | AsrSherpa SherpaASR
datatype llm_adapter = LlmMock MockLLM | LlmOpenAI LLM
datatype tts_adapter = TtsMock MockTTS | TtsOpenAI OpenAITTS | TtsSherpa SherpaTTS

definition mock_asr_factory :: "MockASR factory" where
  "mock_asr_factory cfg = Inr \<lparr>masr_Script = runes_of ''hello voicestream'', masr_PartialEvery = 10\<rparr>"

definition mock_llm_factory :: "MockLLM factory" where
  "mock_llm_factory cfg = Inr \<lparr>mllm_Reply = []\<rparr>"

definition mock_tts_factory :: "MockTTS factory" where
  "mock_tts_factory cfg = Inr \<lparr>mtts_SampleRate = au_SampleRate (cf_Audio cfg), mtts_FrameDuration = au_FrameDuration (cf_Audio cfg),
     mtts_MsPerRune = 0\<rparr>"

definition as_adapter :: "('a \<Rightarrow> 'b) \<Rightarrow> 'a factory \<Rightarrow> 'b factory" where
  "as_adapter wrap f cfg = (case f cfg of Inl e \<Rightarrow> Inl e | Inr a \<Rightarrow> Inr (wrap a))"

text \<open>The packages are initialised in the order of their paths, the package \<open>adapter\<close> first.\<close>

definition asr_registry :: "(string \<times> asr_adapter factory) list option" where
  "asr_registry = Option.bind (adapter_register [] ''mock'' (as_adapter AsrMock mock_asr_factory))
     (\<lambda>r. adapter_register r ''sherpa'' (as_adapter AsrSherpa SherpaASR_factory))"

definition llm_registry :: "env \<Rightarrow> (string \<times> llm_adapter factory) list option" where
  "llm_registry e = Option.bind (adapter_register [] ''mock'' (as_adapter LlmMock mock_llm_factory))
     (\<lambda>r. adapter_register r ''openai-compat'' (as_adapter LlmOpenAI (LLM_factory e)))"

definition tts_registry :: "env \<Rightarrow> (string \<times> tts_adapter factory) list option" where
  "tts_registry e = Option.bind (adapter_register [] ''mock'' (as_adapter TtsMock mock_tts_factory))
     (\<lambda>r. Option.bind (adapter_register r ''openai-tts'' (as_adapter TtsOpenAI (OpenAITTS_factory e)))
     (\<lambda>r. adapter_register r ''sherpa'' (as_adapter TtsSherpa SherpaTTS_factory)))"

section \<open>Start\<close>

type_synonym adapters = "(asr_adapter, llm_adapter, tts_adapter) adapter_set"

datatype startup = InitPanics | ConfigLoadFails config_error | ConfigInvalid config_error | AssemblyFails adapter_error
  | Serving Config adapters

text \<open>The configuration: the defaults, or the file that \<open>VOICESTREAM_CONFIG\<close> names.\<close>

definition main_config :: "string \<Rightarrow> (string \<Rightarrow> Config \<Rightarrow> string + Config) \<Rightarrow> (string \<Rightarrow> string + string) \<Rightarrow> env \<Rightarrow> config_error + Config" where
  "main_config prompt yaml readFile e =
     (let path = Getenv e ''VOICESTREAM_CONFIG'' in if path \<noteq> [] then Load prompt yaml e (readFile path) else Inr (Default prompt))"

definition main_build :: "env \<Rightarrow> Config \<Rightarrow> startup" where
  "main_build e cfg =
     (case (asr_registry, llm_registry e, tts_registry e) of
        (Some asrs, Some llms, Some ttss) \<Rightarrow>
          (case Build asrs llms ttss cfg of Inl err \<Rightarrow> AssemblyFails err | Inr ad \<Rightarrow> Serving cfg ad)
      | _ \<Rightarrow> InitPanics)"

text \<open>An error of the \<open>.env\<close> file is only logged; the variables set before it stay.\<close>

definition server_main :: "string \<Rightarrow> (string \<Rightarrow> Config \<Rightarrow> string + Config) \<Rightarrow> (string \<Rightarrow> string + string) \<Rightarrow> open_result \<Rightarrow> env \<Rightarrow> startup" where
  "server_main prompt yaml readFile dotenv e =
     (let e1 = fst (LoadDotEnv e dotenv) in
      case main_config prompt yaml readFile e1 of
        Inl err \<Rightarrow> ConfigLoadFails err
      | Inr cfg \<Rightarrow> (case Validate cfg of Some err \<Rightarrow> ConfigInvalid err | None \<Rightarrow> main_build e1 cfg))"

section \<open>Routes of the server\<close>

datatype main_route = MetricsRoute | TurnsRoute | PprofIndex | PprofProfile | PprofTrace

definition main_server :: "ServerConfig \<Rightarrow> 'h \<Rightarrow> ('h, main_route) Server" where
  "main_server cfg h =
     RegisterRoute ''/debug/pprof/trace'' PprofTrace
     (RegisterRoute ''/debug/pprof/profile'' PprofProfile
     (RegisterRoute ''/debug/pprof/'' PprofIndex
     (RegisterRoute ''/debug/turns'' TurnsRoute
     (RegisterRoute ''/metrics'' MetricsRoute (NewServerWithHandler cfg h)))))"

section \<open>Properties\<close>

lemma registries:
  "asr_registry = Some [(''sherpa'', as_adapter AsrSherpa SherpaASR_factory), (''mock'', as_adapter AsrMock mock_asr_factory)]"
  "llm_registry e = Some [(''openai-compat'', as_adapter LlmOpenAI (LLM_factory e)), (''mock'', as_adapter LlmMock mock_llm_factory)]"
  "tts_registry e = Some [(''sherpa'', as_adapter TtsSherpa SherpaTTS_factory),
     (''openai-tts'', as_adapter TtsOpenAI (OpenAITTS_factory e)), (''mock'', as_adapter TtsMock mock_tts_factory)]"
  by (simp_all add: asr_registry_def llm_registry_def tts_registry_def adapter_register_def)

text \<open>When an adapter is well formed: what its streams rely on.\<close>

fun asr_ok :: "Config \<Rightarrow> asr_adapter \<Rightarrow> bool" where
  "asr_ok cfg (AsrMock m) \<longleftrightarrow> masr_PartialEvery m = 10 \<and> masr_Script m \<noteq> []"
| "asr_ok cfg (AsrSherpa a) \<longleftrightarrow> 0 < sa_silenceTailMs a \<and> 0 < sa_finalWait a \<and> 0 < sa_sampleRate a"

fun llm_ok :: "Config \<Rightarrow> llm_adapter \<Rightarrow> bool" where
  "llm_ok cfg (LlmMock m) \<longleftrightarrow> mllm_Reply m = []"
| "llm_ok cfg (LlmOpenAI l) \<longleftrightarrow> llm_model l \<noteq> [] \<and> llm_apiKey l \<noteq> [] \<and> (llm_baseURL l = [] \<or> last (llm_baseURL l) \<noteq> 47)"

fun tts_rate :: "tts_adapter \<Rightarrow> int" where
  "tts_rate (TtsMock m) = mtts_SampleRate m"
| "tts_rate (TtsOpenAI t) = oa_sampleRate t"
| "tts_rate (TtsSherpa t) = st_sampleRate t"

fun tts_frame :: "tts_adapter \<Rightarrow> duration" where
  "tts_frame (TtsMock m) = mtts_FrameDuration m"
| "tts_frame (TtsOpenAI t) = oa_frameDuration t"
| "tts_frame (TtsSherpa t) = st_frameDuration t"

fun tts_speed :: "tts_adapter \<Rightarrow> real" where
  "tts_speed (TtsMock m) = 1"
| "tts_speed (TtsOpenAI t) = oa_speed t"
| "tts_speed (TtsSherpa t) = st_speed t"

lemma utf8_nonempty: "s \<noteq> [] \<Longrightarrow> text_of s \<noteq> []"
  by (cases s) (auto simp: text_of_def split: list.split)

lemma TrimRight_last: "TrimRight c s = [] \<or> last (TrimRight c s) \<noteq> c"
  using hd_dropWhile [of "\<lambda>r. r = c" "rev s"] by (auto simp: TrimRight_def last_rev)

text \<open>
  C21: The server starts only in working order: whatever the file, the \<open>.env\<close> file, the environment and the YAML decoder
  hold, when it serves, the configuration has passed \<open>Validate\<close>, and every adapter is well formed: a recogniser with
  a positive silence tail and wait, a language model with a model name and a key and no trailing slash in its address, a
  synthesiser with a positive rate and speed and the configured frame duration. No registration panics.
\<close>

theorem startup_well_formed:
  assumes "server_main prompt yaml readFile dotenv e = Serving cfg ad"
  shows "Validate cfg = None \<and> asr_ok cfg (set_ASR ad) \<and> llm_ok cfg (set_LLM ad) \<and>
    0 < tts_rate (set_TTS ad) \<and> 0 < tts_speed (set_TTS ad) \<and> tts_frame (set_TTS ad) = au_FrameDuration (cf_Audio cfg)"
proof -
  let ?e = "fst (LoadDotEnv e dotenv)"
  obtain c where c: "Validate c = None" "main_build ?e c = Serving cfg ad"
    using assms by (auto simp: server_main_def Let_def split: sum.splits option.splits)
  moreover from this have "c = cfg" by (auto simp: main_build_def split: option.splits sum.splits)
  ultimately have v: "Validate cfg = None" and b: "main_build ?e cfg = Serving cfg ad" by simp_all
  obtain a l t where ad: "ad = \<lparr>set_ASR = a, set_LLM = l, set_TTS = t\<rparr>" by (cases ad)
  obtain asrs llms ttss where B: "asr_registry = Some asrs" "llm_registry ?e = Some llms" "tts_registry ?e = Some ttss"
    "Build asrs llms ttss cfg = Inr ad"
    using b by (auto simp: main_build_def split: option.splits sum.splits)
  from B(4) obtain f g h where F: "map_of asrs (ad_ASR (cf_Adapters cfg)) = Some f" "f cfg = Inr a"
    "map_of llms (ad_LLM (cf_Adapters cfg)) = Some g" "g cfg = Inr l"
    "map_of ttss (ad_TTS (cf_Adapters cfg)) = Some h" "h cfg = Inr t"
    unfolding ad Build_iff by blast
  note rate = Validate_D(12) [OF v]
  have "asr_ok cfg a"
    using F(1,2) B(1) rate by (auto simp: registries as_adapter_def SherpaASR_factory_def mock_asr_factory_def Let_def
      runes_of_def split: if_splits sum.splits)
  moreover have "llm_ok cfg l"
    using F(3,4) B(2) TrimRight_last by (auto simp: registries as_adapter_def LLM_factory_def LLM_New_def mock_llm_factory_def Let_def
      utf8_nonempty split: if_splits sum.splits)
  moreover have "0 < tts_rate t \<and> 0 < tts_speed t \<and> tts_frame t = au_FrameDuration (cf_Audio cfg)"
    using F(5,6) B(3) rate by (auto simp: registries as_adapter_def OpenAITTS_factory_def OpenAITTS_New_def SherpaTTS_factory_def
      mock_tts_factory_def Let_def split: if_splits sum.splits)
  ultimately show ?thesis using v by (simp add: ad)
qed

text \<open>A file that chooses the cloud language model, with its key in the environment.\<close>

theorem startup_well_formed_witness:
  "\<exists>cfg ad l. server_main [] (\<lambda>_ c. Inr (c\<lparr>cf_Adapters := (cf_Adapters c)\<lparr>ad_LLM := ''openai-compat''\<rparr>\<rparr>)) Inr NotExist
       [''VOICESTREAM_CONFIG'' \<mapsto> ''c.yaml'', ''VOICESTREAM_LLM_API_KEY'' \<mapsto> ''k''] = Serving cfg ad \<and>
     set_LLM ad = LlmOpenAI l \<and> llm_apiKey l \<noteq> [] \<and> Validate cfg = None \<and> 0 < tts_rate (set_TTS ad)"
proof -
  let ?yaml = "\<lambda>_ c. Inr (c\<lparr>cf_Adapters := (cf_Adapters c)\<lparr>ad_LLM := ''openai-compat''\<rparr>\<rparr>)"
  let ?e = "[''VOICESTREAM_CONFIG'' \<mapsto> ''c.yaml'', ''VOICESTREAM_LLM_API_KEY'' \<mapsto> ''k''] :: env"
  let ?cfg = "(Default [])\<lparr>cf_Adapters := (cf_Adapters (Default []))\<lparr>ad_LLM := ''openai-compat''\<rparr>\<rparr>"
  have v: "Validate ?cfg = None" by (simp add: Validate_def Default_def isPowerOfTwo_def parse_policy_error_def ParsePolicy_def)
  have o: "applyEnvOverrides ?e ?cfg = ?cfg" by (simp add: applyEnvOverrides_def Getenv_def)
  have c: "main_config [] ?yaml Inr ?e = Inr ?cfg" by (simp add: main_config_def Load_def Getenv_def o v Let_def)
  have k: "text_of ''k'' = runes_of ''k''" by (simp add: text_of_def runes_of_def)
  obtain ad l where b: "main_build ?e ?cfg = Serving ?cfg ad" "set_LLM ad = LlmOpenAI l"
    by (simp add: main_build_def registries Build_def adapter_build_def as_adapter_def mock_asr_factory_def LLM_factory_def mock_tts_factory_def
        Default_def Getenv_def)
  from b c v have s: "server_main [] ?yaml Inr NotExist ?e = Serving ?cfg ad" by (simp add: server_main_def)
  from startup_well_formed [OF s] b(2) s show ?thesis by auto
qed

text \<open>
  Without a configuration file the overrides do nothing: when \<open>VOICESTREAM_CONFIG\<close> is not set, neither in the
  environment nor in the \<open>.env\<close> file, the server starts with the defaults and the mocks whatever
  \<open>VOICESTREAM_ADDR\<close>, \<open>VOICESTREAM_SAMPLE_RATE\<close> and \<open>VOICESTREAM_REDIS_ADDR\<close> hold.
\<close>

theorem startup_ignores_overrides:
  assumes "Getenv (fst (LoadDotEnv e dotenv)) ''VOICESTREAM_CONFIG'' = []"
  shows "\<exists>ad. server_main prompt yaml readFile dotenv e = Serving (Default prompt) ad \<and>
    (\<exists>a l t. set_ASR ad = AsrMock a \<and> set_LLM ad = LlmMock l \<and> set_TTS ad = TtsMock t)"
proof -
  have n: "ad_ASR (cf_Adapters (Default prompt)) = ''mock''" "ad_LLM (cf_Adapters (Default prompt)) = ''mock''"
    "ad_TTS (cf_Adapters (Default prompt)) = ''mock''" by (simp_all add: Default_def)
  show ?thesis
    by (simp add: server_main_def Let_def main_config_def assms Validate_Default main_build_def registries Build_def adapter_build_def n
        as_adapter_def mock_asr_factory_def mock_llm_factory_def mock_tts_factory_def)
qed

theorem startup_ignores_overrides_witness:
  "\<exists>ad. server_main [] (\<lambda>_ c. Inr c) (\<lambda>_. Inl []) NotExist [''VOICESTREAM_ADDR'' \<mapsto> '':9090''] = Serving (Default []) ad \<and>
     sc_Addr (cf_Server (Default [])) = '':8080'' \<and>
     sc_Addr (cf_Server (applyEnvOverrides [''VOICESTREAM_ADDR'' \<mapsto> '':9090''] (Default []))) = '':9090''"
proof -
  have "Getenv (fst (LoadDotEnv [''VOICESTREAM_ADDR'' \<mapsto> '':9090''] NotExist)) ''VOICESTREAM_CONFIG'' = []"
    by (simp add: Getenv_def)
  from startup_ignores_overrides [OF this, of "[]" "\<lambda>_ c. Inr c" "\<lambda>_. Inl []"] show ?thesis
    by (auto simp: Default_def applyEnvOverrides_def Getenv_def Atoi_def)
qed


text \<open>The routes as a table of decisions; \<open>dir\<close> is the directory of the demo client, empty for none.\<close>

definition endpoint_of :: "string \<Rightarrow> string \<Rightarrow> main_route endpoint mux_result" where
  "endpoint_of dir path =
     (if path = ''/ws'' then Served WebSocketRoute
      else if path = ''/metrics'' then Served (ExtraRoute MetricsRoute)
      else if path = ''/debug/turns'' then Served (ExtraRoute TurnsRoute)
      else if path = ''/debug/pprof/profile'' then Served (ExtraRoute PprofProfile)
      else if path = ''/debug/pprof/trace'' then Served (ExtraRoute PprofTrace)
      else if path = ''/debug/pprof'' then Redirect ''/debug/pprof/''
      else if prefix ''/debug/pprof/'' path then Served (ExtraRoute PprofIndex)
      else if dir \<noteq> [] then Served (StaticRoute dir) else NotFound)"

text \<open>
  The routes of the server: for every configuration the routes register without a panic, and every request path is
  served as the table says: the WebSocket at its own path, whatever static directory is configured, the metrics, the
  turn events and the profiles at theirs, a redirect for the profile index without its slash, everything else below
  it by the index, and the rest by the static files, if there are any.
\<close>

theorem server_endpoints:
  "map_option (\<lambda>mux. mux_serve mux (CHR ''/'' # rest)) (HTTPHandler (main_server cfg h)) =
   Some (endpoint_of (sc_StaticDir cfg) (CHR ''/'' # rest))"
proof -
  let ?path = "CHR ''/'' # rest"
  let ?m = "[(''/debug/pprof/trace'', ExtraRoute PprofTrace), (''/debug/pprof/profile'', ExtraRoute PprofProfile),
    (''/debug/pprof/'', ExtraRoute PprofIndex), (''/debug/turns'', ExtraRoute TurnsRoute), (''/metrics'', ExtraRoute MetricsRoute),
    (''/ws'', WebSocketRoute)]"
  have m: "HTTPHandler (main_server cfg h) =
      Some (if sc_StaticDir cfg \<noteq> [] then (''/'', StaticRoute (sc_StaticDir cfg)) # ?m else ?m)"
    by (simp add: HTTPHandler_def main_server_def RegisterRoute_def NewServerWithHandler_def mux_handle_def Let_def)
  show ?thesis
    unfolding m by (auto simp: mux_serve_def endpoint_of_def subtrees_def)
qed

end
