(* ===== verification/Cloudturn.thy ===== *)
theory Cloudturn
  imports Turn Openaitts
begin

text \<open>
  A turn whose language model and synthesiser are the services of \<open>internal/adapter/openaicompat\<close> and
  \<open>internal/adapter/openaitts\<close>: their streams as stages of the chain of \<open>internal/pipeline/turn.go\<close>. A failure that
  wraps the cancellation counts as one, as \<open>errors.Is\<close> tells the chain.
\<close>

definition llm_stage_end :: "stream_end \<Rightarrow> stage_end" where
  "llm_stage_end e =
     (case e of StreamOK \<Rightarrow> StageOk | StreamCancelled \<Rightarrow> StageCanceled | StreamBuild \<Rightarrow> StageFailed ''build request''
      | StreamRequest \<Rightarrow> StageFailed ''request'' | StreamStatus _ _ \<Rightarrow> StageFailed ''status'' | StreamBadChunk \<Rightarrow> StageFailed ''bad SSE chunk''
      | StreamRead \<Rightarrow> StageFailed ''read stream'')"

definition cloud_llm :: "(http_request \<Rightarrow> http_reply) \<Rightarrow> LLM \<Rightarrow> llm_stage" where
  "cloud_llm http l b turn =
     (if http (llm_request l turn) = DoFailed True then ([], StageCanceled) else apsnd llm_stage_end (LLM_Stream http l b turn))"

definition tts_stage_end :: "tts_end \<Rightarrow> stage_end" where
  "tts_stage_end e = (if e = TtsOK then StageOk else if e = TtsCancelled then StageCanceled else StageFailed ''openaitts'')"

text \<open>A synthesiser whose frames have no samples never returns and is no stage; it has no frames here.\<close>

definition cloud_tts :: "(nat \<Rightarrow> instant) \<Rightarrow> (nat \<Rightarrow> http_request \<Rightarrow> speech_reply) \<Rightarrow> OpenAITTS \<Rightarrow> tts_stage" where
  "cloud_tts clock http t b toks =
     (case OpenAITTS_Stream clock http t b toks of Some (outs, e) \<Rightarrow> (outs, tts_stage_end e) | None \<Rightarrow> ([], StageFailed ''never returns''))"

text \<open>
  C6: A turn with both cloud services says what the model answered: when nothing is cancelled, the model's event stream is
  well formed and the speech service has audio for every sentence of the answer, the turn ends without error, its
  recorded reply is the deltas joined, the observer has seen every delta, and what the writer has taken and the
  egress still holds are, in order, the frames of the audio of the answer, cut and padded with silence to whole
  frames, except those the full egress ring has dropped and counted.
\<close>

theorem cloud_turn:
  assumes "list_all event_ok evs"
    and "llm_http (llm_request l \<lparr>tn_Prompt = ut_text u, tn_History = history\<rparr>) =
      Reply 200 detail (map event_line evs @ runes_of ''data: [DONE]'' # lines) e"
    and "served_audio http t 0 (spoken (sentences (deltas evs) [])) = Some bytes"
    and "0 < oa_sampleRate t" "0 < oa_frameDuration t" "samplesPerFrame (oa_sampleRate t) (oa_frameDuration t) = int m" "0 < m"
    and "edge_inv egress" "ring_policy (eg_ring egress) \<noteq> Reject"
    and "te_llm te = None" "te_fwd te = None" "te_tts te = None"
  shows "\<exists>h e' got outs pad d.
    turn_chain (cloud_llm llm_http l) (cloud_tts clock http t) te history u egress = Some (h, e', map Token.make (deltas evs), got) \<and>
    th_err h = None \<and> ts_Reply (th_stats h) = concat (deltas evs) \<and>
    concat (map frame_bytes outs) = bytes @ replicate pad 0 \<and> pad < 2 * m \<and> list_all (\<lambda>x. length (frame_bytes x) = 2 * m) outs \<and>
    subseq (got @ edge_frames e') (edge_frames egress @ outs) \<and>
    length got + length (edge_frames e') + d = length (edge_frames egress) + length outs \<and>
    edge_dropped e' = edge_dropped egress + word_of_nat d"
proof -
  let ?turn = "\<lparr>tn_Prompt = ut_text u, tn_History = history\<rparr>" and ?toks = "map Token.make (deltas evs)"
  have id: "tok_Text \<circ> Token.make = id" by (simp add: Token.make_def fun_eq_iff)
  then have toks: "map tok_Text ?toks = deltas evs" by simp
  have "LLM_Stream llm_http l None ?turn = (?toks, StreamOK)"
    using sse_loop_delivers [OF assms(1), of None lines e] assms(2) by (simp add: LLM_Stream_def cut_def affords_def Token.make_def)
  then have llm: "cloud_llm llm_http l None ?turn = (?toks, StageOk)"
    using assms(2) by (simp add: cloud_llm_def llm_stage_end_def)
  obtain s1 seen sent where fw: "forward (te_fwd_clock te) 0 None (init_stats u (te_start te)) ?toks = (s1, seen, sent)"
    by (metis prod_cases3)
  have "seen = ?toks \<and> sent = ?toks"
    using forward_tokens [of "te_fwd_clock te" 0 None "init_stats u (te_start te)" ?toks s1 seen sent] fw by auto
  with fw have fw: "forward (te_fwd_clock te) 0 None (init_stats u (te_start te)) ?toks = (s1, ?toks, ?toks)" by simp
  obtain outs pad where o: "OpenAITTS_Stream clock http t None ?toks = Some (outs, TtsOK)" "pad < 2 * m"
      "concat (map frame_bytes outs) = bytes @ replicate pad 0" "list_all (\<lambda>x. length (frame_bytes x) = 2 * m) outs"
    using openai_stream_frames [of http t ?toks bytes m clock, unfolded toks, OF assms(3-7)] by blast
  then have tts: "cloud_tts clock http t None ?toks = (outs, StageOk)"
    by (simp add: cloud_tts_def tts_stage_end_def)
  obtain s2 e' got d where p: "egress_pump (te_pump_clock te) (te_takes te) 0 s1 egress outs = Some (s2, e', got)"
      "subseq (got @ edge_frames e') (edge_frames egress @ outs)"
      "length got + length (edge_frames e') + d = length (edge_frames egress) + length outs"
      "edge_dropped e' = edge_dropped egress + word_of_nat d"
    using egress_pump_ok [OF assms(8,9), of "te_pump_clock te" "te_takes te" 0 s1 outs] by blast
  let ?h = "\<lparr>th_stats = s2\<lparr>ts_Reply := concat (deltas evs), ts_EndedAt := te_end te\<rparr>, th_err = None\<rparr>"
  have "turn_chain (cloud_llm llm_http l) (cloud_tts clock http t) te history u egress = Some (?h, e', ?toks, got)"
    using assms(10-12) by (simp add: turn_chain_def Let_def llm fw tts p(1) id first_err_def stage_err_def)
  then show ?thesis
    using o p by (intro exI [of _ ?h] exI [of _ e'] exI [of _ got] exI [of _ outs] exI [of _ pad] exI [of _ d]) simp
qed


definition demo_env :: turn_env where
  "demo_env = \<lparr>te_llm = None, te_fwd = None, te_tts = None, te_start = 1, te_fwd_clock = int, te_pump_clock = int, te_takes = (\<lambda>_. 0),
     te_end = 9, te_llm_first = True\<rparr>"

text \<open>An answer of two sentences; the egress ring holds two frames of the audio.\<close>

theorem cloud_turn_witness:
  "\<exists>egress h e' seen got. newEdge 2 DropOldest = Inr egress \<and>
     turn_chain (cloud_llm (\<lambda>_. Reply 200 [] (map event_line [Delta [72], Delta [46], Delta [72]] @ runes_of ''data: [DONE]'' # []) ScanEOF) demo_llm)
       (cloud_tts (\<lambda>_. 0) demo_service demo_tts) demo_env [] \<lparr>ut_text = [63], ut_endAt = 0, ut_finalAt = 1\<rparr> egress = Some (h, e', seen, got) \<and>
     ts_Reply (th_stats h) = [72, 46, 72]"
proof -
  let ?evs = "[Delta [72], Delta [46], Delta [72]]"
  let ?http = "\<lambda>_ :: http_request. Reply 200 [] (map event_line ?evs @ runes_of ''data: [DONE]'' # []) ScanEOF"
  obtain egress where e: "newEdge 2 DropOldest = Inr egress" using new_edge_2 by blast
  then have i: "edge_inv egress" "ring_policy (eg_ring egress) \<noteq> Reject" using edge_new_ok [OF e] by auto
  have ok: "list_all event_ok ?evs" by simp
  have s: "served_audio demo_service demo_tts 0 (spoken (sentences (deltas ?evs) [])) = Some [1, 2, 3, 4, 5, 6]"
    using demo_served demo_sentences by (simp add: demo_tokens_def)
  have te: "te_llm demo_env = None" "te_fwd demo_env = None" "te_tts demo_env = None" by (simp_all add: demo_env_def)
  from cloud_turn [OF ok _ s demo_rate _ i te, of ?http demo_llm "\<lparr>ut_text = [63], ut_endAt = 0, ut_finalAt = 1\<rparr>" "[]" "[]" "[]" ScanEOF "\<lambda>_. 0"] e
  show ?thesis by (auto simp del: event_line.simps)
qed

end
