(* ===== verification/Jsonnum.thy ===== *)
theory Jsonnum
  imports Openaitts
begin

text \<open>
  The numbers that \<open>encoding/json\<close> prints are numbers of JSON, so a value made of them, of texts and of names reads back
  as itself.
\<close>

lemma is_num_of_char [simp]: "is_num (of_char c) \<longleftrightarrow> is_digit c"
  by (simp add: is_num_def is_digit_def)

lemma runes_of_simps: "runes_of [] = []" "runes_of (c # cs) = of_char c # runes_of cs" "runes_of (s @ t) = runes_of s @ runes_of t"
  by (simp_all add: runes_of_def)

lemma digits1_text:
  assumes "list_all is_digit ds" "ds \<noteq> []" "r = [] \<or> \<not> is_num (hd r)"
  shows "digits1 (runes_of ds @ r) = Some (runes_of ds, r)"
proof -
  have a: "\<And>x. x \<in> set (runes_of ds) \<Longrightarrow> is_num x" using assms(1) by (auto simp: runes_of_def list_all_iff)
  have "takeWhile is_num r = []" "dropWhile is_num r = r" using assms(3) by (auto simp: takeWhile_eq_Nil_iff dropWhile_eq_self_iff)
  with a have "takeWhile is_num (runes_of ds @ r) = runes_of ds" "dropWhile is_num (runes_of ds @ r) = r"
    by (simp_all add: takeWhile_append2 dropWhile_append2)
  with assms(2) show ?thesis by (simp add: digits1_def runes_of_def)
qed

lemma lex_int_text:
  assumes "list_all is_digit ip" "ip \<noteq> []" "hd ip \<noteq> CHR ''0'' \<or> ip = ''0''" "r = [] \<or> \<not> is_num (hd r)"
  shows "lex_int (runes_of ip @ r) = Some (runes_of ip, r)"
proof (cases "ip = ''0''")
  case False
  then obtain c cs where c: "ip = c # cs" "c \<noteq> CHR ''0''" using assms(2,3) by (cases ip) auto
  then have "(of_char c :: nat) \<noteq> 48"
    using of_char_eq_iff [of c "CHR ''0''"] by simp
  with digits1_text [OF assms(1,2,4)] c show ?thesis by (simp add: lex_int_def runes_of_simps)
qed (simp add: lex_int_def runes_of_def)

lemma lex_frac_text:
  assumes "list_all is_digit fp" "r = [] \<or> \<not> is_num (hd r) \<and> hd r \<noteq> 46"
  shows "lex_frac (runes_of (if fp = [] then [] else CHR ''.'' # fp) @ r) = Some (runes_of (if fp = [] then [] else CHR ''.'' # fp), r)"
proof (cases "fp = []")
  case True
  with assms(2) show ?thesis by (cases r) (auto simp: lex_frac_def runes_of_def)
next
  case False
  with digits1_text [OF assms(1)] assms(2) show ?thesis by (auto simp: lex_frac_def runes_of_simps)
qed

text \<open>The texts of exponents.\<close>

definition exponent_text :: "string \<Rightarrow> bool" where
  "exponent_text ex \<longleftrightarrow> ex = [] \<or> (\<exists>sg es. ex = CHR ''e'' # sg # es \<and> sg \<in> {CHR ''+'', CHR ''-''} \<and> list_all is_digit es \<and> es \<noteq> [])"

lemma lex_exp_text:
  assumes "exponent_text ex"
  shows "lex_exp (runes_of ex) = Some (runes_of ex, [])"
proof (cases "ex = []")
  case False
  with assms obtain sg es where e: "ex = CHR ''e'' # sg # es" "sg \<in> {CHR ''+'', CHR ''-''}" "list_all is_digit es" "es \<noteq> []"
    by (auto simp: exponent_text_def)
  have "digits1 (runes_of es) = Some (runes_of es, [])" using digits1_text [OF e(3,4), of "[]"] by simp
  with e show ?thesis by (auto simp: lex_exp_def runes_of_simps)
qed (simp add: lex_exp_def runes_of_def)

lemma lex_number_text:
  assumes "list_all is_digit ip" "ip \<noteq> []" "hd ip \<noteq> CHR ''0'' \<or> ip = ''0''" "list_all is_digit fp" "exponent_text ex"
    and "s = runes_of ((if neg then ''-'' else []) @ ip @ (if fp = [] then [] else CHR ''.'' # fp) @ ex)"
  shows "lex_number s = Some (s, [])"
proof -
  let ?f = "runes_of (if fp = [] then [] else CHR ''.'' # fp)"
  have e: "runes_of ex = [] \<or> \<not> is_num (hd (runes_of ex)) \<and> hd (runes_of ex) \<noteq> 46"
    using assms(5) by (auto simp: exponent_text_def runes_of_def is_num_def)
  then have f: "?f @ runes_of ex = [] \<or> \<not> is_num (hd (?f @ runes_of ex))"
    by (auto simp: runes_of_simps is_num_def)
  obtain c cs where c: "ip = c # cs" "is_digit c" using assms(1,2) by (cases ip) auto
  have m: "(of_char c :: nat) \<noteq> 45" using c(2) by (simp add: is_digit_def)
  have "lex_sign s = (if neg then [45] else [], runes_of ip @ ?f @ runes_of ex)"
    using m unfolding assms(6) c(1) by (simp add: lex_sign_def runes_of_simps)
  then show ?thesis
    using lex_int_text [OF assms(1-3) f] lex_frac_text [OF assms(4) e] lex_exp_text [OF assms(5)]
    by (simp add: lex_number_def assms(6) runes_of_simps)
qed

text \<open>The digits of a float: none, or without a leading zero.\<close>

lemma nat_digits_hd: "0 < n \<Longrightarrow> hd (nat_digits n) \<noteq> CHR ''0''"
proof (induction n rule: nat_digits.induct)
  case (1 n)
  show ?case
  proof (cases "n < 10")
    case True
    then have "(of_char (dig n) :: nat) \<noteq> of_char CHR ''0''" using 1(2) by simp
    then have "dig n \<noteq> CHR ''0''" by metis
    then show ?thesis using True by (subst nat_digits.simps) simp
  next
    case False
    then have "0 < n div 10" by simp
    with 1 False show ?thesis by (subst nat_digits.simps) (simp add: hd_append)
  qed
qed

lemma shortest_shape:
  assumes "shortest v = (ds, dp)"
  shows "list_all is_digit ds" "ds = [] \<longrightarrow> dp = 0" "ds \<noteq> [] \<longrightarrow> hd ds \<noteq> CHR ''0''"
proof -
  define k where "k = (case decimal_places v of Some k \<Rightarrow> k | None \<Rightarrow> 400)"
  define M where "M = nat \<lfloor>v * 10 ^ k\<rfloor>"
  have "shortest v = (if M = 0 then ([], 0) else (strip_zeros (nat_digits M), int (length (nat_digits M)) - int k))"
    by (simp only: shortest_def Let_def M_def k_def)
  with assms consider "ds = []" "dp = 0" | m where "0 < m" "ds = strip_zeros (nat_digits m)"
    by (cases "M = 0") auto
  then have "list_all is_digit ds \<and> (ds = [] \<longrightarrow> dp = 0) \<and> (ds \<noteq> [] \<longrightarrow> hd ds \<noteq> CHR ''0'')"
  proof cases
    case 2
    obtain z where z: "nat_digits m = ds @ replicate z CHR ''0''" using strip_zeros_split 2(2) by metis
    have n: "ds \<noteq> []"
    proof
      assume "ds = []"
      with z have "decimal_value (nat_digits m) = 0" by simp
      with 2(1) show False by simp
    qed
    with nat_digits_hd [OF 2(1)] nat_digits_digits [of m] show ?thesis by (simp add: z)
  qed simp
  then show "list_all is_digit ds" "ds = [] \<longrightarrow> dp = 0" "ds \<noteq> [] \<longrightarrow> hd ds \<noteq> CHR ''0''" by auto
qed

lemma fmtF_shape:
  assumes "list_all is_digit ds" "ds = [] \<longrightarrow> dp = 0" "ds \<noteq> [] \<longrightarrow> hd ds \<noteq> CHR ''0''"
  obtains ip fp where "fmtF ds dp = ip @ (if fp = [] then [] else CHR ''.'' # fp)" "list_all is_digit ip" "ip \<noteq> []"
    "hd ip \<noteq> CHR ''0'' \<or> ip = ''0''" "list_all is_digit fp"
proof -
  let ?ip = "if dp > 0 then take (nat dp) ds @ replicate (nat dp - length ds) CHR ''0'' else ''0''"
  let ?fp = "map (\<lambda>i. let j = dp + int i in if 0 \<le> j \<and> j < int (length ds) then ds ! nat j else CHR ''0'') [0..<nat (int (length ds) - dp)]"
  have z: "is_digit CHR ''0''" by (simp add: is_digit_def)
  show ?thesis
  proof (rule that [of ?ip ?fp])
    show "fmtF ds dp = ?ip @ (if ?fp = [] then [] else CHR ''.'' # ?fp)" by (auto simp: fmtF_def Let_def)
    show "list_all is_digit ?ip" using assms(1) z by (auto simp: list_all_iff dest: in_set_takeD)
    show "?ip \<noteq> []" "hd ?ip \<noteq> CHR ''0'' \<or> ?ip = ''0''" using assms(2,3) by (auto simp: hd_append hd_take)
    show "list_all is_digit ?fp" using assms(1) z by (auto simp: list_all_iff Let_def)
  qed
qed

lemma clean_exponent_text:
  assumes "list_all is_digit es" "2 \<le> length es" "sg \<in> {CHR ''+'', CHR ''-''}"
  shows "\<exists>es'. clean_exponent (x @ CHR ''e'' # sg # es) = x @ CHR ''e'' # sg # es' \<and> list_all is_digit es' \<and> es' \<noteq> [] \<and>
    decimal_value es' = decimal_value es"
proof (cases "length es = 2")
  case True
  then obtain a b where "es = [a, b]" by (cases es; cases "tl es") auto
  with assms(1) show ?thesis by (auto simp: clean_exponent_def Let_def nth_append nth_Cons' numeral_eq_Suc decimal_value_Cons)
next
  case False
  with assms(2) obtain a b c fs where es: "rev es = c # b # a # fs"
    by (cases "rev es"; cases "tl (rev es)"; cases "tl (tl (rev es))") (auto dest: arg_cong [of _ _ length])
  let ?s = "x @ CHR ''e'' # sg # es"
  have e: "es = rev fs @ [a, b, c]" using arg_cong [OF es, of rev] by simp
  define y where "y = x @ CHR ''e'' # sg # rev fs"
  have s: "?s = y @ [a, b, c]" "y \<noteq> []" "last y = last (sg # rev fs)" by (simp_all add: y_def e)
  then have "?s ! (length ?s - 4) = last y" by (simp add: nth_append last_conv_nth)
  then have "?s ! (length ?s - 4) = last (sg # rev fs)" by (simp only: s(3))
  moreover have "last (sg # rev fs) \<noteq> CHR ''e''"
  proof (cases fs)
    case (Cons d ds)
    with assms(1) e have "is_digit d" by simp
    then show ?thesis using Cons by (auto simp: is_digit_def)
  qed (use assms(3) in auto)
  ultimately have "clean_exponent ?s = ?s" by (simp only: clean_exponent_def Let_def) simp
  with assms(1) e show ?thesis by auto
qed

lemma fmtE_parts:
  assumes "list_all is_digit ds"
  obtains es es' neg where "fmtE ds dp = [if ds = [] then CHR ''0'' else hd ds] @ (if tl ds = [] then [] else CHR ''.'' # tl ds) @
      CHR ''e'' # (if neg then CHR ''-'' else CHR ''+'') # es"
    "clean_exponent (fmtE ds dp) = [if ds = [] then CHR ''0'' else hd ds] @ (if tl ds = [] then [] else CHR ''.'' # tl ds) @
      CHR ''e'' # (if neg then CHR ''-'' else CHR ''+'') # es'"
    "list_all is_digit es" "es \<noteq> []" "list_all is_digit es'" "es' \<noteq> []" "decimal_value es' = decimal_value es"
    "list_all is_digit [if ds = [] then CHR ''0'' else hd ds]" "list_all is_digit (tl ds)"
    "ds = [] \<Longrightarrow> decimal_value es = 0"
proof -
  let ?ip = "[if ds = [] then CHR ''0'' else hd ds]" and ?fp = "tl ds"
  define e where "e = (if ds = [] then 0 else dp - 1)"
  define es where "es = (let a = nat \<bar>e\<bar> in if a < 10 then CHR ''0'' # nat_digits a else nat_digits a)"
  have t: "fmtE ds dp = (?ip @ (if ?fp = [] then [] else CHR ''.'' # ?fp)) @ CHR ''e'' # (if e < 0 then CHR ''-'' else CHR ''+'') # es"
    by (cases ds) (auto simp: fmtE_def e_def es_def Let_def)
  have z: "is_digit CHR ''0''" by (simp add: is_digit_def)
  have l: "list_all is_digit es" using z by (simp add: es_def Let_def)
  have "2 \<le> length (nat_digits n)" if "10 \<le> n" for n
    using that by (subst nat_digits.simps) (simp add: Suc_le_eq)
  then have n: "2 \<le> length es" by (auto simp: es_def Let_def Suc_le_eq)
  have sg: "(if e < 0 then CHR ''-'' else CHR ''+'') \<in> {CHR ''+'', CHR ''-''}" by simp
  obtain es' where c: "clean_exponent (fmtE ds dp) =
      (?ip @ (if ?fp = [] then [] else CHR ''.'' # ?fp)) @ CHR ''e'' # (if e < 0 then CHR ''-'' else CHR ''+'') # es'"
    "list_all is_digit es'" "es' \<noteq> []" "decimal_value es' = decimal_value es"
    unfolding t using clean_exponent_text [OF l n sg, of "?ip @ (if ?fp = [] then [] else CHR ''.'' # ?fp)"] by blast
  have "list_all is_digit ?ip" "list_all is_digit ?fp" using assms z by (cases ds; simp)+
  moreover have "decimal_value es = 0" if "ds = []" using that by (simp add: es_def e_def Let_def decimal_value_Cons)
  moreover have "es \<noteq> []" using n by auto
  ultimately show ?thesis using t c l by (intro that [of "e < 0" es es']) simp_all
qed

lemma fmtE_shape:
  assumes "list_all is_digit ds" "ds \<noteq> [] \<longrightarrow> hd ds \<noteq> CHR ''0''"
  obtains ip fp ex where "clean_exponent (fmtE ds dp) = ip @ (if fp = [] then [] else CHR ''.'' # fp) @ ex" "list_all is_digit ip" "ip \<noteq> []"
    "hd ip \<noteq> CHR ''0'' \<or> ip = ''0''" "list_all is_digit fp" "exponent_text ex"
proof -
  obtain es es' neg where f: "clean_exponent (fmtE ds dp) = [if ds = [] then CHR ''0'' else hd ds] @
      (if tl ds = [] then [] else CHR ''.'' # tl ds) @ CHR ''e'' # (if neg then CHR ''-'' else CHR ''+'') # es'"
    "list_all is_digit es'" "es' \<noteq> []" "list_all is_digit [if ds = [] then CHR ''0'' else hd ds]" "list_all is_digit (tl ds)"
    using fmtE_parts [OF assms(1), of dp] by metis
  with assms(2) show ?thesis
    by (intro that [of "[if ds = [] then CHR ''0'' else hd ds]" "tl ds" "CHR ''e'' # (if neg then CHR ''-'' else CHR ''+'') # es'"])
      (auto simp: exponent_text_def)
qed

text \<open>The exponent that JSON shortens reads as before.\<close>

lemma clean_exponent_read:
  assumes "list_all is_digit ds"
  shows "ParseFloat ((if neg then ''-'' else []) @ clean_exponent (fmtE ds dp)) =
    (let v = real (decimal_value ds) * 10 powi (if ds = [] then 0 else dp - int (length ds)) in Some (if neg then - v else v))"
proof -
  obtain es es' m where f: "fmtE ds dp = [if ds = [] then CHR ''0'' else hd ds] @ (if tl ds = [] then [] else CHR ''.'' # tl ds) @
      CHR ''e'' # (if m then CHR ''-'' else CHR ''+'') # es"
    "clean_exponent (fmtE ds dp) = [if ds = [] then CHR ''0'' else hd ds] @ (if tl ds = [] then [] else CHR ''.'' # tl ds) @
      CHR ''e'' # (if m then CHR ''-'' else CHR ''+'') # es'"
    "list_all is_digit es" "es \<noteq> []" "list_all is_digit es'" "es' \<noteq> []" "decimal_value es' = decimal_value es"
    "list_all is_digit [if ds = [] then CHR ''0'' else hd ds]" "list_all is_digit (tl ds)" "ds = [] \<Longrightarrow> decimal_value es = 0"
    using fmtE_parts [OF assms, of dp] by metis
  have same: "ParseFloat ((if neg then ''-'' else []) @ clean_exponent (fmtE ds dp)) = ParseFloat ((if neg then ''-'' else []) @ fmtE ds dp)"
    unfolding f(2) unfolding f(1)
    using ParseFloat_text [OF f(8) _ f(9) parse_exponent_signed [OF f(3,4), of m], of neg]
      ParseFloat_text [OF f(8) _ f(9) parse_exponent_signed [OF f(5,6), of m], of neg] f(7) by simp
  show ?thesis
  proof (cases "ds = []")
    case True
    with f(1,10) ParseFloat_text [OF f(8) _ f(9) parse_exponent_signed [OF f(3,4), of m], of neg] same show ?thesis
      by (simp add: decimal_value_Cons Let_def)
  next
    case False
    with fmtE_read [OF assms, of neg dp] same show ?thesis by simp
  qed
qed

lemma json_float_ok: "json_ok (json_float v)"
proof -
  obtain ds dp where s: "shortest \<bar>v\<bar> = (ds, dp)" by force
  note sh = shortest_shape [OF s]
  show ?thesis
  proof (cases "v \<noteq> 0 \<and> (\<bar>v\<bar> < 1 / 10 ^ 6 \<or> \<bar>v\<bar> \<ge> 10 ^ 21)")
    case True
    from fmtE_shape [OF sh(1,3), of dp] obtain ip fp ex where
      f: "clean_exponent (fmtE ds dp) = ip @ (if fp = [] then [] else CHR ''.'' # fp) @ ex" "list_all is_digit ip" "ip \<noteq> []"
        "hd ip \<noteq> CHR ''0'' \<or> ip = ''0''" "list_all is_digit fp" "exponent_text ex" .
    show ?thesis unfolding json_float_def json_ok.simps s prod.case if_P [OF True]
      by (rule lex_number_text [OF f(2-6)]) (simp only: f(1))
  next
    case False
    from fmtF_shape [OF sh] obtain ip fp where f: "fmtF ds dp = ip @ (if fp = [] then [] else CHR ''.'' # fp)" "list_all is_digit ip" "ip \<noteq> []"
        "hd ip \<noteq> CHR ''0'' \<or> ip = ''0''" "list_all is_digit fp" .
    have "exponent_text []" by (simp add: exponent_text_def)
    show ?thesis unfolding json_float_def json_ok.simps s prod.case if_not_P [OF False]
      by (rule lex_number_text [OF f(2-5) \<open>exponent_text []\<close>]) (simp only: f(1) append_Nil2)
  qed
qed

lemma json_int_ok: "json_ok (json_int n)"
proof -
  have "hd (nat_digits m) \<noteq> CHR ''0'' \<or> nat_digits m = ''0''" for m
    using nat_digits_hd [of m] by (cases "m = 0") (simp_all add: nat_digits.simps [of 0] dig_def)
  moreover have "exponent_text []" by (simp add: exponent_text_def)
  ultimately show ?thesis unfolding json_int_def json_ok.simps
    by (intro lex_number_text [of "nat_digits (nat \<bar>n\<bar>)" "[]" "[]" _ "n < 0"]) simp_all
qed

section \<open>What a printed value never holds\<close>

text \<open>A newline, an ampersand and the angle brackets.\<close>

definition unsafe_runes :: "nat set" where "unsafe_runes = {10, 13, 38, 60, 62}"

lemma quote_rune_safe: "set (quote_rune c) \<inter> unsafe_runes = {}"
proof (cases "set (quote_rune c) = set (u_escape c)")
  case True
  then show ?thesis by (auto simp: u_escape_def hex_digit_def unsafe_runes_def)
qed (auto simp: quote_rune_def unsafe_runes_def split: if_splits)

lemma quote_text_safe: "set (quote_text s) \<inter> unsafe_runes = {}"
  using quote_rune_safe by (auto simp: quote_text_def unsafe_runes_def)

lemma digits1_nums: "digits1 s = Some (t, r) \<Longrightarrow> \<forall>c \<in> set t. is_num c"
  by (auto simp: digits1_def dest: set_takeWhileD split: if_splits)

lemma lex_number_safe:
  assumes "lex_number s = Some (t, r)"
  shows "set t \<inter> unsafe_runes = {}"
proof -
  obtain sg s0 i s1 f s2 e where l: "lex_sign s = (sg, s0)" "lex_int s0 = Some (i, s1)" "lex_frac s1 = Some (f, s2)" "lex_exp s2 = Some (e, r)"
    "t = sg @ i @ f @ e"
    using assms by (auto simp: lex_number_def bind_eq_Some_conv split: prod.splits)
  have n: "digits1 s' = Some (ds, r') \<Longrightarrow> set ds \<inter> unsafe_runes = {}" for s' ds r'
    using digits1_nums [of s' ds r'] by (auto simp: is_num_def unsafe_runes_def)
  have "set sg \<inter> unsafe_runes = {}" using l(1) by (auto simp: lex_sign_def unsafe_runes_def split: list.splits if_splits)
  moreover have "set i \<inter> unsafe_runes = {}"
    using l(2) by (auto simp: lex_int_def dest: n split: list.splits if_splits) (simp add: unsafe_runes_def)
  moreover have "set f \<inter> unsafe_runes = {}"
    using l(3) by (auto simp: lex_frac_def dest!: n split: list.splits if_splits) (auto simp: unsafe_runes_def)
  moreover have "set e \<inter> unsafe_runes = {}"
    using l(4) by (auto simp: lex_exp_def dest!: n split: list.splits if_splits) (auto simp: unsafe_runes_def)
  ultimately show ?thesis by (auto simp: l(5))
qed

lemma set_Join: "set (Join ws sep) \<subseteq> \<Union> (set (map set ws)) \<union> set sep"
  by (induction ws sep rule: Join.induct) auto

lemma Marshal_safe: "json_ok v \<Longrightarrow> set (Marshal v) \<inter> unsafe_runes = {}"
proof (induction v)
  case (JArr vs)
  have "set (Join (map Marshal vs) [44]) \<inter> unsafe_runes = {}"
    using set_Join [of "map Marshal vs" "[44]"] JArr by (fastforce simp: list_all_iff unsafe_runes_def)
  then show ?case by (auto simp: unsafe_runes_def)
next
  case (JObj ms)
  let ?f = "\<lambda>(k, v). quote_text k @ 58 # Marshal v"
  have "set (?f m) \<inter> unsafe_runes = {}" if "m \<in> set ms" for m
  proof -
    obtain k v where m: "m = (k, v)" by force
    with that JObj have "set (Marshal v) \<inter> unsafe_runes = {}" by (fastforce simp: list_all_iff)
    with quote_text_safe [of k] show ?thesis by (auto simp: m unsafe_runes_def)
  qed
  then have "set (Join (map ?f ms) [44]) \<inter> unsafe_runes = {}"
    using set_Join [of "map ?f ms" "[44]"] by (fastforce simp: unsafe_runes_def)
  then show ?case by (auto simp: unsafe_runes_def)
qed (use quote_text_safe lex_number_safe in \<open>auto simp: unsafe_runes_def runes_of_def\<close>)

section \<open>Values that read back\<close>

definition small_json :: "nat \<Rightarrow> json \<Rightarrow> bool" where
  "small_json d v \<longleftrightarrow> json_ok v \<and> json_depth v \<le> d"

lemma fold_max_le: "fold max ns (m :: nat) \<le> d \<longleftrightarrow> m \<le> d \<and> list_all (\<lambda>n. n \<le> d) ns"
  by (induction ns arbitrary: m) auto

lemma small_leaf [simp]:
  "small_json d JNull" "small_json d (JBool b)" "small_json d (JStr s)" "small_json d (json_float v)" "small_json d (json_int n)"
  using json_float_ok [of v] json_int_ok [of n] by (simp_all add: small_json_def) (simp_all add: json_float_def json_int_def)

lemma small_object: "list_all (\<lambda>(k, v). small_json d v) ms \<Longrightarrow> small_json (Suc d) (JObj ms)"
  by (auto simp: small_json_def fold_max_le list_all_iff)

lemma small_array: "list_all (small_json d) vs \<Longrightarrow> small_json (Suc d) (JArr vs)"
  by (auto simp: small_json_def fold_max_le list_all_iff)

lemma small_reads: "small_json 10000 v \<Longrightarrow> Unmarshal (Marshal v) = Some v"
  by (simp add: small_json_def json_roundtrip)

lemma small_mono: "small_json d v \<Longrightarrow> d \<le> e \<Longrightarrow> small_json e v"
  by (simp add: small_json_def)

end
