(* ===== verification/Eventstream.thy ===== *)
theory Eventstream
  imports Metrics Jsonnum
begin

text \<open>
  The turn events of \<open>internal/metrics\<close> on the wire: the JSON of a record (\<open>m.go\<close>) and \<open>ServeHTTP\<close> of \<open>hub.go\<close>, which
  subscribes, writes each record it receives as a server-sent event, and unsubscribes when the client is gone. The
  rest of the hub's operations interleave with it. An instant is nanoseconds since 1970; the offset of the local time zone at
  an instant is a parameter. A reader of the stream is written from the standard of server-sent events.
\<close>

section \<open>Events\<close>

text \<open>\<open>Format("15:04:05")\<close>: the hour, minute and second of the day, with two digits each; \<open>zone\<close> is in seconds east of UTC.\<close>

definition two_digits :: "int \<Rightarrow> runes" where
  "two_digits n = [48 + nat (n div 10), 48 + nat (n mod 10)]"

definition Format_clock :: "(instant \<Rightarrow> int) \<Rightarrow> instant \<Rightarrow> runes" where
  "Format_clock zone t =
     (let s = (t div 1000000000 + zone t) mod 86400
      in two_digits (s div 3600) @ runes_of '':'' @ two_digits (s div 60 mod 60) @ runes_of '':'' @ two_digits (s mod 60))"

definition turn_json :: "(instant \<Rightarrow> int) \<Rightarrow> TurnRecord \<Rightarrow> json" where
  "turn_json zone r = JObj (map (apfst runes_of)
     [(''session'', JStr (text_of (rec_Session r))), (''time'', JStr (Format_clock zone (rec_Time r))), (''prompt'', JStr (rec_Prompt r)),
     (''reply'', JStr (rec_Reply r)), (''cancelled'', JBool (rec_Cancelled r)), (''wallMs'', json_float (rec_WallMs r)),
      (''asrFinalMs'', json_float (rec_ASRFinalMs r)), (''llmStartMs'', json_float (rec_LLMStartMs r)),
      (''llmFirstTokenMs'', json_float (rec_LLMFirstTokenMs r)), (''llmLastTokenMs'', json_float (rec_LLMLastTokenMs r)),
      (''ttsStartMs'', json_float (rec_TTSStartMs r)), (''ttsFirstFrameMs'', json_float (rec_TTSFirstFrameMs r)),
      (''ttsLastFrameMs'', json_float (rec_TTSLastFrameMs r)), (''firstResponseMs'', json_float (rec_FirstResponseMs r)),
      (''kernelMs'', json_float (rec_KernelMs r)), (''bargeInMs'', json_float (rec_BargeInMs r)), (''serialMs'', json_float (rec_SerialMs r))])"

definition sse_frame :: "runes \<Rightarrow> runes" where
  "sse_frame b = runes_of ''data: '' @ b @ [10, 10]"

text \<open>Another call on the hub; a record taken from the channel, and whether its write succeeds; the client gone.\<close>

datatype 'b serve_event = Elsewhere "'b hub_op" | Deliver bool | ClientGone

fun serve_loop :: "nat \<Rightarrow> 'b serve_event list \<Rightarrow> 'b Hub \<Rightarrow> ('b Hub \<times> 'b list) option" where
  "serve_loop c [] h = Some (h, [])"
| "serve_loop c (Elsewhere op # evs) h = Option.bind (hub_run [op] h) (serve_loop c evs)"
| "serve_loop c (Deliver ok # evs) h =
     (case hub_subs h c of
        Some (b # q) \<Rightarrow>
          if ok then map_option (apsnd ((#) b)) (serve_loop c evs (Hub_receive c h))
          else Some (Hub_unsubscribe c (Hub_receive c h), [])
      | _ \<Rightarrow> None)"
| "serve_loop c (ClientGone # evs) h = Some (Hub_unsubscribe c h, [])"

text \<open>The records written; \<open>flusher\<close> tells whether the response can be streamed. The outer \<open>None\<close> is a step that cannot happen.\<close>

definition Hub_ServeHTTP :: "bool \<Rightarrow> nat \<Rightarrow> 'b serve_event list \<Rightarrow> 'b Hub \<Rightarrow> ('b Hub \<times> 'b list) option" where
  "Hub_ServeHTTP flusher c evs h = (if \<not> flusher then Some (h, []) else Option.bind (Hub_subscribe c h) (serve_loop c evs))"

text \<open>Another call that is not of this client.\<close>

fun foreign :: "nat \<Rightarrow> 'b serve_event \<Rightarrow> bool" where
  "foreign c (Elsewhere (HubSubscribe k)) \<longleftrightarrow> k \<noteq> c"
| "foreign c (Elsewhere (HubUnsubscribe k)) \<longleftrightarrow> k \<noteq> c"
| "foreign c (Elsewhere (HubReceive k)) \<longleftrightarrow> k \<noteq> c"
| "foreign c _ \<longleftrightarrow> True"

fun published_in :: "'b serve_event list \<Rightarrow> 'b list" where
  "published_in (Elsewhere (HubPublish b) # evs) = b # published_in evs"
| "published_in (_ # evs) = published_in evs"
| "published_in [] = []"

lemma subseq_skip: "subseq ws (q @ ps) \<Longrightarrow> subseq ws (q @ b # ps)"
proof -
  have "subseq (q @ ps) (q @ b # ps)" by (rule list_emb_append_mono) auto
  then show "subseq ws (q @ ps) \<Longrightarrow> subseq ws (q @ b # ps)" by (rule subseq_order.order_trans [rotated])
qed

lemma serve_loop_subseq:
  "serve_loop c evs h = Some (h', ws) \<Longrightarrow> list_all (foreign c) evs \<Longrightarrow> hub_subs h c = Some q \<Longrightarrow> subseq ws (q @ published_in evs)"
proof (induction evs arbitrary: h q ws)
  case (Cons ev evs)
  show ?case
  proof (cases ev)
    case (Elsewhere op)
    with Cons.prems obtain h1 where h1: "hub_run [op] h = Some h1" "serve_loop c evs h1 = Some (h', ws)"
      by (auto simp: bind_eq_Some_conv)
    show ?thesis
    proof (cases op)
      case (HubPublish b)
      with h1 Cons.prems(3) have "hub_subs h1 c = Some (fst (chan_offer subCap b q))" by (auto simp: Hub_Publish_def Let_def)
      from Cons.IH [OF h1(2) _ this] Cons.prems(2) have "subseq ws (fst (chan_offer subCap b q) @ published_in evs)" by simp
      then show ?thesis
        using subseq_skip [of ws q "published_in evs" b] by (auto simp: Elsewhere HubPublish chan_offer_def split: if_splits)
    next
      case (HubSubscribe k)
      with h1 Cons.prems Elsewhere have "hub_subs h1 c = Some q" by (auto simp: Hub_subscribe_def bind_eq_Some_conv)
      from Cons.IH [OF h1(2) _ this] Cons.prems(2) show ?thesis by (simp add: Elsewhere HubSubscribe)
    next
      case (HubUnsubscribe k)
      with h1 Cons.prems Elsewhere have "hub_subs h1 c = Some q" by (auto simp: Hub_unsubscribe_def)
      from Cons.IH [OF h1(2) _ this] Cons.prems(2) show ?thesis by (simp add: Elsewhere HubUnsubscribe)
    next
      case (HubReceive k)
      with h1 Cons.prems Elsewhere have "hub_subs h1 c = Some q" by (auto simp: Hub_receive_def)
      from Cons.IH [OF h1(2) _ this] Cons.prems(2) show ?thesis by (simp add: Elsewhere HubReceive)
    qed
  next
    case (Deliver ok)
    with Cons.prems obtain b q1 where q: "q = b # q1" by (cases q) auto
    show ?thesis
    proof (cases ok)
      case True
      with Cons.prems Deliver q obtain ws1 where w: "serve_loop c evs (Hub_receive c h) = Some (h', ws1)" "ws = b # ws1" by auto
      have "hub_subs (Hub_receive c h) c = Some q1" using Cons.prems(3) q by (simp add: Hub_receive_def)
      from Cons.IH [OF w(1) _ this] Cons.prems(2) show ?thesis by (simp add: Deliver q w(2))
    qed (use Cons.prems Deliver q in auto)
  next
    case ClientGone
    with Cons.prems show ?thesis by simp
  qed
qed simp

section \<open>Reading the stream\<close>

text \<open>The complete lines of a stream: a line ends at LF, CR or CRLF; what follows the last end is not a line.\<close>

definition skip_LF :: "runes \<Rightarrow> runes" where
  "skip_LF s = (case s of [] \<Rightarrow> [] | c # cs \<Rightarrow> if c = 10 then cs else s)"

lemma skip_LF_length: "length (skip_LF s) \<le> length s"
  by (simp add: skip_LF_def split: list.split)

function event_lines :: "runes \<Rightarrow> runes \<Rightarrow> runes list" where
  "event_lines line [] = []"
| "event_lines line (c # cs) =
     (if c = 10 then line # event_lines [] cs
      else if c = 13 then line # event_lines [] (skip_LF cs) else event_lines (line @ [c]) cs)"
  by pat_completeness auto

termination by (relation "measure (\<lambda>(line, s). length s)") (simp_all add: le_imp_less_Suc skip_LF_length)

text \<open>The value of a \<open>data\<close> field, without one leading space; another field, or a comment, has none.\<close>

definition data_field :: "runes \<Rightarrow> runes option" where
  "data_field l =
     (if l = runes_of ''data'' then Some []
      else map_option (\<lambda>v. case v of [] \<Rightarrow> [] | c # cs \<Rightarrow> if c = 32 then cs else v) (CutPrefix (runes_of ''data:'') l))"

text \<open>
  The events a client dispatches: an empty line dispatches the data collected since the last one, its lines joined, and
  nothing when there are none; data that no empty line follows is never dispatched.
\<close>

fun dispatch :: "runes list \<Rightarrow> runes list \<Rightarrow> runes list" where
  "dispatch got [] = []"
| "dispatch got (l # ls) =
     (if l = [] then (if got = [] then dispatch [] ls else Join got [10] # dispatch [] ls)
      else case data_field l of Some v \<Rightarrow> dispatch (got @ [v]) ls | None \<Rightarrow> dispatch got ls)"

definition read_events :: "runes \<Rightarrow> json option list" where
  "read_events s = map Unmarshal (dispatch [] (event_lines [] s))"

lemma event_lines_field: "10 \<notin> set l \<Longrightarrow> 13 \<notin> set l \<Longrightarrow> event_lines line (l @ 10 # s) = (line @ l) # event_lines [] s"
  by (induction l arbitrary: line) auto

lemma read_sse_frame:
  assumes "10 \<notin> set m" "13 \<notin> set m"
  shows "read_events (sse_frame m @ s) = Unmarshal m # read_events s"
proof -
  have "event_lines [] (sse_frame m @ s) = (runes_of ''data: '' @ m) # [] # event_lines [] s"
    using event_lines_field [of "runes_of ''data: '' @ m" "[]" "10 # s"] assms by (simp add: sse_frame_def runes_of_def)
  moreover have "data_field (runes_of ''data: '' @ m) = Some m" by (simp add: data_field_def CutPrefix_def runes_of_def)
  moreover have "runes_of ''data: '' @ m \<noteq> []" by (simp add: runes_of_def)
  ultimately show ?thesis by (simp add: read_events_def)
qed

text \<open>
  C38: The event stream: when the hub serves a client, what is written is read by a client of server-sent events, which dispatches
  an event only at the empty line that ends it, as one event per record with the record's JSON, the wall-clock text of its
  own end in it, and the records are, in order, some of those the hub remembered when the client came and those published
  since; none is invented, repeated, joined with another or split over lines, whatever the texts of the turns hold.
\<close>

theorem event_stream_reads_back:
  assumes "Hub_ServeHTTP True c evs h = Some (h', recs)" "list_all (foreign c) evs" "length (hub_hist h) \<le> hubHistory"
  shows "read_events (concat (map (\<lambda>r. sse_frame (Marshal (turn_json zone r))) recs)) = map (\<lambda>r. Some (turn_json zone r)) recs \<and>
    subseq recs (hub_hist h @ published_in evs)"
proof -
  have ok: "small_json 10000 (turn_json zone r)" for r
    unfolding turn_json_def by (rule small_mono [OF small_object [of 0]]) simp_all
  have l: "10 \<notin> set (Marshal (turn_json zone r))" "13 \<notin> set (Marshal (turn_json zone r))" for r
    using Marshal_safe [of "turn_json zone r"] ok [of r] by (auto simp: small_json_def unsafe_runes_def)
  have "read_events (concat (map (\<lambda>r. sse_frame (Marshal (turn_json zone r))) recs)) = map (\<lambda>r. Some (turn_json zone r)) recs"
  proof (induction recs)
    case (Cons r recs)
    then show ?case using small_reads [OF ok [of r]] by (simp add: read_sse_frame [OF l])
  qed (simp add: read_events_def)
  moreover have "Hub_subscribe c h = Some (h\<lparr>hub_subs := (hub_subs h)(c \<mapsto> hub_hist h)\<rparr>)"
    using send_all_room [of "[]" "hub_hist h" subCap] assms(3) by (simp add: Hub_subscribe_def subCap_def hubHistory_def)
  then have "subseq recs (hub_hist h @ published_in evs)"
    using assms(1,2) serve_loop_subseq [of c evs _ h' recs] by (simp add: Hub_ServeHTTP_def)
  ultimately show ?thesis ..
qed

definition demo_record :: "instant \<Rightarrow> TurnRecord" where
  "demo_record ended = toRecord ''s1'' ((init_stats \<lparr>ut_text = [10, 34], ut_endAt = 0, ut_finalAt = 5\<rparr> 7)\<lparr>ts_EndedAt := ended\<rparr>)"

text \<open>A record of 00:00:09 UTC is remembered and one of 23:59:59 published; the client, an hour east, reads both.\<close>

theorem event_stream_reads_back_witness:
  "\<exists>h h'. hub_hist h = [demo_record (9 * Second)] \<and>
     Hub_ServeHTTP True 1 [Elsewhere (HubPublish (demo_record (86399 * Second))), Deliver True, Deliver True, ClientGone] h =
       Some (h', [demo_record (9 * Second), demo_record (86399 * Second)]) \<and>
     read_events (concat (map (\<lambda>r. sse_frame (Marshal (turn_json (\<lambda>_. 3600) r))) [demo_record (9 * Second), demo_record (86399 * Second)])) =
       map (\<lambda>r. Some (turn_json (\<lambda>_. 3600) r)) [demo_record (9 * Second), demo_record (86399 * Second)] \<and>
     Format_clock (\<lambda>_. 3600) (rec_Time (demo_record (9 * Second))) = runes_of ''01:00:09'' \<and>
     Format_clock (\<lambda>_. 3600) (rec_Time (demo_record (86399 * Second))) = runes_of ''00:59:59''"
proof -
  let ?a = "demo_record (9 * Second)" and ?b = "demo_record (86399 * Second)"
  let ?h = "Hub_Publish ?a (NewHub :: TurnRecord Hub)"
  have hist: "hub_hist ?h = [?a]" by (simp add: Hub_Publish_def NewHub_def Let_def hubHistory_def)
  obtain h' where h: "Hub_ServeHTTP True 1 [Elsewhere (HubPublish ?b), Deliver True, Deliver True, ClientGone] ?h = Some (h', [?a, ?b])"
    by (simp add: Hub_ServeHTTP_def Hub_subscribe_def Hub_receive_def NewHub_def Hub_Publish_def Let_def chan_offer_def subCap_def hubHistory_def)
  have "list_all (foreign 1) [Elsewhere (HubPublish ?b), Deliver True, Deliver True, ClientGone]" "length (hub_hist ?h) \<le> hubHistory"
    unfolding hist by (simp_all add: hubHistory_def)
  from event_stream_reads_back [OF h this, of "\<lambda>_. 3600"] h hist show ?thesis
    by (intro exI [of _ ?h] exI [of _ h'])
      (simp add: Format_clock_def two_digits_def demo_record_def toRecord_def runes_of_def Let_def)
qed

end
