(* ===== verification/Reportfiles.thy ===== *)
theory Reportfiles
  imports Loadreport Jsonnum Dotenv
begin

text \<open>
  What the load generator writes: the flat table, the summary, the JSON and the page of \<open>internal/loadgen/report.go\<close> and
  \<open>html.go\<close>, the files, and the flags and exit codes of \<open>cmd/loadgen/main.go\<close>. A float is a real number or positive
  infinity. The page's template, a constant of the source, is a parameter; instants are the texts \<open>encoding/json\<close> gives them.
\<close>

section \<open>Formatting\<close>

text \<open>\<open>%.pf\<close>: the decimal with \<open>p\<close> places nearest to the value, ties to even, the sign kept for a negative that rounds to zero.\<close>

definition half_even :: "real \<Rightarrow> int" where
  "half_even x =
     (let k = \<lfloor>x\<rfloor>; r = x - of_int k in if r < 1 / 2 then k else if r > 1 / 2 then k + 1 else if even k then k else k + 1)"

definition fixed :: "nat \<Rightarrow> real \<Rightarrow> string" where
  "fixed p v =
     (let ds = nat_digits (nat (half_even (\<bar>v\<bar> * 10 ^ p))); ds1 = replicate (p + 1 - length ds) CHR ''0'' @ ds; n = length ds1 - p in
      (if v < 0 then ''-'' else []) @ take n ds1 @ (if p = 0 then [] else CHR ''.'' # drop n ds1))"

fun fixed_bound :: "nat \<Rightarrow> bound \<Rightarrow> string" where
  "fixed_bound p (Fin v) = fixed p v"
| "fixed_bound p PInf = ''+Inf''"

definition decimal :: "int \<Rightarrow> string" where
  "decimal n = (if n < 0 then ''-'' else []) @ nat_digits (nat \<bar>n\<bar>)"

definition d_text :: "int \<Rightarrow> runes" where "d_text n = runes_of (decimal n)"
definition f_text :: "nat \<Rightarrow> bound \<Rightarrow> runes" where "f_text p v = runes_of (fixed_bound p v)"

definition pad_left :: "nat \<Rightarrow> string \<Rightarrow> string" where "pad_left w s = replicate (w - length s) CHR '' '' @ s"
definition pad_right :: "nat \<Rightarrow> string \<Rightarrow> string" where "pad_right w s = s @ replicate (w - length s) CHR '' ''"

text \<open>\<open>strings.Split\<close> by one byte, and fields with that byte between them.\<close>

fun Split :: "char \<Rightarrow> string \<Rightarrow> string list" where
  "Split sep [] = [[]]"
| "Split sep (c # cs) = (if c = sep then [] # Split sep cs else (case Split sep cs of f # fs \<Rightarrow> (c # f) # fs | [] \<Rightarrow> [[c]]))"

fun separated :: "char \<Rightarrow> string list \<Rightarrow> string" where
  "separated sep [] = []"
| "separated sep [f] = f"
| "separated sep (f # fs) = f @ sep # separated sep fs"

section \<open>The report\<close>

fun reason_text :: "reason \<Rightarrow> runes" where
  "reason_text NoData =
      [26080, 25968, 25454]"
| "reason_text (ErrorsAt n e) =
      [24182, 21457] @ runes_of '' '' @
      d_text n @
      runes_of '' '' @ [26102, 20986, 29616] @ runes_of '' '' @
      d_text e @
      runes_of '' '' @ [20010, 36229, 26102] @ runes_of ''/'' @ [36830, 25509, 38169, 35823, 65288, 36229, 20986] @ runes_of '' TurnTimeout '' @ [25130, 27490, 65289]"
| "reason_text (CpuAt n u l b) =
      [24182, 21457] @ runes_of '' '' @
      d_text n @
      runes_of '' '' @ [26102] @ runes_of '' CPU '' @ [21033, 29992, 29575] @ runes_of '' '' @
      f_text 0 (Fin u) @
      runes_of ''%'' @ [65292, 24310, 36831] @ runes_of '' p99 '' @
      f_text 0 l @
      runes_of ''ms'' @ [65288, 22522, 32447] @ runes_of '' '' @
      f_text 0 b @
      runes_of ''ms'' @ [65289]"
| "reason_text (DropsAt n d) =
      [24182, 21457] @ runes_of '' '' @
      d_text n @
      runes_of '' '' @ [26102, 20837, 21475, 20002, 24103, 29575] @ runes_of '' '' @
      f_text 2 (Fin d) @
      runes_of ''% '' @ [8212, 8212] @ runes_of '' '' @ [32972, 21387, 35774, 35745, 24615, 21368, 36733, 20808, 20110, 20854, 23427, 36164, 28304, 32791, 23613]"
| "reason_text (SchedulingAt n l b u) =
      [24182, 21457] @ runes_of '' '' @
      d_text n @
      runes_of '' '' @ [26102, 24310, 36831] @ runes_of '' p99 '' @
      f_text 0 l @
      runes_of ''ms'' @ [65288, 22522, 32447] @ runes_of '' '' @
      f_text 0 b @
      runes_of ''ms'' @ [65289, 32780] @ runes_of '' CPU '' @ [20165] @ runes_of '' '' @
      f_text 0 (Fin u) @
      runes_of ''% '' @ [8212, 8212] @ runes_of '' '' @ [25351, 21521, 35843, 24230] @ runes_of ''/'' @ [31995, 32479, 35843, 29992, 31454, 20105, 65288, 21547, 21516, 26426] @ runes_of '' loadgen '' @ [20105, 29992, 65289]"
| "reason_text (NoKnee n d) =
      [33267, 24182, 21457] @ runes_of '' '' @
      d_text n @
      runes_of '' '' @ [26410, 35265, 25296, 28857, 65306, 24310, 36831, 24179, 31283, 12289, 20002, 24103, 29575] @ runes_of '' '' @
      f_text 2 (Fin d) @
      runes_of ''%'' @ [12289, 26080, 38169, 35823]"
record Report =
  rp_Config :: runes
  rp_StartedAt :: runes
  rp_FinishedAt :: runes
  rp_Records :: "StepRecord list"
  rp_Analysis :: Analysis

text \<open>A row of the flat table: each cell is a whole number or a float with its number of places.\<close>

datatype cell = Whole int | Places nat bound

fun cell_text :: "cell \<Rightarrow> string" where
  "cell_text (Whole n) = decimal n"
| "cell_text (Places p v) = fixed_bound p v"

definition csv_cells :: "StepRecord \<Rightarrow> cell list" where
  "csv_cells x =
     [Whole (sr_Concurrency x), Whole (sr_Turns x), Whole (sr_Errors x), Places 1 (Fin (sr_E2EFirstP50 x)),
      Places 1 (Fin (sr_E2EFirstP95 x)), Places 1 (Fin (sr_E2EFirstP99 x)), Places 1 (Fin (sr_E2EBargeP50 x)),
      Places 1 (Fin (sr_E2EBargeP99 x)), Places 1 (sr_SrvFirstP50 x), Places 1 (sr_SrvFirstP99 x), Places 1 (sr_SrvKernelP99 x),
      Places 1 (sr_SrvBargeP99 x), Places 2 (Fin (sr_ServerTurnRate x)), Places 0 (Fin (sr_UplinkFPS x)),
      Places 5 (Fin (sr_IngressDropRate x)), Places 2 (Fin (sr_EgressDropPerS x)), Places 3 (Fin (sr_CPUUtil x)),
      Places 0 (Fin (sr_Goroutines x)), Places 1 (Fin (sr_HeapMB x)), Places 0 (Fin (sr_SessionsActive x))]"

definition csv_header :: string where
  "csv_header = ''concurrency,turns,errors,e2e_first_p50_ms,e2e_first_p95_ms,e2e_first_p99_ms,'' @
     ''e2e_barge_p50_ms,e2e_barge_p99_ms,srv_first_p50_ms,srv_first_p99_ms,srv_kernel_p99_ms,'' @
     ''srv_barge_p99_ms,turn_rate,uplink_fps,ingress_drop_rate,egress_drop_per_s,cpu_util,'' @
     ''goroutines,heap_mb,sessions_active''"

definition newline :: char where "newline = CHR 0x0A"

definition CSV :: "Report \<Rightarrow> string" where
  "CSV r = csv_header @ [newline] @
     concat (map (\<lambda>x. separated CHR '','' (map cell_text (csv_cells x)) @ [newline]) (rp_Records r))"

definition ms_cell :: "bound \<Rightarrow> string" where
  "ms_cell v = (if v < Fin 0 then ''-'' else fixed_bound 0 v @ ''ms'')"

definition pct_cell :: "real \<Rightarrow> string" where
  "pct_cell v = (if v < 0 then ''-'' else fixed 1 (v * 100))"

definition table_row :: "StepRecord \<Rightarrow> string" where
  "table_row x = separated CHR '' ''
     [pad_right 6 (decimal (sr_Concurrency x)), pad_right 6 (decimal (sr_Turns x)), pad_right 5 (decimal (sr_Errors x)),
      pad_left 9 (ms_cell (Fin (sr_E2EFirstP50 x))), pad_left 9 (ms_cell (Fin (sr_E2EFirstP99 x))), pad_left 9 (ms_cell (sr_SrvFirstP99 x)),
      pad_left 9 (ms_cell (Fin (sr_E2EBargeP99 x))), pad_left 8 (pct_cell (sr_IngressDropRate x)), pad_left 7 (pct_cell (sr_CPUUtil x)),
      pad_left 6 (fixed 0 (sr_Goroutines x))] @ [newline]"

definition table_head :: string where
  "table_head = separated CHR '' ''
     [pad_right 6 ''conc'', pad_right 6 ''turns'', pad_right 5 ''errs'', pad_left 9 ''e2e_p50'', pad_left 9 ''e2e_p99'', pad_left 9 ''srv_p99'',
      pad_left 9 ''barge_p99'', pad_left 8 ''drop%'', pad_left 7 ''cpu%'', pad_left 6 ''goro''] @ [newline]"

definition Table :: "Report \<Rightarrow> runes" where
  "Table r =
     runes_of (table_head @ concat (map table_row (rp_Records r)) @ [newline]) @ [25296, 28857] @ runes_of '': '' @
     (if an_KneeConcurrency (rp_Analysis r) > 0
      then [24182, 21457] @ runes_of '' '' @ d_text (an_KneeConcurrency (rp_Analysis r)) @ [65288, 22681] @ runes_of '': '' @
        runes_of (an_Wall (rp_Analysis r)) @ [65289, 10]
      else [26410, 36798, 10]) @ reason_text (an_Reason (rp_Analysis r)) @ [10]"

subsection \<open>JSON\<close>

text \<open>\<open>encoding/json\<close> refuses infinity.\<close>

fun json_bound :: "bound \<Rightarrow> json option" where
  "json_bound (Fin v) = Some (json_float v)"
| "json_bound PInf = None"

fun json_members :: "(string \<times> json option) list \<Rightarrow> (runes \<times> json) list option" where
  "json_members [] = Some []"
| "json_members ((k, v) # ms) = Option.bind v (\<lambda>w. map_option ((#) (runes_of k, w)) (json_members ms))"

definition record_json :: "StepRecord \<Rightarrow> json option" where
  "record_json x = map_option JObj (json_members
     [(''concurrency'', Some (json_int (sr_Concurrency x))), (''liveWorkers'', Some (json_int (sr_LiveWorkers x))),
      (''durationS'', Some (json_float (sr_DurationS x))), (''turns'', Some (json_int (sr_Turns x))), (''errors'', Some (json_int (sr_Errors x))),
      (''e2eFirstP50'', Some (json_float (sr_E2EFirstP50 x))), (''e2eFirstP95'', Some (json_float (sr_E2EFirstP95 x))),
      (''e2eFirstP99'', Some (json_float (sr_E2EFirstP99 x))), (''e2eBargeP50'', Some (json_float (sr_E2EBargeP50 x))),
      (''e2eBargeP99'', Some (json_float (sr_E2EBargeP99 x))), (''srvFirstP50'', json_bound (sr_SrvFirstP50 x)),
      (''srvFirstP99'', json_bound (sr_SrvFirstP99 x)), (''srvKernelP99'', json_bound (sr_SrvKernelP99 x)),
      (''srvBargeP99'', json_bound (sr_SrvBargeP99 x)), (''serverTurnRate'', Some (json_float (sr_ServerTurnRate x))),
      (''uplinkFPS'', Some (json_float (sr_UplinkFPS x))), (''ingressDropRate'', Some (json_float (sr_IngressDropRate x))),
      (''egressDropPerS'', Some (json_float (sr_EgressDropPerS x))), (''cpuUtil'', Some (json_float (sr_CPUUtil x))),
      (''goroutines'', Some (json_float (sr_Goroutines x))), (''heapMB'', Some (json_float (sr_HeapMB x))),
      (''sessionsActive'', Some (json_float (sr_SessionsActive x)))])"

definition analysis_json :: "Analysis \<Rightarrow> json" where
  "analysis_json a = JObj [(runes_of ''kneeConcurrency'', json_int (an_KneeConcurrency a)), (runes_of ''wall'', JStr (runes_of (an_Wall a))),
     (runes_of ''reason'', JStr (reason_text (an_Reason a)))]"

text \<open>A nil slice of records prints as \<open>null\<close>.\<close>

definition records_json :: "StepRecord list \<Rightarrow> json option" where
  "records_json xs = (if xs = [] then Some JNull else map_option JArr (those (map record_json xs)))"

definition report_json :: "Report \<Rightarrow> json option" where
  "report_json r = map_option JObj (json_members
     [(''config'', Some (JStr (rp_Config r))), (''startedAt'', Some (JStr (rp_StartedAt r))), (''finishedAt'', Some (JStr (rp_FinishedAt r))),
      (''records'', records_json (rp_Records r)), (''analysis'', Some (analysis_json (rp_Analysis r)))])"

text \<open>\<open>json.MarshalIndent\<close> with two spaces a level.\<close>

fun MarshalIndent :: "nat \<Rightarrow> json \<Rightarrow> runes" where
  "MarshalIndent d (JArr vs) = (if vs = [] then [91, 93] else
     91 # Join (map (\<lambda>v. 10 # replicate (2 * Suc d) 32 @ MarshalIndent (Suc d) v) vs) [44] @ 10 # replicate (2 * d) 32 @ [93])"
| "MarshalIndent d (JObj ms) = (if ms = [] then [123, 125] else
     123 # Join (map (\<lambda>(k, v). 10 # replicate (2 * Suc d) 32 @ quote_text k @ 58 # 32 # MarshalIndent (Suc d) v) ms) [44] @
       10 # replicate (2 * d) 32 @ [125])"
| "MarshalIndent d v = Marshal v"

subsection \<open>The page and the files\<close>

text \<open>\<open>strings.Replace\<close> of the first occurrence.\<close>

fun Replace1 :: "runes \<Rightarrow> runes \<Rightarrow> runes \<Rightarrow> runes" where
  "Replace1 old new [] = (if old = [] then new else [])"
| "Replace1 old new (c # cs) = (if prefix old (c # cs) then new @ drop (length old) (c # cs) else c # Replace1 old new cs)"

definition report_marker :: runes where "report_marker = runes_of ''__REPORT_JSON__''"

definition HTML :: "runes \<Rightarrow> Report \<Rightarrow> runes option" where
  "HTML tmpl r = map_option (\<lambda>v. Replace1 report_marker (Marshal v) tmpl) (report_json r)"

datatype write_error = MkdirFailed | WriteFailed string | MarshalFailed

text \<open>The files written, in order; \<open>io\<close> tells which operations of the file system succeed.\<close>

definition WriteFiles :: "(string \<Rightarrow> bool) \<Rightarrow> runes \<Rightarrow> Report \<Rightarrow> (string \<times> runes) list \<times> write_error option" where
  "WriteFiles io tmpl r =
     (if \<not> io [] then ([], Some MkdirFailed)
      else if \<not> io ''capacity.csv'' then ([], Some (WriteFailed ''capacity.csv''))
      else let f1 = (''capacity.csv'', runes_of (CSV r)) in
        case report_json r of
          None \<Rightarrow> ([f1], Some MarshalFailed)
        | Some v \<Rightarrow>
            if \<not> io ''capacity.json'' then ([f1], Some (WriteFailed ''capacity.json''))
            else let f2 = (''capacity.json'', MarshalIndent 0 v) in
              case HTML tmpl r of
                None \<Rightarrow> ([f1, f2], Some MarshalFailed)
              | Some page \<Rightarrow>
                  if \<not> io ''capacity.html'' then ([f1, f2], Some (WriteFailed ''capacity.html''))
                  else ([f1, f2, (''capacity.html'', page)], None))"

section \<open>The command\<close>

fun parse_entries :: "string list \<Rightarrow> int list option" where
  "parse_entries [] = Some []"
| "parse_entries (p # ps) =
     (case Atoi (TrimSpace p) of None \<Rightarrow> None | Some n \<Rightarrow> if n \<le> 0 then None else map_option ((#) n) (parse_entries ps))"

definition parseSteps :: "string \<Rightarrow> int list option" where
  "parseSteps s = parse_entries (Split CHR '','' s)"

text \<open>What the command prints, the files it writes and its exit code: \<open>run\<close> gives the report, if any, and whether an error came with it.\<close>

definition loadgen_main :: "string \<Rightarrow> (int list \<Rightarrow> Report option \<times> bool) \<Rightarrow> bool \<Rightarrow> string \<Rightarrow> (string \<Rightarrow> bool) \<Rightarrow> runes \<Rightarrow>
    runes list \<times> (string \<times> runes) list \<times> nat" where
  "loadgen_main steps run cancelled out io tmpl =
     (case parseSteps steps of
        None \<Rightarrow> ([], [], 2)
      | Some ns \<Rightarrow>
          let (rep, err) = run ns;
              exit = (if err \<and> \<not> cancelled then 1 else 0) in
          (case rep of
             None \<Rightarrow> ([], [], exit)
           | Some r \<Rightarrow>
               if rp_Records r = [] then ([], [], exit)
               else if out = [] then ([Table r], [], exit)
               else (case WriteFiles io tmpl r of
                   (files, Some e) \<Rightarrow> ([Table r], files, 1)
                 | (files, None) \<Rightarrow> ([Table r], files, exit))))"

section \<open>Numbers read back\<close>

lemma half_even_near: "\<bar>of_int (half_even x) - x\<bar> \<le> 1 / 2"
proof -
  have "0 \<le> x - of_int \<lfloor>x\<rfloor>" "x - of_int \<lfloor>x\<rfloor> < 1" by linarith+
  then show ?thesis by (auto simp: half_even_def Let_def)
qed

lemma half_even_nonneg: "0 \<le> x \<Longrightarrow> 0 \<le> half_even x"
  by (auto simp: half_even_def Let_def)

lemma fixed_read: "\<exists>x. ParseFloat (fixed p v) = Some x \<and> \<bar>x - v\<bar> * 10 ^ p \<le> 1 / 2"
proof -
  let ?k = "half_even (\<bar>v\<bar> * 10 ^ p)" and ?neg = "v < 0"
  define ds where "ds = nat_digits (nat ?k)"
  define ds1 where "ds1 = replicate (p + 1 - length ds) CHR ''0'' @ ds"
  define ip where "ip = take (length ds1 - p) ds1"
  define fp where "fp = drop (length ds1 - p) ds1"
  have len: "p < length ds1" by (auto simp: ds1_def)
  have "\<forall>c \<in> set (nat_digits m). is_digit c" for m using nat_digits_digits [of m] by (simp only: list_all_iff)
  then have dg: "list_all is_digit ds1" by (auto simp: ds1_def ds_def list_all_iff is_digit_def [of "CHR ''0''"])
  have ip: "list_all is_digit ip" "ip \<noteq> []" and fp: "list_all is_digit fp" "length fp = p"
    using dg len by (auto simp: ip_def fp_def list_all_iff dest: in_set_takeD in_set_dropD)
  have k: "0 \<le> ?k" by (rule half_even_nonneg) simp
  have "ip @ fp = ds1" by (simp add: ip_def fp_def)
  then have "decimal_value (ip @ fp) = nat ?k" by (simp add: ds1_def ds_def decimal_value_append)
  moreover have "fixed p v = (if ?neg then ''-'' else []) @ ip @ (if fp = [] then [] else CHR ''.'' # fp) @ []"
  proof -
    have "p = 0 \<longleftrightarrow> fp = []" using fp(2) by auto
    then show ?thesis
      unfolding fixed_def Let_def ds_def [symmetric] ds1_def [symmetric] ip_def [symmetric] fp_def [symmetric] by simp
  qed
  moreover have "parse_exponent [] = Some 0" by (simp add: parse_exponent_def)
  moreover have "real (nat ?k) = of_int ?k" using k by simp
  ultimately have r: "ParseFloat (fixed p v) = Some (if ?neg then - (of_int ?k / 10 ^ p) else of_int ?k / 10 ^ p)"
    using ParseFloat_text [OF ip fp(1), of "[]" 0 ?neg] by (simp only: fp(2) Let_def power_int_0_right mult_1_right)
  have n: "\<bar>of_int ?k - \<bar>v\<bar> * 10 ^ p\<bar> \<le> 1 / 2" by (rule half_even_near)
  have "\<bar>(if ?neg then - (of_int ?k / 10 ^ p) else of_int ?k / 10 ^ p) - v\<bar> = \<bar>of_int ?k / 10 ^ p - \<bar>v\<bar>\<bar>" by auto
  moreover have "\<bar>q / w - u\<bar> * w = \<bar>q - u * w\<bar>" if "0 < w" for q u w :: real
  proof -
    have "\<bar>q / w - u\<bar> * w = \<bar>(q / w - u) * w\<bar>" using that by (simp add: abs_mult)
    also have "(q / w - u) * w = q - u * w" using that by (simp add: left_diff_distrib)
    finally show ?thesis .
  qed
  ultimately have "\<bar>(if ?neg then - (of_int ?k / 10 ^ p) else of_int ?k / 10 ^ p) - v\<bar> * 10 ^ p = \<bar>of_int ?k - \<bar>v\<bar> * 10 ^ p\<bar>"
    by simp
  with r n show ?thesis by simp
qed

lemma decimal_read: "ParseFloat (decimal n) = Some (of_int n)"
proof -
  have "parse_exponent [] = Some 0" by (simp add: parse_exponent_def)
  from ParseFloat_text [of "nat_digits (nat \<bar>n\<bar>)" "[]" "[]" 0 "n < 0", OF _ _ _ this] show ?thesis
    by (cases "n < 0") (simp_all add: decimal_def Let_def)
qed

text \<open>What a cell shows: the whole number, or the float to within half a unit of its last place.\<close>

fun shows_cell :: "cell \<Rightarrow> string \<Rightarrow> bool" where
  "shows_cell (Whole n) s \<longleftrightarrow> ParseFloat s = Some (of_int n)"
| "shows_cell (Places p (Fin v)) s \<longleftrightarrow> (\<exists>x. ParseFloat s = Some x \<and> \<bar>x - v\<bar> * 10 ^ p \<le> 1 / 2)"
| "shows_cell (Places p PInf) s \<longleftrightarrow> s = ''+Inf''"

lemma cell_shown: "shows_cell c (cell_text c)"
proof (cases c)
  case (Places p v)
  then show ?thesis using fixed_read by (cases v) simp_all
qed (simp add: decimal_read)

lemma set_fixed: "set (fixed p v) \<subseteq> Collect is_digit \<union> {CHR ''.'', CHR ''-''}"
  using set_nat_digits [of "nat (half_even (\<bar>v\<bar> * 10 ^ p))"]
  by (auto simp: fixed_def Let_def is_digit_def dest!: in_set_takeD in_set_dropD)

lemma set_cell: "set (cell_text c) \<subseteq> Collect is_digit \<union> {CHR ''.'', CHR ''-'', CHR ''+'', CHR ''I'', CHR ''n'', CHR ''f''}"
proof (cases c)
  case (Whole n)
  with set_nat_digits [of "nat \<bar>n\<bar>"] show ?thesis by (auto simp: decimal_def)
next
  case (Places p v)
  with set_fixed [of p] show ?thesis by (cases v) auto
qed

lemma Split_plain: "sep \<notin> set f \<Longrightarrow> Split sep f = [f]"
  by (induction f) auto

lemma Split_field: "sep \<notin> set f \<Longrightarrow> Split sep (f @ sep # s) = f # Split sep s"
  by (induction f) auto

lemma Split_separated: "list_all (\<lambda>f. sep \<notin> set f) fs \<Longrightarrow> fs \<noteq> [] \<Longrightarrow> Split sep (separated sep fs) = fs"
  by (induction fs rule: separated.induct [of _ sep]) (auto simp: Split_plain Split_field)

lemma set_separated: "set (separated sep fs) \<subseteq> insert sep (\<Union> (set (map set fs)))"
  by (induction fs rule: separated.induct [of _ sep]) auto

lemma Split_lines: "list_all (\<lambda>f. sep \<notin> set f) fs \<Longrightarrow> Split sep (concat (map (\<lambda>f. f @ [sep]) fs)) = fs @ [[]]"
  by (induction fs) (auto simp: Split_field)

text \<open>The columns of the table.\<close>

definition csv_columns :: "string list" where
  "csv_columns = [''concurrency'', ''turns'', ''errors'', ''e2e_first_p50_ms'', ''e2e_first_p95_ms'', ''e2e_first_p99_ms'',
     ''e2e_barge_p50_ms'', ''e2e_barge_p99_ms'', ''srv_first_p50_ms'', ''srv_first_p99_ms'', ''srv_kernel_p99_ms'', ''srv_barge_p99_ms'',
     ''turn_rate'', ''uplink_fps'', ''ingress_drop_rate'', ''egress_drop_per_s'', ''cpu_util'', ''goroutines'', ''heap_mb'', ''sessions_active'']"

lemma csv_header_split: "Split CHR '','' csv_header = csv_columns" "newline \<notin> set csv_header"
  by (simp_all add: csv_header_def csv_columns_def newline_def)

definition csv_fields :: "StepRecord \<Rightarrow> string list" where
  "csv_fields x = map cell_text (csv_cells x)"

lemma csv_row: "Split CHR '','' (separated CHR '','' (csv_fields x)) = csv_fields x" "newline \<notin> set (separated CHR '','' (csv_fields x))"
proof -
  have c: "CHR '','' \<notin> set (cell_text c)" "newline \<notin> set (cell_text c)" for c
    using set_cell [of c] by (auto simp: is_digit_def newline_def)
  show "Split CHR '','' (separated CHR '','' (csv_fields x)) = csv_fields x"
  proof (rule Split_separated)
    show "list_all (\<lambda>f. CHR '','' \<notin> set f) (csv_fields x)" by (auto simp: csv_fields_def list_all_iff c)
    show "csv_fields x \<noteq> []" by (simp add: csv_fields_def csv_cells_def)
  qed
  show "newline \<notin> set (separated CHR '','' (csv_fields x))"
    using set_separated [of "CHR '',''" "csv_fields x"] c(2) by (auto simp: csv_fields_def newline_def)
qed

text \<open>
  The flat table reads back: split into lines and at its commas, it is the twenty column names, then one row of as many
  cells for each record in order, and an empty last line; every cell reads as its whole number or to within half a
  unit of the last place of its float, whatever the values are.
\<close>

theorem csv_reads_back:
  "map (Split CHR '','') (Split newline (CSV r)) = csv_columns # map csv_fields (rp_Records r) @ [[[]]] \<and>
   list_all (\<lambda>x. list_all2 shows_cell (csv_cells x) (csv_fields x) \<and> length (csv_fields x) = length csv_columns) (rp_Records r)"
proof -
  let ?rows = "map (\<lambda>x. separated CHR '','' (csv_fields x)) (rp_Records r)"
  have "CSV r = concat (map (\<lambda>f. f @ [newline]) (csv_header # ?rows))"
    by (simp add: CSV_def csv_fields_def comp_def)
  then have "Split newline (CSV r) = csv_header # ?rows @ [[]]"
    using Split_lines [of newline "csv_header # ?rows"] csv_header_split(2) csv_row(2) by (simp add: list_all_iff)
  then have "map (Split CHR '','') (Split newline (CSV r)) = csv_columns # map csv_fields (rp_Records r) @ [[[]]]"
    by (simp add: csv_header_split(1) csv_row(1) comp_def)
  moreover have "list_all2 shows_cell (csv_cells x) (csv_fields x)" for x
    by (simp add: csv_fields_def list_all2_conv_all_nth cell_shown)
  ultimately show ?thesis by (simp add: list_all_iff csv_fields_def csv_cells_def csv_columns_def)
qed

section \<open>The page and the files\<close>

lemma json_members_small:
  "json_members ms = Some ws \<Longrightarrow> list_all (\<lambda>(k, v). case v of Some w \<Rightarrow> small_json d w | None \<Rightarrow> True) ms \<Longrightarrow> small_json (Suc d) (JObj ws)"
proof (rule small_object)
  show "json_members ms = Some ws \<Longrightarrow> list_all (\<lambda>(k, v). case v of Some w \<Rightarrow> small_json d w | None \<Rightarrow> True) ms \<Longrightarrow>
      list_all (\<lambda>(k, v). small_json d v) ws"
    by (induction ms arbitrary: ws) (auto simp: bind_eq_Some_conv)
qed

lemma json_bound_small: "case json_bound b of Some w \<Rightarrow> small_json d w | None \<Rightarrow> True"
  by (cases b) simp_all

lemma record_json_small: "record_json x = Some v \<Longrightarrow> small_json 1 v"
  unfolding record_json_def map_option_eq_Some One_nat_def
  by (elim exE conjE, hypsubst, erule json_members_small) (simp add: json_bound_small)

text \<open>A record whose quantiles are all finite can be printed.\<close>

definition finite_record :: "StepRecord \<Rightarrow> bool" where
  "finite_record x \<longleftrightarrow> sr_SrvFirstP50 x \<noteq> PInf \<and> sr_SrvFirstP99 x \<noteq> PInf \<and> sr_SrvKernelP99 x \<noteq> PInf \<and> sr_SrvBargeP99 x \<noteq> PInf"

lemma record_json_finite: "record_json x \<noteq> None \<longleftrightarrow> finite_record x"
  by (cases "sr_SrvFirstP50 x"; cases "sr_SrvFirstP99 x"; cases "sr_SrvKernelP99 x"; cases "sr_SrvBargeP99 x")
    (simp_all add: record_json_def finite_record_def)

lemma those_Some: "those xs \<noteq> None \<longleftrightarrow> None \<notin> set xs"
  by (induction xs) (auto split: option.splits)

lemma those_elems: "those xs = Some ys \<Longrightarrow> set xs = Some ` set ys"
  by (induction xs arbitrary: ys) (auto split: option.splits)

lemma report_json_finite: "report_json r \<noteq> None \<longleftrightarrow> list_all finite_record (rp_Records r)"
proof -
  have "records_json (rp_Records r) \<noteq> None \<longleftrightarrow> list_all finite_record (rp_Records r)"
    using those_Some [of "map record_json (rp_Records r)"] record_json_finite
    by (force simp: records_json_def list_all_iff)
  then show ?thesis by (auto simp: report_json_def)
qed

lemma report_json_small: "report_json r = Some v \<Longrightarrow> small_json 3 v"
proof -
  have "case records_json (rp_Records r) of Some w \<Rightarrow> small_json (Suc (Suc 0)) w | None \<Rightarrow> True"
  proof (cases "those (map record_json (rp_Records r))")
    case (Some ws)
    have "small_json 1 u" if "u \<in> set ws" for u
    proof -
      have "Some u \<in> set (map record_json (rp_Records r))" using those_elems [OF Some] that by simp
      then show ?thesis by (auto dest: record_json_small [OF sym])
    qed
    then have "small_json (Suc 1) (JArr ws)" by (intro small_array) (simp add: list_all_iff)
    then show ?thesis by (simp add: records_json_def Some)
  qed (simp add: records_json_def)
  moreover have "small_json (Suc (Suc 0)) (analysis_json a)" for a
    unfolding analysis_json_def by (rule small_mono [OF small_object [of 0]]) simp_all
  ultimately show "report_json r = Some v \<Longrightarrow> small_json 3 v"
    unfolding report_json_def map_option_eq_Some numeral_3_eq_3
    by (elim exE conjE, hypsubst, intro json_members_small) (assumption, simp)
qed

lemma Replace1_marker:
  assumes "95 \<notin> set pre"
  shows "Replace1 report_marker new (pre @ report_marker @ post) = pre @ new @ post"
  using assms
proof (induction pre)
  case Nil
  then show ?case by (simp add: report_marker_def runes_of_def)
next
  case (Cons c cs)
  then have "\<not> prefix report_marker (c # cs @ report_marker @ post)" by (auto simp: report_marker_def runes_of_def)
  with Cons show ?case by simp
qed

text \<open>
  C37: The page holds the report as one piece of JSON that no text of it can break out of: for a template with no underscore
  before its marker, the marker is replaced by the printed report, wherever texts of the report look like the marker
  or like markup; the printed report has no ampersand and no angle bracket, and reads back as the report.
\<close>

theorem html_script_safe:
  assumes "95 \<notin> set pre" "list_all finite_record (rp_Records r)"
  shows "\<exists>v. report_json r = Some v \<and> HTML (pre @ report_marker @ post) r = Some (pre @ Marshal v @ post) \<and>
    set (Marshal v) \<inter> {38, 60, 62} = {} \<and> Unmarshal (Marshal v) = Some v"
proof -
  obtain v where v: "report_json r = Some v" using report_json_finite [of r] assms(2) by auto
  have s: "small_json 10000 v" by (rule small_mono [OF report_json_small [OF v]]) simp
  then have "set (Marshal v) \<inter> unsafe_runes = {}" by (auto simp: small_json_def dest: Marshal_safe)
  with small_reads [OF s] show ?thesis
    by (auto simp: v HTML_def Replace1_marker [OF assms(1)] unsafe_runes_def)
qed

definition demo_report :: Report where
  "demo_report = \<lparr>rp_Config = runes_of ''</script>__REPORT_JSON__'', rp_StartedAt = [], rp_FinishedAt = [], rp_Records = [],
     rp_Analysis = \<lparr>an_KneeConcurrency = 0, an_Wall = ''none'', an_Reason = NoData\<rparr>\<rparr>"

theorem html_script_safe_witness:
  "\<exists>v. HTML (runes_of ''<script>x='' @ report_marker @ runes_of '';</script>'') demo_report =
     Some (runes_of ''<script>x='' @ Marshal v @ runes_of '';</script>'') \<and> 60 \<notin> set (Marshal v)"
proof -
  have "95 \<notin> set (runes_of ''<script>x='')" "list_all finite_record (rp_Records demo_report)"
    by (simp_all add: runes_of_def demo_report_def)
  from html_script_safe [OF this, of "runes_of '';</script>''"] show ?thesis by auto
qed

text \<open>
  Writing the files: they are written in the order table, JSON, page, and the call succeeds exactly when every operation of
  the file system does and every quantile is finite, and then all three are there; a report with an infinite quantile
  leaves the table alone on disk and an error.
\<close>

theorem write_files_outcome:
  "map fst (fst (WriteFiles io tmpl r)) = take (length (fst (WriteFiles io tmpl r))) [''capacity.csv'', ''capacity.json'', ''capacity.html''] \<and>
   (snd (WriteFiles io tmpl r) = None \<longleftrightarrow> list_all finite_record (rp_Records r) \<and>
      list_all io [[], ''capacity.csv'', ''capacity.json'', ''capacity.html'']) \<and>
   (snd (WriteFiles io tmpl r) = None \<longleftrightarrow> length (fst (WriteFiles io tmpl r)) = 3) \<and>
   WriteFiles (\<lambda>_. True) tmpl r =
     (case report_json r of
        None \<Rightarrow> ([(''capacity.csv'', runes_of (CSV r))], Some MarshalFailed)
      | Some v \<Rightarrow> ([(''capacity.csv'', runes_of (CSV r)), (''capacity.json'', MarshalIndent 0 v),
          (''capacity.html'', Replace1 report_marker (Marshal v) tmpl)], None))"
  unfolding WriteFiles_def Let_def report_json_finite [symmetric]
  by (cases "report_json r"; simp add: HTML_def)

section \<open>The flags\<close>

lemma digits_value_decimal: "list_all is_digit ds \<Longrightarrow> ds \<noteq> [] \<Longrightarrow> digits_value ds = Some (int (decimal_value ds))"
proof -
  have "foldl (\<lambda>a c. 10 * a + int (of_char c - 48)) (int n) ds = int (foldl (\<lambda>n c. 10 * n + (of_char c - 48)) n ds)" for n
  proof (induction ds arbitrary: n)
    case (Cons c ds)
    have "10 * int n + int (of_char c - 48) = int (10 * n + (of_char c - 48))" by simp
    then show ?case by (simp only: foldl_Cons Cons.IH)
  qed simp
  from this [of 0] show "list_all is_digit ds \<Longrightarrow> ds \<noteq> [] \<Longrightarrow> digits_value ds = Some (int (decimal_value ds))"
    by (simp add: digits_value_def decimal_value_def)
qed

lemma Atoi_decimal: "Atoi (decimal n) = in_int_range n"
proof (cases "n < 0")
  case True
  then show ?thesis by (simp add: Atoi_def decimal_def digits_value_decimal)
next
  case False
  obtain c cs where c: "nat_digits (nat n) = c # cs" by (cases "nat_digits (nat n)") (use nat_digits_nonempty in auto)
  with nat_digits_digits [of "nat n"] have "is_digit c" by simp
  then have "c \<noteq> CHR ''-'' \<and> c \<noteq> CHR ''+''" by (auto simp: is_digit_def)
  moreover have "digits_value (c # cs) = Some n" using digits_value_decimal [of "nat_digits (nat n)"] c False nat_digits_digits [of "nat n"]
    by (metis nat_decimal_value nat_digits_nonempty nat_0_le not_le)
  ultimately show ?thesis using False c by (simp add: Atoi_def decimal_def)
qed

lemma TrimSpace_plain: "list_all (\<lambda>c. \<not> is_space c) s \<Longrightarrow> TrimSpace s = s"
proof -
  assume s: "list_all (\<lambda>c. \<not> is_space c) s"
  then have "dropWhile is_space s = s" by (cases s) auto
  moreover have "dropWhile is_space (rev s) = rev s" using s by (cases s rule: rev_cases) auto
  ultimately show ?thesis by (simp add: TrimSpace_def)
qed

lemma decimal_chars: "set (decimal n) \<subseteq> Collect is_digit \<union> {CHR ''-''}"
  using set_nat_digits [of "nat \<bar>n\<bar>"] by (auto simp: decimal_def)

lemma TrimSpace_decimal: "TrimSpace (decimal n) = decimal n"
  using decimal_chars [of n] by (intro TrimSpace_plain) (auto simp: list_all_iff is_digit_def is_space_def Let_def)

lemma parse_entries_decimal:
  "parse_entries (map decimal ns) = (if list_all (\<lambda>n. 0 < n \<and> n < 2 ^ 63) ns then Some ns else None)"
  by (induction ns) (auto simp: TrimSpace_decimal Atoi_decimal in_int_range_def)

text \<open>
  The ladder flag: the numbers printed with commas between them are read back in order when there is at least one and all
  are positive and in range, and the flag is refused otherwise, so that the command stops with code 2 before any load.
\<close>

theorem parse_steps_roundtrip:
  "parseSteps (separated CHR '','' (map decimal ns)) = (if ns \<noteq> [] \<and> list_all (\<lambda>n. 0 < n \<and> n < 2 ^ 63) ns then Some ns else None) \<and>
   (snd (snd (loadgen_main (separated CHR '','' (map decimal ns)) run cancelled out io tmpl)) = 2 \<longleftrightarrow>
      \<not> (ns \<noteq> [] \<and> list_all (\<lambda>n. 0 < n \<and> n < 2 ^ 63) ns))"
proof -
  have p: "parseSteps (separated CHR '','' (map decimal ns)) = (if ns \<noteq> [] \<and> list_all (\<lambda>n. 0 < n \<and> n < 2 ^ 63) ns then Some ns else None)"
  proof (cases "ns = []")
    case True
    then show ?thesis by (simp add: parseSteps_def TrimSpace_def Atoi_def)
  next
    case False
    have "CHR '','' \<notin> set (decimal n)" for n using decimal_chars [of n] by (auto simp: is_digit_def)
    then have "Split CHR '','' (separated CHR '','' (map decimal ns)) = map decimal ns"
      using False by (intro Split_separated) (auto simp: list_all_iff)
    with False show ?thesis by (simp add: parseSteps_def parse_entries_decimal)
  qed
  then show ?thesis
    by (auto simp: loadgen_main_def Let_def split: option.split prod.split)
qed

end
