(* ===== verification/Writers.thy ===== *)
theory Writers
  imports Downlink Sesslock "HOL-Library.Sublist"
begin

text \<open>
  The write loops of a session (\<open>writeLoop\<close> of \<open>internal/session/session.go\<close>), one for each attachment and all
  alive at once for a while: a takeover waits for the old reader only, so the old writer and the new one
  compete for the queue \<open>wire\<close> and number their frames with one counter. Each has a program counter; receiving a
  message, numbering it, and the write on the connection are separate steps. The connection is I/O: a
  write or a ping ends well or badly, a write never well once the connection is closed.
\<close>

section \<open>The writers\<close>

text \<open>The period of the pings, also the deadline of each of them.\<close>

definition heartbeat_of :: "Config \<Rightarrow> duration" where
  "heartbeat_of cfg = (let hb = sc_HeartbeatPeriod (cf_Server cfg) in if hb \<le> 0 then 10 * Second else hb)"

text \<open>Not started; about to acknowledge; in the select; with a message in hand; in \<open>WriteFrame\<close> with the frame and
  the message it carries, none for the acknowledgement; in \<open>Ping\<close>; gone, with the frame and message it lost.\<close>

datatype write_pc = WrNone | WrStart string | WrSelect | WrHold wireMsg | WrWriting Frame "wireMsg list" | WrPinging
  | WrGone "Frame list" "wireMsg list"

text \<open>What the connections accepted, and the history: the messages queued, who received them, who numbered which frame.\<close>

record writers =
  wr_sess :: Session
  wr_pc :: "nat \<Rightarrow> write_pc"
  wr_sent :: "nat \<Rightarrow> Frame list"
  wr_queued :: "wireMsg list"
  wr_taken :: "(nat \<times> wireMsg) list"
  wr_stamped :: "(nat \<times> Frame) list"

definition writers_of :: "Session \<Rightarrow> writers" where
  "writers_of s = \<lparr>wr_sess = s, wr_pc = (\<lambda>_. WrNone), wr_sent = (\<lambda>_. []), wr_queued = [], wr_taken = [], wr_stamped = []\<rparr>"

definition writer_goes :: "nat \<Rightarrow> Frame list \<Rightarrow> wireMsg list \<Rightarrow> writers \<Rightarrow> writers" where
  "writer_goes a fs ms w = w\<lparr>wr_sess := writer_exit a (wr_sess w), wr_pc := (wr_pc w)(a := WrGone fs ms)\<rparr>"

definition writer_writes :: "nat \<Rightarrow> Session \<Rightarrow> Frame \<Rightarrow> wireMsg list \<Rightarrow> writers \<Rightarrow> writers" where
  "writer_writes a s f ms w =
     w\<lparr>wr_sess := s, wr_pc := (wr_pc w)(a := WrWriting f ms), wr_stamped := wr_stamped w @ [(a, f)]\<rparr>"

definition writer_written :: "nat \<Rightarrow> Frame \<Rightarrow> wireMsg list \<Rightarrow> instant \<Rightarrow> writers \<Rightarrow> writers" where
  "writer_written a f ms now w =
     w\<lparr>wr_sess := (if ms = [] then wr_sess w else touch now (wr_sess w)), wr_pc := (wr_pc w)(a := WrSelect),
       wr_sent := (wr_sent w)(a := wr_sent w a @ [f])\<rparr>"

text \<open>What everyone else may do: anything that leaves the queue, the counter and the connections alone and does not lower
  the watermark.\<close>

definition beside_writers :: "Session \<Rightarrow> Session \<Rightarrow> bool" where
  "beside_writers s s' \<longleftrightarrow> ss_id s' = ss_id s \<and> ss_wire s' = ss_wire s \<and> ss_downlinkSeq s' = ss_downlinkSeq s \<and>
     epochs s' = epochs s \<and> ss_uplinkFloor s \<le> ss_uplinkFloor s' \<and>
     list_all2 (\<lambda>t t'. ats_closed t \<longrightarrow> ats_closed t') (ss_atts s) (ss_atts s')"

inductive writers_step :: "codec \<Rightarrow> writers \<Rightarrow> writers \<Rightarrow> bool" for cd :: codec where
  attached: "attach e now (wr_sess w) = Some (Inr (s, a)) \<Longrightarrow>
    writers_step cd w (w\<lparr>wr_sess := s, wr_pc := (wr_pc w)(a := WrStart detail)\<rparr>)"
| others: "beside_writers (wr_sess w) s \<Longrightarrow> writers_step cd w (w\<lparr>wr_sess := s\<rparr>)"
| queue: "length (ss_wire (wr_sess w)) < wireCap \<Longrightarrow>
    writers_step cd w (w\<lparr>wr_sess := (wr_sess w)\<lparr>ss_wire := ss_wire (wr_sess w) @ [m]\<rparr>, wr_queued := wr_queued w @ [m]\<rparr>)"
| ack_fails: "wr_pc w a = WrStart detail \<Longrightarrow> write_ack cd a detail (wr_sess w) = None \<Longrightarrow>
    writers_step cd w (writer_goes a [] [] w)"
| ack: "wr_pc w a = WrStart detail \<Longrightarrow> write_ack cd a detail (wr_sess w) = Some (s, f) \<Longrightarrow>
    writers_step cd w (writer_writes a s f [] w)"
| receive: "wr_pc w a = WrSelect \<Longrightarrow> ss_wire (wr_sess w) = m # ms \<Longrightarrow>
    writers_step cd w (w\<lparr>wr_sess := (wr_sess w)\<lparr>ss_wire := ms\<rparr>, wr_pc := (wr_pc w)(a := WrHold m),
      wr_taken := wr_taken w @ [(a, m)]\<rparr>)"
| number: "wr_pc w a = WrHold m \<Longrightarrow> writeFrame (wm_typ m) (wm_tsUs m) (wm_payload m) (wr_sess w) = (s, f) \<Longrightarrow>
    writers_step cd w (writer_writes a s f [m] w)"
| write_ok: "wr_pc w a = WrWriting f ms \<Longrightarrow> \<not> ats_closed (ss_atts (wr_sess w) ! a) \<Longrightarrow>
    writers_step cd w (writer_written a f ms now w)"
| write_fails: "wr_pc w a = WrWriting f ms \<Longrightarrow> writers_step cd w (writer_goes a [f] ms w)"
| tick: "wr_pc w a = WrSelect \<Longrightarrow> writers_step cd w (w\<lparr>wr_pc := (wr_pc w)(a := WrPinging)\<rparr>)"
| pong: "wr_pc w a = WrPinging \<Longrightarrow> writers_step cd w (w\<lparr>wr_pc := (wr_pc w)(a := WrSelect)\<rparr>)"
| ping_fails: "wr_pc w a = WrPinging \<Longrightarrow> writers_step cd w (writer_goes a [] [] w)"
| cancelled: "wr_pc w a = WrSelect \<Longrightarrow> ats_cancelled (ss_atts (wr_sess w) ! a) \<Longrightarrow> writers_step cd w (writer_goes a [] [] w)"

inductive writers_reach :: "codec \<Rightarrow> Session \<Rightarrow> writers \<Rightarrow> bool" for cd :: codec and s0 :: Session where
  here: "writers_reach cd s0 (writers_of s0)"
| step: "writers_reach cd s0 w \<Longrightarrow> writers_step cd w w' \<Longrightarrow> writers_reach cd s0 w'"

section \<open>What each connection gets\<close>

definition frames_of :: "nat \<Rightarrow> writers \<Rightarrow> Frame list" where
  "frames_of a w = map snd (filter (\<lambda>x. fst x = a) (wr_stamped w))"

definition msgs_of :: "nat \<Rightarrow> writers \<Rightarrow> wireMsg list" where
  "msgs_of a w = map snd (filter (\<lambda>x. fst x = a) (wr_taken w))"

lemma frames_of_update [simp]:
  "frames_of a (wr_sess_update h w) = frames_of a w" "frames_of a (wr_pc_update h1 w) = frames_of a w"
  "frames_of a (wr_sent_update h2 w) = frames_of a w" "frames_of a (wr_queued_update h3 w) = frames_of a w"
  "frames_of a (wr_taken_update h4 w) = frames_of a w"
  "frames_of a (wr_stamped_update (\<lambda>_. xs @ [(b, f)]) w) = frames_of a (w\<lparr>wr_stamped := xs\<rparr>) @ (if a = b then [f] else [])"
  "frames_of a (w\<lparr>wr_stamped := wr_stamped w\<rparr>) = frames_of a w"
  by (simp_all add: frames_of_def)

lemma msgs_of_update [simp]:
  "msgs_of a (wr_sess_update h w) = msgs_of a w" "msgs_of a (wr_pc_update h1 w) = msgs_of a w"
  "msgs_of a (wr_sent_update h2 w) = msgs_of a w" "msgs_of a (wr_queued_update h3 w) = msgs_of a w"
  "msgs_of a (wr_stamped_update h4 w) = msgs_of a w"
  "msgs_of a (wr_taken_update (\<lambda>_. xs @ [(b, m)]) w) = msgs_of a (w\<lparr>wr_taken := xs\<rparr>) @ (if a = b then [m] else [])"
  "msgs_of a (w\<lparr>wr_taken := wr_taken w\<rparr>) = msgs_of a w"
  by (simp_all add: msgs_of_def)

definition frame_body :: "Frame \<Rightarrow> u32 \<times> u64 \<times> u8 list" where
  "frame_body f = (frame_type f, frame_view f)"

definition msg_body :: "wireMsg \<Rightarrow> u32 \<times> u64 \<times> u8 list" where
  "msg_body m = (wm_typ m, msg_view m)"

text \<open>The acknowledgement of an attachment: its epoch, and a watermark the session has reached.\<close>

definition acknowledges :: "codec \<Rightarrow> Session \<Rightarrow> nat \<Rightarrow> Frame \<Rightarrow> bool" where
  "acknowledges cd s a f \<longleftrightarrow> frame_type f = FRAME_TYPE_CONTROL \<and> frame_ts f = 0 \<and>
     (\<exists>detail floor. floor \<le> ss_uplinkFloor s \<and> a < length (epochs s) \<and>
        cd_control cd \<lparr>cp_Kind = KIND_START, cp_Detail = detail, cp_SessionId = ss_id s, cp_Epoch = epochs s ! a,
          cp_LastSeq = floor\<rparr> = Some (frame_payload f))"

fun held :: "write_pc \<Rightarrow> wireMsg list" where
  "held (WrHold m) = [m]"
| "held _ = []"

fun in_flight :: "write_pc \<Rightarrow> Frame list" where
  "in_flight (WrWriting f _) = [f]"
| "in_flight (WrGone fs _) = fs"
| "in_flight _ = []"

text \<open>A writer whose first frame is numbered but not accepted has only the acknowledgement; one that has started the loop
  has had it accepted.\<close>

fun pc_ok :: "write_pc \<Rightarrow> Frame list \<Rightarrow> bool" where
  "pc_ok WrNone sent \<longleftrightarrow> sent = []"
| "pc_ok (WrStart _) sent \<longleftrightarrow> sent = []"
| "pc_ok (WrWriting _ ms) sent \<longleftrightarrow> (ms = []) = (sent = [])"
| "pc_ok (WrGone fs ms) sent \<longleftrightarrow> length fs \<le> 1"
| "pc_ok _ sent \<longleftrightarrow> sent \<noteq> []"

definition writer_ok :: "codec \<Rightarrow> writers \<Rightarrow> nat \<Rightarrow> bool" where
  "writer_ok cd w a \<longleftrightarrow> pc_ok (wr_pc w a) (wr_sent w a) \<and>
     (wr_pc w a = WrNone \<longleftrightarrow> length (epochs (wr_sess w)) \<le> a) \<and>
     frames_of a w = wr_sent w a @ in_flight (wr_pc w a) \<and>
     map msg_body (msgs_of a w) = map frame_body (tl (frames_of a w)) @ map msg_body (held (wr_pc w a)) \<and>
     (frames_of a w \<noteq> [] \<longrightarrow> acknowledges cd (wr_sess w) a (hd (frames_of a w)))"

definition writers_inv :: "codec \<Rightarrow> writers \<Rightarrow> bool" where
  "writers_inv cd w \<longleftrightarrow> wr_queued w = map snd (wr_taken w) @ ss_wire (wr_sess w) \<and>
     map (frame_seq \<circ> snd) (wr_stamped w) = map (\<lambda>i. word_of_nat (Suc i)) [0..<length (wr_stamped w)] \<and>
     ss_downlinkSeq (wr_sess w) = word_of_nat (length (wr_stamped w)) \<and> (\<forall>a. writer_ok cd w a)"

lemma acknowledges_mono:
  assumes "acknowledges cd s a f" "ss_id s' = ss_id s" "prefix (epochs s) (epochs s')" "ss_uplinkFloor s \<le> ss_uplinkFloor s'"
  shows "acknowledges cd s' a f"
proof -
  obtain es where es: "epochs s' = epochs s @ es" using assms(3) by (auto simp: prefix_def)
  from assms(1) obtain detail fl where d: "frame_type f = FRAME_TYPE_CONTROL" "frame_ts f = 0" "fl \<le> ss_uplinkFloor s"
    "a < length (epochs s)" "cd_control cd \<lparr>cp_Kind = KIND_START, cp_Detail = detail, cp_SessionId = ss_id s, cp_Epoch = epochs s ! a,
          cp_LastSeq = fl\<rparr> = Some (frame_payload f)" by (auto simp: acknowledges_def)
  then have "fl \<le> ss_uplinkFloor s'" "epochs s' ! a = epochs s ! a" "a < length (epochs s')"
    using assms(4) es by (auto simp: nth_append)
  with d assms(2) show ?thesis unfolding acknowledges_def by metis
qed

text \<open>A step of a writer changes nothing for the others; a step of anyone else nothing at all.\<close>

lemma writer_ok_cong:
  assumes "writer_ok cd w a" "wr_pc w' a = wr_pc w a" "wr_sent w' a = wr_sent w a" "frames_of a w' = frames_of a w"
    "msgs_of a w' = msgs_of a w" "ss_id (wr_sess w') = ss_id (wr_sess w)" "epochs (wr_sess w') = epochs (wr_sess w)"
    "ss_uplinkFloor (wr_sess w) \<le> ss_uplinkFloor (wr_sess w')"
  shows "writer_ok cd w' a"
  using assms acknowledges_mono [of cd "wr_sess w" a _ "wr_sess w'"] unfolding writer_ok_def by auto

lemma epochs_writer_exit [simp]: "epochs (writer_exit a s) = epochs s"
  using writer_exit_view [of s a] by (simp add: same_view_def)

lemma writer_exit_rest [simp]: "ss_id (writer_exit a s) = ss_id s" "ss_wire (writer_exit a s) = ss_wire s"
  "ss_downlinkSeq (writer_exit a s) = ss_downlinkSeq s" "ss_uplinkFloor (writer_exit a s) = ss_uplinkFloor s"
  by (simp_all add: writer_exit_def set_att_def)

lemma touch_rest [simp]: "ss_id (touch now s) = ss_id s" "ss_wire (touch now s) = ss_wire s"
  "ss_downlinkSeq (touch now s) = ss_downlinkSeq s" "ss_uplinkFloor (touch now s) = ss_uplinkFloor s" "epochs (touch now s) = epochs s"
  by (simp_all add: touch_def epochs_def)

lemma writer_goes_ok:
  assumes "writers_inv cd w" "wr_pc w a \<noteq> WrNone" "held (wr_pc w a) = []" "in_flight (wr_pc w a) = fs" "length fs \<le> 1"
  shows "writers_inv cd (writer_goes a fs ms w)"
proof -
  have "writer_ok cd (writer_goes a fs ms w) b" for b
  proof (cases "b = a")
    case True
    have "writer_ok cd w a" using assms(1) by (simp add: writers_inv_def)
    with assms(2-5) acknowledges_mono [of cd "wr_sess w" a _ "writer_exit a (wr_sess w)"] True show ?thesis
      by (auto simp: writer_ok_def writer_goes_def)
  next
    case False
    have "writer_ok cd w b" using assms(1) by (simp add: writers_inv_def)
    from writer_ok_cong [OF this] False show ?thesis by (simp add: writer_goes_def)
  qed
  then show ?thesis using assms(1) by (simp add: writers_inv_def writer_goes_def)
qed

lemma writer_writes_ok:
  assumes "writers_inv cd w" "wr_pc w a = WrStart d \<and> ms = [] \<or> wr_pc w a = WrHold m \<and> ms = [m]"
    and "s = (wr_sess w)\<lparr>ss_downlinkSeq := ss_downlinkSeq (wr_sess w) + 1\<rparr>" "frame_seq f = ss_downlinkSeq (wr_sess w) + 1"
    and "ms = [] \<Longrightarrow> acknowledges cd (wr_sess w) a f" "ms \<noteq> [] \<Longrightarrow> map frame_body [f] = map msg_body ms"
  shows "writers_inv cd (writer_writes a s f ms w)"
proof -
  have e: "epochs s = epochs (wr_sess w)" using assms(3) by (simp add: epochs_def)
  have "writer_ok cd (writer_writes a s f ms w) b" for b
  proof (cases "b = a")
    case True
    have o: "writer_ok cd w a" using assms(1) by (simp add: writers_inv_def)
    note ack = acknowledges_mono [of cd "wr_sess w" a _ s]
    from assms(2) show ?thesis
    proof
      assume "wr_pc w a = WrStart d \<and> ms = []"
      with o assms(3,5) e True ack show ?thesis
        by (auto simp: writer_ok_def writer_writes_def)
    next
      assume p: "wr_pc w a = WrHold m \<and> ms = [m]"
      then have "frames_of a w \<noteq> []" using o by (simp add: writer_ok_def)
      with o p assms(3,6) e True ack show ?thesis
        by (auto simp: writer_ok_def writer_writes_def)
    qed
  next
    case False
    have "writer_ok cd w b" using assms(1) by (simp add: writers_inv_def)
    then show ?thesis
      by (rule writer_ok_cong) (use False assms(3) e in \<open>simp_all add: writer_writes_def\<close>)
  qed
  moreover have "map (frame_seq \<circ> snd) (wr_stamped w @ [(a, f)]) = map (\<lambda>i. word_of_nat (Suc i)) [0..<length (wr_stamped w @ [(a, f)])]"
    using assms(1,4) by (simp add: writers_inv_def)
  ultimately show ?thesis using assms(1,3) by (simp add: writers_inv_def writer_writes_def)
qed

lemma attach_new:
  assumes "attach e now s = Some (Inr (s', a))"
  shows "a = length (epochs s) \<and> epochs s' = epochs s @ [e] \<and> ss_wire s' = ss_wire s \<and> ss_downlinkSeq s' = ss_downlinkSeq s \<and>
    ss_id s' = ss_id s \<and> ss_uplinkFloor s' = ss_uplinkFloor s"
proof -
  from assms have s': "s' = attach_bind e now (attach_supersede s)" "a = length (ss_atts (attach_supersede s))"
    by (auto simp: attach_def Let_def split: option.splits if_splits)
  have "epochs (attach_supersede s) = epochs s" using supersede_view [of s] by (simp add: same_view_def)
  moreover have "length (ss_atts (attach_supersede s)) = length (ss_atts s)" using \<open>_ = epochs s\<close> length_views(1) by metis
  moreover have "ss_wire (attach_supersede s) = ss_wire s" "ss_downlinkSeq (attach_supersede s) = ss_downlinkSeq s"
    "ss_id (attach_supersede s) = ss_id s" "ss_uplinkFloor (attach_supersede s) = ss_uplinkFloor s"
    by (auto simp: attach_supersede_def set_att_def split: option.split)
  ultimately show ?thesis unfolding s' by (simp add: attach_bind_def touch_def epochs_def)
qed

lemma attached_ok:
  assumes "writers_inv cd w" "attach e now (wr_sess w) = Some (Inr (s, a))"
  shows "writers_inv cd (w\<lparr>wr_sess := s, wr_pc := (wr_pc w)(a := WrStart detail)\<rparr>)"
proof -
  let ?w = "w\<lparr>wr_sess := s, wr_pc := (wr_pc w)(a := WrStart detail)\<rparr>"
  note n = attach_new [OF assms(2)]
  have "writer_ok cd ?w b" for b
  proof -
    have o: "writer_ok cd w b" using assms(1) by (simp add: writers_inv_def)
    show ?thesis
    proof (cases "b = a")
      case True
      then have "wr_pc w b = WrNone" using o n by (simp add: writer_ok_def)
      then have "wr_sent w b = []" "frames_of b w = []" "msgs_of b w = []" using o by (auto simp: writer_ok_def)
      with n True show ?thesis by (simp add: writer_ok_def)
    next
      case False
      then have "length (epochs s) \<le> b \<longleftrightarrow> length (epochs (wr_sess w)) \<le> b" using n by simp (linarith)
      moreover have "acknowledges cd (wr_sess w) b f \<Longrightarrow> acknowledges cd s b f" for f
        using acknowledges_mono [of cd "wr_sess w" b f s] n by simp
      ultimately show ?thesis using o False unfolding writer_ok_def by auto
    qed
  qed
  with assms(1) n show ?thesis by (simp add: writers_inv_def)
qed

lemma writer_move_ok:
  assumes "writers_inv cd w" "wr_pc w a \<noteq> WrNone" "pc \<noteq> WrNone" "held pc = held (wr_pc w a)" "in_flight pc = in_flight (wr_pc w a)"
    and "pc_ok pc (wr_sent w a)"
  shows "writers_inv cd (w\<lparr>wr_pc := (wr_pc w)(a := pc)\<rparr>)"
proof -
  have "writer_ok cd (w\<lparr>wr_pc := (wr_pc w)(a := pc)\<rparr>) b" for b
  proof -
    have o: "writer_ok cd w b" using assms(1) by (simp add: writers_inv_def)
    show ?thesis
    proof (cases "b = a")
      case True
      with o assms(2-6) show ?thesis unfolding writer_ok_def by auto
    next
      case False
      with o show ?thesis unfolding writer_ok_def by auto
    qed
  qed
  then show ?thesis using assms(1) by (simp add: writers_inv_def)
qed

lemma writer_receive_ok:
  assumes "writers_inv cd w" "wr_pc w a = WrSelect" "ss_wire (wr_sess w) = m # ms"
  shows "writers_inv cd (w\<lparr>wr_sess := (wr_sess w)\<lparr>ss_wire := ms\<rparr>, wr_pc := (wr_pc w)(a := WrHold m), wr_taken := wr_taken w @ [(a, m)]\<rparr>)"
    (is "writers_inv cd ?w")
proof -
  have e: "epochs (wr_sess ?w) = epochs (wr_sess w)" by (simp add: epochs_def)
  have "writer_ok cd ?w b" for b
  proof (cases "b = a")
    case True
    have "writer_ok cd w a" using assms(1) by (simp add: writers_inv_def)
    with assms(2) e True acknowledges_mono [of cd "wr_sess w" a _ "wr_sess ?w"] show ?thesis
      by (auto simp: writer_ok_def)
  next
    case False
    have "writer_ok cd w b" using assms(1) by (simp add: writers_inv_def)
    then show ?thesis by (rule writer_ok_cong) (use False e in simp_all)
  qed
  with assms(1,3) show ?thesis by (simp add: writers_inv_def)
qed

lemma writer_written_ok:
  assumes "writers_inv cd w" "wr_pc w a = WrWriting f ms"
  shows "writers_inv cd (writer_written a f ms now w)" (is "writers_inv cd ?w")
proof -
  have e: "epochs (wr_sess ?w) = epochs (wr_sess w)" "ss_id (wr_sess ?w) = ss_id (wr_sess w)"
    "ss_uplinkFloor (wr_sess ?w) = ss_uplinkFloor (wr_sess w)" by (simp_all add: writer_written_def)
  have "writer_ok cd ?w b" for b
  proof (cases "b = a")
    case True
    have "writer_ok cd w a" using assms(1) by (simp add: writers_inv_def)
    with assms(2) e True acknowledges_mono [of cd "wr_sess w" a _ "wr_sess ?w"] show ?thesis
      by (cases "wr_sent w a") (auto simp: writer_ok_def writer_written_def)
  next
    case False
    have "writer_ok cd w b" using assms(1) by (simp add: writers_inv_def)
    then show ?thesis by (rule writer_ok_cong) (use False e in \<open>simp_all add: writer_written_def\<close>)
  qed
  with assms(1) show ?thesis by (simp add: writers_inv_def writer_written_def)
qed

lemma writers_frame:
  assumes "writers_inv cd w" "wr_pc w' = wr_pc w" "wr_sent w' = wr_sent w" "wr_taken w' = wr_taken w" "wr_stamped w' = wr_stamped w"
    and "ss_id (wr_sess w') = ss_id (wr_sess w)" "epochs (wr_sess w') = epochs (wr_sess w)"
    and "ss_uplinkFloor (wr_sess w) \<le> ss_uplinkFloor (wr_sess w')" "ss_downlinkSeq (wr_sess w') = ss_downlinkSeq (wr_sess w)"
    and "wr_queued w' = map snd (wr_taken w) @ ss_wire (wr_sess w')"
  shows "writers_inv cd w'"
proof -
  have "writer_ok cd w' a" for a
    by (rule writer_ok_cong [of cd w]) (use assms in \<open>simp_all add: writers_inv_def frames_of_def msgs_of_def\<close>)
  with assms show ?thesis by (simp add: writers_inv_def)
qed

lemma writers_step_ok:
  assumes "writers_step cd w w'" "writers_inv cd w"
  shows "writers_inv cd w'"
  using assms(1)
proof cases
  case (others s)
  show ?thesis by (rule writers_frame [OF assms(2)]) (use assms(2) others in \<open>simp_all add: beside_writers_def writers_inv_def\<close>)
next
  case (queue m)
  show ?thesis by (rule writers_frame [OF assms(2)]) (use assms(2) queue in \<open>simp_all add: writers_inv_def epochs_def\<close>)
next
  case (ack a detail s f)
  have "s = (wr_sess w)\<lparr>ss_downlinkSeq := ss_downlinkSeq (wr_sess w) + 1\<rparr>" "frame_seq f = ss_downlinkSeq (wr_sess w) + 1"
    using ack by (auto simp: write_ack_def writeFrame_def Let_def)
  moreover have "acknowledges cd (wr_sess w) a f"
  proof -
    have "wr_pc w a \<noteq> WrNone" using ack by simp
    moreover have "writer_ok cd w a" using assms(2) by (simp add: writers_inv_def)
    ultimately have "a < length (ss_atts (wr_sess w))" by (auto simp: writer_ok_def)
    with ack show ?thesis
      by (auto simp: write_ack_def writeFrame_def acknowledges_def Let_def epochs_def intro!: exI [of _ detail] exI [of _ "ss_uplinkFloor (wr_sess w)"])
  qed
  ultimately show ?thesis unfolding ack(1) using ack by (intro writer_writes_ok [OF assms(2)]) simp_all
next
  case (number a m s f)
  show ?thesis unfolding number(1)
    by (rule writer_writes_ok [OF assms(2), where m = m])
      (use number in \<open>auto simp: writeFrame_def Let_def frame_body_def frame_view_def msg_body_def msg_view_def\<close>)
next
  case (write_ok a f ms now)
  then show ?thesis using writer_written_ok [OF assms(2)] by simp
next
  case (receive a m ms)
  then show ?thesis using writer_receive_ok [OF assms(2)] by simp
next
  case (attached e now s a detail)
  then show ?thesis using attached_ok [OF assms(2)] by simp
next
  case (tick a)
  have "writer_ok cd w a" using assms(2) by (simp add: writers_inv_def)
  with tick show ?thesis unfolding tick(1) by (intro writer_move_ok [OF assms(2)]) (simp_all add: writer_ok_def)
next
  case (pong a)
  have "writer_ok cd w a" using assms(2) by (simp add: writers_inv_def)
  with pong show ?thesis unfolding pong(1) by (intro writer_move_ok [OF assms(2)]) (simp_all add: writer_ok_def)
qed (use writer_goes_ok [OF assms(2)] in auto)

definition no_writers :: "Session \<Rightarrow> bool" where
  "no_writers s \<longleftrightarrow> ss_atts s = [] \<and> ss_wire s = [] \<and> ss_downlinkSeq s = 0"

lemma writers_reach_ok:
  assumes "writers_reach cd s0 w" "no_writers s0"
  shows "writers_inv cd w"
  using assms(1)
proof induction
  case here
  from assms(2) show ?case
    by (simp add: writers_inv_def writers_of_def no_writers_def writer_ok_def frames_of_def msgs_of_def epochs_def)
qed (rule writers_step_ok)

text \<open>
  C8: The downlink across takeovers: over every interleaving of any number of writers with takeovers and everything
  else, each message queued is received by exactly one writer, in order; all frames are numbered 1, 2, 3 and so on in
  the order of the numbering, whoever writes them; and each connection gets first the acknowledgement of its own epoch, with a
  watermark the session has reached, and then, unchanged and in order, the messages its writer received: all
  of them, except that a writer whose write failed, or that is still at it, is short of one at most.
\<close>

theorem downlink_handover:
  assumes "writers_reach cd s0 w" "no_writers s0"
  shows "wr_queued w = map snd (wr_taken w) @ ss_wire (wr_sess w) \<and>
    map (frame_seq \<circ> snd) (wr_stamped w) = map (\<lambda>i. word_of_nat (Suc i)) [0..<length (wr_stamped w)] \<and>
    prefix (wr_sent w a) (frames_of a w) \<and>
    (case wr_sent w a of
       [] \<Rightarrow> msgs_of a w = []
     | f # fs \<Rightarrow> acknowledges cd (wr_sess w) a f \<and> prefix (map frame_body fs) (map msg_body (msgs_of a w)) \<and>
         length (msgs_of a w) \<le> Suc (length fs))"
proof -
  note inv = writers_reach_ok [OF assms]
  then have o: "writer_ok cd w a" by (simp add: writers_inv_def)
  have l: "length (in_flight (wr_pc w a)) \<le> 1" "held (wr_pc w a) = [] \<or> in_flight (wr_pc w a) = []" "length (held (wr_pc w a)) \<le> 1"
    "length (in_flight (wr_pc w a)) + length (held (wr_pc w a)) \<le> 1"
    using o by (cases "wr_pc w a"; simp add: writer_ok_def)+
  show ?thesis
  proof (cases "wr_sent w a")
    case Nil
    then have "held (wr_pc w a) = []" "tl (in_flight (wr_pc w a)) = []"
      using o l(1) by (cases "wr_pc w a"; auto simp: writer_ok_def; cases "in_flight (wr_pc w a)"; auto)+
    then have "msgs_of a w = []" using o Nil by (auto simp: writer_ok_def)
    with Nil inv show ?thesis by (simp add: writers_inv_def)
  next
    case (Cons f fs)
    then have m: "map msg_body (msgs_of a w) = map frame_body fs @ map frame_body (in_flight (wr_pc w a)) @ map msg_body (held (wr_pc w a))"
      using o by (simp add: writer_ok_def)
    have "length (msgs_of a w) = length fs + length (in_flight (wr_pc w a)) + length (held (wr_pc w a))"
      using arg_cong [OF m, of length] unfolding length_map length_append by simp
    with l have n: "length (msgs_of a w) \<le> Suc (length fs)" by linarith
    have s: "frames_of a w = (f # fs) @ in_flight (wr_pc w a)" "acknowledges cd (wr_sess w) a f"
      using o Cons by (auto simp: writer_ok_def)
    have "prefix (map frame_body fs) (map msg_body (msgs_of a w))" unfolding m by simp
    with n s inv show ?thesis unfolding Cons s(1) by (simp add: writers_inv_def)
  qed
qed

section \<open>Takeovers\<close>

lemma writers_steps: "writers_reach cd s0 w \<Longrightarrow> (writers_step cd)\<^sup>*\<^sup>* w w' \<Longrightarrow> writers_reach cd s0 w'"
  by (rotate_tac, induction rule: rtranclp_induct) (auto intro: writers_reach.step)

text \<open>A writer that has just started gets its acknowledgement accepted.\<close>

lemma acknowledged:
  assumes "wr_pc w a = WrStart detail" "\<And>c. cd_control cd c \<noteq> None" "\<not> ats_closed (ss_atts (wr_sess w) ! a)"
  shows "\<exists>w' f sq. (writers_step cd)\<^sup>*\<^sup>* w w' \<and> wr_sess w' = (wr_sess w)\<lparr>ss_downlinkSeq := sq\<rparr> \<and>
    wr_pc w' = (wr_pc w)(a := WrSelect) \<and> wr_sent w' = (wr_sent w)(a := wr_sent w a @ [f]) \<and>
    wr_queued w' = wr_queued w \<and> wr_taken w' = wr_taken w"
proof -
  let ?s = "(wr_sess w)\<lparr>ss_downlinkSeq := ss_downlinkSeq (wr_sess w) + 1\<rparr>"
  from assms(2) obtain f where f: "write_ack cd a detail (wr_sess w) = Some (?s, f)"
    by (fastforce simp: write_ack_def writeFrame_def Let_def)
  let ?w1 = "writer_writes a ?s f [] w"
  let ?w2 = "writer_written a f [] 0 ?w1"
  have "writers_step cd w ?w1" using assms(1) f by (rule writers_step.ack)
  moreover have "writers_step cd ?w1 ?w2"
    by (rule writers_step.write_ok) (use assms(3) in \<open>simp_all add: writer_writes_def\<close>)
  ultimately have "(writers_step cd)\<^sup>*\<^sup>* w ?w2" by (rule converse_rtranclp_into_rtranclp [OF _ r_into_rtranclp])
  moreover have "wr_sess ?w2 = ?s" "wr_pc ?w2 = (wr_pc w)(a := WrSelect)" "wr_sent ?w2 = (wr_sent w)(a := wr_sent w a @ [f])"
    "wr_queued ?w2 = wr_queued w" "wr_taken ?w2 = wr_taken w"
    by (simp_all add: writer_written_def writer_writes_def)
  ultimately show ?thesis by blast
qed

text \<open>A second connection takes over from an attachment whose reader has exited: the first writer is still in its select.\<close>

lemma first_writer:
  assumes "fresh_session sid now s0" "\<And>c. cd_control cd c \<noteq> None"
  shows "\<exists>w f sq. writers_reach cd s0 w \<and> wr_sess w = (attach_bind 1 0 s0)\<lparr>ss_downlinkSeq := sq\<rparr> \<and>
    wr_pc w = (\<lambda>_. WrNone)(0 := WrSelect) \<and> wr_sent w = (\<lambda>_. [])(0 := [f]) \<and> wr_queued w = [] \<and> wr_taken w = []"
proof -
  let ?w0 = "writers_of s0"
  have a0: "attach 1 0 (wr_sess ?w0) = Some (Inr (attach_bind 1 0 s0, 0))"
    using assms(1) by (simp add: attach_def attach_check_def attach_supersede_def fresh_session_def writers_of_def word_le_nat_alt)
  let ?w1 = "?w0\<lparr>wr_sess := attach_bind 1 0 s0, wr_pc := (wr_pc ?w0)(0 := WrStart [])\<rparr>"
  have r: "writers_reach cd s0 ?w1"
    by (rule writers_reach.step [OF writers_reach.here writers_step.attached [OF a0]])
  have "wr_pc ?w1 0 = WrStart []" by simp
  moreover have "\<not> ats_closed (ss_atts (wr_sess ?w1) ! 0)"
    using assms(1) by (simp add: attach_bind_def touch_def fresh_session_def)
  ultimately obtain w2 f sq where w2: "(writers_step cd)\<^sup>*\<^sup>* ?w1 w2" "wr_sess w2 = (wr_sess ?w1)\<lparr>ss_downlinkSeq := sq\<rparr>"
    "wr_pc w2 = (wr_pc ?w1)(0 := WrSelect)" "wr_sent w2 = (wr_sent ?w1)(0 := wr_sent ?w1 0 @ [f])"
    "wr_queued w2 = wr_queued ?w1" "wr_taken w2 = wr_taken ?w1"
    using acknowledged [of ?w1 0 "[]" cd, OF _ assms(2)] by blast
  from writers_steps [OF r w2(1)] w2(2-) show ?thesis
    by (intro exI [of _ w2] exI [of _ f] exI [of _ sq]) (simp add: writers_of_def)
qed

lemma both_writers:
  assumes "fresh_session sid now s0" "\<And>c. cd_control cd c \<noteq> None"
  shows "\<exists>w f g. writers_reach cd s0 w \<and> wr_pc w 0 = WrSelect \<and> wr_pc w 1 = WrSelect \<and> wr_sent w 0 = [f] \<and> wr_sent w 1 = [g] \<and>
    wr_queued w = [] \<and> wr_taken w = [] \<and> ss_wire (wr_sess w) = [] \<and> ss_att (wr_sess w) = Some 1 \<and> ss_epoch (wr_sess w) = 2 \<and>
    length (ss_atts (wr_sess w)) = 2 \<and> ats_cancelled (ss_atts (wr_sess w) ! 0)"
proof -
  from first_writer [OF assms] obtain w f sq where w: "writers_reach cd s0 w" "wr_sess w = (attach_bind 1 0 s0)\<lparr>ss_downlinkSeq := sq\<rparr>"
    "wr_pc w = (\<lambda>_. WrNone)(0 := WrSelect)" "wr_sent w = (\<lambda>_. [])(0 := [f])" "wr_queued w = []" "wr_taken w = []" by blast
  define s where "s = reader_exit 0 (attach_supersede (wr_sess w))"
  have s: "ss_atts s = [\<lparr>ats_epoch = 1, ats_stale = True, ats_cancelled = True, ats_closed = True, ats_readExited = True, ats_writeExited = False\<rparr>]"
    "ss_att s = Some 0" "ss_epoch s = 1" "ss_wire s = []" "\<not> ss_closed s" "ss_id s = ss_id s0" "ss_downlinkSeq s = sq" "ss_uplinkFloor s = 0"
    "ss_runCancelled s = False"
    using assms(1) by (simp_all add: s_def w(2) attach_bind_def touch_def fresh_session_def attach_supersede_def reader_exit_def set_att_def)
  have "beside_writers (wr_sess w) s"
    using assms(1) s unfolding beside_writers_def
    by (simp add: w(2) attach_bind_def touch_def fresh_session_def epochs_def)
  with w(1) have r1: "writers_reach cd s0 (w\<lparr>wr_sess := s\<rparr>)" (is "writers_reach cd s0 ?w1")
    by (rule writers_reach.step [OF _ writers_step.others])
  have sup: "attach_supersede s = s" by (simp add: attach_supersede_def set_att_def s)
  have a1: "attach 2 0 (wr_sess ?w1) = Some (Inr (attach_bind 2 0 s, 1))"
    by (simp add: attach_def attach_check_def s sup word_le_nat_alt)
  let ?w2 = "?w1\<lparr>wr_sess := attach_bind 2 0 s, wr_pc := (wr_pc ?w1)(1 := WrStart [])\<rparr>"
  have r2: "writers_reach cd s0 ?w2" by (rule writers_reach.step [OF r1 writers_step.attached [OF a1]])
  have "wr_pc ?w2 1 = WrStart []" "\<not> ats_closed (ss_atts (wr_sess ?w2) ! 1)" by (simp_all add: attach_bind_def touch_def s)
  then obtain w3 g sq2 where w3: "(writers_step cd)\<^sup>*\<^sup>* ?w2 w3" "wr_sess w3 = (wr_sess ?w2)\<lparr>ss_downlinkSeq := sq2\<rparr>"
    "wr_pc w3 = (wr_pc ?w2)(1 := WrSelect)" "wr_sent w3 = (wr_sent ?w2)(1 := wr_sent ?w2 1 @ [g])"
    "wr_queued w3 = wr_queued ?w2" "wr_taken w3 = wr_taken ?w2"
    using acknowledged [of ?w2 1 "[]" cd, OF _ assms(2)] by blast
  from writers_steps [OF r2 w3(1)] w3(2-) w s show ?thesis
    by (intro exI [of _ w3] exI [of _ f] exI [of _ g]) (simp add: attach_bind_def touch_def)
qed

text \<open>
  C31: A takeover can lose a message of the new connection: the superseded writer and the new one are both in their
  select with the new connection attached and acknowledged; then any message, a \<open>BARGE_IN\<close> too, may be received by the
  superseded writer, which can only fail to write it, so that nobody ever sends it.
\<close>

theorem takeover_loses_message:
  assumes "fresh_session sid now s0" "\<And>c. cd_control cd c \<noteq> None"
  shows "\<exists>w w'. writers_reach cd s0 w \<and> ss_att (wr_sess w) = Some 1 \<and> ss_epoch (wr_sess w) = 2 \<and>
    wr_pc w 1 = WrSelect \<and> length (wr_sent w 1) = 1 \<and> wr_queued w = [] \<and>
    (writers_step cd)\<^sup>*\<^sup>* w w' \<and> wr_queued w' = [m] \<and> ss_wire (wr_sess w') = [] \<and> msgs_of 0 w' = [m] \<and>
    wr_sent w' = wr_sent w \<and> (\<exists>f. wr_pc w' 0 = WrGone [f] [m])"
proof -
  from both_writers [OF assms] obtain w f g where w: "writers_reach cd s0 w" "wr_pc w 0 = WrSelect" "wr_pc w 1 = WrSelect"
    "wr_sent w 0 = [f]" "wr_sent w 1 = [g]" "wr_queued w = []" "wr_taken w = []" "ss_wire (wr_sess w) = []"
    "ss_att (wr_sess w) = Some 1" "ss_epoch (wr_sess w) = 2" by blast
  let ?w1 = "w\<lparr>wr_sess := (wr_sess w)\<lparr>ss_wire := ss_wire (wr_sess w) @ [m]\<rparr>, wr_queued := wr_queued w @ [m]\<rparr>"
  have 1: "writers_step cd w ?w1" by (rule writers_step.queue) (simp add: w wireCap_def)
  let ?w2 = "?w1\<lparr>wr_sess := (wr_sess ?w1)\<lparr>ss_wire := []\<rparr>, wr_pc := (wr_pc ?w1)(0 := WrHold m), wr_taken := wr_taken ?w1 @ [(0, m)]\<rparr>"
  have 2: "writers_step cd ?w1 ?w2" by (rule writers_step.receive) (simp_all add: w)
  obtain s h where h: "writeFrame (wm_typ m) (wm_tsUs m) (wm_payload m) (wr_sess ?w2) = (s, h)" by force
  let ?w3 = "writer_writes 0 s h [m] ?w2"
  have 3: "writers_step cd ?w2 ?w3" by (rule writers_step.number [OF _ h]) simp
  let ?w4 = "writer_goes 0 [h] [m] ?w3"
  have 4: "writers_step cd ?w3 ?w4" by (rule writers_step.write_fails) (simp add: writer_writes_def)
  have "(writers_step cd)\<^sup>*\<^sup>* w ?w4"
    using 1 2 3 4 by (meson converse_rtranclp_into_rtranclp rtranclp.rtrancl_refl)
  moreover have "ss_wire s = []" using h by (auto simp: writeFrame_def Let_def)
  ultimately show ?thesis
    using w by (intro exI [of _ w] exI [of _ ?w4]) (simp add: writer_goes_def writer_writes_def msgs_of_def)
qed

theorem takeover_loses_message_witness:
  "\<exists>s w w'. newSession (Default []) ''x'' 0 = Some (Inr s) \<and> writers_reach demo_codec s w \<and> ss_epoch (wr_sess w) = 2 \<and>
     wr_queued w = [] \<and> (writers_step demo_codec)\<^sup>*\<^sup>* w w' \<and>
     wr_queued w' = [\<lparr>wm_typ = FRAME_TYPE_CONTROL, wm_tsUs = 0, wm_payload = [3]\<rparr>] \<and> wr_sent w' = wr_sent w \<and> ss_wire (wr_sess w') = []"
proof -
  obtain s where s: "newSession (Default []) ''x'' 0 = Some (Inr s)" "fresh_session ''x'' 0 s"
    using newSession_Default by blast
  have "cd_control demo_codec c \<noteq> None" for c by (simp add: demo_codec_def)
  from takeover_loses_message [OF s(2) this, of "\<lparr>wm_typ = FRAME_TYPE_CONTROL, wm_tsUs = 0, wm_payload = [3]\<rparr>"] s(1)
  show ?thesis by blast
qed

text \<open>
  A writer never outlives its attachment: once the attachment is cancelled, by its reader's end, a takeover or the
  end of the session, a writer that finds its connection failing is gone after at most two steps of its own, with
  no message taken and no frame sent meanwhile, from every reachable state.
\<close>

theorem cancelled_writer_goes:
  assumes "writers_reach cd s0 w" "no_writers s0" "ats_cancelled (ss_atts (wr_sess w) ! a)" "a < length (ss_atts (wr_sess w))"
  shows "\<exists>n w' fs ms. n \<le> 2 \<and> (writers_step cd ^^ n) w w' \<and> wr_pc w' a = WrGone fs ms \<and> wr_sent w' = wr_sent w \<and> wr_taken w' = wr_taken w"
proof -
  have go: "writers_step cd w1 (writer_goes a fs ms w1) \<Longrightarrow> wr_sent w1 = wr_sent w \<Longrightarrow> wr_taken w1 = wr_taken w \<Longrightarrow>
      w1 = w \<or> writers_step cd w w1 \<Longrightarrow> ?thesis" for w1 fs ms
    by (intro exI [of _ "if w1 = w then 1 else 2"] exI [of _ "writer_goes a fs ms w1"] exI [of _ fs] exI [of _ ms])
      (auto simp: writer_goes_def eq_OO numeral_2_eq_2)
  have o: "writer_ok cd w a" using writers_reach_ok [OF assms(1,2)] by (simp add: writers_inv_def)
  show ?thesis
  proof (cases "wr_pc w a")
    case WrNone
    with o assms(4) show ?thesis by (simp add: writer_ok_def)
  next
    case (WrStart d)
    show ?thesis
    proof (cases "write_ack cd a d (wr_sess w)")
      case None
      from go [OF writers_step.ack_fails [OF WrStart None]] show ?thesis by simp
    next
      case (Some r)
      then obtain s f where r: "write_ack cd a d (wr_sess w) = Some (s, f)" by (cases r) auto
      have "writers_step cd (writer_writes a s f [] w) (writer_goes a [f] [] (writer_writes a s f [] w))"
        by (rule writers_step.write_fails) (simp add: writer_writes_def)
      from go [OF this] writers_step.ack [OF WrStart r] show ?thesis by (simp add: writer_writes_def)
    qed
  next
    case (WrHold m)
    obtain s f where r: "writeFrame (wm_typ m) (wm_tsUs m) (wm_payload m) (wr_sess w) = (s, f)" by force
    have "writers_step cd (writer_writes a s f [m] w) (writer_goes a [f] [m] (writer_writes a s f [m] w))"
      by (rule writers_step.write_fails) (simp add: writer_writes_def)
    from go [OF this] writers_step.number [OF WrHold r] show ?thesis by (simp add: writer_writes_def)
  next
    case WrSelect
    from go [OF writers_step.cancelled [OF this assms(3)]] show ?thesis by simp
  next
    case (WrWriting f ms)
    from go [OF writers_step.write_fails [OF this]] show ?thesis by simp
  next
    case WrPinging
    from go [OF writers_step.ping_fails [OF this]] show ?thesis by simp
  next
    case (WrGone fs ms)
    then show ?thesis by (intro exI [of _ 0] exI [of _ w]) auto
  qed
qed

lemma fresh_no_writers: "fresh_session sid now s \<Longrightarrow> no_writers s"
  by (simp add: fresh_session_def no_writers_def)

text \<open>After a takeover each of the two connections has the acknowledgement of its own epoch, with a number of its own.\<close>

theorem downlink_handover_witness:
  "\<exists>s w f g. newSession (Default []) ''x'' 0 = Some (Inr s) \<and> writers_reach demo_codec s w \<and>
     wr_sent w 0 = [f] \<and> wr_sent w 1 = [g] \<and> acknowledges demo_codec (wr_sess w) 0 f \<and> acknowledges demo_codec (wr_sess w) 1 g \<and>
     prefix (wr_sent w 1) (frames_of 1 w)"
proof -
  obtain s where s: "newSession (Default []) ''x'' 0 = Some (Inr s)" "fresh_session ''x'' 0 s"
    using newSession_Default by blast
  have "cd_control demo_codec c \<noteq> None" for c by (simp add: demo_codec_def)
  from both_writers [OF s(2) this] obtain w f g where w: "writers_reach demo_codec s w" "wr_sent w 0 = [f]" "wr_sent w 1 = [g]" by blast
  note h = downlink_handover [OF w(1) fresh_no_writers [OF s(2)]]
  from h [of 0] h [of 1] w s(1) show ?thesis
    by (intro exI [of _ s] exI [of _ w] exI [of _ f] exI [of _ g]) simp
qed

theorem cancelled_writer_goes_witness:
  "\<exists>s w (w' :: writers) fs ms. newSession (Default []) ''x'' 0 = Some (Inr s) \<and> writers_reach demo_codec s w \<and> wr_pc w 0 = WrSelect \<and>
     ats_cancelled (ss_atts (wr_sess w) ! 0) \<and> wr_pc w' 0 = WrGone fs ms \<and> wr_sent w' = wr_sent w"
proof -
  obtain s where s: "newSession (Default []) ''x'' 0 = Some (Inr s)" "fresh_session ''x'' 0 s"
    using newSession_Default by blast
  have "cd_control demo_codec c \<noteq> None" for c by (simp add: demo_codec_def)
  from both_writers [OF s(2) this] obtain w where w: "writers_reach demo_codec s w" "wr_pc w 0 = WrSelect"
    "length (ss_atts (wr_sess w)) = 2" "ats_cancelled (ss_atts (wr_sess w) ! 0)" by blast
  from w(3) have "0 < length (ss_atts (wr_sess w))" by simp
  from cancelled_writer_goes [OF w(1) fresh_no_writers [OF s(2)] w(4) this] obtain w' :: writers and fs ms where
    "wr_pc w' 0 = WrGone fs ms" "wr_sent w' = wr_sent w" by blast
  with w s(1) show ?thesis
    by (intro exI [of _ s] exI [of _ w] exI [of _ w'] exI [of _ fs] exI [of _ ms]) simp
qed

end
