(* ===== verification/Process.thy ===== *)
theory Process
  imports Assembly Manager
begin

text \<open>
  The life of the server process: \<open>Run\<close> and \<open>handleWS\<close> of \<open>internal/transport/server.go\<close>, and the end of
  \<open>cmd/server/main.go\<close>, where the main goroutine serves, the manager's goroutine reaps and the goroutine of \<open>Run\<close>
  shuts the listener down, interleaved in every way. \<open>net/http\<close> does what it documents: \<open>Shutdown\<close> makes
  \<open>ListenAndServe\<close> return at once with \<open>ErrServerClosed\<close>, and leaves upgraded connections alone. When main returns
  the process is gone with all its goroutines.
\<close>

section \<open>One connection\<close>

text \<open>What is done to an accepted WebSocket: the limit on messages, what the handler does, the close.\<close>

datatype 'c ws_call = SetReadLimit nat | ByHandler 'c | CloseConn StatusCode string

definition newWSConn :: "'c ws_call list" where
  "newWSConn = [SetReadLimit (HeaderSize + MaxPayload)]"

text \<open>\<open>accepted\<close> tells whether the upgrade succeeded; its error is only logged, and so is the handler's.\<close>

definition handleWS :: "bool \<Rightarrow> 'c list \<times> 'e option \<Rightarrow> 'c ws_call list" where
  "handleWS accepted h = (if accepted then newWSConn @ map ByHandler (fst h) @ [CloseConn StatusNormalClosure ''bye''] else [])"

fun read_limit :: "'c ws_call list \<Rightarrow> nat option" where
  "read_limit [] = None"
| "read_limit (SetReadLimit n # _) = Some n"
| "read_limit (_ # cs) = read_limit cs"

text \<open>
  Every frame fits through an accepted connection, and every accepted connection is closed once, last, whatever the handler
  does: the read limit is the size of the largest frame \<open>MarshalBinary\<close> writes, so no frame the codec produces is
  refused as too large and every frame of a larger payload is not produced.
\<close>

theorem connection_bracketed:
  assumes "read_limit (handleWS True h) = Some n"
  shows "(\<forall>f bs. MarshalBinary f = Inr bs \<longrightarrow> length bs \<le> n) \<and> (\<exists>f bs. MarshalBinary f = Inr bs \<and> length bs = n) \<and>
    last (handleWS True h) = CloseConn StatusNormalClosure ''bye'' \<and>
    length (filter (\<lambda>c. case c of CloseConn _ _ \<Rightarrow> True | _ \<Rightarrow> False) (handleWS True h)) = 1"
proof -
  from assms have n: "n = HeaderSize + MaxPayload" by (simp add: handleWS_def newWSConn_def)
  have "length bs \<le> n" if "MarshalBinary f = Inr bs" for f bs
    using that by (auto simp: n MarshalBinary_def AppendBinary_def split: if_splits)
  moreover have "MarshalBinary \<lparr>frame_type = 1, frame_seq = 0, frame_ts = 0, frame_payload = replicate MaxPayload 0\<rparr> =
      Inr (encodeHeader \<lparr>frame_type = 1, frame_seq = 0, frame_ts = 0, frame_payload = replicate MaxPayload 0\<rparr> @ replicate MaxPayload 0)"
    by (simp add: MarshalBinary_def AppendBinary_def)
  then have "\<exists>f bs. MarshalBinary f = Inr bs \<and> length bs = n" by (force simp: n)
  moreover have "filter (\<lambda>c. case c of CloseConn _ _ \<Rightarrow> True | _ \<Rightarrow> False) (map ByHandler cs) = []" for cs :: "'a list"
    by (induction cs) simp_all
  ultimately show ?thesis by (simp add: handleWS_def newWSConn_def)
qed

theorem connection_bracketed_witness:
  "read_limit (handleWS True ([''write''], Some ''EOF'')) = Some 65560 \<and>
   last (handleWS True ([''write''], Some ''EOF'')) = CloseConn 1000 ''bye''"
proof -
  have "read_limit (handleWS True ([''write''], Some ''EOF'')) = Some 65560"
    by (simp add: handleWS_def newWSConn_def HeaderSize_def MaxPayload_def)
  with connection_bracketed [OF this] show ?thesis by (simp add: StatusNormalClosure_def)
qed

section \<open>Session identifiers\<close>

definition hex_char :: "u8 \<Rightarrow> char" where
  "hex_char d = char_of (if d < 10 then 48 + unat d else 87 + unat d)"

text \<open>\<open>hex.EncodeToString\<close> of the sixteen bytes drawn.\<close>

definition newSessionID :: "u8 list \<Rightarrow> string" where
  "newSessionID b = concat (map (\<lambda>x. [hex_char (drop_bit 4 x), hex_char (x AND 15)]) b)"

lemma unat_less_256: "unat (z :: u8) < 256"
  using unsigned_less [of z] by simp

lemma hex_char_inj:
  assumes "x < 16" "y < 16" "hex_char x = hex_char y"
  shows "x = y"
proof -
  have n: "unat x < 16" "unat y < 16" using assms(1,2) unat_mono [of x 16] unat_mono [of y 16] by simp_all
  let ?h = "\<lambda>d :: u8. if d < 10 then 48 + unat d else 87 + unat d"
  have "of_char (hex_char x) = ?h x" "of_char (hex_char y) = ?h y" using n by (simp_all add: hex_char_def)
  with assms(3) have "?h x = ?h y" by metis
  then show ?thesis using n by (auto simp: word_less_nat_alt word_unat_eq_iff split: if_splits)
qed

lemma session_ids_distinct: "newSessionID b = newSessionID c \<Longrightarrow> b = c"
proof (induction b arbitrary: c)
  case Nil
  then show ?case by (cases c) (simp_all add: newSessionID_def)
next
  case (Cons x b)
  then obtain y c' where c: "c = y # c'" by (cases c) (simp_all add: newSessionID_def)
  with Cons have e: "hex_char (drop_bit 4 x) = hex_char (drop_bit 4 y)" "hex_char (x AND 15) = hex_char (y AND 15)" "b = c'"
    by (auto simp: newSessionID_def)
  have hi: "drop_bit 4 z < (16 :: u8)" for z :: u8 
    using unat_less_256 [of z] by (simp add: word_less_nat_alt unat_drop_bit_eq drop_bit_nat_def)
  have lo: "z AND 15 < (16 :: u8)" for z :: u8
    using word_and_le1 [of z 15] by (simp add: word_le_nat_alt word_less_nat_alt)
  have "drop_bit 4 x = drop_bit 4 y" "x AND 15 = y AND 15" using hex_char_inj hi lo e(1,2) by metis+
  moreover have "z = push_bit 4 (drop_bit 4 z) + (z AND 15)" for z :: u8
    using bits_ident [of 4 z] by (simp add: take_bit_eq_mask mask_numeral)
  ultimately have "x = y" by metis
  with c e(3) show ?case by simp
qed

section \<open>Run\<close>

datatype http_state = Listening | ListenerShut
datatype stop_pc = StWaiting | StShutting | StDone
datatype run_pc = RnListening | RnReturned "string option"

record serving =
  rn_http :: http_state
  rn_stop :: stop_pc
  rn_pc :: run_pc

definition run_init :: serving where
  "run_init = \<lparr>rn_http = Listening, rn_stop = StWaiting, rn_pc = RnListening\<rparr>"

text \<open>The steps of \<open>Run\<close> and of its goroutine; \<open>cancelled\<close> is the context.\<close>

inductive Server_Run :: "bool \<Rightarrow> serving \<Rightarrow> serving \<Rightarrow> bool" for cancelled :: bool where
  shutdown_begins: "rn_stop r = StWaiting \<Longrightarrow> cancelled \<Longrightarrow> Server_Run cancelled r (r\<lparr>rn_stop := StShutting, rn_http := ListenerShut\<rparr>)"
| shutdown_ends: "rn_stop r = StShutting \<Longrightarrow> Server_Run cancelled r (r\<lparr>rn_stop := StDone\<rparr>)"
| listen_fails: "rn_pc r = RnListening \<Longrightarrow> rn_http r = Listening \<Longrightarrow> Server_Run cancelled r (r\<lparr>rn_pc := RnReturned (Some e)\<rparr>)"
| listen_closed: "rn_pc r = RnListening \<Longrightarrow> rn_http r = ListenerShut \<Longrightarrow> Server_Run cancelled r (r\<lparr>rn_pc := RnReturned None\<rparr>)"

section \<open>The process\<close>

text \<open>The manager's goroutine: in its loop, in the loop that reclaims what its snapshot held, or back.\<close>

datatype reaper_pc = RpLoop | RpReclaiming "string list" | RpDone

definition Manager_snapshot :: "Manager \<Rightarrow> string list" where
  "Manager_snapshot mgr = map fst (mg_sessions mgr)"

record server_process =
  pr_mgr :: Manager
  pr_cancelled :: bool
  pr_run :: serving
  pr_reaper :: reaper_pc
  pr_exit :: "nat option"

definition process_start :: "Config \<Rightarrow> server_process" where
  "process_start cfg = \<lparr>pr_mgr = NewManager cfg (Some M_New), pr_cancelled = False, pr_run = run_init, pr_reaper = RpLoop, pr_exit = None\<rparr>"

text \<open>No rule applies once main has returned.\<close>

inductive process_step :: "codec \<Rightarrow> server_process \<Rightarrow> server_process \<Rightarrow> bool" for cd :: codec where
  interrupt: "pr_exit p = None \<Longrightarrow> process_step cd p (p\<lparr>pr_cancelled := True\<rparr>)"
| connect: "pr_exit p = None \<Longrightarrow> length b = 16 \<Longrightarrow> Handler cd (newSessionID b) now r (pr_mgr p) = Some (mgr, h) \<Longrightarrow>
    process_step cd p (p\<lparr>pr_mgr := mgr\<rparr>)"
| client: "pr_exit p = None \<Longrightarrow> map_of (mg_sessions (pr_mgr p)) sid = Some s \<Longrightarrow>
    process_step cd p (p\<lparr>pr_mgr := set_session sid s' (pr_mgr p)\<rparr>)"
| client_stop: "pr_exit p = None \<Longrightarrow> process_step cd p (p\<lparr>pr_mgr := fst (reclaim sid (pr_mgr p))\<rparr>)"
| reap: "pr_exit p = None \<Longrightarrow> pr_reaper p = RpLoop \<Longrightarrow> process_step cd p (p\<lparr>pr_mgr := fst (reapIdle now (pr_mgr p))\<rparr>)"
| reap_stops: "pr_exit p = None \<Longrightarrow> pr_reaper p = RpLoop \<Longrightarrow> pr_cancelled p \<Longrightarrow>
    process_step cd p (p\<lparr>pr_reaper := RpReclaiming (Manager_snapshot (pr_mgr p))\<rparr>)"
| reclaim_next: "pr_exit p = None \<Longrightarrow> pr_reaper p = RpReclaiming (sid # sids) \<Longrightarrow>
    process_step cd p (p\<lparr>pr_mgr := fst (reclaim sid (pr_mgr p)), pr_reaper := RpReclaiming sids\<rparr>)"
| reclaim_done: "pr_exit p = None \<Longrightarrow> pr_reaper p = RpReclaiming [] \<Longrightarrow> process_step cd p (p\<lparr>pr_reaper := RpDone\<rparr>)"
| serve: "pr_exit p = None \<Longrightarrow> Server_Run (pr_cancelled p) (pr_run p) r \<Longrightarrow> process_step cd p (p\<lparr>pr_run := r\<rparr>)"
| main_exits: "pr_exit p = None \<Longrightarrow> rn_pc (pr_run p) = RnReturned err \<Longrightarrow>
    process_step cd p (p\<lparr>pr_exit := Some (if err = None then 0 else 1)\<rparr>)"

abbreviation process_steps :: "codec \<Rightarrow> server_process \<Rightarrow> server_process \<Rightarrow> bool" where
  "process_steps cd \<equiv> (process_step cd)\<^sup>*\<^sup>*"

section \<open>How the process ends\<close>

definition process_ok :: "server_process \<Rightarrow> bool" where
  "process_ok p \<longleftrightarrow> (rn_stop (pr_run p) \<noteq> StWaiting \<longrightarrow> pr_cancelled p) \<and>
     (rn_http (pr_run p) = ListenerShut \<longleftrightarrow> rn_stop (pr_run p) \<noteq> StWaiting) \<and>
     (rn_pc (pr_run p) = RnReturned None \<longrightarrow> pr_cancelled p) \<and>
     (pr_reaper p \<noteq> RpLoop \<longrightarrow> pr_cancelled p) \<and>
     (pr_exit p = Some 0 \<longrightarrow> pr_cancelled p \<and> rn_pc (pr_run p) = RnReturned None) \<and>
     (pr_exit p \<noteq> None \<longrightarrow> rn_pc (pr_run p) \<noteq> RnListening)"

lemma process_step_ok: "process_step cd p p' \<Longrightarrow> process_ok p \<Longrightarrow> process_ok p'"
  by (induction rule: process_step.induct) (auto simp: process_ok_def elim!: Server_Run.cases)

lemma process_start_ok: "process_ok (process_start cfg)"
  by (simp add: process_ok_def process_start_def run_init_def)

lemma process_steps_ok: "process_steps cd (process_start cfg) p \<Longrightarrow> process_ok p"
  by (induction rule: rtranclp_induct) (auto simp: process_start_ok intro: process_step_ok)


lemma reclaim_sessions: "mg_sessions (fst (reclaim sid mgr)) = filter (\<lambda>p. fst p \<noteq> sid) (mg_sessions mgr)"
proof (cases "map_of (mg_sessions mgr) sid")
  case None
  then have "\<forall>p \<in> set (mg_sessions mgr). fst p \<noteq> sid" by (auto simp: map_of_eq_None_iff)
  with None show ?thesis by (simp add: reclaim_def)
qed (simp add: reclaim_def reclaim_account_def reclaim_remove_def delete_filter Let_def)

lemma fst_reclaim_all:
  "fst (reclaim_all (sid # sids) mgr) = fst (reclaim_all sids (fst (reclaim sid mgr)))"
  by (simp add: split_beta)

lemma reclaim_all_sessions: "mg_sessions (fst (reclaim_all sids mgr)) = filter (\<lambda>p. fst p \<notin> set sids) (mg_sessions mgr)"
proof (induction sids arbitrary: mgr)
  case (Cons sid sids)
  from Cons [of "fst (reclaim sid mgr)"] show ?case
    by (simp add: fst_reclaim_all reclaim_sessions conj_commute del: reclaim_all.simps)
qed simp

lemma reclaim_all_snapshot: "Count (fst (reclaim_all (Manager_snapshot mgr) mgr)) = 0"
  by (simp add: Count_def reclaim_all_sessions Manager_snapshot_def filter_empty_conv)

text \<open>From a process that serves to the point where \<open>Run\<close> has returned.\<close>

lemma run_returns:
  assumes "pr_exit p = None" "rn_pc (pr_run p) = RnListening" "rn_stop (pr_run p) = StWaiting"
  shows "process_steps cd p (p\<lparr>pr_cancelled := True, pr_run := \<lparr>rn_http = ListenerShut, rn_stop = StShutting, rn_pc = RnReturned None\<rparr>\<rparr>)"
proof -
  let ?p1 = "p\<lparr>pr_cancelled := True\<rparr>"
  have 1: "process_step cd p ?p1" using assms(1) by (rule process_step.interrupt)
  let ?r2 = "(pr_run p)\<lparr>rn_stop := StShutting, rn_http := ListenerShut\<rparr>"
  have 2: "process_step cd ?p1 (?p1\<lparr>pr_run := ?r2\<rparr>)"
    by (rule process_step.serve) (use assms in \<open>auto intro: Server_Run.shutdown_begins\<close>)
  have 3: "process_step cd (?p1\<lparr>pr_run := ?r2\<rparr>) (?p1\<lparr>pr_run := ?r2\<rparr>\<lparr>pr_run := ?r2\<lparr>rn_pc := RnReturned None\<rparr>\<rparr>)"
    by (rule process_step.serve) (use assms in \<open>auto intro: Server_Run.listen_closed\<close>)
  have "process_steps cd p (?p1\<lparr>pr_run := ?r2\<rparr>\<lparr>pr_run := ?r2\<lparr>rn_pc := RnReturned None\<rparr>\<rparr>)"
    by (rule rtranclp.rtrancl_into_rtrancl, rule rtranclp.rtrancl_into_rtrancl, rule r_into_rtranclp) (rule 1 2 3)+
  moreover have "?r2\<lparr>rn_pc := RnReturned None\<rparr> = \<lparr>rn_http = ListenerShut, rn_stop = StShutting, rn_pc = RnReturned None\<rparr>"
    by (cases "pr_run p") simp
  ultimately show ?thesis by simp
qed

lemma reaper_finishes:
  assumes "pr_exit p = None" "pr_reaper p = RpReclaiming sids"
  shows "process_steps cd p (p\<lparr>pr_mgr := fst (reclaim_all sids (pr_mgr p)), pr_reaper := RpDone\<rparr>)"
  using assms
proof (induction sids arbitrary: p)
  case Nil
  then have "process_step cd p (p\<lparr>pr_reaper := RpDone\<rparr>)" by (rule process_step.reclaim_done)
  then show ?case by simp
next
  case (Cons sid sids)
  let ?p = "p\<lparr>pr_mgr := fst (reclaim sid (pr_mgr p)), pr_reaper := RpReclaiming sids\<rparr>"
  have "process_step cd p ?p" using Cons.prems by (rule process_step.reclaim_next)
  moreover have "process_steps cd ?p (?p\<lparr>pr_mgr := fst (reclaim_all sids (pr_mgr ?p)), pr_reaper := RpDone\<rparr>)"
    using Cons.prems by (intro Cons.IH) simp_all
  ultimately show ?case
    by (simp add: fst_reclaim_all converse_rtranclp_into_rtranclp del: reclaim_all.simps)
qed

text \<open>
  C29: The shutdown is a race: a process that ends with code 0 was interrupted; from every state in which it serves and the
  reaper is in its loop, an interrupt can be followed by an exit with code 0 that leaves the manager as it is, with no session
  reclaimed or closed, and also by one that has reclaimed them all: main waits for no other goroutine.
\<close>

theorem shutdown_race:
  assumes "process_steps cd (process_start cfg) p" "pr_exit p = None" "rn_pc (pr_run p) = RnListening"
    "rn_stop (pr_run p) = StWaiting" "pr_reaper p = RpLoop"
  shows "(\<forall>p'. process_steps cd p p' \<and> pr_exit p' = Some 0 \<longrightarrow> pr_cancelled p') \<and>
    (\<exists>p'. process_steps cd p p' \<and> pr_exit p' = Some 0 \<and> pr_mgr p' = pr_mgr p) \<and>
    (\<exists>p'. process_steps cd p p' \<and> pr_exit p' = Some 0 \<and> pr_mgr p' = fst (Manager_Run [RunDone] (pr_mgr p)) \<and> Count (pr_mgr p') = 0)"
proof -
  let ?q = "p\<lparr>pr_cancelled := True, pr_run := \<lparr>rn_http = ListenerShut, rn_stop = StShutting, rn_pc = RnReturned None\<rparr>\<rparr>"
  have q: "process_steps cd p ?q" using assms(2-4) by (rule run_returns)
  have exit: "process_step cd p1 (p1\<lparr>pr_exit := Some 0\<rparr>)" if "pr_exit p1 = None" "rn_pc (pr_run p1) = RnReturned None" for p1
    using process_step.main_exits [OF that] by simp
  have "\<exists>p'. process_steps cd p p' \<and> pr_exit p' = Some 0 \<and> pr_mgr p' = pr_mgr p"
    using rtranclp.rtrancl_into_rtrancl [OF q exit] assms(2) by fastforce
  moreover have "\<exists>p'. process_steps cd p p' \<and> pr_exit p' = Some 0 \<and> pr_mgr p' = fst (Manager_Run [RunDone] (pr_mgr p)) \<and> Count (pr_mgr p') = 0"
  proof -
    let ?q1 = "?q\<lparr>pr_reaper := RpReclaiming (Manager_snapshot (pr_mgr p))\<rparr>"
    let ?q2 = "?q1\<lparr>pr_mgr := fst (reclaim_all (Manager_snapshot (pr_mgr p)) (pr_mgr ?q1)), pr_reaper := RpDone\<rparr>"
    have "process_step cd ?q ?q1" using process_step.reap_stops [of ?q cd] assms(2,5) by simp
    moreover have "process_steps cd ?q1 ?q2" using assms(2) by (intro reaper_finishes) simp_all
    ultimately have "process_steps cd p ?q2" using q by (meson converse_rtranclp_into_rtranclp rtranclp_trans)
    from rtranclp.rtrancl_into_rtrancl [OF this exit] have "process_steps cd p (?q2\<lparr>pr_exit := Some 0\<rparr>)" using assms(2) by simp
    moreover have "fst (reclaim_all (Manager_snapshot (pr_mgr p)) (pr_mgr p)) = fst (Manager_Run [RunDone] (pr_mgr p))"
      by (simp add: Manager_snapshot_def)
    ultimately show ?thesis using reclaim_all_snapshot [of "pr_mgr p"]
      by (intro exI [of _ "?q2\<lparr>pr_exit := Some 0\<rparr>"]) simp
  qed
  moreover have "pr_cancelled p'" if "process_steps cd p p'" "pr_exit p' = Some 0" for p'
    using process_steps_ok [OF rtranclp_trans [OF assms(1) that(1)]] that(2) by (simp add: process_ok_def)
  ultimately show ?thesis by blast
qed

text \<open>A client has a session; the process ends well and the session is still there, or it has been reclaimed.\<close>

theorem shutdown_race_witness:
  "\<exists>p p1 p2. process_steps start_codec (process_start (Default [])) p \<and> Count (pr_mgr p) = 1 \<and>
     process_steps start_codec p p1 \<and> pr_exit p1 = Some 0 \<and> Count (pr_mgr p1) = 1 \<and>
     process_steps start_codec p p2 \<and> pr_exit p2 = Some 0 \<and> Count (pr_mgr p2) = 0"
proof -
  let ?init = "process_start (Default [])"
  let ?start = "\<lparr>cp_Kind = KIND_START, cp_Detail = [], cp_SessionId = ''gone'', cp_Epoch = 7, cp_LastSeq = 0\<rparr>"
  let ?id = "newSessionID (replicate 16 0)"
  have m: "pr_mgr ?init = NewManager (Default []) (Some M_New)" by (simp add: process_start_def)
  obtain s where s: "newSession (Default []) ?id 0 = Some (Inr s)" "fresh_session ?id 0 s" using newSession_Default by blast
  then have "ss_att s = None" "\<not> ss_closed s" "ss_epoch s = 0" "ss_atts s = []" by (simp_all add: fresh_session_def)
  then have "attach 1 0 s = Some (Inr (attach_bind 1 0 s, 0))"
    by (simp add: attach_def attach_check_def attach_supersede_def word_le_nat_alt)
  with s(1) obtain mgr h where h: "Handler start_codec ?id 0 (Inr stop_frame) (pr_mgr ?init) = Some (mgr, h)" "Count mgr = 1"
    by (simp add: m Handler_def stop_frame_def start_codec_def handshake_start_def resolve_def NewManager_def set_session_def
        Count_def Let_def)
  let ?p = "?init\<lparr>pr_mgr := mgr\<rparr>"
  have "process_step start_codec ?init ?p"
    by (rule process_step.connect [OF _ _ h(1)]) (simp_all add: process_start_def)
  then have r: "process_steps start_codec ?init ?p" by simp
  from shutdown_race [OF r] obtain p1 p2 where "process_steps start_codec ?p p1" "pr_exit p1 = Some 0" "pr_mgr p1 = pr_mgr ?p"
    "process_steps start_codec ?p p2" "pr_exit p2 = Some 0" "Count (pr_mgr p2) = 0"
    by (auto simp: process_start_def run_init_def)
  with r h(2) show ?thesis by (intro exI [of _ ?p] exI [of _ p1] exI [of _ p2]) simp
qed

end
