(* ===== verification/Capacitypage.thy ===== *)
theory Capacitypage
  imports Reportfiles
begin

text \<open>
  The page of the capacity curve: the script in the template of \<open>internal/loadgen/html.go\<close>, run on the report the page
  holds. A chart is the list of the shapes the script appends to the drawing, with their coordinates as real numbers
  (\<open>toFixed\<close> rounds, the printing of other numbers is the engine's); attributes that are the same for all shapes of a
  kind are left out. The date in the words of the reader's locale is a parameter.
\<close>

section \<open>Values\<close>

text \<open>A property of an object; anything else has none, which is \<open>undefined\<close>.\<close>

definition js_prop :: "string \<Rightarrow> json \<Rightarrow> json option" where
  "js_prop k j = (case j of JObj ms \<Rightarrow> map_of ms (runes_of k) | _ \<Rightarrow> None)"

definition js_number :: "json \<Rightarrow> real option" where
  "js_number j = (case j of JNum t \<Rightarrow> ParseFloat (map char_of t) | _ \<Rightarrow> None)"

definition js_text :: "string \<Rightarrow> json \<Rightarrow> runes" where
  "js_text k j = (case js_prop k j of Some (JStr s) \<Rightarrow> s | _ \<Rightarrow> [])"

definition get :: "string \<Rightarrow> json \<Rightarrow> real option" where
  "get k r = Option.bind (js_prop k r) js_number"

text \<open>\<open>r.k >= 0 ? r.k * c : null\<close>.\<close>

definition scaled :: "string \<Rightarrow> real \<Rightarrow> json \<Rightarrow> real option" where
  "scaled k c r = (case get k r of Some v \<Rightarrow> if v \<ge> 0 then Some (v * c) else None | None \<Rightarrow> None)"

section \<open>Text\<close>

definition esc_rune :: "nat \<Rightarrow> runes" where
  "esc_rune c = (if c = 38 then runes_of ''&amp;'' else if c = 60 then runes_of ''&lt;'' else if c = 62 then runes_of ''&gt;''
     else if c = 34 then runes_of ''&quot;'' else if c = 39 then runes_of ''&#39;'' else [c])"

definition esc :: "runes \<Rightarrow> runes" where
  "esc s = concat (map esc_rune s)"

definition verdict_html :: "json \<Rightarrow> runes" where
  "verdict_html a =
     (case get ''kneeConcurrency'' a of
        Some k \<Rightarrow> if k > 0
          then [23481, 37327, 25296, 28857] @ runes_of '': <b>'' @ [24182, 21457] @ runes_of '' '' @ d_text \<lfloor>k\<rfloor> @ runes_of ''</b>'' @ [65288, 22681] @ runes_of '': '' @
            js_text ''wall'' a @ [65289, 8212] @ runes_of '' ''
          else [26412, 27425] @ runes_of '' ramp '' @ [26410, 36798, 25296, 28857] @ runes_of '' '' @ [8212] @ runes_of '' ''
      | None \<Rightarrow> [26412, 27425] @ runes_of '' ramp '' @ [26410, 36798, 25296, 28857] @ runes_of '' '' @ [8212] @ runes_of '' '') @ esc (js_text ''reason'' a)"

section \<open>Charts\<close>

record series =
  se_label :: runes
  se_color :: string
  se_get :: "json \<Rightarrow> real option"

record chart_spec =
  cs_title :: runes
  cs_unit :: runes
  cs_budget :: "(real \<times> runes) option"
  cs_series :: "series list"

datatype content = Words runes | Number real

datatype shape = SLine real real real real string | SText real real content | SPolyline "(real \<times> real) list" string
  | SCircle real real string

record chart =
  ch_title :: runes
  ch_shapes :: "shape list"
  ch_legend :: "(string \<times> runes) list"

definition xpos :: "nat \<Rightarrow> nat \<Rightarrow> real" where
  "xpos n i = 64 + (860 - 64 - 16) * (if n = 1 then 1 / 2 else real i / real (n - 1))"

definition ypos :: "real \<Rightarrow> real \<Rightarrow> real" where
  "ypos ymax v = 14 + (300 - 14 - 40) * (1 - v / ymax)"

text \<open>\<open>v != null && v >= 0\<close>.\<close>

definition shown :: "real option \<Rightarrow> real option" where
  "shown v = (case v of Some x \<Rightarrow> if x \<ge> 0 then Some x else None | None \<Rightarrow> None)"

definition raise_max :: "real \<Rightarrow> real option \<Rightarrow> real" where
  "raise_max m v = (case shown v of Some x \<Rightarrow> if x > m then x else m | None \<Rightarrow> m)"

definition chart_ymax :: "chart_spec \<Rightarrow> json list \<Rightarrow> real" where
  "chart_ymax sp rs =
     (let m0 = (case cs_budget sp of Some (b, _) \<Rightarrow> b | None \<Rightarrow> 0);
          m = foldl (\<lambda>m s. foldl raise_max m (map (se_get s) rs)) m0 (cs_series sp) in
      (if m \<le> 0 then 1 else m) * (112 / 100))"

definition round_places :: "nat \<Rightarrow> real \<Rightarrow> real" where
  "round_places p v = of_int \<lfloor>v * 10 ^ p + 1 / 2\<rfloor> / 10 ^ p"

definition tick_label :: "real \<Rightarrow> real" where
  "tick_label v = (if v \<ge> 100 then of_int \<lfloor>v + 1 / 2\<rfloor> else round_places (if v \<ge> 10 then 0 else 1) v)"

definition grid_shapes :: "real \<Rightarrow> shape list" where
  "grid_shapes ymax = concat (map (\<lambda>k. let v = ymax * real k / 4; y = ypos ymax v in
     [SLine 64 y (860 - 16) y ''#21262d'', SText (64 - 8) (y + 4) (Number (tick_label v))]) [0..<5])"

definition x_ticks :: "real option list \<Rightarrow> shape list" where
  "x_ticks xs = map (\<lambda>(i, x). SText (xpos (length xs) i) (300 - 40 + 18)
     (case x of Some v \<Rightarrow> Number v | None \<Rightarrow> Words (runes_of ''undefined''))) (enumerate 0 xs)"

definition axis_labels :: "runes \<Rightarrow> shape list" where
  "axis_labels unit = [SText ((64 + 860 - 16) / 2) (300 - 6) (Words ([24182, 21457, 20250, 35805, 25968])), SText 14 (14 + 6) (Words unit)]"

definition budget_shapes :: "(real \<times> runes) option \<Rightarrow> real \<Rightarrow> shape list" where
  "budget_shapes b ymax =
     (case b of
        None \<Rightarrow> []
      | Some (v, label) \<Rightarrow> let y = ypos ymax v in
          [SLine 64 y (860 - 16) y ''#f85149'', SText (860 - 16 - 4) (y - 5) (Words label)])"

fun indexOf :: "real \<Rightarrow> real option list \<Rightarrow> nat option" where
  "indexOf k [] = None"
| "indexOf k (x # xs) = (if x = Some k then Some 0 else map_option Suc (indexOf k xs))"

definition knee_shapes :: "real option \<Rightarrow> real option list \<Rightarrow> shape list" where
  "knee_shapes knee xs =
     (case knee of
        None \<Rightarrow> []
      | Some k \<Rightarrow>
          if k > 0 then
            (case indexOf k xs of
               None \<Rightarrow> []
             | Some ki \<Rightarrow> let x = xpos (length xs) ki in [SLine x 14 x (300 - 40) ''#f0883e''])
          else [])"

definition points :: "real \<Rightarrow> real option list \<Rightarrow> (real \<times> real) list" where
  "points ymax vs = List.map_filter (\<lambda>(i, v). map_option (\<lambda>x. (xpos (length vs) i, ypos ymax x)) (shown v)) (enumerate 0 vs)"

definition series_shapes :: "real \<Rightarrow> json list \<Rightarrow> series \<Rightarrow> shape list" where
  "series_shapes ymax rs s =
     (let ps = points ymax (map (se_get s) rs) in
      SPolyline (map (\<lambda>(x, y). (round_places 1 x, round_places 1 y)) ps) (se_color s) #
      map (\<lambda>(x, y). SCircle x y (se_color s)) ps)"

definition chart :: "json \<Rightarrow> json list \<Rightarrow> chart_spec \<Rightarrow> chart" where
  "chart a rs sp =
     (let xs = map (get ''concurrency'') rs; ymax = chart_ymax sp rs in
      \<lparr>ch_title = esc (cs_title sp),
       ch_shapes = grid_shapes ymax @ x_ticks xs @ axis_labels (cs_unit sp) @ budget_shapes (cs_budget sp) ymax @
         knee_shapes (get ''kneeConcurrency'' a) xs @ concat (map (series_shapes ymax rs) (cs_series sp)),
       ch_legend = map (\<lambda>s. (se_color s, esc (se_label s))) (cs_series sp)\<rparr>)"

definition page_specs :: "chart_spec list" where
  "page_specs =
     [\<lparr>cs_title = [39318, 21709, 24310, 36831] @ runes_of '' vs '' @ [24182, 21457], cs_unit = runes_of ''ms'',
       cs_budget = None,
       cs_series = [\<lparr>se_label = [23458, 25143, 31471, 31471, 21040, 31471] @ runes_of '' p50'', se_color = ''#1f6feb'', se_get = get ''e2eFirstP50''\<rparr>,
         \<lparr>se_label = [23458, 25143, 31471, 31471, 21040, 31471] @ runes_of '' p99'', se_color = ''#79c0ff'', se_get = get ''e2eFirstP99''\<rparr>,
         \<lparr>se_label = [26381, 21153, 31471] @ runes_of '' first_response p99'', se_color = ''#a371f7'', se_get = get ''srvFirstP99''\<rparr>,
         \<lparr>se_label = [26381, 21153, 31471, 20869, 26680, 24320, 38144] @ runes_of '' p99'', se_color = ''#2ea043'', se_get = get ''srvKernelP99''\<rparr>]\<rparr>,
      \<lparr>cs_title = [25171, 26029, 26102, 24310] @ runes_of '' vs '' @ [24182, 21457], cs_unit = runes_of ''ms'',
       cs_budget = Some (200, runes_of ''200ms '' @ [39044, 31639]),
       cs_series = [\<lparr>se_label = [23458, 25143, 31471, 31471, 21040, 31471, 25171, 26029] @ runes_of '' p99'' @ [65288, 21547] @ runes_of '' VAD '' @ [28388, 27874, 31383, 65289], se_color = ''#79c0ff'', se_get = get ''e2eBargeP99''\<rparr>,
         \<lparr>se_label = [20869, 26680, 21462, 28040] @ runes_of '' p99'' @ [65288] @ runes_of ''200ms '' @ [39044, 31639, 21475, 24452, 65289], se_color = ''#f0883e'', se_get = get ''srvBargeP99''\<rparr>]\<rparr>,
      \<lparr>cs_title = [36164, 28304, 19982, 38477, 32423] @ runes_of '' vs '' @ [24182, 21457], cs_unit = runes_of ''%'',
       cs_budget = None,
       cs_series = [\<lparr>se_label = runes_of ''CPU '' @ [21033, 29992, 29575], se_color = ''#a371f7'', se_get = scaled ''cpuUtil'' 100\<rparr>,
         \<lparr>se_label = [20837, 21475, 20002, 24103, 29575], se_color = ''#f85149'', se_get = scaled ''ingressDropRate'' 100\<rparr>]\<rparr>,
      \<lparr>cs_title = [21534, 21520] @ runes_of '' vs '' @ [24182, 21457], cs_unit = [27599, 31186],
       cs_budget = None,
       cs_series = [\<lparr>se_label = [36718, 36895, 29575, 65288, 36718] @ runes_of ''/s'' @ [65289], se_color = ''#2ea043'', se_get = get ''serverTurnRate''\<rparr>,
         \<lparr>se_label = [19978, 34892, 24103, 29575] @ runes_of '' '' @ [247] @ runes_of '' 100'' @ [65288, 24103] @ runes_of ''/s'' @ [65289], se_color = ''#6e7681'', se_get = scaled ''uplinkFPS'' (1 / 100)\<rparr>]\<rparr>]"

section \<open>The page\<close>

text \<open>What the script leaves on the page; it stops with a \<open>TypeError\<close> before the first chart when there are no records.\<close>

record page =
  pg_meta :: runes
  pg_verdict :: runes
  pg_charts :: "chart list option"

definition page_script :: "(runes \<Rightarrow> runes) \<Rightarrow> json \<Rightarrow> page option" where
  "page_script locale_date report =
     (case js_prop ''analysis'' report of
        None \<Rightarrow> None
      | Some a \<Rightarrow> Some
          \<lparr>pg_meta = js_text ''config'' report @ runes_of '' '' @ [183] @ runes_of '' '' @ locale_date (js_text ''startedAt'' report),
           pg_verdict = verdict_html a,
           pg_charts = (case js_prop ''records'' report of Some (JArr rs) \<Rightarrow> Some (map (chart a rs) page_specs) | _ \<Rightarrow> None)\<rparr>)"

section \<open>Properties\<close>

subsection \<open>Text\<close>

text \<open>How HTML reads the five references back.\<close>

function unesc :: "runes \<Rightarrow> runes" where
  "unesc [] = []"
| "unesc (c # s) =
     (if prefix (runes_of ''&amp;'') (c # s) then 38 # unesc (drop 4 s)
      else if prefix (runes_of ''&lt;'') (c # s) then 60 # unesc (drop 3 s)
      else if prefix (runes_of ''&gt;'') (c # s) then 62 # unesc (drop 3 s)
      else if prefix (runes_of ''&quot;'') (c # s) then 34 # unesc (drop 5 s)
      else if prefix (runes_of ''&#39;'') (c # s) then 39 # unesc (drop 4 s)
      else c # unesc s)"
  by pat_completeness auto
termination by (relation "measure length") simp_all

lemma esc_Cons: "esc (c # s) = esc_rune c @ esc s"
  by (simp add: esc_def)

lemma unesc_esc: "unesc (esc s) = s"
proof (induction s)
  case (Cons c s)
  then show ?case by (auto simp: esc_Cons esc_rune_def runes_of_def)
qed (simp add: esc_def)

lemma set_esc: "set (esc s) \<inter> {34, 39, 60, 62} = {}"
  by (auto simp: esc_def esc_rune_def runes_of_def split: if_splits)

lemma set_d_text: "set (d_text n) \<inter> {34, 39, 60, 62, 38} = {}"
proof -
  have "of_char c \<in> {45} \<union> {48..57 :: nat}" if "c \<in> set (decimal n)" for c
    using that set_nat_digits [of "nat \<bar>n\<bar>"] by (auto simp: decimal_def is_digit_def split: if_splits)
  then show ?thesis by (fastforce simp: d_text_def runes_of_def)
qed

text \<open>The walls the analysis names.\<close>

lemma knee_loop_wall: "knee_loop base rs = Some a \<Longrightarrow> an_Wall a \<in> {''errors'', ''cpu'', ''drops'', ''scheduling''}"
  by (induction rs) (auto simp: knee_at_def Let_def split: if_splits)

lemma Analyze_wall: "an_Wall (Analyze rs) \<in> {''none'', ''errors'', ''cpu'', ''drops'', ''scheduling''}"
  using knee_loop_wall [of "lat (hd rs)" rs] by (auto simp: Analyze_def Let_def split: option.split)

lemma digits_number: "ParseFloat ((if n < 0 then ''-'' else []) @ nat_digits (nat \<bar>n\<bar>)) = Some (of_int n)"
  using decimal_read [of n] by (simp add: decimal_def)

lemma map_runes_of: "map char_of (runes_of s) = s"
  by (induction s) (simp_all add: runes_of_def)

lemma js_number_int [simp]: "js_number (json_int n) = Some (of_int n)"
  unfolding js_number_def json_int_def json.case map_runes_of by (rule digits_number)

lemma runes_of_eq [simp]: "runes_of s = runes_of t \<longleftrightarrow> s = t"
  by (metis map_runes_of)

lemma js_analysis:
  "get ''kneeConcurrency'' (analysis_json a) = Some (of_int (an_KneeConcurrency a))"
  "js_text ''wall'' (analysis_json a) = runes_of (an_Wall a)" "js_text ''reason'' (analysis_json a) = reason_text (an_Reason a)"
  by (simp_all add: get_def js_text_def js_prop_def analysis_json_def)

lemma js_report:
  assumes "report_json r = Some v"
  shows "js_prop ''analysis'' v = Some (analysis_json (rp_Analysis r))" "js_text ''config'' v = rp_Config r"
    "js_text ''startedAt'' v = rp_StartedAt r" "js_prop ''records'' v = records_json (rp_Records r)"
  using assms by (auto simp: report_json_def js_prop_def js_text_def bind_eq_Some_conv)

text \<open>
  No text of the report becomes markup in the verdict: for every report the load generator analyses, the verdict's only
  angle brackets are those of one pair of bold tags, there when a knee was found; it ends in the reason with every
  special character written as a reference, which HTML reads back as the reason.
\<close>

theorem verdict_markup:
  assumes "rp_Analysis r = Analyze (rp_Records r)" "report_json r = Some v" "page_script date v = Some pg"
  shows "\<exists>pre. pg_verdict pg = pre @ esc (reason_text (an_Reason (rp_Analysis r))) \<and>
    unesc (esc (reason_text (an_Reason (rp_Analysis r)))) = reason_text (an_Reason (rp_Analysis r)) \<and>
    filter (\<lambda>c. c \<in> {60, 62}) (pg_verdict pg) = (if an_KneeConcurrency (rp_Analysis r) > 0 then [60, 62, 60, 62] else [])"
proof -
  let ?a = "rp_Analysis r"
  have v: "pg_verdict pg = verdict_html (analysis_json ?a)" using assms(3) js_report(1) [OF assms(2)] by (auto simp: page_script_def)
  have e: "filter (\<lambda>c. c \<in> {60, 62}) (esc t) = []" for t using set_esc [of t] by (auto simp: filter_empty_conv)
  have d: "filter (\<lambda>c. c \<in> {60, 62}) (d_text n) = []" for n using set_d_text [of n] by (auto simp: filter_empty_conv)
  have w: "filter (\<lambda>c. c \<in> {60, 62}) (runes_of (an_Wall ?a)) = []"
    using Analyze_wall [of "rp_Records r"] assms(1) by (auto simp: runes_of_def)
  show ?thesis
    unfolding v verdict_html_def js_analysis
    using w by (auto simp: e [simplified] d [simplified] unesc_esc runes_of_def)
qed

subsection \<open>Drawing\<close>

text \<open>Everything a shape touches lies in the view box of 860 by 300.\<close>

definition in_view :: "real \<Rightarrow> real \<Rightarrow> bool" where
  "in_view x y \<longleftrightarrow> 0 \<le> x \<and> x \<le> 860 \<and> 0 \<le> y \<and> y \<le> 300"

fun shape_in_view :: "shape \<Rightarrow> bool" where
  "shape_in_view (SLine x1 y1 x2 y2 _) = (in_view x1 y1 \<and> in_view x2 y2)"
| "shape_in_view (SText x y _) = in_view x y"
| "shape_in_view (SPolyline ps _) = list_all (\<lambda>(x, y). in_view x y) ps"
| "shape_in_view (SCircle x y _) = in_view x y"

lemma xpos_bounds: "i < n \<Longrightarrow> 64 \<le> xpos n i \<and> xpos n i \<le> 844"
  by (auto simp: xpos_def divide_simps)

lemma ypos_bounds: "0 < m \<Longrightarrow> 0 \<le> v \<Longrightarrow> v \<le> m \<Longrightarrow> 14 \<le> ypos m v \<and> ypos m v \<le> 260"
  by (auto simp: ypos_def field_simps)

lemma round_places_bounds:
  assumes "of_int a \<le> v" "v \<le> of_int b"
  shows "of_int a \<le> round_places 1 v \<and> round_places 1 v \<le> of_int b"
proof -
  have "a * 10 \<le> \<lfloor>v * 10 + 1 / 2\<rfloor>" using assms(1) by (simp add: le_floor_iff)
  moreover have "\<lfloor>v * 10 + 1 / 2\<rfloor> \<le> b * 10" using assms(2) by (simp add: floor_le_iff)
  ultimately have "real_of_int (a * 10) \<le> of_int \<lfloor>v * 10 + 1 / 2\<rfloor>" "real_of_int \<lfloor>v * 10 + 1 / 2\<rfloor> \<le> of_int (b * 10)"
    by (simp_all only: of_int_le_iff)
  then show ?thesis by (simp add: round_places_def)
qed

lemma raise_max_ge: "m \<le> foldl raise_max m vs \<and> (\<forall>x. Some x \<in> set vs \<and> 0 \<le> x \<longrightarrow> x \<le> foldl raise_max m vs)"
proof (induction vs arbitrary: m)
  case (Cons v vs)
  have "m \<le> raise_max m v" "\<And>x. v = Some x \<Longrightarrow> 0 \<le> x \<Longrightarrow> x \<le> raise_max m v"
    by (auto simp: raise_max_def shown_def split: option.split)
  with Cons [of "raise_max m v"] show ?case by (auto intro: order.trans)
qed simp

lemma chart_max_ge:
  "m \<le> foldl (\<lambda>m s. foldl raise_max m (map (se_get s) rs)) m ss \<and>
   (\<forall>s x r. s \<in> set ss \<and> r \<in> set rs \<and> se_get s r = Some x \<and> 0 \<le> x \<longrightarrow> x \<le> foldl (\<lambda>m s. foldl raise_max m (map (se_get s) rs)) m ss)"
proof (induction ss arbitrary: m)
  case (Cons s ss)
  let ?m = "foldl raise_max m (map (se_get s) rs)"
  have m: "m \<le> ?m" "\<And>x r. r \<in> set rs \<Longrightarrow> se_get s r = Some x \<Longrightarrow> 0 \<le> x \<Longrightarrow> x \<le> ?m"
    using raise_max_ge [of m "map (se_get s) rs"] by (auto simp: image_iff) metis
  note c = Cons [of ?m]
  have "m \<le> foldl (\<lambda>m s. foldl raise_max m (map (se_get s) rs)) m (s # ss)" using c m(1) by (auto intro: order.trans)
  moreover have "x \<le> foldl (\<lambda>m s. foldl raise_max m (map (se_get s) rs)) m (s # ss)"
    if "t \<in> set (s # ss)" "r \<in> set rs" "se_get t r = Some x" "0 \<le> x" for t x r
  proof (cases "t = s")
    case True
    then have "x \<le> ?m" using m(2) that by blast
    then show ?thesis using c by auto
  next
    case False
    then show ?thesis using c that by (simp del: foldl_map) blast
  qed
  ultimately show ?case by blast
qed simp

lemma chart_ymax_props:
  shows "0 < chart_ymax sp rs"
    and "s \<in> set (cs_series sp) \<Longrightarrow> r \<in> set rs \<Longrightarrow> se_get s r = Some x \<Longrightarrow> 0 \<le> x \<Longrightarrow> x \<le> chart_ymax sp rs"
    and "cs_budget sp = Some (b, l) \<Longrightarrow> 0 \<le> b \<Longrightarrow> b \<le> chart_ymax sp rs"
proof -
  let ?start = "case cs_budget sp of Some (b, _) \<Rightarrow> b | None \<Rightarrow> 0"
  let ?m = "foldl (\<lambda>m s. foldl raise_max m (map (se_get s) rs)) ?start (cs_series sp)"
  have y: "chart_ymax sp rs = (if ?m \<le> 0 then 1 else ?m) * (112 / 100)" by (simp add: chart_ymax_def Let_def)
  then have le: "?m \<le> chart_ymax sp rs" by (cases "?m \<le> 0") simp_all
  show "0 < chart_ymax sp rs" by (simp add: y)
  note g = chart_max_ge [of ?start rs "cs_series sp"]
  show "s \<in> set (cs_series sp) \<Longrightarrow> r \<in> set rs \<Longrightarrow> se_get s r = Some x \<Longrightarrow> 0 \<le> x \<Longrightarrow> x \<le> chart_ymax sp rs"
    using g le by (meson order.trans)
  show "cs_budget sp = Some (b, l) \<Longrightarrow> 0 \<le> b \<Longrightarrow> b \<le> chart_ymax sp rs"
    using g le by auto
qed

lemma indexOf_Some: "indexOf k xs = Some i \<Longrightarrow> i < length xs \<and> xs ! i = Some k \<and> (\<forall>j < i. xs ! j \<noteq> Some k)"
  by (induction xs arbitrary: i) (auto simp: less_Suc_eq_0_disj split: if_splits)

lemma indexOf_None: "indexOf k xs = None \<longleftrightarrow> Some k \<notin> set xs"
  by (induction xs) auto

lemma points_in:
  assumes "p \<in> set (points m vs)" "0 < m" "\<forall>x. Some x \<in> set vs \<and> 0 \<le> x \<longrightarrow> x \<le> m"
  shows "64 \<le> fst p \<and> fst p \<le> 844 \<and> 14 \<le> snd p \<and> snd p \<le> 260"
proof -
  from assms(1) obtain i x where i: "i < length vs" "shown (vs ! i) = Some x" "p = (xpos (length vs) i, ypos m x)"
    by (auto simp: points_def map_filter_def in_set_enumerate_eq split: option.splits)
  then have "vs ! i = Some x" "0 \<le> x" by (auto simp: shown_def split: option.splits if_splits)
  moreover have "vs ! i \<in> set vs" using i(1) by simp
  ultimately show ?thesis using xpos_bounds [OF i(1)] ypos_bounds [OF assms(2), of x] assms(3) i(3) by auto
qed

lemma chart_in_view:
  assumes "\<forall>b l. cs_budget sp = Some (b, l) \<longrightarrow> 0 \<le> b"
  shows "list_all shape_in_view (ch_shapes (chart a rs sp))"
proof -
  let ?m = "chart_ymax sp rs" and ?xs = "map (get ''concurrency'') rs"
  note m = chart_ymax_props [where sp = sp and rs = rs]
  have y: "14 \<le> ypos ?m v \<and> ypos ?m v \<le> 260" if "0 \<le> v" "v \<le> ?m" for v using ypos_bounds m(1) that by blast
  have "list_all shape_in_view (grid_shapes ?m)"
  proof -
    have "14 \<le> ypos ?m (?m * real k / 4) \<and> ypos ?m (?m * real k / 4) \<le> 260" if "k < 5" for k
    proof -
      have "?m * real k \<le> ?m * 4" using that m(1) by (intro mult_left_mono) auto
      then show ?thesis using m(1) by (intro y) simp_all
    qed
    then show ?thesis by (fastforce simp: grid_shapes_def list_all_iff in_view_def Let_def)
  qed
  moreover have "list_all shape_in_view (x_ticks ?xs)"
    using xpos_bounds [of _ "length ?xs"] by (force simp: x_ticks_def list_all_iff in_view_def in_set_enumerate_eq)
  moreover have "list_all shape_in_view (axis_labels (cs_unit sp))" by (simp add: axis_labels_def in_view_def)
  moreover have "list_all shape_in_view (budget_shapes (cs_budget sp) ?m)"
    using m(3) y assms by (force simp: budget_shapes_def in_view_def Let_def split: option.split)
  moreover have "list_all shape_in_view (knee_shapes k ?xs)" for k
    using xpos_bounds [of _ "length ?xs"] indexOf_Some [of _ ?xs] by (force simp: knee_shapes_def in_view_def Let_def split: option.split)
  moreover have "list_all shape_in_view (series_shapes ?m rs s)" if "s \<in> set (cs_series sp)" for s
  proof -
    have p: "64 \<le> fst p \<and> fst p \<le> 844 \<and> 14 \<le> snd p \<and> snd p \<le> 260" if "p \<in> set (points ?m (map (se_get s) rs))" for p
      using points_in [OF that m(1)] m(2) [OF \<open>s \<in> _\<close>] by force
    have r: "0 \<le> round_places 1 (fst p) \<and> round_places 1 (fst p) \<le> 860 \<and> 0 \<le> round_places 1 (snd p) \<and> round_places 1 (snd p) \<le> 300"
      if "p \<in> set (points ?m (map (se_get s) rs))" for p
      using p [OF that] round_places_bounds [of 0 "fst p" 860] round_places_bounds [of 0 "snd p" 300] by simp
    show ?thesis using p r by (force simp: series_shapes_def list_all_iff in_view_def Let_def)
  qed
  ultimately show ?thesis by (auto simp: chart_def Let_def list_all_iff)
qed

subsection \<open>From the records to the charts\<close>

lemma js_number_float: "js_number (json_float v) = Some (printed v)"
proof -
  obtain ds dp where s: "shortest \<bar>v\<bar> = (ds, dp)" by force
  note spec = shortest_value [OF s]
  have sgn: "(if v < 0 then - \<bar>printed v\<bar> else \<bar>printed v\<bar>) = printed v" by (rule printed_signed [symmetric])
  have "ds = [] \<Longrightarrow> printed v = 0" using spec by auto
  with spec sgn fmtF_read [of ds dp "v < 0"] clean_exponent_read [of ds "v < 0" dp] show ?thesis
    by (auto simp: js_number_def json_float_def s map_runes_of Let_def simp del: runes_of_eq)
qed

text \<open>The quantities the charts show, of a record: as the page reads them, \<open>printed\<close>.\<close>

fun finite_value :: "bound \<Rightarrow> real option" where
  "finite_value (Fin v) = Some (printed v)"
| "finite_value PInf = None"

definition if_measured :: "real \<Rightarrow> real \<Rightarrow> real option" where
  "if_measured c v = (if printed v \<ge> 0 then Some (printed v * c) else None)"

definition record_series :: "(StepRecord \<Rightarrow> real option) list list" where
  "record_series =
     [[\<lambda>x. Some (printed (sr_E2EFirstP50 x)), \<lambda>x. Some (printed (sr_E2EFirstP99 x)), \<lambda>x. finite_value (sr_SrvFirstP99 x),
       \<lambda>x. finite_value (sr_SrvKernelP99 x)],
      [\<lambda>x. Some (printed (sr_E2EBargeP99 x)), \<lambda>x. finite_value (sr_SrvBargeP99 x)],
      [\<lambda>x. if_measured 100 (sr_CPUUtil x), \<lambda>x. if_measured 100 (sr_IngressDropRate x)],
      [\<lambda>x. Some (printed (sr_ServerTurnRate x)), \<lambda>x. if_measured (1 / 100) (sr_UplinkFPS x)]]"

lemma json_members_prop:
  "json_members ms = Some ws \<Longrightarrow> map_of ms k = Some w \<Longrightarrow> js_prop k (JObj ws) = w"
  by (induction ms arbitrary: ws) (auto simp: js_prop_def bind_eq_Some_conv split: if_splits)

lemma record_get:
  assumes "record_json x = Some j"
  shows "get ''concurrency'' j = Some (of_int (sr_Concurrency x))"
    and "map (map (\<lambda>s. se_get s j)) (map cs_series page_specs) = map (map (\<lambda>f. f x)) record_series"
proof -
  from assms obtain ws where j: "j = JObj ws" and ws: "json_members
     [(''concurrency'', Some (json_int (sr_Concurrency x))), (''liveWorkers'', Some (json_int (sr_LiveWorkers x))),
      (''durationS'', Some (json_float (sr_DurationS x))), (''turns'', Some (json_int (sr_Turns x))), (''errors'', Some (json_int (sr_Errors x))),
      (''e2eFirstP50'', Some (json_float (sr_E2EFirstP50 x))), (''e2eFirstP95'', Some (json_float (sr_E2EFirstP95 x))),
      (''e2eFirstP99'', Some (json_float (sr_E2EFirstP99 x))), (''e2eBargeP50'', Some (json_float (sr_E2EBargeP50 x))),
      (''e2eBargeP99'', Some (json_float (sr_E2EBargeP99 x))), (''srvFirstP50'', json_bound (sr_SrvFirstP50 x)),
      (''srvFirstP99'', json_bound (sr_SrvFirstP99 x)), (''srvKernelP99'', json_bound (sr_SrvKernelP99 x)),
      (''srvBargeP99'', json_bound (sr_SrvBargeP99 x)), (''serverTurnRate'', Some (json_float (sr_ServerTurnRate x))),
      (''uplinkFPS'', Some (json_float (sr_UplinkFPS x))), (''ingressDropRate'', Some (json_float (sr_IngressDropRate x))),
      (''egressDropPerS'', Some (json_float (sr_EgressDropPerS x))), (''cpuUtil'', Some (json_float (sr_CPUUtil x))),
      (''goroutines'', Some (json_float (sr_Goroutines x))), (''heapMB'', Some (json_float (sr_HeapMB x))),
      (''sessionsActive'', Some (json_float (sr_SessionsActive x)))] = Some ws" (is "json_members ?ms = _")
    by (auto simp: record_json_def simp del: json_members.simps)
  note p = json_members_prop [OF ws]
  have k: "js_prop ''concurrency'' j = Some (json_int (sr_Concurrency x))" "js_prop ''e2eFirstP50'' j = Some (json_float (sr_E2EFirstP50 x))"
    "js_prop ''e2eFirstP99'' j = Some (json_float (sr_E2EFirstP99 x))" "js_prop ''e2eBargeP99'' j = Some (json_float (sr_E2EBargeP99 x))"
    "js_prop ''srvFirstP99'' j = json_bound (sr_SrvFirstP99 x)" "js_prop ''srvKernelP99'' j = json_bound (sr_SrvKernelP99 x)"
    "js_prop ''srvBargeP99'' j = json_bound (sr_SrvBargeP99 x)" "js_prop ''serverTurnRate'' j = Some (json_float (sr_ServerTurnRate x))"
    "js_prop ''uplinkFPS'' j = Some (json_float (sr_UplinkFPS x))" "js_prop ''ingressDropRate'' j = Some (json_float (sr_IngressDropRate x))"
    "js_prop ''cpuUtil'' j = Some (json_float (sr_CPUUtil x))"
    unfolding j by (rule p; simp)+
  show "get ''concurrency'' j = Some (of_int (sr_Concurrency x))" by (simp add: get_def k)
  have b: "Option.bind (json_bound b) js_number = finite_value b" for b
    by (cases b) (simp_all add: js_number_float)
  show "map (map (\<lambda>s. se_get s j)) (map cs_series page_specs) = map (map (\<lambda>f. f x)) record_series"
    by (simp add: page_specs_def record_series_def get_def scaled_def k b js_number_float if_measured_def)
qed

fun circle_of :: "shape \<Rightarrow> (real \<times> real) option" where
  "circle_of (SCircle x y _) = Some (x, y)"
| "circle_of _ = None"

definition circles :: "chart \<Rightarrow> (real \<times> real) list" where
  "circles c = List.map_filter circle_of (ch_shapes c)"

lemma circles_none: "\<forall>s \<in> set ss. circle_of s = None \<Longrightarrow> List.map_filter circle_of ss = []"
  by (induction ss) (auto simp: map_filter_simps)

lemma map_filter_append [simp]: "List.map_filter f (xs @ ys) = List.map_filter f xs @ List.map_filter f ys"
  by (simp add: map_filter_def)

lemma map_filter_concat: "List.map_filter f (concat xss) = concat (map (List.map_filter f) xss)"
  by (induction xss) (simp_all add: map_filter_simps)

lemma circles_series: "List.map_filter circle_of (series_shapes m rs s) = points m (map (se_get s) rs)"
proof -
  have "List.map_filter circle_of (map (\<lambda>(x, y). SCircle x y c) ps) = ps" for c ps
    by (induction ps) (auto simp: map_filter_simps)
  then show ?thesis by (simp add: series_shapes_def Let_def map_filter_simps)
qed

lemma no_circles:
  "List.map_filter circle_of (grid_shapes m) = []" "List.map_filter circle_of (x_ticks xs) = []"
  "List.map_filter circle_of (axis_labels u) = []" "List.map_filter circle_of (budget_shapes b m) = []"
  "List.map_filter circle_of (knee_shapes k xs) = []"
proof -
  show "List.map_filter circle_of (grid_shapes m) = []" by (rule circles_none) (auto simp: grid_shapes_def Let_def)
  show "List.map_filter circle_of (x_ticks xs) = []" by (rule circles_none) (auto simp: x_ticks_def)
  show "List.map_filter circle_of (axis_labels u) = []" by (rule circles_none) (auto simp: axis_labels_def)
  show "List.map_filter circle_of (budget_shapes b m) = []"
    by (simp add: budget_shapes_def Let_def map_filter_simps split: option.split prod.split)
  show "List.map_filter circle_of (knee_shapes k xs) = []"
    by (simp add: knee_shapes_def Let_def map_filter_simps split: option.split)
qed

lemma circles_chart:
  "circles (chart a rs sp) = concat (map (\<lambda>s. points (chart_ymax sp rs) (map (se_get s) rs)) (cs_series sp))"
  by (simp add: circles_def chart_def Let_def no_circles map_filter_concat comp_def circles_series)

lemma those_nth: "those xs = Some ys \<Longrightarrow> length ys = length xs \<and> (\<forall>i < length xs. xs ! i = Some (ys ! i))"
  by (induction xs arbitrary: ys) (auto simp: nth_Cons split: option.splits nat.split)

lemma knee_loop_in: "knee_loop base rs = Some a \<Longrightarrow> an_KneeConcurrency a \<in> sr_Concurrency ` set rs"
  by (induction rs) (auto simp: knee_at_def Let_def split: if_splits)

lemma Analyze_knee_in: "0 < an_KneeConcurrency (Analyze rs) \<Longrightarrow> an_KneeConcurrency (Analyze rs) \<in> sr_Concurrency ` set rs"
  using knee_loop_in [of "lat (hd rs)" rs] by (auto simp: Analyze_def Let_def split: if_splits option.splits)

lemma page_specs_series: "length page_specs = length record_series"
  "map (length \<circ> cs_series) page_specs = map length record_series"
  by (simp_all add: page_specs_def record_series_def)

text \<open>What the script reads out of the records' JSON.\<close>

lemma records_read:
  assumes "those (map record_json recs) = Some rs"
  shows "map (get ''concurrency'') rs = map (\<lambda>x. Some (of_int (sr_Concurrency x))) recs"
    and "i < length page_specs \<Longrightarrow>
      map (\<lambda>s. map (se_get s) rs) (cs_series (page_specs ! i)) = map (\<lambda>f. map f recs) (record_series ! i)"
proof -
  note n = those_nth [OF assms]
  then have g: "record_json (recs ! j) = Some (rs ! j)" if "j < length recs" for j using that by simp
  show "map (get ''concurrency'') rs = map (\<lambda>x. Some (of_int (sr_Concurrency x))) recs"
    using n record_get(1) [OF g] by (intro nth_equalityI) simp_all
  assume p: "i < length page_specs"
  have l: "length (cs_series (page_specs ! i)) = length (record_series ! i)"
    using page_specs_series p by (metis comp_apply nth_map)
  show "map (\<lambda>s. map (se_get s) rs) (cs_series (page_specs ! i)) = map (\<lambda>f. map f recs) (record_series ! i)"
  proof (rule nth_equalityI)
    fix k assume k: "k < length (map (\<lambda>s. map (se_get s) rs) (cs_series (page_specs ! i)))"
    have "se_get (cs_series (page_specs ! i) ! k) (rs ! j) = (record_series ! i ! k) (recs ! j)" if j: "j < length recs" for j
    proof -
      from arg_cong [OF record_get(2) [OF g [OF j]], of "\<lambda>t. t ! i ! k"] k l p page_specs_series(1)
      show ?thesis by simp
    qed
    then show "map (\<lambda>s. map (se_get s) rs) (cs_series (page_specs ! i)) ! k = map (\<lambda>f. map f recs) (record_series ! i) ! k"
      using n k l by (auto intro!: nth_equalityI)
  qed (simp add: l)
qed

text \<open>
  C35: The page shows the run: for every report with records that is written (no bound is infinite), the script draws the four
  charts, everything inside the view box; the points of a chart are exactly the measured quantities of its series, one
  circle per record that has one, in the order of the records, at heights proportional to the values over one positive
  scale; and a knee that was found is marked in every chart at the first record of its concurrency. A value is the number its
  JSON text denotes: that of the report when it has a decimal, as every float64 does, and within \<open>10^-400\<close> of it otherwise.
\<close>

theorem page_shows_run:
  assumes "rp_Records r \<noteq> []" "rp_Analysis r = Analyze (rp_Records r)" "report_json r = Some v"
  shows "\<exists>pg cs. page_script date v = Some pg \<and> pg_charts pg = Some cs \<and>
    list_all (\<lambda>c. list_all shape_in_view (ch_shapes c)) cs \<and>
    list_all2 (\<lambda>c fs. \<exists>m > 0. circles c = concat (map (\<lambda>f. points m (map f (rp_Records r))) fs)) cs record_series \<and>
    (\<forall>x. \<bar>printed x - x\<bar> \<le> 1 / 10 ^ 400 \<and> (decimal_places \<bar>x\<bar> \<noteq> None \<longrightarrow> printed x = x)) \<and>
    (0 < an_KneeConcurrency (rp_Analysis r) \<longrightarrow>
      (\<exists>i < length (rp_Records r). sr_Concurrency (rp_Records r ! i) = an_KneeConcurrency (rp_Analysis r) \<and>
        (\<forall>j < i. sr_Concurrency (rp_Records r ! j) \<noteq> an_KneeConcurrency (rp_Analysis r)) \<and>
        list_all (\<lambda>c. SLine (xpos (length (rp_Records r)) i) 14 (xpos (length (rp_Records r)) i) 260 ''#f0883e'' \<in> set (ch_shapes c)) cs))"
proof -
  let ?recs = "rp_Records r" and ?a = "analysis_json (rp_Analysis r)" and ?k = "an_KneeConcurrency (rp_Analysis r)"
  obtain rs where rs: "those (map record_json ?recs) = Some rs"
  proof (cases "those (map record_json ?recs)")
    case None
    then have "report_json r = None" using assms(1) by (simp add: report_json_def records_json_def)
    with assms(3) that show ?thesis by simp
  qed auto
  note n = those_nth [OF rs] and rd = records_read [OF rs]
  let ?cs = "map (chart ?a rs) page_specs"
  have pg: "\<exists>pg. page_script date v = Some pg \<and> pg_charts pg = Some ?cs"
    using js_report [OF assms(3)] rs assms(1) by (simp add: page_script_def records_json_def)
  have view: "list_all (\<lambda>c. list_all shape_in_view (ch_shapes c)) ?cs"
    using chart_in_view [of _ ?a rs] by (simp add: page_specs_def)
  have pts: "list_all2 (\<lambda>c fs. \<exists>m > 0. circles c = concat (map (\<lambda>f. points m (map f ?recs)) fs)) ?cs record_series"
  proof (rule list_all2_all_nthI)
    fix i assume i: "i < length ?cs"
    then have "circles (?cs ! i) = concat (map (points (chart_ymax (page_specs ! i) rs)) (map (\<lambda>s. map (se_get s) rs) (cs_series (page_specs ! i))))"
      by (simp add: circles_chart comp_def)
    also have "\<dots> = concat (map (\<lambda>f. points (chart_ymax (page_specs ! i) rs) (map f ?recs)) (record_series ! i))"
      using rd(2) [of i] i by (simp add: comp_def del: map_map) (simp add: comp_def)
    finally show "\<exists>m > 0. circles (?cs ! i) = concat (map (\<lambda>f. points m (map f ?recs)) (record_series ! i))"
      using chart_ymax_props(1) by blast
  qed (simp add: page_specs_series)
  have knee: "\<exists>i < length ?recs. sr_Concurrency (?recs ! i) = ?k \<and> (\<forall>j < i. sr_Concurrency (?recs ! j) \<noteq> ?k) \<and>
      list_all (\<lambda>c. SLine (xpos (length ?recs) i) 14 (xpos (length ?recs) i) 260 ''#f0883e'' \<in> set (ch_shapes c)) ?cs" if k: "0 < ?k"
  proof -
    let ?xs = "map (get ''concurrency'') rs"
    have "Some (of_int ?k) \<in> set ?xs" using Analyze_knee_in [of ?recs] k assms(2) unfolding rd(1) by auto
    then obtain i where i: "indexOf (of_int ?k) ?xs = Some i" using indexOf_None [of "of_int ?k" ?xs] by blast
    from indexOf_Some [OF i] have s: "i < length ?recs" "sr_Concurrency (?recs ! i) = ?k" "\<forall>j < i. sr_Concurrency (?recs ! j) \<noteq> ?k"
      unfolding rd(1) by auto
    have "SLine (xpos (length ?recs) i) 14 (xpos (length ?recs) i) 260 ''#f0883e'' \<in> set (knee_shapes (get ''kneeConcurrency'' ?a) ?xs)"
      using k i n by (simp add: knee_shapes_def js_analysis Let_def)
    then have "SLine (xpos (length ?recs) i) 14 (xpos (length ?recs) i) 260 ''#f0883e'' \<in> set (ch_shapes (chart ?a rs sp))" for sp
      by (simp add: chart_def Let_def)
    with s show ?thesis by (auto simp: list_all_iff)
  qed
  have printed: "\<forall>x. \<bar>printed x - x\<bar> \<le> 1 / 10 ^ 400 \<and> (decimal_places \<bar>x\<bar> \<noteq> None \<longrightarrow> printed x = x)"
    using printed_close printed_exact by blast
  from pg view pts printed knee show ?thesis by blast
qed

section \<open>A run of two steps\<close>

definition curve_step :: "int \<Rightarrow> int \<Rightarrow> StepRecord" where
  "curve_step n errs =
     \<lparr>sr_Concurrency = n, sr_LiveWorkers = n, sr_DurationS = 10, sr_Turns = 8, sr_Errors = errs, sr_E2EFirstP50 = 120,
      sr_E2EFirstP95 = 150, sr_E2EFirstP99 = 180, sr_E2EBargeP50 = 40, sr_E2EBargeP99 = 60, sr_SrvFirstP50 = Fin 100,
      sr_SrvFirstP99 = Fin 130, sr_SrvKernelP99 = Fin 5, sr_SrvBargeP99 = Fin (- 1), sr_ServerTurnRate = 2, sr_UplinkFPS = 100,
      sr_IngressDropRate = 0, sr_EgressDropPerS = 0, sr_CPUUtil = 0, sr_Goroutines = 50, sr_HeapMB = 9, sr_SessionsActive = 2\<rparr>"

definition curve_report :: Report where
  "curve_report = demo_report\<lparr>rp_Records := [curve_step 2 0, curve_step 4 3], rp_Analysis := Analyze [curve_step 2 0, curve_step 4 3]\<rparr>"

lemma curve_analysis: "an_KneeConcurrency (rp_Analysis curve_report) = 4"
  by (simp add: curve_report_def Analyze_def degraded_def lat_def curve_step_def knee_at_def Let_def)

lemma curve_json: "\<exists>v. report_json curve_report = Some v"
  using report_json_finite [of curve_report] by (simp add: curve_report_def finite_record_def curve_step_def)

text \<open>The second step times out: the verdict names it, and both steps are drawn.\<close>

theorem verdict_markup_witness:
  "\<exists>v pg. report_json curve_report = Some v \<and> page_script (\<lambda>_. []) v = Some pg \<and>
     filter (\<lambda>c. c \<in> {60, 62}) (pg_verdict pg) = [60, 62, 60, 62]"
proof -
  obtain v where v: "report_json curve_report = Some v" using curve_json by blast
  then obtain pg where pg: "page_script (\<lambda>_. []) v = Some pg" using js_report(1) [OF v] by (auto simp: page_script_def)
  have a: "rp_Analysis curve_report = Analyze (rp_Records curve_report)" by (simp add: curve_report_def)
  from verdict_markup [OF a v pg] v pg curve_analysis show ?thesis by auto
qed

theorem page_shows_run_witness:
  "\<exists>v pg cs. report_json curve_report = Some v \<and> page_script (\<lambda>_. []) v = Some pg \<and> pg_charts pg = Some cs \<and> length cs = 4 \<and>
     list_all (\<lambda>c. list_all shape_in_view (ch_shapes c)) cs \<and> list_all (\<lambda>c. SLine 844 14 844 260 ''#f0883e'' \<in> set (ch_shapes c)) cs"
proof -
  obtain v where v: "report_json curve_report = Some v" using curve_json by blast
  have r: "rp_Records curve_report = [curve_step 2 0, curve_step 4 3]" by (simp add: curve_report_def)
  have ne: "rp_Records curve_report \<noteq> []" and a: "rp_Analysis curve_report = Analyze (rp_Records curve_report)"
    by (simp_all add: r) (simp add: curve_report_def)
  have len: "length (rp_Records curve_report) = 2" by (simp add: r)
  from page_shows_run [OF ne a v, of "\<lambda>_. []"] obtain pg cs i where
    "page_script (\<lambda>_. []) v = Some pg" "pg_charts pg = Some cs" "list_all (\<lambda>c. list_all shape_in_view (ch_shapes c)) cs"
    "list_all2 (\<lambda>c fs. \<exists>m > 0. circles c = concat (map (\<lambda>f. points m (map f (rp_Records curve_report))) fs)) cs record_series"
    "i < 2" "sr_Concurrency (rp_Records curve_report ! i) = 4"
    "list_all (\<lambda>c. SLine (xpos 2 i) 14 (xpos 2 i) 260 ''#f0883e'' \<in> set (ch_shapes c)) cs"
    unfolding curve_analysis len by auto
  moreover from this(5,6) have "i = 1" by (auto simp: r less_2_cases_iff curve_step_def)
  moreover have "length cs = 4" using list_all2_lengthD [OF calculation(4)] by (simp add: record_series_def)
  ultimately show ?thesis using v by (auto simp: xpos_def)
qed

end
