(* ===== verification/Durations.thy ===== *)
theory Durations
  imports Exposition
begin

text \<open>
  The text of durations, as the flags of the load generator read it and its reports show it: \<open>Duration.String\<close> and
  \<open>time.ParseDuration\<close> of Go's library, on bytes. The fraction of a unit is taken exactly, where the library multiplies
  by a \<open>float64\<close>; the two differ at most in digits below the nanosecond.
\<close>

section \<open>Printing\<close>

definition fmtFrac :: "nat \<Rightarrow> nat \<Rightarrow> string" where
  "fmtFrac prec v =
     (let f = v mod 10 ^ prec; ds = nat_digits f in
      if f = 0 then [] else CHR ''.'' # strip_zeros (replicate (prec - length ds) CHR ''0'' @ ds))"

text \<open>The micro sign in UTF-8.\<close>

definition micro :: string where "micro = [CHR 0xC2, CHR 0xB5]"

definition Duration_String :: "int \<Rightarrow> string" where
  "Duration_String d =
     (let u = nat \<bar>d\<bar> in
      (if d < 0 then ''-'' else []) @
      (if u = 0 then ''0s''
       else if u < 10 ^ 3 then nat_digits u @ ''ns''
       else if u < 10 ^ 6 then nat_digits (u div 10 ^ 3) @ fmtFrac 3 u @ micro @ ''s''
       else if u < 10 ^ 9 then nat_digits (u div 10 ^ 6) @ fmtFrac 6 u @ ''ms''
       else
         let s = u div 10 ^ 9; secs = nat_digits (s mod 60) @ fmtFrac 9 u @ ''s''; m = s div 60 in
         if m = 0 then secs
         else
           let mins = nat_digits (m mod 60) @ ''m'' @ secs; h = m div 60 in
           if h = 0 then mins else nat_digits h @ ''h'' @ mins))"

section \<open>Parsing\<close>

definition unit_of :: "string \<Rightarrow> nat option" where
  "unit_of u = map_of [(''ns'', 1), (''us'', 10 ^ 3), (micro @ ''s'', 10 ^ 3), ([CHR 0xCE, CHR 0xBC] @ ''s'', 10 ^ 3), (''ms'', 10 ^ 6),
     (''s'', 10 ^ 9), (''m'', 60 * 10 ^ 9), (''h'', 3600 * 10 ^ 9)] u"

text \<open>The digits after the point, as long as they fit; the value and the power of ten under it.\<close>

fun leadingFraction :: "nat \<Rightarrow> nat \<Rightarrow> string \<Rightarrow> nat \<times> nat" where
  "leadingFraction f scale [] = (f, scale)"
| "leadingFraction f scale (c # cs) =
     (let y = f * 10 + (of_char c - 48) in
      if f > (2 ^ 63 - 1) div 10 \<or> y > 2 ^ 63 then (f, scale) else leadingFraction y (scale * 10) cs)"

definition unit_char :: "char \<Rightarrow> bool" where
  "unit_char c \<longleftrightarrow> c \<noteq> CHR ''.'' \<and> \<not> is_digit c"

text \<open>One number with its unit: the nanoseconds and the rest.\<close>

definition parse_term :: "string \<Rightarrow> (nat \<times> string) option" where
  "parse_term s =
     (let ip = takeWhile is_digit s; s1 = dropWhile is_digit s; v = decimal_value ip;
          (fp, s2) = (case s1 of [] \<Rightarrow> ([], []) | c # r \<Rightarrow> if c = CHR ''.'' then (takeWhile is_digit r, dropWhile is_digit r) else ([], s1));
          u = takeWhile unit_char s2; s3 = dropWhile unit_char s2 in
      if v > 2 ^ 63 \<or> ip = [] \<and> fp = [] \<or> u = [] then None
      else case unit_of u of
          None \<Rightarrow> None
        | Some n \<Rightarrow>
            if v > 2 ^ 63 div n then None
            else let (f, scale) = leadingFraction 0 1 fp; w = v * n + f * n div scale in
              if w > 2 ^ 63 then None else Some (w, s3))"

lemma parse_term_shorter: "parse_term s = Some (w, r) \<Longrightarrow> length r < length s"
proof -
  have d: "length (dropWhile P t) \<le> length t" for P :: "char \<Rightarrow> bool" and t by (rule length_dropWhile_le)
  have e: "length (dropWhile P t) < length t" if "takeWhile P t \<noteq> []" for P :: "char \<Rightarrow> bool" and t
    using that takeWhile_dropWhile_id [of P t] by (metis length_append length_greater_0_conv less_add_same_cancel2)
  show "parse_term s = Some (w, r) \<Longrightarrow> length r < length s"
    using d [of is_digit s] d [of is_digit "tl (dropWhile is_digit s)"]
      e [of unit_char "dropWhile is_digit s"] e [of unit_char "dropWhile is_digit (tl (dropWhile is_digit s))"]
    by (auto simp: parse_term_def Let_def split: list.splits if_splits option.splits prod.splits)
qed

text \<open>The sum is a \<open>uint64\<close>.\<close>

function parse_terms :: "nat \<Rightarrow> string \<Rightarrow> nat option" where
  "parse_terms d s =
     (if s = [] then Some d
      else case parse_term s of
          None \<Rightarrow> None
        | Some (w, r) \<Rightarrow> let d1 = (d + w) mod 2 ^ 64 in if d1 > 2 ^ 63 then None else parse_terms d1 r)"
  by pat_completeness auto
termination by (relation "measure (length \<circ> snd)") (auto dest: parse_term_shorter)

declare parse_terms.simps [simp del]

definition ParseDuration :: "string \<Rightarrow> int option" where
  "ParseDuration s =
     (let (neg, r) = split_sign s in
      if r = ''0'' then Some 0
      else if r = [] then None
      else case parse_terms 0 r of
          None \<Rightarrow> None
        | Some d \<Rightarrow> if neg then Some (- int d) else if d > 2 ^ 63 - 1 then None else Some (int d))"

section \<open>Printed durations are read back\<close>

lemma leadingFraction_small:
  assumes "list_all is_digit ds" "f * 10 ^ length ds + decimal_value ds < 10 ^ 18"
  shows "leadingFraction f scale ds = (f * 10 ^ length ds + decimal_value ds, scale * 10 ^ length ds)"
  using assms
proof (induction ds arbitrary: f scale)
  case (Cons c cs)
  let ?y = "f * 10 + (of_char c - 48)"
  have v: "?y * 10 ^ length cs + decimal_value cs = f * 10 ^ length (c # cs) + decimal_value (c # cs)"
    by (simp add: decimal_value_Cons algebra_simps)
  with Cons.prems(2) have b: "?y * 10 ^ length cs + decimal_value cs < 10 ^ 18" by simp
  have "?y \<le> ?y * 10 ^ length cs" by simp
  also have "\<dots> < 10 ^ 18" using add_lessD1 [OF b] .
  finally have "?y < 10 ^ 18" .
  then show ?case using Cons.IH [OF _ b] Cons.prems(1) v by (simp add: Let_def)
qed simp

lemma decimal_value_less: "list_all is_digit ds \<Longrightarrow> decimal_value ds < 10 ^ length ds"
proof (induction ds)
  case (Cons c cs)
  then have "of_char c - 48 \<le> (9 :: nat)" "decimal_value cs < 10 ^ length cs" by (auto simp: is_digit_def)
  then have "(of_char c - 48) * 10 ^ length cs + decimal_value cs < 9 * 10 ^ length cs + 10 ^ length cs"
    by (intro add_le_less_mono mult_le_mono1)
  then show ?case by (simp add: decimal_value_Cons)
qed simp

lemma take_digits: "list_all is_digit ds \<Longrightarrow> rest = [] \<or> \<not> is_digit (hd rest) \<Longrightarrow>
    takeWhile is_digit (ds @ rest) = ds \<and> dropWhile is_digit (ds @ rest) = rest"
  by (cases rest) (auto simp: list_all_iff takeWhile_append dropWhile_append)

lemma take_unit: "list_all unit_char u \<Longrightarrow> rest = [] \<or> is_digit (hd rest) \<Longrightarrow>
    takeWhile unit_char (u @ rest) = u \<and> dropWhile unit_char (u @ rest) = rest"
  by (cases rest) (auto simp: list_all_iff takeWhile_append dropWhile_append unit_char_def)

text \<open>A term as the printer writes it.\<close>

lemma parse_term_text:
  assumes "list_all is_digit ip" "ip \<noteq> []" "list_all is_digit fp" "length fp \<le> 9" "list_all unit_char u" "u \<noteq> []"
    and "rest = [] \<or> is_digit (hd rest)" "unit_of u = Some n"
    and "decimal_value ip \<le> 2 ^ 63 div n" "decimal_value ip * n + decimal_value fp * n div 10 ^ length fp \<le> 2 ^ 63" "0 < n"
  shows "parse_term (ip @ (if fp = [] then [] else CHR ''.'' # fp) @ u @ rest) =
    Some (decimal_value ip * n + decimal_value fp * n div 10 ^ length fp, rest)"
proof -
  let ?tail = "(if fp = [] then [] else CHR ''.'' # fp) @ u @ rest"
  have u1: "\<not> is_digit (hd u)" "hd u \<noteq> CHR ''.''" using assms(5,6) by (cases u; simp add: unit_char_def)+
  have "\<not> is_digit (hd ?tail)" using u1 assms(6) by (cases u) (auto simp: is_digit_def)
  then have ip: "takeWhile is_digit (ip @ ?tail) = ip" "dropWhile is_digit (ip @ ?tail) = ?tail"
    using take_digits [OF assms(1), of ?tail] by blast+
  have fp: "takeWhile is_digit (fp @ u @ rest) = fp" "dropWhile is_digit (fp @ u @ rest) = u @ rest"
    using take_digits [OF assms(3), of "u @ rest"] u1 assms(6) by auto
  have s: "(case ?tail of [] \<Rightarrow> ([], []) | c # r \<Rightarrow> if c = CHR ''.'' then (takeWhile is_digit r, dropWhile is_digit r) else ([], ?tail)) = (fp, u @ rest)"
    using fp u1 assms(6) by (cases "fp = []"; cases u) auto
  have "decimal_value fp < 10 ^ length fp" by (rule decimal_value_less [OF assms(3)])
  also have "\<dots> \<le> 10 ^ 9" using assms(4) by (intro power_increasing) auto
  finally have f: "leadingFraction 0 1 fp = (decimal_value fp, 10 ^ length fp)"
    using leadingFraction_small [OF assms(3), of 0 1] by simp
  have v: "decimal_value ip \<le> 2 ^ 63" using assms(9) by (meson div_le_dividend order.trans)
  show ?thesis
    unfolding parse_term_def Let_def ip s prod.case
    using take_unit [OF assms(5,7)] assms(2,6,8-10) v f by (simp add: not_less)
qed

lemma length_nat_digits: "n < 10 ^ k \<Longrightarrow> 0 < k \<Longrightarrow> length (nat_digits n) \<le> k"
proof (induction k arbitrary: n)
  case (Suc k)
  show ?case
  proof (cases "n < 10")
    case True
    then show ?thesis by (subst nat_digits.simps) simp
  next
    case False
    then have "0 < k" using Suc.prems(1) by (cases k) auto
    moreover have "n div 10 < 10 ^ k" using Suc.prems(1) by (simp add: div_less_iff_less_mult mult.commute)
    ultimately have "length (nat_digits (n div 10)) \<le> k" by (intro Suc.IH)
    with False show ?thesis by (subst nat_digits.simps) simp
  qed
qed simp

lemma fmtFrac_text:
  assumes "0 < prec"
  obtains fp where "fmtFrac prec v = (if fp = [] then [] else CHR ''.'' # fp)" "list_all is_digit fp" "length fp \<le> prec"
    "decimal_value fp * 10 ^ prec div 10 ^ length fp = v mod 10 ^ prec"
proof (cases "v mod 10 ^ prec = 0")
  case True
  with that [of "[]"] show thesis by (simp add: fmtFrac_def)
next
  case False
  let ?f = "v mod 10 ^ prec"
  let ?ds = "replicate (prec - length (nat_digits ?f)) CHR ''0'' @ nat_digits ?f"
  define fp where "fp = strip_zeros ?ds"
  obtain z where z: "?ds = fp @ replicate z CHR ''0''" unfolding fp_def using strip_zeros_split by metis
  have l: "length (nat_digits ?f) \<le> prec" using assms by (intro length_nat_digits) simp_all
  then have len: "length fp + z = prec" using arg_cong [OF z, of length] by simp
  have v: "decimal_value fp * 10 ^ z = ?f" using arg_cong [OF z, of decimal_value] by (simp add: decimal_value_append)
  then have "fp \<noteq> []" using False by auto
  then have "fmtFrac prec v = (if fp = [] then [] else CHR ''.'' # fp)" using False by (simp add: fmtFrac_def fp_def Let_def)
  moreover have "list_all is_digit ?ds" by (simp add: list_all_iff is_digit_def [of "CHR ''0''"]) (use set_nat_digits in auto)
  then have "list_all is_digit fp" unfolding z by simp
  moreover have "decimal_value fp * 10 ^ prec div 10 ^ length fp = ?f"
  proof -
    have "decimal_value fp * 10 ^ prec = (decimal_value fp * 10 ^ z) * 10 ^ length fp" unfolding len [symmetric] by (simp add: power_add)
    then show ?thesis using v by simp
  qed
  ultimately show thesis using that len by simp
qed

text \<open>The two kinds of terms the printer writes.\<close>

lemma term_frac:
  assumes "unit_of u = Some (10 ^ p)" "list_all unit_char u" "u \<noteq> []" "0 < p" "p \<le> 9" "rest = [] \<or> is_digit (hd rest)"
    and "q * 10 ^ p + v mod 10 ^ p \<le> 2 ^ 63"
  shows "parse_term (nat_digits q @ fmtFrac p v @ u @ rest) = Some (q * 10 ^ p + v mod 10 ^ p, rest)"
proof -
  obtain fp where fp: "fmtFrac p v = (if fp = [] then [] else CHR ''.'' # fp)" "list_all is_digit fp" "length fp \<le> p"
    "decimal_value fp * 10 ^ p div 10 ^ length fp = v mod 10 ^ p" using fmtFrac_text [OF assms(4)] by blast
  have q: "q \<le> 2 ^ 63 div 10 ^ p" using assms(7) by (simp add: less_eq_div_iff_mult_less_eq)
  from parse_term_text [of "nat_digits q" fp u rest "10 ^ p"] assms fp q show ?thesis by simp
qed

lemma term_whole:
  assumes "unit_of u = Some n" "list_all unit_char u" "u \<noteq> []" "0 < n" "rest = [] \<or> is_digit (hd rest)" "q * n \<le> 2 ^ 63"
  shows "parse_term (nat_digits q @ u @ rest) = Some (q * n, rest)"
proof -
  have "q \<le> 2 ^ 63 div n" using assms(4,6) by (simp add: less_eq_div_iff_mult_less_eq)
  with parse_term_text [of "nat_digits q" "[]" u rest n] assms show ?thesis by simp
qed

lemma units: "unit_of ''ns'' = Some 1" "unit_of (micro @ ''s'') = Some (10 ^ 3)" "unit_of ''ms'' = Some (10 ^ 6)" "unit_of ''s'' = Some (10 ^ 9)"
  "unit_of ''m'' = Some (60 * 10 ^ 9)" "unit_of ''h'' = Some (3600 * 10 ^ 9)"
  "list_all unit_char ''ns''" "list_all unit_char (micro @ ''s'')" "list_all unit_char ''ms''" "list_all unit_char ''s''"
  "list_all unit_char ''m''" "list_all unit_char ''h''" "micro @ ''s'' \<noteq> []"
  by (simp_all add: unit_of_def micro_def unit_char_def is_digit_def)

lemma parse_terms_step: "parse_term s = Some (w, r) \<Longrightarrow> d + w \<le> 2 ^ 63 \<Longrightarrow> parse_terms d s = parse_terms (d + w) r"
proof -
  assume s: "parse_term s = Some (w, r)" and b: "d + w \<le> 2 ^ 63"
  have "s \<noteq> []" using parse_term_shorter [OF s] by auto
  with s b show ?thesis by (simp add: parse_terms.simps [of d s])
qed

lemma parse_terms_nil [simp]: "parse_terms d [] = Some d"
  by (simp add: parse_terms.simps)

lemma nat_digits_start: "nat_digits n @ r = [] \<or> is_digit (hd (nat_digits n @ r))"
  using nat_digits_digits [of n] nat_digits_nonempty [of n] by (cases "nat_digits n") auto

text \<open>The text of a magnitude sums up to it.\<close>

definition magnitude_text :: "nat \<Rightarrow> string" where
  "magnitude_text u =
      (if u = 0 then ''0s''
       else if u < 10 ^ 3 then nat_digits u @ ''ns''
       else if u < 10 ^ 6 then nat_digits (u div 10 ^ 3) @ fmtFrac 3 u @ micro @ ''s''
       else if u < 10 ^ 9 then nat_digits (u div 10 ^ 6) @ fmtFrac 6 u @ ''ms''
       else
         let s = u div 10 ^ 9; secs = nat_digits (s mod 60) @ fmtFrac 9 u @ ''s''; m = s div 60 in
         if m = 0 then secs
         else
           let mins = nat_digits (m mod 60) @ ''m'' @ secs; h = m div 60 in
           if h = 0 then mins else nat_digits h @ ''h'' @ mins)"

lemma parse_secs:
  assumes "d + (q * 10 ^ 9 + u mod 10 ^ 9) \<le> 2 ^ 63"
  shows "parse_terms d (nat_digits q @ fmtFrac 9 u @ ''s'') = Some (d + (q * 10 ^ 9 + u mod 10 ^ 9))"
proof -
  have "parse_term (nat_digits q @ fmtFrac 9 u @ ''s'' @ []) = Some (q * 10 ^ 9 + u mod 10 ^ 9, [])"
    by (rule term_frac [OF units(4,10)]) (use assms in simp_all)
  from parse_terms_step [OF this assms] show ?thesis by simp
qed

lemma parse_mins:
  assumes "d + (p * (60 * 10 ^ 9) + (q * 10 ^ 9 + u mod 10 ^ 9)) \<le> 2 ^ 63"
  shows "parse_terms d (nat_digits p @ ''m'' @ nat_digits q @ fmtFrac 9 u @ ''s'') = Some (d + (p * (60 * 10 ^ 9) + (q * 10 ^ 9 + u mod 10 ^ 9)))"
proof -
  have "parse_term (nat_digits p @ ''m'' @ nat_digits q @ fmtFrac 9 u @ ''s'') = Some (p * (60 * 10 ^ 9), nat_digits q @ fmtFrac 9 u @ ''s'')"
    by (rule term_whole [OF units(5,11)]) (use assms nat_digits_start in simp_all)
  from parse_terms_step [OF this, of d] parse_secs [of "d + p * (60 * 10 ^ 9)" q u] assms show ?thesis by (simp add: add.assoc)
qed

lemma magnitude_read: "u \<le> 2 ^ 63 \<Longrightarrow> parse_terms 0 (magnitude_text u) = Some u"
proof -
  assume b: "u \<le> 2 ^ 63"
  let ?s = "u div 10 ^ 9"
  consider "u = 0" | "0 < u" "u < 10 ^ 3" | "10 ^ 3 \<le> u" "u < 10 ^ 6" | "10 ^ 6 \<le> u" "u < 10 ^ 9" | "10 ^ 9 \<le> u" by linarith
  then show "parse_terms 0 (magnitude_text u) = Some u"
  proof cases
    case 1
    have z: "nat_digits 0 = ''0''" by (subst nat_digits.simps) (simp add: dig_zero)
    have "parse_term (nat_digits 0 @ ''s'' @ []) = Some (0 * 10 ^ 9, [])" by (rule term_whole [OF units(4,10)]) simp_all
    with parse_terms_step [OF this, of 0] 1 show ?thesis by (simp add: magnitude_text_def z)
  next
    case 2
    have "parse_term (nat_digits u @ ''ns'' @ []) = Some (u * 1, [])" by (rule term_whole [OF units(1,7)]) (use b in simp_all)
    with parse_terms_step [OF this, of 0] 2 b show ?thesis by (simp add: magnitude_text_def)
  next
    case 3
    have e: "u div 10 ^ 3 * 10 ^ 3 + u mod 10 ^ 3 = u" by (rule div_mult_mod_eq)
    have "parse_term (nat_digits (u div 10 ^ 3) @ fmtFrac 3 u @ (micro @ ''s'') @ []) = Some (u div 10 ^ 3 * 10 ^ 3 + u mod 10 ^ 3, [])"
      by (rule term_frac [OF units(2,8,13)]) (use b e in simp_all)
    with parse_terms_step [OF this, of 0] 3 b e show ?thesis by (simp add: magnitude_text_def)
  next
    case 4
    have e: "u div 10 ^ 6 * 10 ^ 6 + u mod 10 ^ 6 = u" by (rule div_mult_mod_eq)
    have "parse_term (nat_digits (u div 10 ^ 6) @ fmtFrac 6 u @ ''ms'' @ []) = Some (u div 10 ^ 6 * 10 ^ 6 + u mod 10 ^ 6, [])"
      by (rule term_frac [OF units(3,9)]) (use b e in simp_all)
    with parse_terms_step [OF this, of 0] 4 b e show ?thesis by (simp add: magnitude_text_def)
  next
    case 5
    define s where "s = u div 10 ^ 9"
    define q where "q = s mod 60"
    define m where "m = s div 60"
    define p where "p = m mod 60"
    define h where "h = m div 60"
    have e: "s * 10 ^ 9 + u mod 10 ^ 9 = u" "m * 60 + q = s" "h * 60 + p = m"
      by (simp_all only: s_def q_def m_def p_def h_def div_mult_mod_eq)
    then have sum: "h * (3600 * 10 ^ 9) + (p * (60 * 10 ^ 9) + (q * 10 ^ 9 + u mod 10 ^ 9)) = u" by simp
    have tx: "magnitude_text u = (if m = 0 then nat_digits q @ fmtFrac 9 u @ ''s''
        else if h = 0 then nat_digits p @ ''m'' @ nat_digits q @ fmtFrac 9 u @ ''s''
        else nat_digits h @ ''h'' @ nat_digits p @ ''m'' @ nat_digits q @ fmtFrac 9 u @ ''s'')"
      using 5 by (simp add: magnitude_text_def Let_def s_def q_def m_def p_def h_def)
    consider "m = 0" "h = 0" "p = 0" | "m \<noteq> 0" "h = 0" | "m \<noteq> 0" "h \<noteq> 0" using e(3) by auto
    then show ?thesis
    proof cases
      case 1
      with parse_secs [of 0 q u] sum b show ?thesis by (simp add: tx)
    next
      case 2
      with parse_mins [of 0 p q u] sum b show ?thesis by (simp add: tx)
    next
      case 3
      have "parse_term (nat_digits h @ ''h'' @ nat_digits p @ ''m'' @ nat_digits q @ fmtFrac 9 u @ ''s'') =
          Some (h * (3600 * 10 ^ 9), nat_digits p @ ''m'' @ nat_digits q @ fmtFrac 9 u @ ''s'')"
        by (rule term_whole [OF units(6,12)]) (use b sum nat_digits_start in simp_all)
      from parse_terms_step [OF this, of 0] parse_mins [of "h * (3600 * 10 ^ 9)" p q u] sum b 3 show ?thesis by (simp add: tx)
    qed
  qed
qed

lemma magnitude_start: "magnitude_text u \<noteq> [] \<and> is_digit (hd (magnitude_text u)) \<and> magnitude_text u \<noteq> ''0''"
proof -
  have n: "nat_digits n \<noteq> [] \<and> is_digit (hd (nat_digits n @ r))" for n r
    using nat_digits_start [of n r] by simp
  have l: "r \<noteq> [] \<Longrightarrow> nat_digits k @ r \<noteq> ''0''" for k r using nat_digits_nonempty [of k] by (cases "nat_digits k") auto
  show ?thesis using n l by (auto simp: magnitude_text_def Let_def is_digit_def [of "CHR ''0''"] micro_def)
qed

lemma Duration_String_read:
  assumes "- (2 ^ 63) \<le> d" "d < 2 ^ 63"
  shows "ParseDuration (Duration_String d) = Some d"
proof -
  have s: "Duration_String d = (if d < 0 then ''-'' else []) @ magnitude_text (nat \<bar>d\<bar>)"
    by (simp add: Duration_String_def magnitude_text_def Let_def)
  have "magnitude_text (nat \<bar>d\<bar>) = hd (magnitude_text (nat \<bar>d\<bar>)) # tl (magnitude_text (nat \<bar>d\<bar>))" 
    and c: "hd (magnitude_text (nat \<bar>d\<bar>)) \<noteq> CHR ''-''" "hd (magnitude_text (nat \<bar>d\<bar>)) \<noteq> CHR ''+''"
    using magnitude_start [of "nat \<bar>d\<bar>"] by (auto simp: is_digit_def)
  then have "split_sign (Duration_String d) = (d < 0, magnitude_text (nat \<bar>d\<bar>))"
    by (cases "magnitude_text (nat \<bar>d\<bar>)") (auto simp: s split_sign_def)
  moreover have "parse_terms 0 (magnitude_text (nat \<bar>d\<bar>)) = Some (nat \<bar>d\<bar>)" using assms by (intro magnitude_read) simp
  ultimately show ?thesis using magnitude_start [of "nat \<bar>d\<bar>"] assms by (auto simp: ParseDuration_def Let_def)
qed

end
