(* ===== verification/Loadflags.thy ===== *)
theory Loadflags
  imports Durations Reportfiles Loadrun
begin

text \<open>
  The command line of the load generator (\<open>cmd/loadgen/main.go\<close>): its flags, as Go's package \<open>flag\<close> reads them, the
  configuration they make, and how \<open>describe\<close> of \<open>loadgen.go\<close> shows a configuration in the report. Arguments are byte
  strings. Usage texts and messages on the error stream are left out; an exit is its code.
\<close>

section \<open>Numbers on the command line\<close>

text \<open>\<open>strconv.ParseInt\<close> with base 0: a prefix chooses the base, and underscores may separate digits after a prefix.\<close>

definition digit_of :: "char \<Rightarrow> nat option" where
  "digit_of c =
     (let n = of_char c in
      if 48 \<le> n \<and> n \<le> 57 then Some (n - 48) else if 97 \<le> n \<and> n \<le> 122 then Some (n - 87)
      else if 65 \<le> n \<and> n \<le> 90 then Some (n - 55) else None)"

fun parse_base :: "nat \<Rightarrow> nat \<Rightarrow> string \<Rightarrow> nat option" where
  "parse_base b n [] = Some n"
| "parse_base b n (c # cs) =
     (if c = CHR ''_'' then parse_base b n cs
      else case digit_of c of None \<Rightarrow> None | Some d \<Rightarrow> if d \<ge> b then None else parse_base b (n * b + d) cs)"

definition base_of :: "string \<Rightarrow> nat \<times> string" where
  "base_of s =
     (case s of
        c # r \<Rightarrow> if c \<noteq> CHR ''0'' then (10, s)
          else if length s \<ge> 3 \<and> hd r \<in> {CHR ''b'', CHR ''B''} then (2, tl r)
          else if length s \<ge> 3 \<and> hd r \<in> {CHR ''o'', CHR ''O''} then (8, tl r)
          else if length s \<ge> 3 \<and> hd r \<in> {CHR ''x'', CHR ''X''} then (16, tl r)
          else (8, r)
      | [] \<Rightarrow> (10, s))"

text \<open>Underscores only between digits, a base prefix counting as one; \<open>prev\<close> tells what precedes.\<close>

datatype before = AtStart | AfterDigit | AfterUnderscore | AfterOther

fun underscores :: "bool \<Rightarrow> before \<Rightarrow> string \<Rightarrow> bool" where
  "underscores hex prev [] \<longleftrightarrow> prev \<noteq> AfterUnderscore"
| "underscores hex prev (c # cs) =
     (if is_digit c \<or> hex \<and> digit_of c \<noteq> None \<and> the (digit_of c) < 16 then underscores hex AfterDigit cs
      else if c = CHR ''_'' then prev = AfterDigit \<and> underscores hex AfterUnderscore cs
      else prev \<noteq> AfterUnderscore \<and> underscores hex AfterOther cs)"

definition underscoreOK :: "string \<Rightarrow> bool" where
  "underscoreOK s =
     (if length s \<ge> 2 \<and> hd s = CHR ''0'' \<and> s ! 1 \<in> {CHR ''b'', CHR ''B'', CHR ''o'', CHR ''O'', CHR ''x'', CHR ''X''}
      then underscores (s ! 1 \<in> {CHR ''x'', CHR ''X''}) AfterDigit (drop 2 s) else underscores False AtStart s)"

definition ParseInt0 :: "string \<Rightarrow> int option" where
  "ParseInt0 s =
     (let (neg, r) = split_sign s; (b, ds) = base_of r in
      if r = [] then None
      else case parse_base b 0 ds of
          None \<Rightarrow> None
        | Some n \<Rightarrow> if CHR ''_'' \<in> set ds \<and> \<not> underscoreOK r then None
            else in_int_range (if neg then - int n else int n))"

section \<open>Flags\<close>

record flags =
  fl_url :: string
  fl_metricsURL :: string
  fl_steps :: string
  fl_stepDur :: duration
  fl_warmup :: duration
  fl_frameInt :: duration
  fl_speech :: int
  fl_bargeEvery :: int
  fl_netemDelay :: duration
  fl_netemJit :: duration
  fl_burstEvery :: duration
  fl_burstHold :: duration
  fl_out :: string

definition default_flags :: flags where
  "default_flags = \<lparr>fl_url = ''ws://127.0.0.1:8080/ws'', fl_metricsURL = ''http://127.0.0.1:8080/metrics'', fl_steps = ''2,5,10,20,40,80'',
     fl_stepDur = 10 * Second, fl_warmup = 2 * Second, fl_frameInt = 20 * Millisecond, fl_speech = 30, fl_bargeEvery = 4,
     fl_netemDelay = 0, fl_netemJit = 0, fl_burstEvery = 0, fl_burstHold = 0, fl_out = []\<rparr>"

definition str_flag :: "((string \<Rightarrow> string) \<Rightarrow> flags \<Rightarrow> flags) \<Rightarrow> string \<Rightarrow> flags \<Rightarrow> flags option" where
  "str_flag upd v f = Some (upd (\<lambda>_. v) f)"

definition int_flag :: "((int \<Rightarrow> int) \<Rightarrow> flags \<Rightarrow> flags) \<Rightarrow> string \<Rightarrow> flags \<Rightarrow> flags option" where
  "int_flag upd v f = map_option (\<lambda>n. upd (\<lambda>_. n) f) (ParseInt0 v)"

definition dur_flag :: "((duration \<Rightarrow> duration) \<Rightarrow> flags \<Rightarrow> flags) \<Rightarrow> string \<Rightarrow> flags \<Rightarrow> flags option" where
  "dur_flag upd v f = map_option (\<lambda>n. upd (\<lambda>_. n) f) (ParseDuration v)"

definition flag_table :: "(string \<times> (string \<Rightarrow> flags \<Rightarrow> flags option)) list" where
  "flag_table =
     [(''url'', str_flag fl_url_update), (''metrics'', str_flag fl_metricsURL_update), (''steps'', str_flag fl_steps_update),
      (''step-dur'', dur_flag fl_stepDur_update), (''warmup'', dur_flag fl_warmup_update), (''frame-interval'', dur_flag fl_frameInt_update),
      (''speech-frames'', int_flag fl_speech_update), (''barge-every'', int_flag fl_bargeEvery_update),
      (''netem-delay'', dur_flag fl_netemDelay_update), (''netem-jitter'', dur_flag fl_netemJit_update),
      (''netem-burst-every'', dur_flag fl_burstEvery_update), (''netem-burst-hold'', dur_flag fl_burstHold_update),
      (''out'', str_flag fl_out_update)]"

datatype flag_error = HelpRequested | BadSyntax string | NotDefined string | NeedsArgument string | BadValue string string

datatype flag_arg = EndOfFlags | Malformed | FlagNamed string "string option"

definition flag_arg_of :: "string \<Rightarrow> flag_arg" where
  "flag_arg_of s =
     (if length s < 2 \<or> hd s \<noteq> CHR ''-'' then EndOfFlags
      else let minuses = (if s ! 1 = CHR ''-'' then 2 else 1); name = drop minuses s in
        if minuses = 2 \<and> length s = 2 then EndOfFlags
        else if name = [] \<or> hd name = CHR ''-'' \<or> hd name = CHR ''='' then Malformed
        else FlagNamed (takeWhile (\<lambda>c. c \<noteq> CHR ''='') name)
          (if CHR ''='' \<in> set name then Some (tl (dropWhile (\<lambda>c. c \<noteq> CHR ''='') name)) else None))"

fun parse_flags :: "flags \<Rightarrow> string list \<Rightarrow> flag_error + flags" where
  "parse_flags f [] = Inr f"
| "parse_flags f (a # args) =
     (case flag_arg_of a of
        EndOfFlags \<Rightarrow> Inr f
      | Malformed \<Rightarrow> Inl (BadSyntax a)
      | FlagNamed name v \<Rightarrow>
          (case map_of flag_table name of
             None \<Rightarrow> Inl (if name = ''help'' \<or> name = ''h'' then HelpRequested else NotDefined name)
           | Some set_to \<Rightarrow>
               (case v of
                  Some t \<Rightarrow> (case set_to t f of None \<Rightarrow> Inl (BadValue name t) | Some f1 \<Rightarrow> parse_flags f1 args)
                | None \<Rightarrow>
                    (case args of
                       [] \<Rightarrow> Inl (NeedsArgument name)
                     | t # args1 \<Rightarrow> (case set_to t f of None \<Rightarrow> Inl (BadValue name t) | Some f1 \<Rightarrow> parse_flags f1 args1)))))"

section \<open>The command\<close>

definition flags_config :: "flags \<Rightarrow> int list \<Rightarrow> LoadConfig" where
  "flags_config f steps =
     \<lparr>lc_URL = fl_url f, lc_MetricsURL = fl_metricsURL f, lc_Steps = steps, lc_StepDuration = fl_stepDur f, lc_Warmup = fl_warmup f,
      lc_FrameInterval = fl_frameInt f, lc_FrameDuration = 0, lc_SampleRate = 0, lc_SpeechFrames = fl_speech f,
      lc_BargeEvery = fl_bargeEvery f, lc_BargeDelay = 0, lc_QuietGap = 0, lc_TurnTimeout = 0,
      lc_Netem = \<lparr>ne_Delay = fl_netemDelay f, ne_Jitter = fl_netemJit f, ne_BurstEvery = fl_burstEvery f, ne_BurstHold = fl_burstHold f, ne_Seed = 0\<rparr>,
      lc_speechPCM = [], lc_silencePCM = []\<rparr>"

text \<open>What is printed, the files written and the exit code; bad flags exit with 2, a call for help with 0.\<close>

definition loadgen_command :: "(LoadConfig \<Rightarrow> Report option \<times> bool) \<Rightarrow> bool \<Rightarrow> (string \<Rightarrow> bool) \<Rightarrow> runes \<Rightarrow> string list \<Rightarrow>
    runes list \<times> (string \<times> runes) list \<times> nat" where
  "loadgen_command run cancelled io tmpl args =
     (case parse_flags default_flags args of
        Inl HelpRequested \<Rightarrow> ([], [], 0)
      | Inl _ \<Rightarrow> ([], [], 2)
      | Inr f \<Rightarrow> loadgen_main (fl_steps f) (\<lambda>ns. run (flags_config f ns)) cancelled (fl_out f) io tmpl)"

section \<open>The description\<close>

definition describe :: "LoadConfig \<Rightarrow> string" where
  "describe c =
     ''steps=['' @ separated CHR '' '' (map decimal (lc_Steps c)) @ ''] step='' @ Duration_String (lc_StepDuration c) @
     '' frame='' @ Duration_String (lc_FrameInterval c) @ '' speech='' @ decimal (lc_SpeechFrames c) @
     '' barge_every='' @ decimal (lc_BargeEvery c) @
     (if netem_enabled (lc_Netem c) then
        '' netem{delay='' @ Duration_String (ne_Delay (lc_Netem c)) @ '' jitter='' @ Duration_String (ne_Jitter (lc_Netem c)) @
        '' burst='' @ Duration_String (ne_BurstHold (lc_Netem c)) @ ''/'' @ Duration_String (ne_BurstEvery (lc_Netem c)) @ ''}''
      else [])"


section \<open>Flags written and read\<close>

lemma parse_base_digits: "list_all is_digit ds \<Longrightarrow> parse_base 10 n ds = Some (n * 10 ^ length ds + decimal_value ds)"
proof (induction ds arbitrary: n)
  case (Cons c cs)
  then have "digit_of c = Some (of_char c - 48)" "of_char c - 48 < (10 :: nat)" "c \<noteq> CHR ''_''"
    by (auto simp: is_digit_def digit_of_def Let_def)
  with Cons show ?case by (simp add: decimal_value_Cons algebra_simps)
qed simp

lemma ParseInt0_decimal: "ParseInt0 (decimal n) = in_int_range n"
proof -
  define ds where "ds = nat_digits (nat \<bar>n\<bar>)"
  have d: "list_all is_digit ds" "ds \<noteq> []" "decimal_value ds = nat \<bar>n\<bar>" by (simp_all add: ds_def)
  then obtain c r where c: "ds = c # r" "is_digit c" by (cases ds) auto
  then have sg: "split_sign (decimal n) = (n < 0, ds)"
    by (auto simp: decimal_def ds_def [symmetric] split_sign_def is_digit_def)
  have u: "CHR ''_'' \<notin> set ds" using d(1) by (auto simp: list_all_iff is_digit_def)
  show ?thesis
  proof (cases "n = 0")
    case True
    then have "ds = ''0''" by (simp add: ds_def nat_digits.simps [of 0] dig_zero)
    with sg True have "split_sign (decimal 0) = (False, ''0'')" by simp
    then show ?thesis by (simp add: ParseInt0_def base_of_def True)
  next
    case False
    then have "c \<noteq> CHR ''0''" using nat_digits_hd [of "nat \<bar>n\<bar>"] c by (simp add: ds_def)
    then have "base_of ds = (10, ds)" by (simp add: base_of_def c)
    with d u parse_base_digits [OF d(1), of 0] show ?thesis by (simp add: ParseInt0_def sg Let_def)
  qed
qed

text \<open>The flags as a shell would be given them.\<close>

definition flag_words :: "flags \<Rightarrow> string list" where
  "flag_words f =
     [''-url'', fl_url f, ''-metrics'', fl_metricsURL f, ''-steps'', fl_steps f, ''-step-dur'', Duration_String (fl_stepDur f),
      ''-warmup'', Duration_String (fl_warmup f), ''-frame-interval'', Duration_String (fl_frameInt f),
      ''-speech-frames'', decimal (fl_speech f), ''-barge-every'', decimal (fl_bargeEvery f),
      ''-netem-delay'', Duration_String (fl_netemDelay f), ''-netem-jitter'', Duration_String (fl_netemJit f),
      ''-netem-burst-every'', Duration_String (fl_burstEvery f), ''-netem-burst-hold'', Duration_String (fl_burstHold f), ''-out'', fl_out f]"

definition int64 :: "int \<Rightarrow> bool" where
  "int64 n \<longleftrightarrow> - (2 ^ 63) \<le> n \<and> n < 2 ^ 63"

definition flags_in_range :: "flags \<Rightarrow> bool" where
  "flags_in_range f \<longleftrightarrow> list_all int64 [fl_stepDur f, fl_warmup f, fl_frameInt f, fl_speech f, fl_bargeEvery f, fl_netemDelay f, fl_netemJit f,
     fl_burstEvery f, fl_burstHold f]"

lemma parse_flag_word:
  assumes "flag_arg_of a = FlagNamed name None" "map_of flag_table name = Some set_to" "set_to v f = Some f1"
  shows "parse_flags f (a # v # args) = parse_flags f1 args"
  using assms by simp

lemma flag_set [simp]: "str_flag upd v f = Some (upd (\<lambda>_. v) f)" "int64 n \<Longrightarrow> int_flag upd2 (decimal n) f = Some (upd2 (\<lambda>_. n) f)"
  "int64 n \<Longrightarrow> dur_flag upd2 (Duration_String n) f = Some (upd2 (\<lambda>_. n) f)"
  by (simp_all add: str_flag_def int_flag_def dur_flag_def ParseInt0_decimal in_int_range_def int64_def Duration_String_read)

text \<open>
  C39: The command line carries the whole configuration: for all texts, and all durations and numbers of 64 bits, the flags
  printed as words are read back as they are, whatever the defaults, so the load run is given exactly that configuration
  with the steps parsed from their flag; \<open>-h\<close> anywhere after them stops the command with code 0 and a word it does not
  know with code 2, and neither runs anything.
\<close>

theorem flags_roundtrip:
  assumes "flags_in_range f"
  shows "parse_flags g (flag_words f) = Inr f \<and>
    loadgen_command run cancelled io tmpl (flag_words f) =
      loadgen_main (fl_steps f) (\<lambda>ns. run (flags_config f ns)) cancelled (fl_out f) io tmpl \<and>
    loadgen_command run cancelled io tmpl (flag_words f @ [''-h'']) = ([], [], 0) \<and>
    loadgen_command run cancelled io tmpl (flag_words f @ [''--verbose=1'']) = ([], [], 2)"
proof -
  have p: "parse_flags g (flag_words f @ args) = parse_flags f args" for g args
    using assms unfolding flag_words_def append_Cons append_Nil flags_in_range_def
    by (simp add: flag_arg_of_def flag_table_def Let_def) (cases f, cases g, simp)
  show ?thesis
    using p [of _ "[]"] p [of _ "[''-h'']"] p [of _ "[''--verbose=1'']"]
    by (simp add: loadgen_command_def flag_arg_of_def flag_table_def Let_def)
qed

theorem flags_roundtrip_witness:
  "\<exists>f. f = default_flags\<lparr>fl_steps := ''3'', fl_stepDur := 90 * Second + 5, fl_bargeEvery := - 3\<rparr> \<and>
     parse_flags default_flags (flag_words f) = Inr f \<and>
     loadgen_command (\<lambda>c. (None, lc_Steps c = [3] \<and> lc_StepDuration c = 90000000005 \<and> lc_BargeEvery c = - 3)) False (\<lambda>_. True) [] (flag_words f) =
       loadgen_main ''3'' (\<lambda>ns. (None, ns = [3])) False [] (\<lambda>_. True) []"
proof -
  let ?f = "default_flags\<lparr>fl_steps := ''3'', fl_stepDur := 90 * Second + 5, fl_bargeEvery := - 3\<rparr>"
  have "flags_in_range ?f" by (simp add: flags_in_range_def default_flags_def int64_def)
  note r = flags_roundtrip [OF this]
  have "loadgen_command (\<lambda>c. (None, lc_Steps c = [3] \<and> lc_StepDuration c = 90000000005 \<and> lc_BargeEvery c = - 3)) False (\<lambda>_. True) [] (flag_words ?f) =
       loadgen_main ''3'' (\<lambda>ns. (None, ns = [3])) False [] (\<lambda>_. True) []"
    using r [of default_flags "\<lambda>c. (None, lc_Steps c = [3] \<and> lc_StepDuration c = 90000000005 \<and> lc_BargeEvery c = - 3)" False "\<lambda>_. True" "[]"]
    by (simp add: default_flags_def flags_config_def)
  with r [of default_flags] show ?thesis by auto
qed


section \<open>What the description tells\<close>

lemma cut_at: "a @ c # r = a' @ c # r' \<Longrightarrow> c \<notin> set a \<Longrightarrow> c \<notin> set a' \<Longrightarrow> a = a' \<and> r = r'"
proof (induction a arbitrary: a')
  case Nil
  then show ?case by (cases a') auto
next
  case (Cons x xs)
  then show ?case by (cases a') auto
qed

lemma set_strip_zeros: "set (strip_zeros ds) \<subseteq> set ds"
  by (auto simp: strip_zeros_def dest: set_dropWhileD)

lemma set_Duration_String: "set (Duration_String d) \<subseteq> Collect is_digit \<union> set ''-.nsmh'' \<union> set micro"
proof -
  have z: "is_digit CHR ''0''" by (simp add: is_digit_def)
  have "set (nat_digits v) \<subseteq> Collect is_digit" for v by (rule set_nat_digits)
  then have n: "c \<in> set (nat_digits v) \<Longrightarrow> is_digit c" for c v by blast
  have f: "c \<in> set (fmtFrac p v) \<Longrightarrow> c = CHR ''.'' \<or> is_digit c" for c p v
    using n z set_strip_zeros by (auto simp: fmtFrac_def Let_def split: if_splits dest!: subsetD [OF set_strip_zeros])
  show ?thesis by (auto simp: Duration_String_def Let_def is_digit_def [of "CHR ''0''"] dest: n f split: if_splits)
qed

lemma plain_words:
  "c \<in> {CHR '' '', CHR '']'', CHR ''/'', CHR ''}''} \<Longrightarrow> c \<notin> set (Duration_String d)"
  "c \<in> {CHR '' '', CHR '']'', CHR ''/'', CHR ''}''} \<Longrightarrow> c \<notin> set (decimal n)"
  using set_Duration_String [of d] decimal_chars [of n] by (auto simp: micro_def is_digit_def)

lemma Duration_String_inj: "int64 a \<Longrightarrow> int64 b \<Longrightarrow> Duration_String a = Duration_String b \<longleftrightarrow> a = b"
  using Duration_String_read unfolding int64_def by (metis option.inject)

lemma decimal_inj: "decimal a = decimal b \<longleftrightarrow> a = b"
  using decimal_read by (metis of_int_eq_iff option.inject)

lemma steps_inj:
  assumes "separated CHR '' '' (map decimal ns) = separated CHR '' '' (map decimal ms)"
  shows "ns = ms"
proof -
  have d: "decimal n \<noteq> []" for n by (simp add: decimal_def)
  have e: "separated CHR '' '' (map decimal ks) = [] \<longleftrightarrow> ks = []" for ks
    using d by (cases ks rule: remdups_adj.cases) auto
  show ?thesis
  proof (cases "ns = [] \<or> ms = []")
    case True
    then show ?thesis using assms e [of ns] e [of ms] by auto
  next
    case False
    have "Split CHR '' '' (separated CHR '' '' (map decimal ks)) = map decimal ks" if "ks \<noteq> []" for ks
      using that plain_words(2) by (intro Split_separated) (auto simp: list_all_iff)
    with assms False have "map decimal ns = map decimal ms" by metis
    then show ?thesis by (rule list.inj_map_strong [rotated]) (simp add: decimal_inj)
  qed
qed

lemma decimal_then:
  assumes "decimal a @ r = decimal b @ s" "r = [] \<or> hd r = CHR '' ''" "s = [] \<or> hd s = CHR '' ''"
  shows "r = s \<and> decimal a = decimal b"
proof -
  let ?P = "\<lambda>c. c \<noteq> CHR '' ''"
  have p: "takeWhile ?P (decimal n @ u) = decimal n" if "u = [] \<or> hd u = CHR '' ''" for n u
  proof -
    have "\<forall>c \<in> set (decimal n). ?P c" using plain_words(2) [of "CHR '' ''" n] by auto
    with that show ?thesis by (cases u) (simp_all add: takeWhile_append)
  qed
  from arg_cong [OF assms(1), of "takeWhile ?P"] have "decimal a = decimal b" using p assms(2,3) by simp
  with assms(1) show ?thesis by simp
qed

definition config_in_range :: "LoadConfig \<Rightarrow> bool" where
  "config_in_range c \<longleftrightarrow> list_all int64 [lc_StepDuration c, lc_FrameInterval c, ne_Delay (lc_Netem c), ne_Jitter (lc_Netem c),
     ne_BurstHold (lc_Netem c), ne_BurstEvery (lc_Netem c)]"

text \<open>
  The description in the report identifies the run: two configurations with the same description have the same steps,
  step duration, frame interval, speech length and barge-in rate, and either no network shaping at all or the same
  delay, jitter and burst.
\<close>

theorem describe_identifies:
  assumes "describe c = describe c'" "config_in_range c" "config_in_range c'"
  shows "lc_Steps c = lc_Steps c' \<and> lc_StepDuration c = lc_StepDuration c' \<and> lc_FrameInterval c = lc_FrameInterval c' \<and>
    lc_SpeechFrames c = lc_SpeechFrames c' \<and> lc_BargeEvery c = lc_BargeEvery c' \<and>
    (if netem_enabled (lc_Netem c) then (lc_Netem c)\<lparr>ne_Seed := 0\<rparr> = (lc_Netem c')\<lparr>ne_Seed := 0\<rparr> else \<not> netem_enabled (lc_Netem c'))"
proof -
  let ?net = "\<lambda>c. if netem_enabled (lc_Netem c) then
        CHR '' '' # ''netem{delay='' @ Duration_String (ne_Delay (lc_Netem c)) @ CHR '' '' # ''jitter='' @ Duration_String (ne_Jitter (lc_Netem c)) @
        CHR '' '' # ''burst='' @ Duration_String (ne_BurstHold (lc_Netem c)) @ CHR ''/'' # Duration_String (ne_BurstEvery (lc_Netem c)) @ [CHR ''}'']
      else []"
  let ?sep = "\<lambda>c. separated CHR '' '' (map decimal (lc_Steps c))"
  have d: "describe c = ''steps=['' @ ?sep c @ CHR '']'' # '' step='' @ Duration_String (lc_StepDuration c) @ CHR '' '' # ''frame='' @
     Duration_String (lc_FrameInterval c) @ CHR '' '' # ''speech='' @ decimal (lc_SpeechFrames c) @ CHR '' '' # ''barge_every='' @
     decimal (lc_BargeEvery c) @ ?net c" for c
    by (simp add: describe_def)
  have sep: "CHR '']'' \<notin> set (?sep c)" for c
    using set_separated [of "CHR '' ''" "map decimal (lc_Steps c)"] plain_words(2) [of "CHR '']''"] by auto
  note cut = cut_at [OF _ plain_words(1) plain_words(1), where c = "CHR '' ''"]
  from assms(1) have "?sep c @ CHR '']'' # '' step='' @ Duration_String (lc_StepDuration c) @ CHR '' '' # ''frame='' @
     Duration_String (lc_FrameInterval c) @ CHR '' '' # ''speech='' @ decimal (lc_SpeechFrames c) @ CHR '' '' # ''barge_every='' @
     decimal (lc_BargeEvery c) @ ?net c =
     ?sep c' @ CHR '']'' # '' step='' @ Duration_String (lc_StepDuration c') @ CHR '' '' # ''frame='' @
     Duration_String (lc_FrameInterval c') @ CHR '' '' # ''speech='' @ decimal (lc_SpeechFrames c') @ CHR '' '' # ''barge_every='' @
     decimal (lc_BargeEvery c') @ ?net c'" unfolding d by simp
  from cut_at [OF this sep sep] have s: "?sep c = ?sep c'" and r1: "Duration_String (lc_StepDuration c) @ CHR '' '' # ''frame='' @
     Duration_String (lc_FrameInterval c) @ CHR '' '' # ''speech='' @ decimal (lc_SpeechFrames c) @ CHR '' '' # ''barge_every='' @
     decimal (lc_BargeEvery c) @ ?net c = Duration_String (lc_StepDuration c') @ CHR '' '' # ''frame='' @
     Duration_String (lc_FrameInterval c') @ CHR '' '' # ''speech='' @ decimal (lc_SpeechFrames c') @ CHR '' '' # ''barge_every='' @
     decimal (lc_BargeEvery c') @ ?net c'" by simp_all
  from cut [OF r1] have sd: "Duration_String (lc_StepDuration c) = Duration_String (lc_StepDuration c')" and r2:
     "Duration_String (lc_FrameInterval c) @ CHR '' '' # ''speech='' @ decimal (lc_SpeechFrames c) @ CHR '' '' # ''barge_every='' @
     decimal (lc_BargeEvery c) @ ?net c = Duration_String (lc_FrameInterval c') @ CHR '' '' # ''speech='' @ decimal (lc_SpeechFrames c') @
     CHR '' '' # ''barge_every='' @ decimal (lc_BargeEvery c') @ ?net c'" by simp_all
  from cut [OF r2] have fi: "Duration_String (lc_FrameInterval c) = Duration_String (lc_FrameInterval c')" and r3:
     "decimal (lc_SpeechFrames c) @ CHR '' '' # ''barge_every='' @ decimal (lc_BargeEvery c) @ ?net c =
      decimal (lc_SpeechFrames c') @ CHR '' '' # ''barge_every='' @ decimal (lc_BargeEvery c') @ ?net c'" by simp_all
  from cut_at [OF r3 plain_words(2) plain_words(2)] have sf: "decimal (lc_SpeechFrames c) = decimal (lc_SpeechFrames c')"
    and r4: "decimal (lc_BargeEvery c) @ ?net c = decimal (lc_BargeEvery c') @ ?net c'" by simp_all
  let ?body = "\<lambda>c. Duration_String (ne_Delay (lc_Netem c)) @ CHR '' '' # ''jitter='' @ Duration_String (ne_Jitter (lc_Netem c)) @
        CHR '' '' # ''burst='' @ Duration_String (ne_BurstHold (lc_Netem c)) @ CHR ''/'' # Duration_String (ne_BurstEvery (lc_Netem c)) @ [CHR ''}'']"
  have net: "?net c = ?net c' \<and> decimal (lc_BargeEvery c) = decimal (lc_BargeEvery c')"
  proof (rule decimal_then)
    show "decimal (lc_BargeEvery c) @ ?net c = decimal (lc_BargeEvery c') @ ?net c'" by (rule r4)
  qed simp_all
  have same: "lc_Steps c = lc_Steps c'" "lc_StepDuration c = lc_StepDuration c'" "lc_FrameInterval c = lc_FrameInterval c'"
    "lc_SpeechFrames c = lc_SpeechFrames c'" "lc_BargeEvery c = lc_BargeEvery c'"
    using s sd fi sf net assms(2,3) by (auto simp: config_in_range_def Duration_String_inj decimal_inj dest: steps_inj)
  show ?thesis
  proof (cases "netem_enabled (lc_Netem c)")
    case True
    with net have e: "netem_enabled (lc_Netem c')" and r5: "?body c = ?body c'" by (auto split: if_splits)
    from cut [OF r5] have de: "Duration_String (ne_Delay (lc_Netem c)) = Duration_String (ne_Delay (lc_Netem c'))" and r6:
      "Duration_String (ne_Jitter (lc_Netem c)) @ CHR '' '' # ''burst='' @ Duration_String (ne_BurstHold (lc_Netem c)) @ CHR ''/'' #
        Duration_String (ne_BurstEvery (lc_Netem c)) @ [CHR ''}''] = Duration_String (ne_Jitter (lc_Netem c')) @ CHR '' '' # ''burst='' @
        Duration_String (ne_BurstHold (lc_Netem c')) @ CHR ''/'' # Duration_String (ne_BurstEvery (lc_Netem c')) @ [CHR ''}'']" by simp_all
    from cut [OF r6] have ji: "Duration_String (ne_Jitter (lc_Netem c)) = Duration_String (ne_Jitter (lc_Netem c'))" and r7:
      "Duration_String (ne_BurstHold (lc_Netem c)) @ CHR ''/'' # Duration_String (ne_BurstEvery (lc_Netem c)) @ [CHR ''}''] =
       Duration_String (ne_BurstHold (lc_Netem c')) @ CHR ''/'' # Duration_String (ne_BurstEvery (lc_Netem c')) @ [CHR ''}'']" by simp_all
    from cut_at [OF r7 plain_words(1) plain_words(1)]
    have bu: "Duration_String (ne_BurstHold (lc_Netem c)) = Duration_String (ne_BurstHold (lc_Netem c'))"
      "Duration_String (ne_BurstEvery (lc_Netem c)) = Duration_String (ne_BurstEvery (lc_Netem c'))" by simp_all
    have "(lc_Netem c)\<lparr>ne_Seed := 0\<rparr> = (lc_Netem c')\<lparr>ne_Seed := 0\<rparr>"
      using de ji bu assms(2,3) by (cases "lc_Netem c"; cases "lc_Netem c'") (simp add: config_in_range_def Duration_String_inj)
    with same True show ?thesis by simp
  next
    case False
    with net have "\<not> netem_enabled (lc_Netem c')" by (auto split: if_splits)
    with same False show ?thesis by simp
  qed
qed

theorem describe_identifies_witness:
  "\<exists>c c'. c = flags_config (default_flags\<lparr>fl_netemDelay := 40 * Millisecond\<rparr>) [2, 5] \<and> c' = c\<lparr>lc_URL := ''ws://host/ws'', lc_Netem := (lc_Netem c)\<lparr>ne_Seed := 7\<rparr>\<rparr> \<and>
     describe c = describe c' \<and> lc_Steps c' = [2, 5] \<and> ne_Delay (lc_Netem c') = 40 * Millisecond"
proof -
  let ?c = "flags_config (default_flags\<lparr>fl_netemDelay := 40 * Millisecond\<rparr>) [2, 5]"
  let ?d = "?c\<lparr>lc_URL := ''ws://host/ws'', lc_Netem := (lc_Netem ?c)\<lparr>ne_Seed := 7\<rparr>\<rparr>"
  have "describe ?c = describe ?d" by (simp add: describe_def netem_enabled_def)
  moreover have "config_in_range ?c" "config_in_range ?d"
    by (simp_all add: config_in_range_def flags_config_def default_flags_def int64_def)
  ultimately have "lc_Steps ?c = lc_Steps ?d \<and> (lc_Netem ?c)\<lparr>ne_Seed := 0\<rparr> = (lc_Netem ?d)\<lparr>ne_Seed := 0\<rparr>"
    using describe_identifies [of ?c ?d] by (simp add: netem_enabled_def flags_config_def default_flags_def)
  with \<open>describe ?c = describe ?d\<close> show ?thesis by (simp add: flags_config_def)
qed

end
