(* ===== verification/Scraping.thy ===== *)
theory Scraping
  imports Procmetrics Loadrun "HOL-Library.Sublist"
begin

text \<open>
  A scrape over HTTP, from the handler of \<open>internal/metrics/metrics.go\<close> to \<open>scrape\<close> of \<open>internal/loadgen/scrape.go\<close>: the bytes
  of the response, the lines \<open>bufio.Scanner\<close> finds in them, and the errors. \<open>net/http\<close> is what it brings back: the
  status, the bytes of the body that arrive, and whether reading them ends in an error.
\<close>

section \<open>The response\<close>

abbreviation NL :: char where "NL \<equiv> CHR 0x0A"
abbreviation CR :: char where "CR \<equiv> CHR 0x0D"

text \<open>Every line written ends in a newline; the status is the implicit 200.\<close>

definition metrics_response :: "'s Registry \<Rightarrow> 's \<Rightarrow> string" where
  "metrics_response r s = concat (map (\<lambda>l. l @ [NL]) (Registry_Handler r s))"

section \<open>The lines of a text\<close>

text \<open>What stands between the newlines, and after the last one unless that is empty.\<close>

fun raw_lines :: "string \<Rightarrow> string list" where
  "raw_lines [] = []"
| "raw_lines (c # cs) =
     (if c = NL then [] # raw_lines cs else case raw_lines cs of [] \<Rightarrow> [[c]] | l # ls \<Rightarrow> (c # l) # ls)"

definition drop_cr :: "string \<Rightarrow> string" where
  "drop_cr l = (if l \<noteq> [] \<and> last l = CR then butlast l else l)"

text \<open>The buffer grows to a megabyte and must hold a line with its newline; a longer line ends the scan with an error.\<close>

definition scan_buffer :: nat where "scan_buffer = 1024 * 1024"

definition Scan :: "string \<Rightarrow> string list \<times> bool" where
  "Scan body = (let ls = raw_lines body; fits = takeWhile (\<lambda>l. length l < scan_buffer) ls in (map drop_cr fits, length fits < length ls))"

section \<open>The scrape\<close>

datatype scrape_reply = NoRequest | NoReply | Answer nat string bool

text \<open>\<open>None\<close> is the panic of \<open>parseLine\<close>; the snapshot that comes with an error is never used.\<close>

definition scrape :: "scrape_reply \<Rightarrow> (scrape_error + snapshot) option" where
  "scrape reply =
     (case reply of
        NoRequest \<Rightarrow> Some (Inl ScrapeFailed)
      | NoReply \<Rightarrow> Some (Inl ScrapeFailed)
      | Answer status body failed \<Rightarrow>
          if status \<noteq> 200 then Some (Inl ScrapeFailed)
          else case Scan body of (ls, long) \<Rightarrow>
            map_option (\<lambda>snap. if long \<or> failed then Inl ScrapeFailed else Inr snap) (scrape_lines ls empty_snapshot))"

section \<open>Lines\<close>

lemma raw_lines_whole: "NL \<notin> set l \<Longrightarrow> raw_lines l = (if l = [] then [] else [l])"
  by (induction l) auto

lemma raw_lines_append: "NL \<notin> set l \<Longrightarrow> raw_lines (l @ NL # s) = l # raw_lines s"
  by (induction l) auto

lemma raw_lines_text: "list_all (\<lambda>l. NL \<notin> set l) ls \<Longrightarrow> raw_lines (concat (map (\<lambda>l. l @ [NL]) ls)) = ls"
  by (induction ls) (simp_all add: raw_lines_append)

text \<open>The lines of a text that breaks off are lines of the whole one, the last perhaps shortened.\<close>

lemma raw_lines_prefix:
  assumes "list_all (\<lambda>l. NL \<notin> set l) ls" "prefix s (concat (map (\<lambda>l. l @ [NL]) ls))" "p \<in> set (raw_lines s)"
  shows "\<exists>l \<in> set ls. prefix p l"
  using assms
proof (induction ls arbitrary: s)
  case (Cons l ls)
  let ?rest = "concat (map (\<lambda>l. l @ [NL]) ls)"
  have nl: "NL \<notin> set l" using Cons.prems(1) by simp
  from Cons.prems(2) have "prefix s (l @ NL # ?rest)" by simp
  then consider "prefix s l" | s' where "s = l @ NL # s'" "prefix s' ?rest"
    by (auto simp: prefix_append prefix_Cons)
  then show ?case
  proof cases
    case 1
    then have "NL \<notin> set s" using nl set_mono_prefix by blast
    with Cons.prems(3) 1 show ?thesis by (auto simp: raw_lines_whole split: if_splits)
  next
    case 2
    with Cons.prems(3) nl have "p = l \<or> p \<in> set (raw_lines s')" by (simp add: raw_lines_append)
    then show ?thesis using Cons.IH [OF _ 2(2)] Cons.prems(1) by auto
  qed
qed simp

lemma prefix_drop_cr: "prefix (drop_cr l) l"
  by (simp add: drop_cr_def) (metis append_butlast_last_id prefixI)

section \<open>No line panics, broken off or not\<close>

definition line_ok :: "string \<Rightarrow> bool" where
  "line_ok l \<longleftrightarrow> set l \<inter> {NL, CR} = {} \<and> (\<forall>p snap. prefix p l \<longrightarrow> parseLine p snap \<noteq> None)"

lemma scrape_lines_ok: "\<forall>l \<in> set ls. \<forall>snap. parseLine l snap \<noteq> None \<Longrightarrow> scrape_lines ls snap \<noteq> None"
  by (induction ls arbitrary: snap) (auto split: bind_split)

lemma comment_ok: "set l \<inter> {NL, CR} = {} \<Longrightarrow> line_ok (CHR ''#'' # l)"
proof -
  assume a: "set l \<inter> {NL, CR} = {}"
  have "parseLine p snap \<noteq> None" if p: "prefix p (CHR ''#'' # l)" for p snap
  proof (cases p)
    case Nil
    then show ?thesis by (simp add: parseLine_def)
  next
    case (Cons c q)
    with p have "has_prefix ''#'' p" by (simp add: has_prefix_def)
    then show ?thesis by (simp add: parseLine_comment)
  qed
  with a show ?thesis by (simp add: line_ok_def)
qed

lemma last_index_none: "x \<notin> set s \<Longrightarrow> last_index x s = None"
  by (induction s) auto

lemma last_index_last: "x \<notin> set r \<Longrightarrow> last_index x (s @ x # r) = Some (length s)"
  by (induction s) (auto simp: last_index_none)

lemma parseLine_space:
  assumes "last_index CHR '' '' p = Some k" "take k p = key" "bucketKey key \<noteq> None"
  shows "parseLine p snap \<noteq> None"
proof -
  obtain b where b: "bucketKey key = Some b" using assms(3) by blast
  show ?thesis unfolding parseLine_def assms(1,2) option.case Let_def b
    by (cases b) (auto split: option.split)
qed

lemma keyed_ok:
  assumes "set key \<inter> {NL, CR, CHR '' ''} = {}" "bucketKey key \<noteq> None" "decimal_places \<bar>v\<bar> \<noteq> None"
  shows "line_ok (key @ CHR '' '' # formatFloat v)"
proof -
  have num: "CHR '' '' \<notin> set (formatFloat v)" "NL \<notin> set (formatFloat v)" "CR \<notin> set (formatFloat v)"
    using formatFloat_chars [OF assms(3)] by (auto simp: is_digit_def)
  have key: "CHR '' '' \<notin> set key" "NL \<notin> set key" "CR \<notin> set key" using assms(1) by simp_all
  have "parseLine p snap \<noteq> None" if p: "prefix p (key @ CHR '' '' # formatFloat v)" for p snap
  proof (cases "prefix p key")
    case True
    then have "CHR '' '' \<notin> set p" using key set_mono_prefix [of p key] by auto
    then show ?thesis by (simp add: parseLine_def last_index_none)
  next
    case False
    with p obtain us where us: "p = key @ us" "prefix us (CHR '' '' # formatFloat v)" unfolding prefix_append by blast
    then obtain n where n: "p = key @ CHR '' '' # n" "prefix n (formatFloat v)"
      using False by (cases us) auto
    then have "CHR '' '' \<notin> set n" using num(1) set_mono_prefix [OF n(2)] by auto
    then have "last_index CHR '' '' p = Some (length key)" by (simp add: n last_index_last)
    moreover have "take (length key) p = key" by (simp add: n)
    ultimately show ?thesis using assms(2) by (rule parseLine_space)
  qed
  moreover have "set (key @ CHR '' '' # formatFloat v) \<inter> {NL, CR} = {}" using key num by simp
  ultimately show ?thesis unfolding line_ok_def by blast
qed

fun plain_help :: "'s instrument \<Rightarrow> bool" where
  "plain_help (CounterI name hlp v) \<longleftrightarrow> set name \<inter> {NL, CR} = {} \<and> set hlp \<inter> {NL, CR} = {}"
| "plain_help (HistogramI name hlp h) \<longleftrightarrow> set name \<inter> {NL, CR} = {} \<and> set hlp \<inter> {NL, CR} = {}"
| "plain_help (FuncI name hlp tp f) \<longleftrightarrow> set name \<inter> {NL, CR} = {} \<and> set hlp \<inter> {NL, CR} = {} \<and> set tp \<inter> {NL, CR} = {}"

lemma head_ok:
  assumes "set name \<inter> {NL, CR} = {}" "set hlp \<inter> {NL, CR} = {}" "set tp \<inter> {NL, CR} = {}"
  shows "list_all line_ok (tw_head name hlp tp)"
  using assms comment_ok [of "'' HELP '' @ name @ '' '' @ hlp"] comment_ok [of "'' TYPE '' @ name @ '' '' @ tp"]
  by (auto simp: tw_head_def)

lemma scalar_ok:
  assumes "name_ok name" "set name \<inter> {NL, CR} = {}" "decimal_places \<bar>v\<bar> \<noteq> None"
  shows "line_ok (tw_line name [] v)"
proof -
  have "bucketKey name = Some None" using assms(1) by (intro bucketKey_scalar) (auto simp: name_ok_def)
  with keyed_ok [of name v] assms show ?thesis by (auto simp: tw_line_def name_ok_def)
qed

lemma bucket_ok:
  assumes "name_ok name" "set name \<inter> {NL, CR} = {}" "set b \<inter> {NL, CR, CHR '' ''} = {}"
  shows "line_ok (tw_line (name @ ''_bucket'') (le_label b) (real n))"
proof -
  have "CHR ''{'' \<notin> set name" using assms(1) by (auto simp: name_ok_def)
  from bucketKey_bucket [OF this, of b] have "bucketKey (name @ ''_bucket{'' @ le_label b @ ''}'') \<noteq> None" by simp
  from keyed_ok [OF _ this decimal_nat] assms
  have "line_ok ((name @ ''_bucket{'' @ le_label b @ ''}'') @ CHR '' '' # formatFloat (real n))"
    by (auto simp: name_ok_def le_label_def)
  then show ?thesis by (simp add: tw_line_def le_label_def)
qed

lemma render_ok:
  assumes "name_ok (inst_name i)" "shows_decimals s i" "plain_help i"
  shows "list_all line_ok (render s i)"
proof (cases i)
  case (HistogramI name hlp h)
  let ?v = "Histogram_render (h s)"
  have n: "name_ok name" "set name \<inter> {NL, CR} = {}" "\<forall>b \<in> fst ` set (sv_buckets ?v). decimal_places \<bar>b\<bar> \<noteq> None"
    "decimal_places \<bar>sv_sum ?v\<bar> \<noteq> None"
    using assms by (auto simp: HistogramI Histogram_render_def Let_def dest: set_zip_leftD)
  have "line_ok (tw_line (name @ ''_bucket'') (le_label (formatFloat b)) (real (unat c)))" if "(b, c) \<in> set (sv_buckets ?v)" for b c
  proof -
    have "decimal_places \<bar>b\<bar> \<noteq> None" using n(3) that by force
    from formatFloat_chars [OF this] show ?thesis by (intro bucket_ok [OF n(1,2)]) (auto simp: is_digit_def)
  qed
  moreover have "list_all line_ok (tw_head name hlp ''histogram'')" using assms(3) by (intro head_ok) (auto simp: HistogramI)
  moreover have "line_ok (tw_line (name @ ''_bucket'') (le_label ''+Inf'') (real (unat (sv_inf ?v))))"
    by (rule bucket_ok [OF n(1,2)]) auto
  moreover have "line_ok (tw_line (name @ ''_sum'') [] (sv_sum ?v))" "line_ok (tw_line (name @ ''_count'') [] (real (unat (sv_count ?v))))"
    using name_ok_suffix [OF n(1)] n(2,4) decimal_nat by (auto intro!: scalar_ok simp del: of_nat_unat)
  ultimately show ?thesis by (auto simp: HistogramI Let_def list_all_iff simp del: of_nat_unat)
next
  case (CounterI name hlp v)
  with assms head_ok [of name hlp "''counter''"] scalar_ok [OF _ _ decimal_nat [of "unat (v s)"], of name] show ?thesis
    by (simp del: of_nat_unat)
next
  case (FuncI name hlp tp f)
  with assms head_ok [of name hlp tp] scalar_ok [of name "f s"] show ?thesis by simp
qed

lemma response_lines:
  assumes "registry_ok r" "list_all (shows_decimals s) r" "list_all plain_help r"
  shows "list_all line_ok (Registry_Handler r s)"
  using assms render_ok by (fastforce simp: registry_ok_def Registry_Handler_def list_all_iff)

lemma scrape_over:
  assumes "registry_ok r" "list_all (shows_decimals s) r" "list_all (ascending s) r" "list_all plain_help r"
    and "list_all (\<lambda>l. length l < 2 ^ 20) (Registry_Handler r s)"
  shows "scrape (Answer 200 (metrics_response r s) False) =
      Some (Inr \<lparr>sn_scalars = concat (map (scalars_of s) r), sn_hists = concat (map (hists_of s) r)\<rparr>) \<and>
    (prefix body (metrics_response r s) \<longrightarrow> scrape (Answer 200 body True) = Some (Inl ScrapeFailed)) \<and>
    (status \<noteq> 200 \<longrightarrow> scrape (Answer status body failed) = Some (Inl ScrapeFailed))"
proof -
  let ?ls = "Registry_Handler r s"
  have ok: "list_all line_ok ?ls" using assms by (intro response_lines)
  then have nl: "list_all (\<lambda>l. NL \<notin> set l) ?ls" and cr: "list_all (\<lambda>l. CR \<notin> set l) ?ls" by (auto simp: line_ok_def list_all_iff)
  have raw: "raw_lines (metrics_response r s) = ?ls" using nl by (simp add: metrics_response_def raw_lines_text)
  have fits: "takeWhile (\<lambda>l. length l < scan_buffer) ?ls = ?ls"
    using assms(5) by (simp add: list_all_iff takeWhile_eq_all_conv scan_buffer_def)
  have crs: "map drop_cr ?ls = ?ls"
    using cr by (intro map_idI) (auto simp: list_all_iff drop_cr_def dest: last_in_set)
  have "Scan (metrics_response r s) = (?ls, False)" unfolding Scan_def raw Let_def fits crs by simp
  then have whole: "scrape (Answer 200 (metrics_response r s) False) =
      Some (Inr \<lparr>sn_scalars = concat (map (scalars_of s) r), sn_hists = concat (map (hists_of s) r)\<rparr>)"
    using registry_read [OF assms(1-3)] by (simp add: scrape_def)
  have cut: "scrape (Answer 200 body True) = Some (Inl ScrapeFailed)" if b: "prefix body (metrics_response r s)"
  proof -
    obtain ls long where sc: "Scan body = (ls, long)" by force
    have "parseLine l snap \<noteq> None" if l: "l \<in> set ls" for l snap
    proof -
      from l sc obtain p where p: "p \<in> set (raw_lines body)" "l = drop_cr p"
        by (auto simp: Scan_def Let_def dest!: set_takeWhileD)
      with raw_lines_prefix [OF nl, of body p] b obtain l' where "l' \<in> set ?ls" "prefix p l'"
        unfolding metrics_response_def by blast
      with ok p(2) prefix_drop_cr [of p] show ?thesis unfolding line_ok_def list_all_iff by (meson prefix_order.trans)
    qed
    then have "scrape_lines ls empty_snapshot \<noteq> None" by (intro scrape_lines_ok) blast
    then show ?thesis by (auto simp: scrape_def sc)
  qed
  from whole cut show ?thesis by (simp add: scrape_def)
qed

text \<open>
  C15: A scrape over HTTP is exact or an error: from the bytes the server writes, for any registry of well-formed distinct
  names whose lines fit the buffer, the load generator reads exactly the instruments' values; and when the body breaks
  off anywhere, inside a name, a label or a number, or the status is another, it reports an error and neither uses a
  shortened number nor panics.
\<close>

theorem scrape_over_http:
  assumes "registry_ok r" "list_all (shows_decimals s) r" "list_all (ascending s) r" "list_all plain_help r"
    and "list_all (\<lambda>l. length l < 2 ^ 20) (Registry_Handler r s)"
  shows "scrape (Answer 200 (metrics_response r s) False) =
      Some (Inr \<lparr>sn_scalars = concat (map (scalars_of s) r), sn_hists = concat (map (hists_of s) r)\<rparr>) \<and>
    (prefix body (metrics_response r s) \<longrightarrow> scrape (Answer 200 body True) = Some (Inl ScrapeFailed)) \<and>
    (status \<noteq> 200 \<longrightarrow> scrape (Answer status body failed) = Some (Inl ScrapeFailed))"
  using assms by (rule scrape_over)

text \<open>A process scraped over HTTP: the snapshot the records of a load run are computed from.\<close>

lemma process_help: "list_all plain_help process_registry"
  unfolding registry_defs Let_def by simp

lemma scrape_process:
  assumes "recorded ts (pr_m p)" "cpu_decimal (pr_cpu p)" "list_all (\<lambda>l. length l < 2 ^ 20) (Registry_Handler process_registry p)"
  shows "scrape (Answer 200 (metrics_response process_registry p) False) = Some (Inr (scraped p))"
  unfolding scraped_def
  using scrape_over [OF process_registry_ok process_shows [OF recorded_nano [OF assms(1)] assms(2)] process_help assms(3)] by blast

lemma formatFloat_digit: "0 < n \<Longrightarrow> n < 10 \<Longrightarrow> formatFloat (real n) = [dig n]"
proof -
  assume n: "0 < n" "n < 10"
  have "[0..<400] = 0 # [1..<400]" by (simp add: upt_conv_Cons)
  then have "decimal_places (real n) = Some 0" by (simp add: decimal_places_def is_whole_def)
  moreover have "dig n \<noteq> CHR ''0''" using of_char_dig [OF n(2)] n(1) by auto
  ultimately have "shortest (real n) = ([dig n], 1)"
    using n by (simp add: shortest_def nat_digits.simps [of n] strip_zeros_def)
  then show ?thesis by (simp add: formatFloat_def fmtF_def)
qed

theorem scrape_over_http_witness:
  "scrape (Answer 200 (metrics_response (NewCounter ''n_total'' ''A counter.'' (\<lambda>n. n) NewRegistry) 7) False) =
     Some (Inr \<lparr>sn_scalars = [(''n_total'', 7)], sn_hists = []\<rparr>) \<and>
   scrape (Answer 200 ''# HELP n_to'' True) = Some (Inl ScrapeFailed) \<and> scrape (Answer 503 [] False) = Some (Inl ScrapeFailed)"
proof -
  let ?r = "NewCounter ''n_total'' ''A counter.'' (\<lambda>n :: u64. n) NewRegistry"
  have r: "registry_ok ?r" "list_all (shows_decimals 7) ?r" "list_all (ascending 7) ?r" "list_all plain_help ?r"
    by (simp_all add: NewCounter_def NewRegistry_def registry_ok_def name_ok_def)
  have l: "Registry_Handler ?r 7 = [''# HELP n_total A counter.'', ''# TYPE n_total counter'', ''n_total '' @ [dig 7]]"
    using formatFloat_digit [of 7] by (simp add: Registry_Handler_def NewCounter_def NewRegistry_def tw_head_def tw_line_def)
  then have "list_all (\<lambda>l. length l < 2 ^ 20) (Registry_Handler ?r 7)" by simp
  note s = scrape_over_http [OF r this]
  have "prefix ''# HELP n_to'' (metrics_response ?r 7)" by (simp add: metrics_response_def l)
  with s [of "''# HELP n_to''" 503 False] s [of "[]" 503 False] show ?thesis by (simp add: NewCounter_def NewRegistry_def)
qed

end
