(* ===== verification/Sidecarurl.thy ===== *)
theory Sidecarurl
  imports Sherpaasr Reportfiles
begin

text \<open>
  Dialling a sidecar: \<open>dial\<close> of \<open>internal/adapter/sherpa/sherpa.go\<close> with the query of \<open>net/url\<close>, on bytes. What \<open>url.Parse\<close> and
  \<open>String\<close> make of the part in front of the query and of the fragment are the parameters \<open>front\<close> and \<open>rear\<close> (\<open>None\<close>
  is an error), and \<open>net\<close> is the WebSocket library. The map \<open>url.Values\<close> is the list of its entries: a key has
  the values listed under it, in order.
\<close>

section \<open>Escapes\<close>

definition unreserved :: "char \<Rightarrow> bool" where
  "unreserved c \<longleftrightarrow> (let n = of_char c :: nat in 48 \<le> n \<and> n \<le> 57 \<or> 65 \<le> n \<and> n \<le> 90 \<or> 97 \<le> n \<and> n \<le> 122) \<or> c \<in> set ''-_.~''"

definition upper_hex :: "nat \<Rightarrow> char" where
  "upper_hex d = char_of (if d < 10 then 48 + d else 55 + d)"

definition unhex :: "char \<Rightarrow> nat option" where
  "unhex c = (let n = of_char c in
     if 48 \<le> n \<and> n \<le> 57 then Some (n - 48) else if 97 \<le> n \<and> n \<le> 102 then Some (n - 87) else if 65 \<le> n \<and> n \<le> 70 then Some (n - 55)
     else None)"

definition QueryEscape :: "string \<Rightarrow> string" where
  "QueryEscape s = concat (map (\<lambda>c. if unreserved c then [c] else if c = CHR '' '' then ''+''
     else CHR ''%'' # upper_hex (of_char c div 16) # [upper_hex (of_char c mod 16)]) s)"

fun QueryUnescape :: "string \<Rightarrow> string option" where
  "QueryUnescape [] = Some []"
| "QueryUnescape (c # s) =
     (if c = CHR ''%'' then
        (case s of
           h # l # r \<Rightarrow>
             (case (unhex h, unhex l) of (Some a, Some b) \<Rightarrow> map_option ((#) (char_of (a * 16 + b))) (QueryUnescape r) | _ \<Rightarrow> None)
         | _ \<Rightarrow> None)
      else map_option ((#) (if c = CHR ''+'' then CHR '' '' else c)) (QueryUnescape s))"

section \<open>Queries\<close>

type_synonym url_values = "(string \<times> string) list"

definition url_get :: "string \<Rightarrow> url_values \<Rightarrow> string list" where
  "url_get k q = map snd (filter (\<lambda>e. fst e = k) q)"

text \<open>\<open>strings.cut_byte\<close>.\<close>

definition cut_byte :: "char \<Rightarrow> string \<Rightarrow> string \<times> string" where
  "cut_byte c s = (takeWhile (\<lambda>x. x \<noteq> c) s, tl (dropWhile (\<lambda>x. x \<noteq> c) s))"

text \<open>\<open>Query\<close> leaves out what it cannot read.\<close>

definition query_pair :: "string \<Rightarrow> url_values" where
  "query_pair s =
     (if s = [] \<or> CHR '';'' \<in> set s then []
      else case cut_byte CHR ''='' s of (k, v) \<Rightarrow>
        case (QueryUnescape k, QueryUnescape v) of (Some k1, Some v1) \<Rightarrow> [(k1, v1)] | _ \<Rightarrow> [])"

definition ParseQuery :: "string \<Rightarrow> url_values" where
  "ParseQuery s = concat (map query_pair (Split CHR ''&'' s))"

definition values_Set :: "url_values \<Rightarrow> string \<times> string \<Rightarrow> url_values" where
  "values_Set q e = filter (\<lambda>x. fst x \<noteq> fst e) q @ [e]"

text \<open>The keys in order, each with its values.\<close>

definition Encode :: "url_values \<Rightarrow> string" where
  "Encode q = separated CHR ''&'' (map (\<lambda>(k, v). QueryEscape k @ CHR ''='' # QueryEscape v)
     (concat (map (\<lambda>k. map (Pair k) (url_get k q)) (sort (remdups (map fst q))))))"

section \<open>Dialling\<close>

definition control_byte :: "char \<Rightarrow> bool" where
  "control_byte c \<longleftrightarrow> (let n = of_char c :: nat in n < 32 \<or> n = 127)"

definition dial_url :: "(string \<Rightarrow> string option) \<Rightarrow> (string \<Rightarrow> string option) \<Rightarrow> string \<Rightarrow> url_values \<Rightarrow> string option" where
  "dial_url front rear rawURL query =
     (case cut_byte CHR ''#'' rawURL of (u, fragment) \<Rightarrow>
        case cut_byte CHR ''?'' u of (before, rawQuery) \<Rightarrow>
          if list_ex control_byte u then None
          else case (front before, rear fragment) of
              (Some p, Some r) \<Rightarrow>
                let q = Encode (foldl values_Set (ParseQuery rawQuery) query) in
                Some (p @ (if q = [] then [] else CHR ''?'' # q) @ r)
            | _ \<Rightarrow> None)"

definition utf8_rune :: "nat \<Rightarrow> string" where
  "utf8_rune c = map char_of
     (if c < 0x80 then [c]
      else if c < 0x800 then [0xC0 + c div 64, 0x80 + c mod 64]
      else if c < 0x10000 then [0xE0 + c div 4096, 0x80 + c div 64 mod 64, 0x80 + c mod 64]
      else [0xF0 + c div 262144, 0x80 + c div 4096 mod 64, 0x80 + c div 64 mod 64, 0x80 + c mod 64])"

definition bytes_of :: "runes \<Rightarrow> string" where
  "bytes_of s = concat (map utf8_rune s)"

definition query_bytes :: "(runes \<times> runes) list \<Rightarrow> url_values" where
  "query_bytes query = map (\<lambda>(k, v). (bytes_of k, bytes_of v)) query"

definition sherpa_dial :: "(string \<Rightarrow> string option) \<Rightarrow> (string \<Rightarrow> string option) \<Rightarrow> (string \<Rightarrow> ws_conn option) \<Rightarrow> ws_dial" where
  "sherpa_dial front rear net rawURL query =
     Option.bind (dial_url front rear (bytes_of rawURL) (query_bytes query)) net"

section \<open>What is escaped is read back\<close>

lemma unhex_upper: "d < 16 \<Longrightarrow> unhex (upper_hex d) = Some d"
  by (auto simp: unhex_def upper_hex_def)

lemma unescape_escape: "QueryUnescape (QueryEscape s) = Some s"
proof (induction s)
  case (Cons c s)
  have n: "(of_char c :: nat) div 16 < 16" "(of_char c :: nat) mod 16 < 16" using nat_of_char_less_256 [of c] by (simp_all add: div_less_iff_less_mult)
  have "QueryUnescape (CHR ''%'' # upper_hex (of_char c div 16) # upper_hex (of_char c mod 16) # QueryEscape s) = Some (c # s)"
    using Cons unhex_upper [OF n(1)] unhex_upper [OF n(2)] by (simp add: div_mult_mod_eq)
  moreover have "unreserved c \<Longrightarrow> c \<noteq> CHR ''%'' \<and> c \<noteq> CHR ''+''" by (auto simp: unreserved_def)
  ultimately show ?case using Cons by (auto simp: QueryEscape_def)
qed (simp add: QueryEscape_def)

text \<open>What the escaped text consists of: neither a delimiter of a URL nor of a query.\<close>

definition url_safe :: "char \<Rightarrow> bool" where
  "url_safe c \<longleftrightarrow> unreserved c \<or> c = CHR ''%'' \<or> c = CHR ''+''"

lemma upper_hex_unreserved: "d < 16 \<Longrightarrow> unreserved (upper_hex d)"
  by (auto simp: unreserved_def upper_hex_def Let_def)

lemma escape_safe: "list_all url_safe (QueryEscape s)"
  unfolding QueryEscape_def
  by (induction s) (auto simp: url_safe_def intro!: upper_hex_unreserved less_mult_imp_div_less)

lemma safe_not: "c \<in> set ''=&;#?'' \<Longrightarrow> \<not> url_safe c"
  by (auto simp: url_safe_def unreserved_def)

lemma escape_not: "c \<in> set ''=&;#?'' \<Longrightarrow> c \<notin> set (QueryEscape s)"
  using escape_safe [of s] safe_not [of c] by (auto simp: list_all_iff)

lemma cut_byte_plain: "c \<notin> set a \<Longrightarrow> cut_byte c (a @ c # r) = (a, r)"
proof -
  assume "c \<notin> set a"
  then have "\<And>x. x \<in> set a \<Longrightarrow> x \<noteq> c" by auto
  then show ?thesis by (simp add: cut_byte_def takeWhile_append2 dropWhile_append2)
qed

lemma query_pair_text: "query_pair (QueryEscape k @ CHR ''='' # QueryEscape v) = [(k, v)]"
  using escape_not [of "CHR '';''" k] escape_not [of "CHR '';''" v] escape_not [of "CHR ''=''" k]
  by (simp add: query_pair_def cut_byte_plain unescape_escape)

definition entries :: "url_values \<Rightarrow> url_values" where
  "entries q = concat (map (\<lambda>k. map (Pair k) (url_get k q)) (sort (remdups (map fst q))))"

lemma entries_empty: "entries q = [] \<longleftrightarrow> q = []"
proof -
  have "fst e \<in> set (map fst q) \<and> url_get (fst e) q \<noteq> []" if "e \<in> set q" for e
    using that by (auto simp: url_get_def filter_empty_conv)
  then show ?thesis by (cases q) (auto simp: entries_def)
qed

lemma ParseQuery_Encode: "ParseQuery (Encode q) = entries q"
proof (cases "q = []")
  case True
  then show ?thesis by (simp add: ParseQuery_def Encode_def entries_def query_pair_def)
next
  case False
  let ?fs = "map (\<lambda>(k, v). QueryEscape k @ CHR ''='' # QueryEscape v) (entries q)"
  have "Split CHR ''&'' (separated CHR ''&'' ?fs) = ?fs"
    using False entries_empty [of q] escape_not [of "CHR ''&''"] by (intro Split_separated) (auto simp: list_all_iff)
  moreover have "concat (map query_pair (map (\<lambda>(k, v). QueryEscape k @ CHR ''='' # QueryEscape v) es)) = es" for es
    by (induction es) (auto simp: query_pair_text)
  ultimately show ?thesis by (simp add: ParseQuery_def Encode_def entries_def)
qed

lemma url_get_entries: "url_get k (entries q) = url_get k q"
proof -
  have g: "url_get k (concat (map (\<lambda>k'. map (Pair k') (url_get k' q)) ks)) = (if k \<in> set ks then url_get k q else [])" if "distinct ks" for ks
    using that
  proof (induction ks)
    case (Cons j ks)
    have "url_get k (map (Pair j) vs @ es) = (if j = k then vs else []) @ url_get k es" for vs es
      by (induction vs) (auto simp: url_get_def)
    with Cons show ?case by auto
  qed (simp add: url_get_def)
  have "url_get k q = []" if "k \<notin> set (map fst q)" using that by (auto simp: url_get_def filter_empty_conv)
  with g [of "sort (remdups (map fst q))"] show ?thesis by (auto simp: entries_def)
qed

lemma url_get_Set: "url_get k (values_Set q e) = (if k = fst e then [snd e] else url_get k q)"
proof -
  have "filter (\<lambda>x. fst x = k) (filter (\<lambda>x. fst x \<noteq> fst e) q) = (if k = fst e then [] else filter (\<lambda>x. fst x = k) q)"
    by (induction q) auto
  then show ?thesis by (auto simp: url_get_def values_Set_def)
qed

lemma url_get_Set_all:
  "distinct (map fst es) \<Longrightarrow> url_get k (foldl values_Set q es) = (case map_of es k of Some v \<Rightarrow> [v] | None \<Rightarrow> url_get k q)"
proof (induction es arbitrary: q)
  case (Cons e es)
  have "map_of es (fst e) = None" using Cons.prems by (simp add: map_of_eq_None_iff)
  with Cons show ?case by (cases e) (auto simp: url_get_Set split: option.split)
qed simp

lemma Encode_chars: "set (Encode q) \<subseteq> {c. url_safe c \<or> c = CHR ''='' \<or> c = CHR ''&''}"
proof -
  have "set (QueryEscape s) \<subseteq> Collect url_safe" for s using escape_safe [of s] by (auto simp: list_all_iff)
  then show ?thesis
    using set_separated [of "CHR ''&''" "map (\<lambda>(k, v). QueryEscape k @ CHR ''='' # QueryEscape v) (entries q)"]
    unfolding Encode_def entries_def [symmetric] by fastforce
qed

lemma Encode_empty: "Encode q = [] \<longleftrightarrow> q = []"
proof -
  have "separated c fs \<noteq> []" if "fs \<noteq> []" "list_all (\<lambda>f. f \<noteq> []) fs" for c fs
    using that by (induction fs rule: separated.induct [of _ c]) auto
  then show ?thesis
    using entries_empty [of q] unfolding Encode_def entries_def [symmetric] by (cases "q = []") (auto 0 0 simp: list_all_iff split_beta)
qed

lemma dial_url_query:
  assumes "dial_url front rear rawURL query = Some u" "distinct (map fst query)" "query \<noteq> []"
  shows "\<exists>rest fragment before raw p q r. cut_byte CHR ''#'' rawURL = (rest, fragment) \<and> cut_byte CHR ''?'' rest = (before, raw) \<and>
    front before = Some p \<and> rear fragment = Some r \<and> u = p @ CHR ''?'' # q @ r \<and>
    set q \<inter> set ''?#;'' = {} \<and> \<not> list_ex control_byte q \<and>
    (\<forall>k. url_get k (ParseQuery q) = (case map_of query k of Some v \<Rightarrow> [v] | None \<Rightarrow> url_get k (ParseQuery raw)))"
proof -
  obtain rest fragment where c1: "cut_byte CHR ''#'' rawURL = (rest, fragment)" by force
  obtain before raw where c2: "cut_byte CHR ''?'' rest = (before, raw)" by force
  let ?vs = "foldl values_Set (ParseQuery raw) query"
  from assms(1) obtain p r where pr: "front before = Some p" "rear fragment = Some r"
    and u: "u = p @ (if Encode ?vs = [] then [] else CHR ''?'' # Encode ?vs) @ r"
    by (auto simp: dial_url_def c1 c2 Let_def split: if_splits option.splits)
  obtain k v where "(k, v) \<in> set query" using assms(3) by (cases query) auto
  then have "url_get k ?vs = [v]" using url_get_Set_all [OF assms(2), of k] assms(2) by simp
  then have "?vs \<noteq> []" by (auto simp: url_get_def)
  then have "u = p @ CHR ''?'' # Encode ?vs @ r" using u by (simp add: Encode_empty)
  moreover have "set (Encode ?vs) \<inter> set ''?#;'' = {}" "\<not> list_ex control_byte (Encode ?vs)"
    using Encode_chars [of ?vs] by (auto simp: list_ex_iff control_byte_def url_safe_def unreserved_def Let_def)
  moreover have "url_get j (ParseQuery (Encode ?vs)) = (case map_of query j of Some v \<Rightarrow> [v] | None \<Rightarrow> url_get j (ParseQuery raw))" for j
    by (simp add: ParseQuery_Encode url_get_entries url_get_Set_all [OF assms(2)])
  ultimately show ?thesis using c1 c2 pr by blast
qed

lemma adapter_query:
  assumes "query = tts_query t \<or> query = asr_query a"
  shows "distinct (map fst (query_bytes query))" "query_bytes query \<noteq> []"
  using assms by (auto simp: query_bytes_def tts_query_def asr_query_def bytes_of_def utf8_rune_def runes_of_def)

text \<open>
  C40: The settings of the adapter reach the sidecar: for every configured URL that is dialled, the address has exactly one query,
  of characters that cannot end it; read back, it gives each setting of the adapter its one value, in place of what
  the URL said of it, and leaves every other readable parameter of the URL as it was, repeated ones in their order.
\<close>

theorem dial_settings:
  assumes "sherpa_dial front rear net url query = Some c" "query = tts_query t \<or> query = asr_query a"
  shows "\<exists>u rest fragment before raw p q r. net u = Some c \<and> cut_byte CHR ''#'' (bytes_of url) = (rest, fragment) \<and> cut_byte CHR ''?'' rest = (before, raw) \<and>
    front before = Some p \<and> rear fragment = Some r \<and> u = p @ CHR ''?'' # q @ r \<and>
    set q \<inter> set ''?#;'' = {} \<and> \<not> list_ex control_byte q \<and>
    (\<forall>k. url_get k (ParseQuery q) = (case map_of (query_bytes query) k of Some v \<Rightarrow> [v] | None \<Rightarrow> url_get k (ParseQuery raw)))"
proof -
  from assms(1) obtain u where u: "dial_url front rear (bytes_of url) (query_bytes query) = Some u" "net u = Some c"
    by (auto simp: sherpa_dial_def bind_eq_Some_conv)
  from dial_url_query [OF u(1) adapter_query [OF assms(2)]] u(2) show ?thesis by blast
qed

text \<open>The sample rate replaces that of the URL; a token with an escape and a repeated parameter stay.\<close>

lemma bytes_of_ascii: "list_all (\<lambda>c. (of_char c :: nat) < 128) s \<Longrightarrow> bytes_of (runes_of s) = s"
  by (induction s) (simp_all add: bytes_of_def runes_of_def utf8_rune_def)

definition demo_url :: string where
  "demo_url = ''ws://h/asr?samplerate=8000&token=a%2Bb&x=1&x=2''"

lemma demo_url_parts: "cut_byte CHR ''#'' demo_url = (demo_url, [])" "cut_byte CHR ''?'' demo_url = (''ws://h/asr'', ''samplerate=8000&token=a%2Bb&x=1&x=2'')"
  "\<not> list_ex control_byte demo_url" "bytes_of (runes_of demo_url) = demo_url"
  by (simp_all add: demo_url_def cut_byte_def control_byte_def bytes_of_ascii)

lemma demo_chars: "char_of (43 :: nat) = CHR ''+''" "char_of (48 :: nat) = CHR ''0''" "char_of (49 :: nat) = CHR ''1''" "char_of (54 :: nat) = CHR ''6''"
  by code_simp+

lemma demo_query: "ParseQuery ''samplerate=8000&token=a%2Bb&x=1&x=2'' = [(''samplerate'', ''8000''), (''token'', ''a+b''), (''x'', ''1''), (''x'', ''2'')]"
  by (simp add: ParseQuery_def query_pair_def cut_byte_def unhex_def Let_def demo_chars)

theorem dial_settings_witness:
  "\<exists>c q. sherpa_dial Some (\<lambda>_. Some []) (\<lambda>u. Some \<lparr>ws_in = [WsText (runes_of u)], ws_sent = [], ws_reply = (\<lambda>_. []), ws_writes = None, ws_cancelled = False\<rparr>)
       (runes_of demo_url) (asr_query \<lparr>sa_url = [], sa_sampleRate = 16000, sa_silenceTailMs = 1, sa_finalWait = 1\<rparr>) = Some c \<and>
     ws_in c = [WsText (runes_of (''ws://h/asr?'' @ q))] \<and>
     url_get ''samplerate'' (ParseQuery q) = [''16000''] \<and> url_get ''token'' (ParseQuery q) = [''a+b''] \<and> url_get ''x'' (ParseQuery q) = [''1'', ''2'']"
proof -
  let ?a = "\<lparr>sa_url = [], sa_sampleRate = 16000, sa_silenceTailMs = 1, sa_finalWait = 1\<rparr>"
  let ?net = "\<lambda>u. Some \<lparr>ws_in = [WsText (runes_of u)], ws_sent = [], ws_reply = (\<lambda>_. []), ws_writes = None, ws_cancelled = False\<rparr>"
  obtain c where c: "sherpa_dial Some (\<lambda>_. Some []) ?net (runes_of demo_url) (asr_query ?a) = Some c"
    by (simp add: sherpa_dial_def dial_url_def demo_url_parts Let_def)
  from dial_settings [OF c disjI2 [OF refl]] obtain u q where
    u: "?net u = Some c" "u = ''ws://h/asr'' @ CHR ''?'' # q" and
    k: "\<And>k. url_get k (ParseQuery q) = (case map_of (query_bytes (asr_query ?a)) k of Some v \<Rightarrow> [v]
      | None \<Rightarrow> url_get k (ParseQuery ''samplerate=8000&token=a%2Bb&x=1&x=2''))"
    by (auto simp: demo_url_parts)
  have q: "query_bytes (asr_query ?a) = [(''samplerate'', ''16000'')]"
    by (simp add: query_bytes_def asr_query_def bytes_of_ascii Itoa_def nat_digits.simps dig_def demo_chars)
  show ?thesis using c u k [of "''samplerate''"] k [of "''token''"] k [of "''x''"]
    by (intro exI [of _ c] exI [of _ q]) (auto simp: q demo_query url_get_def)
qed

end
