(* ===== verification/Spec2Isabelle.thy ===== *)
theory Spec2Isabelle
  imports Ringconc Frame Dotenv Asrloop Orchestrator Metrics Downlink Sesslock Manager Loadpace Procmetrics Loadworker
    Assembly Cloudturn Eventstream Reportfiles Writers Process Capacitypage Loadflags
    Scraping Sidecarurl
begin

text \<open>
  A verification development for \<open>voicestream\<close>, a real-time voice kernel in Go: a server that takes speech over
  WebSocket, recognises it, asks a language model, speaks the answer and can be interrupted at any time, and a load
  generator that measures it. Everything under \<open>internal/\<close> and \<open>cmd/\<close> that decides something is modelled; the
  properties carry a number \<open>C1\<close> to \<open>C40\<close> in the text in front of them, each in the theory of its component.

  \<^bold>\<open>How the program fits together.\<close> A connection is accepted by \<open>transport.Server\<close> and handed to the session manager, which
  resolves the client's claim to a session and attaches the connection to it. The session's reader decodes frames, drops
  duplicates, and feeds audio to the dialogue controller: the detector turns levels into speech events, the state
  machine turns events into transitions, and the controller calls the pipeline. The pipeline holds the audio in a ring;
  its recogniser loop pumps the ring into an ASR adapter, one stream per utterance, and posts the final text to the
  orchestrator, which runs one turn at a time: language model, forwarder, synthesiser and egress pump. Synthesised
  frames wait in a second ring for the session's audio pump, which stamps them and queues them for the connection's only
  writer. A barge-in cancels the turn and empties the egress ring. Measurements of every turn go to the instruments,
  which the load generator scrapes.

  \<^bold>\<open>The theories, by part of the code.\<close>

  \<^item> Shared: \<open>Prelude\<close> (widths of Go's integers, buffers with a capacity, non-blocking sends on channels, lists and words);
    \<open>Bounded_Queue\<close> (the contract of a bounded queue under its two overflow policies, as locales).
  \<^item> \<open>internal/ringbuf\<close>: \<open>Ringbuf\<close> (\<open>ring.go\<close> as functions on a state with 64-bit cursors and gates; the interpretations of the
    queue contract; refinement), \<open>Ringconc\<close> (the same operations as interleaved single accesses of a producer and a
    consumer), \<open>Bufpool\<close> (\<open>pool.go\<close>).
  \<^item> \<open>internal/config\<close>: \<open>Config\<close> (\<open>config.go\<close>), \<open>Dotenv\<close> (\<open>dotenv.go\<close>).
  \<^item> \<open>internal/adapter\<close>: \<open>Adapter\<close> (values, registry, mock recogniser), \<open>Synth\<close> (mock model, mock synthesiser, the PCM framer of
    \<open>ttsframe.go\<close>), \<open>Json\<close> and \<open>Jsonnum\<close> (what is used of \<open>encoding/json\<close>), \<open>Openaicompat\<close>, \<open>Speech\<close> (the sentence loop the
    two remote synthesisers share, with its contracts as locales), \<open>Openaitts\<close>, \<open>Sherpatts\<close>, \<open>Sherpaasr\<close> (\<open>sherpa/asr.go\<close> as
    the interleaved steps of its reader and writer), \<open>Sidecarurl\<close> (\<open>dial\<close> of \<open>sherpa.go\<close>).
  \<^item> \<open>internal/vad\<close>: \<open>Vad\<close> (detector, state machine, controller; the contract of the controller's sink as a locale).
  \<^item> \<open>internal/pipeline\<close>: \<open>Edge\<close> (\<open>edge.go\<close>, and its wake-up protocol as steps of two threads), \<open>Turn\<close> (\<open>turn.go\<close>), \<open>Cloudturn\<close> (a
    turn over the two HTTP services), \<open>Pipeline\<close>, \<open>Asrloop\<close> and \<open>Orchestrator\<close> (\<open>pipeline.go\<close>).
  \<^item> \<open>internal/transport\<close>: \<open>Frame\<close> (\<open>frame.go\<close>, \<open>wsconn.go\<close>), \<open>Server\<close> (\<open>server.go\<close>: routes and
    the echo handler), \<open>Process\<close> (\<open>server.go\<close>: an accepted connection, serving and shutting down).
  \<^item> \<open>internal/session\<close>: \<open>Session\<close> (\<open>session.go\<close>, one operation at a time), \<open>Downlink\<close> (the writers around the downlink queue),
    \<open>Sesslock\<close> (attaching, reading and reclaiming as interleaved threads), \<open>Writers\<close> (the write loops of all attachments,
    interleaved), \<open>Manager\<close> (\<open>manager.go\<close>).
  \<^item> \<open>internal/metrics\<close>: \<open>Metrics\<close> (histogram, hub, recording of a turn), \<open>Exposition\<close> (\<open>metrics.go\<close>: the text of a scrape),
    \<open>Procmetrics\<close> (\<open>runtime.go\<close>, \<open>m.go\<close> and the gauges of the manager), \<open>Eventstream\<close> (\<open>hub.go\<close>: the event stream).
  \<^item> \<open>internal/loadgen\<close>: \<open>Loadpace\<close> (\<open>shaper.go\<close>), \<open>Loadreport\<close> (\<open>scrape.go\<close> and the records and the knee of \<open>report.go\<close>), \<open>Scraping\<close>
    (\<open>scrape\<close> over HTTP, from the bytes of the handler), \<open>Loadrun\<close> (\<open>loadgen.go\<close>), \<open>Loadworker\<close> (\<open>worker.go\<close>), \<open>Reportfiles\<close> (the artifacts of \<open>report.go\<close> and \<open>html.go\<close>),
    \<open>Capacitypage\<close> (the script of the page in \<open>html.go\<close>), \<open>Durations\<close> (the text of durations), \<open>Loadflags\<close> (the flags
    of \<open>cmd/loadgen/main.go\<close> and \<open>describe\<close>).
  \<^item> \<open>cmd/server\<close>: \<open>Assembly\<close> (registrations, start and routes), \<open>Process\<close> (the process with its goroutines until main returns).

  \<^bold>\<open>How state and operations correspond.\<close> A Go struct is a record with the fields of the struct, prefixed by letters of its
  theory; a method is a function that takes the state last and returns it updated, under the method's name. An error is a
  constructor of a sum, a panic and a call that never returns are \<open>None\<close> of an outer option where a theory says so. Code
  whose behaviour depends on the scheduler (a \<open>select\<close>, two goroutines, two threads around a mutex) is a step function
  or step relation: an event or rule names the choice, carries what the environment decides, and has no successor where
  the choice is not ready; the properties range over all sequences of steps. A blocking stage of the pipeline is a
  function of the list of values it receives and a budget, the number of blocking operations that succeed before its
  context is cancelled. Clocks are functions from the number of a reading to the instant read. Integers of the wire
  and the counters are words of their width; \<open>int\<close> is unbounded except where the code's range matters (cursors,
  durations, \<open>Atoi\<close>); \<open>float64\<close> is \<open>real\<close>, with positive infinity where the code can meet it. Text is the list of its code
  points, or of its bytes where the code works on bytes.

  \<^bold>\<open>What the groups of lemmas show.\<close> For the rings: refinement of a queue, order and no loss beyond the counted drops under every
  interleaving, freedom from data races, and where progress can stop. For the wire: round trips of frames, of the
  requests and the event streams of the services, of the exposition, the event stream, the CSV and the page. For the
  dialogue: no illegal event, one turn at a time, turns and memory in order, no lost wake-up, buffers recycled once.
  For the adapters: what is heard is the audio of the sentences of the answer, the two vendors agree, a recognition ends
  with exactly one final. For sessions: one reader at a time, increasing sequence numbers, every outcome of a
  handshake, a deadlock between \<open>STOP\<close> and a second attachment, and what each connection is sent across takeovers. For the load generator: pacing without drift, windows
  that hold their own samples, quantiles in the right bucket, the records of a whole run from the turns served, and the
  charts of the page. For the commands: the server starts only in working order, what it serves, and that its end does not
  wait for the sessions; the flags of the load generator carry every setting. The composition is stated where it
  happens: \<open>Pipeline\<close> discharges the controller's sink contract, \<open>Cloudturn\<close> runs both services inside a turn,
  \<open>Procmetrics\<close> goes from turns to records, \<open>Assembly\<close> from the environment to the adapters.

  \<^bold>\<open>Bounds and fuel.\<close> The JSON parser recurses on a fuel of one more than the length of its input, which the lemma \<open>parse_fuel\<close> of
  \<open>Json\<close> shows to be enough, as every call leaves a shorter rest; its nesting limit is the decoder's 10000. The framer's
  loop may not end for frames without samples: it is a partial function whose \<open>None\<close> is divergence, and its results
  for frames with samples are proved to be there. The loops of the ring's eviction and of the concurrent operations are
  steps, so a call that does not return is a run that goes on. Printing a float uses the digits of a decimal with at most
  400 places, more than any \<open>float64\<close> has in front of its exact point; round trips of floats are stated for such decimals.

  \<^bold>\<open>What is not modelled.\<close> The network behind the listener, \<open>Accept\<close>, \<open>Ping\<close>, the connections dialled, the host and path of a URL, files
  and logging are the environment: what they deliver is in the arguments or the events. The YAML decoder, the Go runtime's
  counters, random numbers and the codec of control payloads are parameters with the documented behaviour as named
  hypotheses. Rounding of \<open>float64\<close> and NaN are left out; the detector's levels are exact. The markup and style of the page are
  constant text: the template is a parameter of \<open>HTML\<close>, and its script is modelled on the report it is given. \<open>frame.pb.go\<close> is generated. Delays of the mocks only
  decide when a context is cancelled and are part of the budget.
\<close>

end
